(* ===== verification/Prelude.thy ===== *)
theory Prelude
  imports Main "HOL-Library.Word" "HOL-Library.Char_ord"
begin

section \<open>Shared vocabulary: C strings and the library calls the sources use\<close>

text \<open>
  This theory holds what the component theories share.  A C string is the list of its
  characters before the terminating nul, so a pointer into a string is a suffix of that
  list and the end of the string is the empty list.  The functions below are the ones of
  the C library (\<open>string.h\<close>, \<open>ctype.h\<close>, \<open>stdlib.h\<close>, in the C locale) that the
  sources call: \<open>strspn\<close>, \<open>strcspn\<close>, \<open>strchr\<close>, \<open>strstr\<close>, \<open>strncmp\<close>, \<open>tolower\<close>,
  \<open>isdigit\<close>, \<open>atoi\<close>, \<open>fgets\<close> (\<open>stdio.h\<close>).  They are not part of the program, so no property is about them
  alone; the lemmas collected in \<open>cstr\<close> are the ones the component proofs use.
\<close>

named_theorems cstr \<open>facts on the C string functions\<close>

type_synonym cstr = "char list"

abbreviation NUL :: char where "NUL \<equiv> CHR 0x00"

subsection \<open>Characters\<close>

definition ord :: "char \<Rightarrow> nat" where
  "ord c = of_char c"

definition chr :: "nat \<Rightarrow> char" where
  "chr n = char_of n"

lemma ord_chr: "ord (chr n) = n mod 256"
  by (simp add: ord_def chr_def)

lemma chr_ord [simp]: "chr (ord c) = c"
  by (simp add: ord_def chr_def)

lemma ord_less [simp]: "ord c < 256"
  using of_char_mod_256 [of c, where 'a = nat] unfolding ord_def
  by (metis mod_less_divisor zero_less_numeral)

lemma ord_inject [simp]: "ord c = ord d \<longleftrightarrow> c = d"
  by (metis chr_ord)

lemma ord_chr_less [simp]: "n < 256 \<Longrightarrow> ord (chr n) = n"
  by (simp add: ord_chr)

lemma chr_inject: "m < 256 \<Longrightarrow> n < 256 \<Longrightarrow> chr m = chr n \<longleftrightarrow> m = n"
  by (metis ord_chr_less)

lemma ord_0_iff: "ord c = 0 \<longleftrightarrow> c = NUL"
proof -
  have "ord NUL = 0" by (simp add: ord_def)
  then show ?thesis by (metis ord_inject)
qed

lemma ord_NUL [simp]: "ord NUL = 0"
  by (simp add: ord_0_iff)

definition is_upper :: "char \<Rightarrow> bool" where
  "is_upper c = (65 \<le> ord c \<and> ord c \<le> 90)"

definition is_lower :: "char \<Rightarrow> bool" where
  "is_lower c = (97 \<le> ord c \<and> ord c \<le> 122)"

definition is_alpha :: "char \<Rightarrow> bool" where
  "is_alpha c = (is_upper c \<or> is_lower c)"

definition is_digit :: "char \<Rightarrow> bool" where
  "is_digit c = (48 \<le> ord c \<and> ord c \<le> 57)"

definition is_space :: "char \<Rightarrow> bool" where
  "is_space c = (ord c = 32 \<or> 9 \<le> ord c \<and> ord c \<le> 13)"

definition tolower :: "char \<Rightarrow> char" where
  "tolower c = (if is_upper c then chr (ord c + 32) else c)"

definition toupper :: "char \<Rightarrow> char" where
  "toupper c = (if is_lower c then chr (ord c - 32) else c)"


lemma tolower_upper [cstr]: "is_upper c \<Longrightarrow> is_lower (tolower c)"
  by (simp add: tolower_def is_upper_def is_lower_def)

lemma tolower_idem [simp]: "tolower (tolower c) = tolower c"
  by (auto simp: tolower_def is_upper_def)

lemma toupper_tolower [simp]: "toupper (tolower c) = toupper c"
  by (auto simp: tolower_def toupper_def is_upper_def is_lower_def)

text \<open>Two characters that differ only in case: one is the lower or the upper form of the other.\<close>

lemma tolower_eq_cases:
  assumes "tolower c = tolower d"
  shows "c = tolower d \<or> c = toupper d"
proof (cases "is_upper c")
  case True
  then have "ord (tolower c) = ord c + 32" "is_lower (tolower c)"
    by (simp_all add: tolower_def is_upper_def is_lower_def)
  with assms have "toupper (tolower d) = chr (ord c)"
    by (simp add: toupper_def)
  then show ?thesis by simp
next
  case False
  with assms show ?thesis by (simp add: tolower_def)
qed

lemma tolower_NUL [simp]: "tolower NUL = NUL" "tolower c = NUL \<longleftrightarrow> c = NUL"
proof -
  show "tolower NUL = NUL" by (simp add: tolower_def is_upper_def ord_def)
  have "ord (tolower c) = 0 \<longleftrightarrow> ord c = 0"
    by (auto simp: tolower_def is_upper_def)
  then show "tolower c = NUL \<longleftrightarrow> c = NUL" by (simp add: ord_0_iff)
qed

subsection \<open>Strings\<close>

text \<open>
  A proper C string has no nul among its characters.  \<open>rd s i\<close> reads the character at
  offset \<open>i\<close> of the array that holds \<open>s\<close> and its terminating nul; the array ends there,
  so callers guard \<open>i \<le> length s\<close>.
\<close>

definition is_cstr :: "cstr \<Rightarrow> bool" where
  "is_cstr s = (NUL \<notin> set s)"

definition rd :: "cstr \<Rightarrow> nat \<Rightarrow> char" where
  "rd s i = (if i < length s then s ! i else NUL)"

definition strspn :: "cstr \<Rightarrow> cstr \<Rightarrow> nat" where
  "strspn s cs = length (takeWhile (\<lambda>c. c \<in> set cs) s)"

definition strcspn :: "cstr \<Rightarrow> cstr \<Rightarrow> nat" where
  "strcspn s cs = length (takeWhile (\<lambda>c. c \<notin> set cs) s)"

text \<open>\<open>strchr\<close> of a character other than nul: the suffix that starts at its first occurrence.\<close>

fun strchr :: "cstr \<Rightarrow> char \<Rightarrow> cstr option" where
  "strchr [] c = None"
| "strchr (x # xs) c = (if x = c then Some (x # xs) else strchr xs c)"

text \<open>\<open>strstr\<close>: the suffix that starts at the first occurrence of the second string.\<close>

fun is_prefix :: "cstr \<Rightarrow> cstr \<Rightarrow> bool" where
  "is_prefix [] s = True"
| "is_prefix (p # ps) [] = False"
| "is_prefix (p # ps) (x # xs) = (p = x \<and> is_prefix ps xs)"

fun strstr :: "cstr \<Rightarrow> cstr \<Rightarrow> cstr option" where
  "strstr [] p = (if p = [] then Some [] else None)"
| "strstr (x # xs) p = (if is_prefix p (x # xs) then Some (x # xs) else strstr xs p)"

definition strncmp0 :: "cstr \<Rightarrow> cstr \<Rightarrow> nat \<Rightarrow> bool" where
  \<comment> \<open>whether \<open>strncmp(a, b, n)\<close> is 0\<close>
  "strncmp0 a b n = (take n a = take n b)"

definition strcasecmp0 :: "cstr \<Rightarrow> cstr \<Rightarrow> bool" where
  \<comment> \<open>whether \<open>strcasecmp(a, b)\<close> is 0\<close>
  "strcasecmp0 a b = (map tolower a = map tolower b)"

definition strncasecmp0 :: "cstr \<Rightarrow> cstr \<Rightarrow> nat \<Rightarrow> bool" where
  \<comment> \<open>whether \<open>strncasecmp(a, b, n)\<close> is 0\<close>
  "strncasecmp0 a b n = (map tolower (take n a) = map tolower (take n b))"

fun digits_val :: "nat \<Rightarrow> cstr \<Rightarrow> nat" where
  \<comment> \<open>the value of the leading decimal digits, after \<open>n\<close>\<close>
  "digits_val n [] = n"
| "digits_val n (c # cs) = (if is_digit c then digits_val (10 * n + (ord c - 48)) cs else n)"

lemma is_prefix_append: "is_prefix p s \<longleftrightarrow> (\<exists>t. s = p @ t)"
  by (induction p s rule: is_prefix.induct) auto

lemma is_prefix_take: "is_prefix p s \<longleftrightarrow> take (length p) s = p"
  by (induction p s rule: is_prefix.induct) auto

lemma rd_less [cstr]: "i < length s \<Longrightarrow> rd s i = s ! i"
  by (simp add: rd_def)

lemma rd_length [simp]: "rd s (length s) = NUL"
  by (simp add: rd_def)

lemma hd_rd: "s \<noteq> [] \<Longrightarrow> rd s 0 = hd s"
  by (cases s) (auto simp: rd_def)

lemma is_cstr_nth: "is_cstr s \<Longrightarrow> i < length s \<Longrightarrow> s ! i \<noteq> NUL"
  by (metis is_cstr_def nth_mem)

lemma is_cstr_simps [simp]:
  "is_cstr []"
  "is_cstr (c # s) \<longleftrightarrow> c \<noteq> NUL \<and> is_cstr s"
  "is_cstr (s @ t) \<longleftrightarrow> is_cstr s \<and> is_cstr t"
  by (auto simp: is_cstr_def)

lemma strspn_le [cstr]: "strspn s cs \<le> length s"
  by (simp add: strspn_def length_takeWhile_le)

lemma strcspn_le [cstr]: "strcspn s cs \<le> length s"
  by (simp add: strcspn_def length_takeWhile_le)

lemma take_strspn: "take (strspn s cs) s = takeWhile (\<lambda>c. c \<in> set cs) s"
  by (simp add: strspn_def takeWhile_eq_take [symmetric])

lemma drop_strspn: "drop (strspn s cs) s = dropWhile (\<lambda>c. c \<in> set cs) s"
  by (simp add: strspn_def dropWhile_eq_drop)

lemma take_strcspn: "take (strcspn s cs) s = takeWhile (\<lambda>c. c \<notin> set cs) s"
  by (simp add: strcspn_def takeWhile_eq_take [symmetric])

lemma drop_strcspn: "drop (strcspn s cs) s = dropWhile (\<lambda>c. c \<notin> set cs) s"
  by (simp add: strcspn_def dropWhile_eq_drop)

lemma strchr_eq: "strchr s c = (case dropWhile (\<lambda>x. x \<noteq> c) s of [] \<Rightarrow> None | t \<Rightarrow> Some t)"
  by (induction s) auto

lemma strchr_SomeD: "strchr s c = Some t \<Longrightarrow> \<exists>u. s = u @ t \<and> c \<notin> set u \<and> t \<noteq> [] \<and> hd t = c"
proof (induction s)
  case (Cons x xs)
  show ?case
  proof (cases "x = c")
    case True
    with Cons.prems show ?thesis by (intro exI [of _ "[]"]) auto
  next
    case False
    with Cons obtain u where "xs = u @ t \<and> c \<notin> set u \<and> t \<noteq> [] \<and> hd t = c" by auto
    with False show ?thesis by (intro exI [of _ "x # u"]) auto
  qed
qed simp

lemma strchr_append: "c \<notin> set u \<Longrightarrow> strchr (u @ c # t) c = Some (c # t)"
  by (induction u) auto

lemma strchr_None: "strchr s c = None \<longleftrightarrow> c \<notin> set s"
  by (induction s) auto

subsection \<open>Reading lines\<close>

abbreviation NL :: char where "NL \<equiv> CHR 0x0A"

definition fgets :: "nat \<Rightarrow> cstr \<Rightarrow> (cstr \<times> cstr) option" where
  \<comment> \<open>up to and with the newline, at most \<open>len - 1\<close> characters\<close>
  "fgets len s =
     (if s = [] then None
      else let k = min (len - 1) (Suc (length (takeWhile (\<lambda>c. c \<noteq> NL) s)))
           in Some (take k s, drop k s))"

subsection \<open>Lists\<close>

lemma take_eq_nth: "n \<le> length a \<Longrightarrow> n \<le> length b \<Longrightarrow>
    take n a = take n b \<longleftrightarrow> (\<forall>i<n. a ! i = b ! i)"
  by (auto simp: list_eq_iff_nth_eq)

subsection \<open>Outcomes\<close>

text \<open>
  \<open>Rejected\<close> is a return of 0 or of a null pointer after an error message.  \<open>Undefined\<close> is a
  read or write outside an object, through a null or dangling pointer, or an integer conversion
  that overflows, on which C says nothing.  \<open>Aborted\<close> is a
  failed \<open>ASSERT\<close>, which ends the process.  \<open>OutOfFuel\<close> is the result of a loop that was given
  too few rounds; the properties show that it does not occur.
\<close>

datatype failure = Rejected | Undefined | Aborted | OutOfFuel

type_synonym 'a res = "failure + 'a"

definition res_bind :: "'a res \<Rightarrow> ('a \<Rightarrow> 'b res) \<Rightarrow> 'b res" where
  "res_bind r k = (case r of Inl e \<Rightarrow> Inl e | Inr x \<Rightarrow> k x)"

lemma res_bind_simps [simp]: "res_bind (Inl e) k = Inl e" "res_bind (Inr x) k = k x"
  by (simp_all add: res_bind_def)

lemma res_bind_Inr: "res_bind r k = Inr y \<longleftrightarrow> (\<exists>x. r = Inr x \<and> k x = Inr y)"
  by (cases r) auto

definition of_opt :: "'a option \<Rightarrow> 'a res" where
  "of_opt x = (case x of None \<Rightarrow> Inl Rejected | Some y \<Rightarrow> Inr y)"

lemma of_opt_simps [simp]: "of_opt None = Inl Rejected" "of_opt (Some y) = Inr y"
  by (simp_all add: of_opt_def)

end
