(* ===== verification/StrSearch.thy ===== *)
theory StrSearch
  imports Prelude
begin

section \<open>The in-memory string search of the string index\<close>

text \<open>
  Models \<open>archie/lib/archstridx/strsrch.c\<close>: the Boyer-Moore-Horspool searches
  \<open>_archBMHSearch\<close>, \<open>_archBMHCaseSearch\<close> and \<open>_archBMHGeneralSearch\<close>.  The three C
  functions are copies of one algorithm that differ in how two characters are compared,
  in which table slots a key character fills and in the comparison used when the key is
  aligned with the end of the text; the shared loops are \<open>bmh_cmp\<close> and \<open>bmh_loop\<close>, with
  these three as arguments.

  The text is not nul terminated for the searches: reading at or beyond \<open>tlen\<close>, or
  beyond the key's nul, is \<open>None\<close>.  The locale \<open>bmh_text\<close> states what makes the
  comparison loop stop inside the text, \<open>bmh_alphabet\<close> what the shift table must cover for
  no occurrence to be skipped; the main lemma of the latter says that the search returns, in ascending order and without a read
  out of bounds, the first \<open>maxhits\<close> offsets at which the key occurs.
\<close>

subsection \<open>The loops\<close>

text \<open>\<open>for (j = 0; text[i] == key[j]; j++) i++\<close>: the value of \<open>j\<close> at the first difference.\<close>

function bmh_cmp :: "(char \<Rightarrow> char) \<Rightarrow> cstr \<Rightarrow> cstr \<Rightarrow> nat \<Rightarrow> nat \<Rightarrow> nat option" where
  "bmh_cmp f text0 key i j =
     (if length text0 \<le> i \<or> length key < j then None
      else if f (text0 ! i) = f (rd key j) then bmh_cmp f text0 key (Suc i) (Suc j)
      else Some j)"
  by pat_completeness auto
termination
  by (relation "measure (\<lambda>(f, text0, key, i, j). length text0 - i)") auto

declare bmh_cmp.simps [simp del]

text \<open>The shift table: \<open>klen + 1\<close> by default, \<open>klen - k\<close> for every variant of \<open>key[k]\<close>.\<close>

definition set_slots :: "char list \<Rightarrow> nat \<Rightarrow> (char \<Rightarrow> nat) \<Rightarrow> char \<Rightarrow> nat" where
  "set_slots ws n d = fold (\<lambda>v d. d(v := n)) ws d"

definition bmh_table :: "(char \<Rightarrow> char list) \<Rightarrow> cstr \<Rightarrow> char \<Rightarrow> nat" where
  "bmh_table vs key =
     fold (\<lambda>k. set_slots (vs (key ! k)) (length key - k)) [0..<length key] (\<lambda>_. length key + 1)"

lemma set_slots_apply: "set_slots ws n d c = (if c \<in> set ws then n else d c)"
  unfolding set_slots_def by (induction ws arbitrary: d) auto

lemma bmh_table_prefix:
  fixes vs key
  defines "d \<equiv> \<lambda>m. fold (\<lambda>k. set_slots (vs (key ! k)) (length key - k)) [0..<m] (\<lambda>_. length key + 1)"
  assumes "m \<le> length key"
  shows "1 \<le> d m c \<and> d m c \<le> length key + 1 \<and>
         (\<forall>j<m. c \<in> set (vs (key ! j)) \<longrightarrow> d m c \<le> length key - j)"
  using assms(2) unfolding d_def
proof (induction m)
  case (Suc m)
  then show ?case by (auto simp: set_slots_apply less_Suc_eq)
qed simp

lemma bmh_table_pos [simp]: "0 < bmh_table vs key c"
  and bmh_table_le: "bmh_table vs key c \<le> length key + 1"
  and bmh_table_hit: "j < length key \<Longrightarrow> c \<in> set (vs (key ! j)) \<Longrightarrow> bmh_table vs key c \<le> length key - j"
  using bmh_table_prefix [of "length key" key vs c] by (auto simp: bmh_table_def)

text \<open>
  The main loop.  \<open>Inl hits\<close> is the return inside the loop, when the last wanted hit has
  been stored; \<open>Inr (k, hits)\<close> is its normal exit.
\<close>

function bmh_loop :: "(char \<Rightarrow> char) \<Rightarrow> (char \<Rightarrow> char list) \<Rightarrow> cstr \<Rightarrow> cstr \<Rightarrow> nat \<Rightarrow> nat \<Rightarrow> nat list
    \<Rightarrow> (nat list + nat \<times> nat list) option" where
  "bmh_loop f vs text0 key maxhits k hits =
     (let lim = int (length text0) - int (length key) in
      if int k < lim \<and> length hits < maxhits then
        (case bmh_cmp f text0 key k 0 of
           None \<Rightarrow> None
         | Some j \<Rightarrow>
             let hits' = (if j = length key then hits @ [k] else hits) in
             if j = length key \<and> length hits' = maxhits then Some (Inl hits')
             else bmh_loop f vs text0 key maxhits
                    (k + bmh_table vs key (text0 ! (k + length key))) hits')
      else Some (Inr (k, hits)))"
  by pat_completeness auto
termination
  by (relation "measure (\<lambda>(f, vs, text0, key, maxhits, k, hits). length text0 - k)")
    (auto intro!: diff_less_mono2)

declare bmh_loop.simps [simp del]

definition bmh_search :: "(char \<Rightarrow> char) \<Rightarrow> (char \<Rightarrow> char list) \<Rightarrow> (cstr \<Rightarrow> cstr \<Rightarrow> bool option)
    \<Rightarrow> cstr \<Rightarrow> cstr \<Rightarrow> nat \<Rightarrow> nat list option" where
  "bmh_search f vs fin text0 key maxhits =
     (if maxhits = 0 then Some []
      else case bmh_loop f vs text0 key maxhits 0 [] of
        None \<Rightarrow> None
      | Some (Inl hits) \<Rightarrow> Some hits
      | Some (Inr (k, hits)) \<Rightarrow>
          if int k = int (length text0) - int (length key) then
            (case fin (drop k text0) key of
               None \<Rightarrow> None
             | Some True \<Rightarrow> Some (hits @ [k])
             | Some False \<Rightarrow> Some hits)
          else Some hits)"

subsection \<open>The three searches of the source\<close>

definition archBMHSearch :: "cstr \<Rightarrow> cstr \<Rightarrow> nat \<Rightarrow> nat list option" where
  "archBMHSearch =
     bmh_search (\<lambda>c. c) (\<lambda>c. [c]) (\<lambda>t key. Some (strncmp0 t key (length key)))"

definition archBMHCaseSearch :: "cstr \<Rightarrow> cstr \<Rightarrow> nat \<Rightarrow> nat list option" where
  "archBMHCaseSearch =
     bmh_search tolower (\<lambda>c. [tolower c, toupper c])
       (\<lambda>t key. Some (strncasecmp0 t key (length key)))"

record funcs =
  lowerCase :: "char \<Rightarrow> char"
  upperCase :: "char \<Rightarrow> char"
  noAccent :: "char \<Rightarrow> char"
  withAccent :: "char \<Rightarrow> char"
  toComp :: "cstr \<Rightarrow> cstr \<Rightarrow> int option"

definition archBMHGeneralSearch :: "cstr \<Rightarrow> cstr \<Rightarrow> nat \<Rightarrow> funcs \<Rightarrow> nat list option" where
  "archBMHGeneralSearch text0 key maxhits funs =
     bmh_search (\<lambda>c. lowerCase funs (noAccent funs c))
       (\<lambda>c. [lowerCase funs c, upperCase funs c, withAccent funs c, noAccent funs c])
       (\<lambda>t k. map_option (\<lambda>r. r = 0) (toComp funs t k))
       text0 key maxhits"

subsection \<open>What the searches promise\<close>

definition occurs_at :: "(char \<Rightarrow> char) \<Rightarrow> cstr \<Rightarrow> cstr \<Rightarrow> nat \<Rightarrow> bool" where
  "occurs_at f text0 key k =
     (k + length key \<le> length text0 \<and> map f (take (length key) (drop k text0)) = map f key)"

definition occurrences :: "(char \<Rightarrow> char) \<Rightarrow> cstr \<Rightarrow> cstr \<Rightarrow> nat list" where
  "occurrences f text0 key = filter (occurs_at f text0 key) [0..<Suc (length text0)]"

lemma occurs_at_nth:
  "occurs_at f text0 key k \<longleftrightarrow>
     k + length key \<le> length text0 \<and> (\<forall>j<length key. f (text0 ! (k + j)) = f (key ! j))"
  by (auto simp: occurs_at_def list_eq_iff_nth_eq)

lemma bmh_cmp_result:
  assumes "is_cstr text0" and nul: "\<And>x. f x = f NUL \<Longrightarrow> x = NUL"
    and "k + length key < length text0" and "j \<le> length key"
    and "\<forall>j'<j. f (text0 ! (k + j')) = f (key ! j')"
  shows "\<exists>j'. bmh_cmp f text0 key (k + j) j = Some j' \<and>
           (j' = length key \<longleftrightarrow> occurs_at f text0 key k)"
  using assms(4,5)
proof (induction "length key - j" arbitrary: j)
  case 0
  then have j: "j = length key" by simp
  with assms(3) have "text0 ! (k + j) \<noteq> NUL"
    using assms(1) is_cstr_nth by auto
  then have "f (text0 ! (k + j)) \<noteq> f NUL" using nul by blast
  with j "0" assms(3) show ?case
    by (auto simp: bmh_cmp.simps [of f text0 key "k + length key"] occurs_at_nth)
next
  case (Suc n)
  then have j: "j < length key" by simp
  show ?case
  proof (cases "f (text0 ! (k + j)) = f (key ! j)")
    case True
    have "\<exists>j'. bmh_cmp f text0 key (k + Suc j) (Suc j) = Some j' \<and>
            (j' = length key \<longleftrightarrow> occurs_at f text0 key k)"
      using Suc.hyps(2) Suc.prems j True by (intro Suc.hyps(1)) (auto simp: less_Suc_eq)
    with True j assms(3) show ?thesis
      by (simp add: bmh_cmp.simps [of f text0 key "k + j"] rd_def)
  next
    case False
    with j assms(3) show ?thesis
      by (auto simp: bmh_cmp.simps [of f text0 key "k + j"] rd_def occurs_at_nth)
  qed
qed

locale bmh_text =
  fixes f :: "char \<Rightarrow> char" and vs :: "char \<Rightarrow> char list"
  assumes nul: "f x = f NUL \<Longrightarrow> x = NUL"
begin

text \<open>Whatever the shift table does, the loop only stores offsets at which the key occurs.\<close>

lemma bmh_loop_sound:
  assumes "is_cstr text0" and "\<forall>x\<in>set hits. occurs_at f text0 key x"
  shows "case bmh_loop f vs text0 key maxhits k hits of
           None \<Rightarrow> False
         | Some (Inl h) \<Rightarrow> \<forall>x\<in>set h. occurs_at f text0 key x
         | Some (Inr (k', h)) \<Rightarrow> \<forall>x\<in>set h. occurs_at f text0 key x"
  using assms(2)
proof (induction "length text0 - k" arbitrary: k hits rule: less_induct)
  case less
  show ?case
  proof (cases "int k < int (length text0) - int (length key) \<and> length hits < maxhits")
    case False
    with less.prems show ?thesis by (auto simp: bmh_loop.simps)
  next
    case True
    then have k: "k + length key < length text0" by simp
    let ?s = "bmh_table vs key (text0 ! (k + length key))"
    obtain j where j: "bmh_cmp f text0 key k 0 = Some j"
      "j = length key \<longleftrightarrow> occurs_at f text0 key k"
      using bmh_cmp_result [OF assms(1) nul k, where j = 0] by auto
    define hits' where "hits' = (if j = length key then hits @ [k] else hits)"
    have sound: "\<forall>x\<in>set hits'. occurs_at f text0 key x"
      using less.prems j(2) by (auto simp: hits'_def)
    have eq: "bmh_loop f vs text0 key maxhits k hits =
        (if j = length key \<and> length hits' = maxhits then Some (Inl hits')
         else bmh_loop f vs text0 key maxhits (k + ?s) hits')"
      using True j(1) by (simp add: bmh_loop.simps [of f vs text0 key maxhits k] hits'_def Let_def)
    have "length text0 - (k + ?s) < length text0 - k"
      using k by (intro diff_less_mono2) auto
    from less.hyps [OF this sound] sound show ?thesis by (simp add: eq)
  qed
qed

lemma bmh_search_sound:
  assumes "is_cstr text0" and res: "bmh_search f vs fin text0 key maxhits = Some hits"
    and fin: "\<And>t. length t = length key \<Longrightarrow> fin t key = Some True \<Longrightarrow> map f t = map f key"
  shows "\<forall>k\<in>set hits. occurs_at f text0 key k"
proof (cases "maxhits = 0")
  case True
  with res show ?thesis by (simp add: bmh_search_def)
next
  case False
  note sound = bmh_loop_sound [OF assms(1), of "[]" key maxhits 0]
  have "occurs_at f text0 key k"
    if "int k = int (length text0) - int (length key)" "fin (drop k text0) key = Some True" for k
    using that fin [of "drop k text0"] by (simp add: occurs_at_def)
  with False res sound show ?thesis
    by (auto simp: bmh_search_def split: option.splits sum.splits if_splits bool.splits)
qed

end

locale bmh_alphabet = bmh_text +
  assumes variants: "f x = f y \<Longrightarrow> x \<in> set (vs y)"
begin

text \<open>No occurrence is skipped: the shift never exceeds the distance to the next one.\<close>

lemma shift_safe:
  assumes "k + length key < length text0" and "k < k'"
    and "k' < k + bmh_table vs key (text0 ! (k + length key))"
  shows "\<not> occurs_at f text0 key k'"
proof
  assume occ: "occurs_at f text0 key k'"
  let ?c = "text0 ! (k + length key)"
  define t where "t = k' - k"
  have t: "1 \<le> t" "t \<le> length key" "k' = k + t"
    using assms bmh_table_le [of vs key ?c] by (auto simp: t_def)
  have "k' + (length key - t) = k + length key" using t by simp
  moreover have "f (text0 ! (k' + (length key - t))) = f (key ! (length key - t))"
    using occ t unfolding occurs_at_nth by (metis diff_less less_le_trans zero_less_one)
  ultimately have "?c \<in> set (vs (key ! (length key - t)))"
    using variants by simp
  then have "bmh_table vs key ?c \<le> length key - (length key - t)"
    using t by (intro bmh_table_hit) auto
  with t assms(3) show False by simp
qed

lemma filter_occurs_skip:
  assumes "k + length key < length text0"
  shows "filter (occurs_at f text0 key) [0..<k + bmh_table vs key (text0 ! (k + length key))] =
    filter (occurs_at f text0 key) [0..<k] @ (if occurs_at f text0 key k then [k] else [])"
proof -
  let ?s = "bmh_table vs key (text0 ! (k + length key))"
  have "[0..<k + ?s] = [0..<k] @ [k..<k + ?s]"
    by (rule upt_add_eq_append) simp
  moreover have "[k..<k + ?s] = k # [Suc k..<k + ?s]"
    using bmh_table_pos [of vs key "text0 ! (k + length key)"] by (simp add: upt_conv_Cons)
  moreover have "filter (occurs_at f text0 key) [Suc k..<k + ?s] = []"
    using shift_safe [OF assms] by (auto simp: filter_empty_conv)
  ultimately show ?thesis by simp
qed

lemma occurrences_take:
  "k \<le> Suc (length text0) \<Longrightarrow>
   occurrences f text0 key =
     filter (occurs_at f text0 key) [0..<k] @ filter (occurs_at f text0 key) [k..<Suc (length text0)]"
  unfolding occurrences_def
  by (metis filter_append le_Suc_ex le_add1 upt_add_eq_append zero_le)

text \<open>
  The loop keeps \<open>hits\<close> equal to the occurrences before \<open>k\<close>: it returns early with the
  first \<open>maxhits\<close> of them, or leaves with all that start before the last alignment.
\<close>

lemma bmh_loop_result:
  assumes "is_cstr text0" and "hits = filter (occurs_at f text0 key) [0..<k]"
    and "length hits < maxhits" and "\<forall>x\<in>set hits. x + length key < length text0"
  shows "case bmh_loop f vs text0 key maxhits k hits of
           None \<Rightarrow> False
         | Some (Inl h) \<Rightarrow> h = take maxhits (occurrences f text0 key) \<and> length h = maxhits \<and>
             (\<forall>x\<in>set h. x + length key < length text0)
         | Some (Inr (k', h)) \<Rightarrow> h = filter (occurs_at f text0 key) [0..<k'] \<and> length h < maxhits \<and>
             int (length text0) - int (length key) \<le> int k' \<and>
             (\<forall>x\<in>set h. x + length key < length text0)"
  using assms(2-4)
proof (induction "length text0 - k" arbitrary: k hits rule: less_induct)
  case less
  let ?lim = "int (length text0) - int (length key)"
  show ?case
  proof (cases "int k < ?lim")
    case False
    with less.prems show ?thesis by (simp add: bmh_loop.simps)
  next
    case True
    then have k: "k + length key < length text0" by simp
    let ?s = "bmh_table vs key (text0 ! (k + length key))"
    obtain j where j: "bmh_cmp f text0 key k 0 = Some j"
      "j = length key \<longleftrightarrow> occurs_at f text0 key k"
      using bmh_cmp_result [OF assms(1) nul k, where j = 0] by auto
    define hits' where "hits' = (if j = length key then hits @ [k] else hits)"
    have hits': "hits' = filter (occurs_at f text0 key) [0..<k + ?s]"
      using filter_occurs_skip [OF k] j(2) less.prems(1) by (simp add: hits'_def)
    have bound: "\<forall>x\<in>set hits'. x + length key < length text0"
      using less.prems(3) k by (simp add: hits'_def)
    show ?thesis
    proof (cases "j = length key \<and> length hits' = maxhits")
      case full: True
      have h2: "hits' = filter (occurs_at f text0 key) [0..<Suc k]"
        using full j(2) less.prems(1) by (simp add: hits'_def)
      have "occurrences f text0 key =
          hits' @ filter (occurs_at f text0 key) [Suc k..<Suc (length text0)]"
        using occurrences_take [of "Suc k" text0 key] k h2 by (simp del: upt_Suc)
      then have "take maxhits (occurrences f text0 key) = hits'"
        using full by simp
      with full True less.prems j bound show ?thesis
        by (auto simp: bmh_loop.simps [of f vs text0 key maxhits k] hits'_def Let_def)
    next
      case False
      have lt: "length hits' < maxhits"
        using False less.prems(2) by (auto simp: hits'_def)
      have eq: "bmh_loop f vs text0 key maxhits k hits = bmh_loop f vs text0 key maxhits (k + ?s) hits'"
        using False True less.prems j
        by (auto simp: bmh_loop.simps [of f vs text0 key maxhits k] hits'_def Let_def)
      have "length text0 - (k + ?s) < length text0 - k"
        using k by (intro diff_less_mono2) auto
      from less.hyps [OF this hits' lt bound] show ?thesis by (simp add: eq)
    qed
  qed
qed

lemma bmh_search_correct:
  assumes "is_cstr text0"
    and fin: "\<And>t k. length t = length key \<Longrightarrow> is_cstr t \<Longrightarrow> t = drop k text0 \<Longrightarrow> fin t key = Some (map f t = map f key)"
  shows "bmh_search f vs fin text0 key maxhits = Some (take maxhits (occurrences f text0 key))"
proof (cases "maxhits = 0")
  case True
  then show ?thesis by (simp add: bmh_search_def)
next
  case False
  let ?P = "occurs_at f text0 key"
  have base: "case bmh_loop f vs text0 key maxhits 0 [] of
           None \<Rightarrow> False
         | Some (Inl h) \<Rightarrow> h = take maxhits (occurrences f text0 key) \<and> length h = maxhits \<and>
             (\<forall>x\<in>set h. x + length key < length text0)
         | Some (Inr (k', h)) \<Rightarrow> h = filter ?P [0..<k'] \<and> length h < maxhits \<and>
             int (length text0) - int (length key) \<le> int k' \<and>
             (\<forall>x\<in>set h. x + length key < length text0)"
    using False by (intro bmh_loop_result) (auto simp: assms)
  show ?thesis
  proof (cases "bmh_loop f vs text0 key maxhits 0 []")
    case None
    with base show ?thesis by simp
  next
    case (Some r)
    show ?thesis
    proof (cases r)
      case (Inl h)
      with Some base False show ?thesis by (simp add: bmh_search_def)
    next
      case (Inr kh)
      obtain k h where r: "r = Inr (k, h)" using Inr by (cases kh) simp
      have h: "h = filter ?P [0..<k]" "length h < maxhits"
        "int (length text0) - int (length key) \<le> int k"
        using base Some r by auto
      have beyond: "filter ?P [Suc k..<Suc (length text0)] = []"
        using h(3) by (auto simp: filter_empty_conv occurs_at_nth)
      have occ: "occurrences f text0 key = h @ (if ?P k then [k] else [])"
      proof (cases "k \<le> length text0")
        case True
        then have "[k..<Suc (length text0)] = k # [Suc k..<Suc (length text0)]"
          by (simp add: upt_conv_Cons del: upt_Suc)
        with True beyond h(1) show ?thesis
          by (simp add: occurrences_take [of k] del: upt_Suc)
      next
        case False
        then have k: "k = Suc (length text0) + (k - Suc (length text0))" by simp
        have "[0..<k] = [0..<Suc (length text0)] @ [Suc (length text0)..<k]"
          using upt_add_eq_append [of 0 "Suc (length text0)" "k - Suc (length text0)"] k by simp
        moreover have "filter ?P [Suc (length text0)..<k] = []"
          by (auto simp: filter_empty_conv occurs_at_nth)
        ultimately show ?thesis
          using False h(1) by (simp add: occurrences_def occurs_at_nth del: upt_Suc)
      qed
      show ?thesis
      proof (cases "int k = int (length text0) - int (length key)")
        case True
        then have len: "length (drop k text0) = length key" by simp
        have cs: "is_cstr (drop k text0)"
          using assms(1) by (auto simp: is_cstr_def dest: in_set_dropD)
        have "fin (drop k text0) key = Some (?P k)"
          using fin [OF len cs refl] True by (simp add: occurs_at_def)
        with True Some r False h(2) occ show ?thesis
          by (auto simp: bmh_search_def)
      next
        case outside: False
        with h(3) have "\<not> ?P k" by (simp add: occurs_at_def)
        with outside Some r False h(2) occ show ?thesis by (simp add: bmh_search_def)
      qed
    qed
  qed
qed

text \<open>
  A key at the very end of the text is left to the comparison after the loop, whatever that
  comparison does, as long as the occurrences before it do not exhaust \<open>maxhits\<close>.
\<close>

lemma bmh_search_end:
  assumes "is_cstr text0" and "text0 = pre @ key"
    and "length (filter (occurs_at f text0 key) [0..<length pre]) < maxhits"
    and "fin key key = None"
  shows "bmh_search f vs fin text0 key maxhits = None"
proof -
  let ?P = "occurs_at f text0 key"
  have P: "?P (length pre)" by (simp add: occurs_at_def assms(2))
  note loop = bmh_loop_result [of text0 "[]" key 0 maxhits, OF assms(1)]
  show ?thesis
  proof (cases "bmh_loop f vs text0 key maxhits 0 []")
    case None
    with loop assms(3) show ?thesis by (auto simp: bmh_search_def)
  next
    case (Some r)
    show ?thesis
    proof (cases r)
      case (Inl h)
      with Some loop assms(3) have h: "h = take maxhits (occurrences f text0 key)"
        "length h = maxhits" "\<forall>x\<in>set h. x + length key < length text0" by auto
      have "?P x" if "x \<in> set h" for x
        using that h(1) in_set_takeD [of x maxhits "occurrences f text0 key"]
        by (simp add: occurrences_def del: upt_Suc)
      then have "set h \<subseteq> set (filter ?P [0..<length pre])"
        using h(3) assms(2) by auto
      moreover have "distinct h" unfolding h(1) occurrences_def by (intro distinct_take distinct_filter distinct_upt)
      ultimately have "length h \<le> length (filter ?P [0..<length pre])"
        by (metis List.finite_set card_mono distinct_card distinct_filter distinct_upt)
      with h(2) assms(3) show ?thesis by simp
    next
      case (Inr kh)
      obtain k h where r: "r = Inr (k, h)" using Inr by (cases kh) simp
      with Some loop assms(3) have h: "h = filter ?P [0..<k]"
        "int (length text0) - int (length key) \<le> int k"
        "\<forall>x\<in>set h. x + length key < length text0" by auto
      have "\<not> length pre < k"
        using h(1,3) P assms(2) by auto
      then have "k = length pre" using h(2) assms(2) by simp
      with Some r assms(2,3,4) show ?thesis by (auto simp: bmh_search_def)
    qed
  qed
qed

end

interpretation exact: bmh_alphabet "\<lambda>c. c" "\<lambda>c. [c]"
  by unfold_locales auto

interpretation nocase: bmh_alphabet tolower "\<lambda>c. [tolower c, toupper c]"
  by unfold_locales (auto dest: tolower_eq_cases)

subsection \<open>Correctness of the exact and the case-insensitive search\<close>

text \<open>
  C8. The exact search returns the first \<open>maxhits\<close> offsets of the key in the text, in
  ascending order, and never reads outside the text or the key, for every key (empty and
  longer than the text included).
\<close>

theorem archBMHSearch_correct:
  assumes "is_cstr text0"
  shows "archBMHSearch text0 key maxhits = Some (take maxhits (occurrences (\<lambda>c. c) text0 key))"
  unfolding archBMHSearch_def
  by (rule exact.bmh_search_correct [OF assms]) (simp add: strncmp0_def)

theorem archBMHSearch_correct_witness:
  "archBMHSearch ''abababa'' ''aba'' 2 = Some [0, 2]"
proof -
  have "is_cstr ''abababa''" by (simp add: is_cstr_def)
  moreover have "take 2 (occurrences (\<lambda>c. c) ''abababa'' ''aba'') = [0, 2]" by code_simp
  ultimately show ?thesis using archBMHSearch_correct [of "''abababa''" "''aba''" 2] by simp
qed

text \<open>
  C11. The case-insensitive search returns the first \<open>maxhits\<close> offsets at which text and
  key agree up to the case of their letters: the shift table, filled for the lower and the
  upper form of each key character, skips no match.
\<close>

theorem archBMHCaseSearch_correct:
  assumes "is_cstr text0"
  shows "archBMHCaseSearch text0 key maxhits = Some (take maxhits (occurrences tolower text0 key))"
  unfolding archBMHCaseSearch_def
  by (rule nocase.bmh_search_correct [OF assms]) (simp add: strncasecmp0_def)

theorem archBMHCaseSearch_correct_witness:
  "archBMHCaseSearch ''a foo FoO'' ''fOo'' 5 = Some [2, 6]"
proof -
  have "is_cstr ''a foo FoO''" by (simp add: is_cstr_def)
  moreover have "take 5 (occurrences tolower ''a foo FoO'' ''fOo'') = [2, 6]" by code_simp
  ultimately show ?thesis using archBMHCaseSearch_correct [of "''a foo FoO''" "''fOo''" 5] by simp
qed

end
