(* ===== verification/PatrieCase.thy ===== *)
theory PatrieCase
  imports Prelude
begin

section \<open>Character folding and string comparison of the Patricia trie\<close>

text \<open>
  Models \<open>archie/lib/patrie/case.c\<close>: the two 256-entry folding tables, the four string
  comparisons and the four functions that find the first bit in which two strings differ.
  The trie is built from the suffixes of the strings file in the order of a comparison and
  from the differing-bit positions of neighbours, so the two families must agree; that is
  \<open>diff_bit_orders\<close>.  The strings are nul terminated; a read past the nul is \<open>None\<close>.
\<close>

subsection \<open>The folding tables\<close>

definition patrieChLowerCase :: "char list" where
  "patrieChLowerCase =
    [CHR 0x00, CHR 0x01, CHR 0x02, CHR 0x03, CHR 0x04, CHR 0x05, CHR 0x06, CHR 0x07,
     CHR 0x08, CHR 0x09, CHR 0x0A, CHR 0x0B, CHR 0x0C, CHR 0x0D, CHR 0x0E, CHR 0x0F,
     CHR 0x10, CHR 0x11, CHR 0x12, CHR 0x13, CHR 0x14, CHR 0x15, CHR 0x16, CHR 0x17,
     CHR 0x18, CHR 0x19, CHR 0x1A, CHR 0x1B, CHR 0x1C, CHR 0x1D, CHR 0x1E, CHR 0x1F,
     CHR 0x20, CHR 0x21, CHR 0x22, CHR 0x23, CHR 0x24, CHR 0x25, CHR 0x26, CHR 0x27,
     CHR 0x28, CHR 0x29, CHR 0x2A, CHR 0x2B, CHR 0x2C, CHR 0x2D, CHR 0x2E, CHR 0x2F,
     CHR 0x30, CHR 0x31, CHR 0x32, CHR 0x33, CHR 0x34, CHR 0x35, CHR 0x36, CHR 0x37,
     CHR 0x38, CHR 0x39, CHR 0x3A, CHR 0x3B, CHR 0x3C, CHR 0x3D, CHR 0x3E, CHR 0x3F,
     CHR 0x40, CHR 0x61, CHR 0x62, CHR 0x63, CHR 0x64, CHR 0x65, CHR 0x66, CHR 0x67,
     CHR 0x68, CHR 0x69, CHR 0x6A, CHR 0x6B, CHR 0x6C, CHR 0x6D, CHR 0x6E, CHR 0x6F,
     CHR 0x70, CHR 0x71, CHR 0x72, CHR 0x73, CHR 0x74, CHR 0x75, CHR 0x76, CHR 0x77,
     CHR 0x78, CHR 0x79, CHR 0x7A, CHR 0x5B, CHR 0x5C, CHR 0x5D, CHR 0x5E, CHR 0x5F,
     CHR 0x60, CHR 0x61, CHR 0x62, CHR 0x63, CHR 0x64, CHR 0x65, CHR 0x66, CHR 0x67,
     CHR 0x68, CHR 0x69, CHR 0x6A, CHR 0x6B, CHR 0x6C, CHR 0x6D, CHR 0x6E, CHR 0x6F,
     CHR 0x70, CHR 0x71, CHR 0x72, CHR 0x73, CHR 0x74, CHR 0x75, CHR 0x76, CHR 0x77,
     CHR 0x78, CHR 0x79, CHR 0x7A, CHR 0x7B, CHR 0x7C, CHR 0x7D, CHR 0x7E, CHR 0x7F,
     CHR 0x80, CHR 0x81, CHR 0x82, CHR 0x83, CHR 0x84, CHR 0x85, CHR 0x86, CHR 0x87,
     CHR 0x88, CHR 0x89, CHR 0x8A, CHR 0x8B, CHR 0x8C, CHR 0x8D, CHR 0x8E, CHR 0x8F,
     CHR 0x90, CHR 0x91, CHR 0x92, CHR 0x93, CHR 0x94, CHR 0x95, CHR 0x96, CHR 0x97,
     CHR 0x98, CHR 0x99, CHR 0x9A, CHR 0x9B, CHR 0x9C, CHR 0x9D, CHR 0x9E, CHR 0x9F,
     CHR 0xA0, CHR 0xA1, CHR 0xA2, CHR 0xA3, CHR 0xA4, CHR 0xA5, CHR 0xA6, CHR 0xA7,
     CHR 0xA8, CHR 0xA9, CHR 0xAA, CHR 0xAB, CHR 0xAC, CHR 0xAD, CHR 0xAE, CHR 0xAF,
     CHR 0xB0, CHR 0xB1, CHR 0xB2, CHR 0xB3, CHR 0xB4, CHR 0xB5, CHR 0xB6, CHR 0xB7,
     CHR 0xB8, CHR 0xB9, CHR 0xBA, CHR 0xBB, CHR 0xBC, CHR 0xBD, CHR 0xBE, CHR 0xBF,
     CHR 0xE0, CHR 0xE1, CHR 0xE2, CHR 0xE3, CHR 0xE4, CHR 0xE5, CHR 0xE6, CHR 0xE7,
     CHR 0xE8, CHR 0xE9, CHR 0xEA, CHR 0xEB, CHR 0xEC, CHR 0xED, CHR 0xEE, CHR 0xEF,
     CHR 0xF0, CHR 0xF1, CHR 0xF2, CHR 0xF3, CHR 0xF4, CHR 0xF5, CHR 0xF6, CHR 0xD7,
     CHR 0xF8, CHR 0xF9, CHR 0xFA, CHR 0xFB, CHR 0xFC, CHR 0xFD, CHR 0xFE, CHR 0xDF,
     CHR 0xE0, CHR 0xE1, CHR 0xE2, CHR 0xE3, CHR 0xE4, CHR 0xE5, CHR 0xE6, CHR 0xE7,
     CHR 0xE8, CHR 0xE9, CHR 0xEA, CHR 0xEB, CHR 0xEC, CHR 0xED, CHR 0xEE, CHR 0xEF,
     CHR 0xF0, CHR 0xF1, CHR 0xF2, CHR 0xF3, CHR 0xF4, CHR 0xF5, CHR 0xF6, CHR 0xF7,
     CHR 0xF8, CHR 0xF9, CHR 0xFA, CHR 0xFB, CHR 0xFC, CHR 0xFD, CHR 0xFE, CHR 0xFF]"

definition patrieChNoAccent :: "char list" where
  "patrieChNoAccent =
    [CHR 0x00, CHR 0x01, CHR 0x02, CHR 0x03, CHR 0x04, CHR 0x05, CHR 0x06, CHR 0x07,
     CHR 0x08, CHR 0x09, CHR 0x0A, CHR 0x0B, CHR 0x0C, CHR 0x0D, CHR 0x0E, CHR 0x0F,
     CHR 0x10, CHR 0x11, CHR 0x12, CHR 0x13, CHR 0x14, CHR 0x15, CHR 0x16, CHR 0x17,
     CHR 0x18, CHR 0x19, CHR 0x1A, CHR 0x1B, CHR 0x1C, CHR 0x1D, CHR 0x1E, CHR 0x1F,
     CHR 0x20, CHR 0x21, CHR 0x22, CHR 0x23, CHR 0x24, CHR 0x25, CHR 0x26, CHR 0x27,
     CHR 0x28, CHR 0x29, CHR 0x2A, CHR 0x2B, CHR 0x2C, CHR 0x2D, CHR 0x2E, CHR 0x2F,
     CHR 0x30, CHR 0x31, CHR 0x32, CHR 0x33, CHR 0x34, CHR 0x35, CHR 0x36, CHR 0x37,
     CHR 0x38, CHR 0x39, CHR 0x3A, CHR 0x3B, CHR 0x3C, CHR 0x3D, CHR 0x3E, CHR 0x3F,
     CHR 0x40, CHR 0x41, CHR 0x42, CHR 0x43, CHR 0x44, CHR 0x45, CHR 0x46, CHR 0x47,
     CHR 0x68, CHR 0x49, CHR 0x4A, CHR 0x4B, CHR 0x4C, CHR 0x4D, CHR 0x4E, CHR 0x4F,
     CHR 0x70, CHR 0x51, CHR 0x52, CHR 0x53, CHR 0x54, CHR 0x55, CHR 0x56, CHR 0x57,
     CHR 0x78, CHR 0x59, CHR 0x5A, CHR 0x5B, CHR 0x5C, CHR 0x5D, CHR 0x5E, CHR 0x5F,
     CHR 0x60, CHR 0x61, CHR 0x62, CHR 0x63, CHR 0x64, CHR 0x65, CHR 0x66, CHR 0x67,
     CHR 0x68, CHR 0x69, CHR 0x6A, CHR 0x6B, CHR 0x6C, CHR 0x6D, CHR 0x6E, CHR 0x6F,
     CHR 0x70, CHR 0x71, CHR 0x72, CHR 0x73, CHR 0x74, CHR 0x75, CHR 0x76, CHR 0x77,
     CHR 0x78, CHR 0x79, CHR 0x7A, CHR 0x7B, CHR 0x7C, CHR 0x7D, CHR 0x7E, CHR 0x7F,
     CHR 0x80, CHR 0x81, CHR 0x82, CHR 0x83, CHR 0x84, CHR 0x85, CHR 0x86, CHR 0x87,
     CHR 0x88, CHR 0x89, CHR 0x8A, CHR 0x8B, CHR 0x8C, CHR 0x8D, CHR 0x8E, CHR 0x8F,
     CHR 0x90, CHR 0x91, CHR 0x92, CHR 0x93, CHR 0x94, CHR 0x95, CHR 0x96, CHR 0x97,
     CHR 0x98, CHR 0x99, CHR 0x9A, CHR 0x9B, CHR 0x9C, CHR 0x9D, CHR 0x9E, CHR 0x9F,
     CHR 0xA0, CHR 0xA1, CHR 0xA2, CHR 0xA3, CHR 0xA4, CHR 0xA5, CHR 0xA6, CHR 0xA7,
     CHR 0xA8, CHR 0xA9, CHR 0xAA, CHR 0xAB, CHR 0xAC, CHR 0xAD, CHR 0xAE, CHR 0xAF,
     CHR 0xB0, CHR 0xB1, CHR 0xB2, CHR 0xB3, CHR 0xB4, CHR 0xB5, CHR 0xB6, CHR 0xB7,
     CHR 0xB8, CHR 0xB9, CHR 0xBA, CHR 0xBB, CHR 0xBC, CHR 0xBD, CHR 0xBE, CHR 0xBF,
     CHR 0x41, CHR 0x41, CHR 0x41, CHR 0x41, CHR 0x41, CHR 0x41, CHR 0xC6, CHR 0x43,
     CHR 0x45, CHR 0x45, CHR 0x45, CHR 0x45, CHR 0x49, CHR 0x49, CHR 0x49, CHR 0x49,
     CHR 0xD0, CHR 0x4E, CHR 0x4F, CHR 0x4F, CHR 0x4F, CHR 0x4F, CHR 0x4F, CHR 0xD7,
     CHR 0x4F, CHR 0x55, CHR 0x55, CHR 0x55, CHR 0x55, CHR 0x59, CHR 0xDE, CHR 0xDF,
     CHR 0x61, CHR 0x61, CHR 0x61, CHR 0x61, CHR 0x61, CHR 0x61, CHR 0xE6, CHR 0x63,
     CHR 0x65, CHR 0x65, CHR 0x65, CHR 0x65, CHR 0x69, CHR 0x69, CHR 0x69, CHR 0x69,
     CHR 0xF0, CHR 0x6E, CHR 0x6F, CHR 0x6F, CHR 0x6F, CHR 0x6F, CHR 0x6F, CHR 0xF7,
     CHR 0x6F, CHR 0x75, CHR 0x75, CHR 0x75, CHR 0x75, CHR 0x79, CHR 0xFE, CHR 0x79]"

definition TOLOWER :: "char \<Rightarrow> char" where
  "TOLOWER c = patrieChLowerCase ! ord c"

definition NoAccent :: "char \<Rightarrow> char" where
  "NoAccent c = patrieChNoAccent ! ord c"

subsection \<open>Comparisons\<close>

text \<open>
  The loop shared by \<open>_patrieUStrCaseCmp\<close>, \<open>_patrieUStrAccCmp\<close> and \<open>_patrieUStrCiAiCmp\<close>,
  with the folding as an argument: it stops at the first pair of characters whose foldings
  differ, and after the first nul.
\<close>

fun ustr_fold_cmp :: "(char \<Rightarrow> char) \<Rightarrow> cstr \<Rightarrow> cstr \<Rightarrow> int" where
  "ustr_fold_cmp f [] [] = 0"
| "ustr_fold_cmp f (a # s) [] =
     (if f a \<noteq> f NUL then (if ord (f a) < ord (f NUL) then - 1 else 1) else 0)"
| "ustr_fold_cmp f [] (b # t) =
     (if f NUL \<noteq> f b then (if ord (f NUL) < ord (f b) then - 1 else 1) else 0)"
| "ustr_fold_cmp f (a # s) (b # t) =
     (if a \<noteq> b \<and> f a \<noteq> f b then (if ord (f a) < ord (f b) then - 1 else 1)
      else ustr_fold_cmp f s t)"

text \<open>
  \<open>_patrieUStrCmp\<close> assumes that the strings differ: its loop has no test for the nul, so on
  equal strings it runs past both of them (\<open>None\<close>).
\<close>

fun patrieUStrCmp :: "cstr \<Rightarrow> cstr \<Rightarrow> int option" where
  "patrieUStrCmp [] [] = None"
| "patrieUStrCmp (a # s) [] = Some (if ord a < ord NUL then - 1 else 1)"
| "patrieUStrCmp [] (b # t) = Some (if ord NUL < ord b then - 1 else 1)"
| "patrieUStrCmp (a # s) (b # t) =
     (if a = b then patrieUStrCmp s t else Some (if ord a < ord b then - 1 else 1))"

definition patrieUStrCaseCmp :: "cstr \<Rightarrow> cstr \<Rightarrow> int" where
  "patrieUStrCaseCmp = ustr_fold_cmp TOLOWER"

definition patrieUStrAccCmp :: "cstr \<Rightarrow> cstr \<Rightarrow> int" where
  "patrieUStrAccCmp = ustr_fold_cmp NoAccent"

definition patrieUStrCiAiCmp :: "cstr \<Rightarrow> cstr \<Rightarrow> int" where
  "patrieUStrCiAiCmp = ustr_fold_cmp (\<lambda>c. TOLOWER (NoAccent c))"

definition patrieUStrCiAsCmp :: "cstr \<Rightarrow> cstr \<Rightarrow> int" where
  "patrieUStrCiAsCmp s0 s1 = patrieUStrCaseCmp s0 s1"

definition patrieUStrCsAiCmp :: "cstr \<Rightarrow> cstr \<Rightarrow> int" where
  "patrieUStrCsAiCmp s0 s1 = patrieUStrAccCmp s0 s1"

definition patrieUStrCsAsCmp :: "cstr \<Rightarrow> cstr \<Rightarrow> int option" where
  "patrieUStrCsAsCmp s0 s1 = patrieUStrCmp s0 s1"

subsection \<open>The first differing bit\<close>

text \<open>The table of \<open>_patrieInitDiffTab\<close>: the position, from the most significant bit, of the first set bit.\<close>

definition diffTab :: "nat \<Rightarrow> nat" where
  "diffTab i =
     (if i div 2 = 0 then 7 else if i div 4 = 0 then 6 else if i div 8 = 0 then 5
      else if i div 16 = 0 then 4 else if i div 32 = 0 then 3 else if i div 64 = 0 then 2
      else if i div 128 = 0 then 1 else 0)"

definition xor_chars :: "char \<Rightarrow> char \<Rightarrow> nat" where
  "xor_chars c0 c1 = semiring_bit_operations_class.xor (ord c0) (ord c1)"

text \<open>
  The loop of the four \<open>_patrieDiffBit...\<close> functions, from index \<open>i\<close>.  Each of them goes on
  while the characters, or their successive foldings, are equal, and indexes the table with
  the last foldings.
\<close>

fun diff_bit_loop :: "(char \<Rightarrow> char) \<Rightarrow> nat \<Rightarrow> cstr \<Rightarrow> cstr \<Rightarrow> nat option" where
  "diff_bit_loop f i [] [] = None"
| "diff_bit_loop f i (a # s) [] =
     (if f a = f NUL then None else Some (1 + i * 8 + diffTab (xor_chars (f a) (f NUL))))"
| "diff_bit_loop f i [] (b # t) =
     (if f NUL = f b then None else Some (1 + i * 8 + diffTab (xor_chars (f NUL) (f b))))"
| "diff_bit_loop f i (a # s) (b # t) =
     (if a = b \<or> f a = f b then diff_bit_loop f (Suc i) s t
      else Some (1 + i * 8 + diffTab (xor_chars (f a) (f b))))"

definition patrieDiffBit :: "cstr \<Rightarrow> cstr \<Rightarrow> nat option" where
  "patrieDiffBit = diff_bit_loop (\<lambda>c. c) 0"

definition patrieDiffBitCase :: "cstr \<Rightarrow> cstr \<Rightarrow> nat option" where
  "patrieDiffBitCase = diff_bit_loop TOLOWER 0"

definition patrieDiffBitAccent :: "cstr \<Rightarrow> cstr \<Rightarrow> nat option" where
  "patrieDiffBitAccent = diff_bit_loop NoAccent 0"

definition patrieDiffBitCiAi :: "cstr \<Rightarrow> cstr \<Rightarrow> nat option" where
  "patrieDiffBitCiAi = diff_bit_loop (\<lambda>c. TOLOWER (NoAccent c)) 0"

definition patrieDiffBitCiAs :: "cstr \<Rightarrow> cstr \<Rightarrow> nat option" where
  "patrieDiffBitCiAs str0 str1 = patrieDiffBitCase str0 str1"

definition patrieDiffBitCsAi :: "cstr \<Rightarrow> cstr \<Rightarrow> nat option" where
  "patrieDiffBitCsAi str0 str1 = patrieDiffBitAccent str0 str1"

definition patrieDiffBitCsAs :: "cstr \<Rightarrow> cstr \<Rightarrow> nat option" where
  "patrieDiffBitCsAs str0 str1 = patrieDiffBit str0 str1"

subsection \<open>The differing bit against the comparison\<close>

text \<open>Bit \<open>n\<close> of the folded string; bits are numbered from 1, the most significant bit of a byte first.\<close>

definition str_bit :: "(char \<Rightarrow> char) \<Rightarrow> cstr \<Rightarrow> nat \<Rightarrow> bool" where
  "str_bit f s n = bit (ord (f (rd s ((n - 1) div 8)))) (7 - (n - 1) mod 8)"

lemma top_bit_by_div:
  fixes x :: nat
  assumes "x div 2 ^ Suc k = 0" and "x div 2 ^ k \<noteq> 0"
  shows "bit x k" and "k < n \<Longrightarrow> \<not> bit x n"
proof -
  have "x < 2 * 2 ^ k" using assms(1) by (simp add: div_eq_0_iff)
  then have "x div 2 ^ k < 2" by (simp add: less_mult_imp_div_less)
  then have "x div 2 ^ k = 1" using assms(2) by simp
  then show "bit x k" by (simp add: bit_iff_odd)
  assume "k < n"
  then have "(2 :: nat) ^ Suc k \<le> 2 ^ n" by (intro power_increasing) auto
  with \<open>x < 2 * 2 ^ k\<close> have "x div 2 ^ n = 0" by simp
  then show "\<not> bit x n" by (simp add: bit_iff_odd)
qed

lemma diffTab_set_bit:
  assumes "0 < x" and "x < 256"
  shows "diffTab x \<le> 7" and "bit x (7 - diffTab x)" and "j < diffTab x \<Longrightarrow> \<not> bit x (7 - j)"
proof -
  have cases: "diffTab x = 7 \<and> x < 2 \<or> diffTab x = 6 \<and> 2 \<le> x \<and> x < 4 \<or>
      diffTab x = 5 \<and> 4 \<le> x \<and> x < 8 \<or> diffTab x = 4 \<and> 8 \<le> x \<and> x < 16 \<or>
      diffTab x = 3 \<and> 16 \<le> x \<and> x < 32 \<or> diffTab x = 2 \<and> 32 \<le> x \<and> x < 64 \<or>
      diffTab x = 1 \<and> 64 \<le> x \<and> x < 128 \<or> diffTab x = 0 \<and> 128 \<le> x"
    unfolding diffTab_def div_eq_0_iff by (simp add: not_less)
  then show le: "diffTab x \<le> 7" by linarith
  have "x div 2 ^ Suc (7 - diffTab x) = 0 \<and> x div 2 ^ (7 - diffTab x) \<noteq> 0"
    using assms cases unfolding div_eq_0_iff by (elim disjE conjE) simp_all
  note top = top_bit_by_div [OF conjunct1 [OF this] conjunct2 [OF this]]
  show "bit x (7 - diffTab x)" by (rule top(1))
  show "j < diffTab x \<Longrightarrow> \<not> bit x (7 - j)" using le by (intro top(2)) auto
qed

lemma byte_no_high_bit: "(a :: nat) < 256 \<Longrightarrow> 8 \<le> n \<Longrightarrow> \<not> bit a n"
proof -
  assume a: "a < 256" and n: "8 \<le> n"
  have "(256 :: nat) \<le> 2 ^ n" using power_increasing [OF n, of "2 :: nat"] by simp
  with a have "a div 2 ^ n = 0" by simp
  then show ?thesis by (simp add: bit_iff_odd)
qed

lemma less_by_top_bit:
  fixes a b :: nat
  assumes above: "\<And>n. k < n \<Longrightarrow> bit a n = bit b n" and "bit a k \<noteq> bit b k"
  shows "a < b \<longleftrightarrow> bit b k"
proof -
  have eq: "a div 2 ^ Suc k = b div 2 ^ Suc k"
    unfolding drop_bit_eq_div [symmetric]
    by (rule bit_eqI) (simp add: bit_drop_bit_eq above)
  have split: "x div 2 ^ k = 2 * (x div 2 ^ Suc k) + of_bool (bit x k)" for x :: nat
  proof -
    have "x div 2 ^ Suc k = x div 2 ^ k div 2"
      by (metis div_mult2_eq power_Suc2)
    moreover have "of_bool (bit x k) = x div 2 ^ k mod 2"
      by (simp add: bit_iff_odd of_bool_odd_eq_mod_2)
    ultimately show ?thesis
      using div_mult_mod_eq [of "x div 2 ^ k" 2] by simp
  qed
  show ?thesis
  proof (cases "bit b k")
    case True
    then have "a div 2 ^ k < b div 2 ^ k" using split [of a] split [of b] eq assms(2) by simp
    then have "a < b" by (metis div_le_mono leD linorder_le_less_linear)
    with True show ?thesis by simp
  next
    case False
    then have "b div 2 ^ k < a div 2 ^ k" using split [of a] split [of b] eq assms(2) by simp
    then have "b < a" by (metis div_le_mono leD linorder_le_less_linear)
    with False show ?thesis by simp
  qed
qed

lemma byte_diff:
  assumes "c \<noteq> d"
  defines "k \<equiv> diffTab (xor_chars c d)"
  shows "k \<le> 7" and "j < k \<Longrightarrow> bit (ord c) (7 - j) = bit (ord d) (7 - j)"
    and "bit (ord c) (7 - k) \<noteq> bit (ord d) (7 - k)"
    and "ord c < ord d \<longleftrightarrow> bit (ord d) (7 - k)"
proof -
  let ?x = "xor_chars c d"
  have bits: "bit ?x n \<longleftrightarrow> bit (ord c) n \<noteq> bit (ord d) n" for n
    by (simp add: xor_chars_def bit_xor_iff)
  have pos: "0 < ?x"
  proof (rule ccontr)
    assume "\<not> 0 < ?x"
    then have "\<forall>n. bit (ord c) n = bit (ord d) n" using bits by simp
    then show False using assms(1) by (metis bit_eqI ord_inject)
  qed
  have "?x div 2 ^ 8 = 0"
    unfolding drop_bit_eq_div [symmetric]
    by (rule bit_eqI) (simp add: bit_drop_bit_eq bits byte_no_high_bit)
  then have lt: "?x < 256" by (simp add: div_eq_0_iff)
  note tab = diffTab_set_bit [OF pos lt, folded k_def]
  show k: "k \<le> 7" by (rule tab(1))
  show low: "j < k \<Longrightarrow> bit (ord c) (7 - j) = bit (ord d) (7 - j)" for j
    using tab(3) bits by blast
  show ne: "bit (ord c) (7 - k) \<noteq> bit (ord d) (7 - k)"
    using tab(2) bits by blast
  show "ord c < ord d \<longleftrightarrow> bit (ord d) (7 - k)"
  proof (rule less_by_top_bit [OF _ ne])
    fix n assume n: "7 - k < n"
    show "bit (ord c) n = bit (ord d) n"
    proof (cases "n < 8")
      case True
      with n k low [of "7 - n"] show ?thesis by simp
    next
      case False
      then show ?thesis by (simp add: byte_no_high_bit)
    qed
  qed
qed

lemma diff_bit_loop_shift:
  "diff_bit_loop f i s t = map_option (\<lambda>n. i * 8 + n) (diff_bit_loop f 0 s t)"
proof (induction s t arbitrary: i rule: list_induct2')
  case (4 a s b t)
  show ?case
    using "4.IH" [of "Suc i"] "4.IH" [of "Suc 0"]
    by (cases "diff_bit_loop f 0 s t") auto
qed auto

text \<open>A string's bits after its first byte are those of its tail.\<close>

lemma rd_Cons: "rd (a # s) i = (if i = 0 then a else rd s (i - 1))"
  by (auto simp: rd_def nth_Cons')

lemma str_bit_first: "1 \<le> n \<Longrightarrow> n \<le> 8 \<Longrightarrow> str_bit f s n = bit (ord (f (rd s 0))) (8 - n)"
  by (simp add: str_bit_def)

lemma str_bit_tail: "1 \<le> n \<Longrightarrow> str_bit f (a # s) (8 + n) = str_bit f s n"
proof -
  assume "1 \<le> n"
  then obtain m where "n = Suc m" by (cases n) auto
  moreover have "(8 + m) div 8 = Suc (m div 8)" "(8 + m) mod 8 = m mod 8" by simp_all
  ultimately show ?thesis by (simp add: str_bit_def rd_Cons)
qed

text \<open>What it means that bit \<open>n\<close> is the first in which two strings differ and decides their order.\<close>

definition splits_at :: "(char \<Rightarrow> char) \<Rightarrow> cstr \<Rightarrow> cstr \<Rightarrow> int \<Rightarrow> nat \<Rightarrow> bool" where
  "splits_at f s t cmp n \<longleftrightarrow>
     1 \<le> n \<and> (\<forall>m. 1 \<le> m \<longrightarrow> m < n \<longrightarrow> str_bit f s m = str_bit f t m) \<and>
     str_bit f s n \<noteq> str_bit f t n \<and> cmp = (if str_bit f t n then - 1 else 1)"

lemma splits_at_first_byte:
  assumes "f (rd s 0) \<noteq> f (rd t 0)"
    and "cmp = (if ord (f (rd s 0)) < ord (f (rd t 0)) then - 1 else 1)"
  shows "splits_at f s t cmp (1 + diffTab (xor_chars (f (rd s 0)) (f (rd t 0))))"
proof -
  let ?k = "diffTab (xor_chars (f (rd s 0)) (f (rd t 0)))"
  note bd = byte_diff [OF assms(1)]
  have "str_bit f s m = str_bit f t m" if "1 \<le> m" "m < 1 + ?k" for m
    using bd(1) bd(2) [of "m - 1"] that by (simp add: str_bit_first)
  moreover have "str_bit f u (1 + ?k) = bit (ord (f (rd u 0))) (7 - ?k)" for u
    using bd(1) by (simp add: str_bit_first)
  ultimately show ?thesis using assms(2) bd(3,4) by (simp add: splits_at_def)
qed

lemma splits_at_tail:
  assumes "f a = f b" and "splits_at f s t cmp n"
  shows "splits_at f (a # s) (b # t) cmp (8 + n)"
proof -
  have n: "1 \<le> n" using assms(2) by (simp add: splits_at_def)
  have "str_bit f (a # s) m = str_bit f (b # t) m" if "1 \<le> m" "m < 8 + n" for m
  proof (cases "m \<le> 8")
    case True
    with that assms(1) show ?thesis by (simp add: str_bit_first rd_Cons)
  next
    case False
    define m' where "m' = m - 8"
    with False that have "m = 8 + m'" "1 \<le> m'" "m' < n" by auto
    with assms(2) show ?thesis by (simp add: str_bit_tail splits_at_def)
  qed
  with n assms(2) show ?thesis by (simp add: splits_at_def str_bit_tail)
qed

lemma diff_bit_splits:
  "diff_bit_loop f 0 s t = Some n \<Longrightarrow> splits_at f s t (ustr_fold_cmp f s t) n"
proof (induction s t arbitrary: n rule: list_induct2')
  case (2 a s)
  then show ?case
    using splits_at_first_byte [of f "a # s" "[]"] by (auto simp: rd_def split: if_splits)
next
  case (3 b t)
  then show ?case
    using splits_at_first_byte [of f "[]" "b # t"] by (auto simp: rd_def split: if_splits)
next
  case (4 a s b t)
  show ?case
  proof (cases "f a = f b")
    case True
    with "4.prems" obtain n' where "diff_bit_loop f 0 s t = Some n'" "n = 8 + n'"
      by (auto simp: diff_bit_loop_shift [of f "Suc 0"])
    with "4.IH" True show ?thesis by (simp add: splits_at_tail)
  next
    case False
    with "4.prems" show ?thesis
      using splits_at_first_byte [of f "a # s" "b # t"] by (auto simp: rd_def)
  qed
qed simp

lemma diff_bit_None_iff: "diff_bit_loop f i s t = None \<longleftrightarrow> ustr_fold_cmp f s t = 0"
  by (induction f i s t rule: diff_bit_loop.induct) auto

text \<open>
  C26. For each of the folding comparisons, the bit position found by its differing-bit
  function is the first bit in which the folded strings differ, and that bit decides the
  comparison: the string with the bit set is the greater one.  So the heights written into
  the trie are consistent with the order of the starts.
\<close>

theorem patrieDiffBit_orders:
  "(patrieDiffBitCase s t = Some n \<longrightarrow> splits_at TOLOWER s t (patrieUStrCaseCmp s t) n) \<and>
   (patrieDiffBitAccent s t = Some n \<longrightarrow> splits_at NoAccent s t (patrieUStrAccCmp s t) n) \<and>
   (patrieDiffBitCiAi s t = Some n \<longrightarrow>
      splits_at (\<lambda>c. TOLOWER (NoAccent c)) s t (patrieUStrCiAiCmp s t) n)"
  unfolding patrieDiffBitCase_def patrieDiffBitAccent_def patrieDiffBitCiAi_def
    patrieUStrCaseCmp_def patrieUStrAccCmp_def patrieUStrCiAiCmp_def
  by (blast intro: diff_bit_splits)

theorem patrieDiffBit_orders_witness:
  "splits_at TOLOWER ''Foo'' ''fOp'' (- 1) 20"
proof -
  have "patrieDiffBitCase ''Foo'' ''fOp'' = Some 20" by code_simp
  moreover have "patrieUStrCaseCmp ''Foo'' ''fOp'' = - 1" by code_simp
  ultimately show ?thesis using patrieDiffBit_orders [of "''Foo''" "''fOp''" 20] by simp
qed

lemma ord_less_iff: "ord a < ord b \<longleftrightarrow> a < b"
  by (simp add: ord_def less_char_def)

text \<open>
  C27. The exact comparison gives the sign of the lexicographic order by unsigned bytes for
  two different strings; on equal strings it never returns 0 but runs past both nuls, as its
  comment ("we assume that the two strings do differ") warns.
\<close>

theorem patrieUStrCmp_lex:
  assumes "is_cstr s" and "is_cstr t"
  shows "patrieUStrCmp s t =
    (if s = t then None else Some (if ord_class.lexordp s t then - 1 else 1))"
  using assms
proof (induction s t rule: patrieUStrCmp.induct)
  case (4 a s b t)
  then show ?case by (auto simp: ord_less_iff)
qed (auto simp: ord_0_iff neq0_conv [symmetric])

theorem patrieUStrCmp_lex_witness:
  "patrieUStrCmp ''ab'' ''ac'' = Some (- 1) \<and> patrieUStrCmp ''ab'' ''ab'' = None"
  using patrieUStrCmp_lex [of "''ab''" "''ac''"] patrieUStrCmp_lex [of "''ab''" "''ab''"]
  by (simp add: less_char_def)

lemma upper_letters: "is_upper c \<Longrightarrow> c \<in> set ''ABCDEFGHIJKLMNOPQRSTUVWXYZ''"
proof -
  assume "is_upper c"
  then have "ord c \<in> set [65..<91]" unfolding set_upt is_upper_def by auto
  then have "c \<in> set (map chr [65..<91])" by (metis chr_ord image_eqI list.set_map)
  moreover have "map chr [65..<91] = ''ABCDEFGHIJKLMNOPQRSTUVWXYZ''" by code_simp
  ultimately show ?thesis by metis
qed

lemma NoAccent_upper_letters:
  "\<forall>c\<in>set ''ABCDEFGHIJKLMNOPQRSTUVWXYZ''.
     NoAccent c = (if c \<in> {CHR ''H'', CHR ''P'', CHR ''X''} then tolower c else c)"
  by (simp add: NoAccent_def ord_def patrieChNoAccent_def tolower_def is_upper_def chr_def) code_simp

text \<open>
  The accent-folding table leaves every ASCII capital alone except H, P and X, which it
  maps to lower case, so the case-sensitive, accent-insensitive comparison takes \<open>H\<close> and
  \<open>h\<close> for equal and tells \<open>A\<close> from \<open>a\<close>.
\<close>

theorem NoAccent_capitals:
  "(is_upper c \<longrightarrow> NoAccent c = (if c \<in> {CHR ''H'', CHR ''P'', CHR ''X''} then tolower c else c)) \<and>
   patrieUStrCsAiCmp ''H'' ''h'' = 0 \<and> patrieUStrCsAiCmp ''A'' ''a'' = - 1"
  using NoAccent_upper_letters upper_letters by (intro conjI impI) (blast, code_simp+)

theorem NoAccent_capitals_witness: "NoAccent (CHR ''P'') = CHR ''p''"
proof -
  have "is_upper (CHR ''P'')" "tolower (CHR ''P'') = CHR ''p''" by code_simp+
  then show ?thesis using NoAccent_capitals [of "CHR ''P''"] by simp
qed

end
