(* ===== verification/UnindexedSearch.thy ===== *)
theory UnindexedSearch
  imports StrSearch PatrieCase
begin

section \<open>Searching the unindexed text under a case and accent mode\<close>

text \<open>
  Models the part of \<open>archie/lib/archstridx/api.c\<close> that chooses, from the index's
  \<open>caseAccentSens\<close> mode, the character functions for \<open>_archBMHGeneralSearch\<close>, and
  \<open>identical\<close> of \<open>archie/lib/archstridx/utils.c\<close>.  The properties say which modes make the
  general search exact on its text and which do not.
\<close>

definition identical :: "char \<Rightarrow> char" where
  "identical c = c"

text \<open>\<open>switch (h->caseAccentSens)\<close>; other values leave \<open>funs\<close> uninitialised.\<close>

definition select_funcs :: "nat \<Rightarrow> funcs option" where
  "select_funcs caseAccentSens =
     (if caseAccentSens = 0 then
        Some \<lparr>lowerCase = tolower, upperCase = toupper, noAccent = NoAccent, withAccent = identical,
              toComp = (\<lambda>s t. Some (patrieUStrCiAiCmp s t))\<rparr>
      else if caseAccentSens = 1 then
        Some \<lparr>lowerCase = tolower, upperCase = toupper, noAccent = identical, withAccent = identical,
              toComp = (\<lambda>s t. Some (patrieUStrCiAsCmp s t))\<rparr>
      else if caseAccentSens = 2 then
        Some \<lparr>lowerCase = identical, upperCase = identical, noAccent = NoAccent, withAccent = identical,
              toComp = (\<lambda>s t. Some (patrieUStrCsAiCmp s t))\<rparr>
      else if caseAccentSens = 3 then
        Some \<lparr>lowerCase = identical, upperCase = identical, noAccent = identical, withAccent = identical,
              toComp = patrieUStrCsAsCmp\<rparr>
      else None)"

definition search_mode :: "nat \<Rightarrow> cstr \<Rightarrow> cstr \<Rightarrow> nat \<Rightarrow> nat list option" where
  "search_mode m text0 key maxhits =
     (case select_funcs m of
        None \<Rightarrow> None
      | Some funs \<Rightarrow> archBMHGeneralSearch text0 key maxhits funs)"

subsection \<open>Mode 1: case insensitive, accent sensitive\<close>

definition is_ascii :: "char \<Rightarrow> bool" where
  "is_ascii c = (ord c < 128)"

lemma TOLOWER_ascii: "is_ascii c \<Longrightarrow> TOLOWER c = tolower c"
proof -
  have tab: "take 128 patrieChLowerCase = map tolower (map chr [0..<128])" by code_simp
  assume "is_ascii c"
  then have c: "ord c < 128" by (simp add: is_ascii_def)
  then have "patrieChLowerCase ! ord c = take 128 patrieChLowerCase ! ord c" by simp
  also have "\<dots> = tolower (chr (ord c))" using c by (simp only: tab) simp
  finally show ?thesis by (simp add: TOLOWER_def)
qed

lemma TOLOWER_high: "\<not> is_ascii c \<Longrightarrow> \<not> is_ascii (TOLOWER c)"
proof -
  have tab: "list_all (\<lambda>c. \<not> is_ascii c) (drop 128 patrieChLowerCase)" by code_simp
  have len: "length patrieChLowerCase = 256" by (simp add: patrieChLowerCase_def)
  assume "\<not> is_ascii c"
  then have "TOLOWER c = drop 128 patrieChLowerCase ! (ord c - 128)"
    by (simp add: TOLOWER_def is_ascii_def len)
  moreover have "ord c - 128 < length (drop 128 patrieChLowerCase)"
    using \<open>\<not> is_ascii c\<close> ord_less [of c] unfolding is_ascii_def length_drop len by linarith
  ultimately show ?thesis using tab unfolding list_all_length by metis
qed

lemma tolower_high: "\<not> is_ascii c \<Longrightarrow> tolower c = c"
  by (simp add: is_ascii_def tolower_def is_upper_def)

lemma tolower_low: "is_ascii c \<Longrightarrow> is_ascii (tolower c)"
  by (auto simp: is_ascii_def tolower_def is_upper_def)

lemma TOLOWER_eq_tolower: "is_ascii b \<Longrightarrow> TOLOWER a = TOLOWER b \<longleftrightarrow> tolower a = tolower b"
  by (metis TOLOWER_ascii TOLOWER_high tolower_high tolower_low)

lemma ustr_fold_cmp_0_iff:
  "length s = length t \<Longrightarrow> ustr_fold_cmp f s t = 0 \<longleftrightarrow> map f s = map f t"
  by (induction s t rule: list_induct2) auto

lemma ustr_ci_ascii:
  "length s = length t \<Longrightarrow> list_all is_ascii t \<Longrightarrow>
     ustr_fold_cmp TOLOWER s t = 0 \<longleftrightarrow> map tolower s = map tolower t"
  unfolding ustr_fold_cmp_0_iff
  by (induction s t rule: list_induct2) (auto simp: TOLOWER_eq_tolower)

interpretation ci_as: bmh_alphabet "\<lambda>c. tolower (identical c)"
  "\<lambda>c. [tolower c, toupper c, identical c, identical c]"
  by unfold_locales (auto simp: identical_def dest: tolower_eq_cases)

lemma NoAccent_nul: "NoAccent c = NoAccent NUL \<Longrightarrow> c = NUL"
proof -
  have "NUL \<notin> set (tl patrieChNoAccent)" and hd: "patrieChNoAccent ! 0 = NUL" and
    len: "length patrieChNoAccent = 256"
    by (simp_all add: patrieChNoAccent_def)
  assume "NoAccent c = NoAccent NUL"
  then have "patrieChNoAccent ! ord c = NUL"
    using hd by (simp add: NoAccent_def)
  show "c = NUL"
  proof (rule ccontr)
    assume "c \<noteq> NUL"
    then have "ord c \<noteq> 0" by (simp add: ord_0_iff)
    then have lt: "ord c - 1 < length (tl patrieChNoAccent)"
      using ord_less [of c] \<open>ord c \<noteq> 0\<close> unfolding length_tl len by linarith
    from nth_tl [OF this] have "patrieChNoAccent ! ord c = tl patrieChNoAccent ! (ord c - 1)"
      using \<open>ord c \<noteq> 0\<close> by simp
    moreover note lt
    ultimately show False
      using \<open>patrieChNoAccent ! ord c = NUL\<close> \<open>NUL \<notin> set (tl patrieChNoAccent)\<close>
      by (metis nth_mem)
  qed
qed

interpretation cs_ai: bmh_text "\<lambda>c. identical (NoAccent c)"
  "\<lambda>c. [identical c, identical c, identical c, NoAccent c]"
  by unfold_locales (auto simp: identical_def dest: NoAccent_nul)

interpretation cs_as: bmh_alphabet "\<lambda>c. identical (identical c)"
  "\<lambda>c. [identical c, identical c, identical c, identical c]"
  by unfold_locales (auto simp: identical_def)

text \<open>
  C28. In the case-insensitive, accent-sensitive mode the general search finds exactly the
  occurrences of an ASCII key up to case, the ones the plain case-insensitive search finds.
\<close>

theorem search_mode_1_correct:
  assumes "is_cstr text0" and "list_all is_ascii key"
  shows "search_mode 1 text0 key maxhits = Some (take maxhits (occurrences tolower text0 key))"
proof -
  have "bmh_search (\<lambda>c. tolower (identical c))
      (\<lambda>c. [tolower c, toupper c, identical c, identical c])
      (\<lambda>t k. map_option (\<lambda>r. r = 0) (Some (patrieUStrCiAsCmp t k))) text0 key maxhits =
    Some (take maxhits (occurrences (\<lambda>c. tolower (identical c)) text0 key))"
    by (rule ci_as.bmh_search_correct [OF assms(1)])
      (simp add: patrieUStrCiAsCmp_def patrieUStrCaseCmp_def ustr_ci_ascii assms(2) identical_def)
  then show ?thesis
    by (simp add: search_mode_def select_funcs_def archBMHGeneralSearch_def identical_def)
qed

theorem search_mode_1_correct_witness: "search_mode 1 ''xFoO foo'' ''foo'' 9 = Some [1, 5]"
proof -
  have "is_cstr ''xFoO foo''" "list_all is_ascii ''foo''" by code_simp+
  moreover have "take 9 (occurrences tolower ''xFoO foo'' ''foo'') = [1, 5]" by code_simp
  ultimately show ?thesis using search_mode_1_correct [of "''xFoO foo''" "''foo''" 9] by simp
qed

text \<open>
  C36. In the mode that is sensitive to both case and accents, a key at the very end of the
  text makes the search read past the end of both strings (unless the occurrences before it
  already fill \<open>maxhits\<close>): the comparison used there has no stop at the nul.
\<close>

theorem search_mode_3_end_of_text:
  assumes "is_cstr (pre @ key)"
    and "length (filter (occurs_at (\<lambda>c. c) (pre @ key) key) [0..<length pre]) < maxhits"
  shows "search_mode 3 (pre @ key) key maxhits = None"
proof -
  have self: "patrieUStrCsAsCmp key key = None"
    unfolding patrieUStrCsAsCmp_def by (induction key) auto
  have "bmh_search (\<lambda>c. identical (identical c))
      (\<lambda>c. [identical c, identical c, identical c, identical c])
      (\<lambda>t k. map_option (\<lambda>r. r = 0) (patrieUStrCsAsCmp t k)) (pre @ key) key maxhits = None"
    by (rule cs_as.bmh_search_end [OF assms(1) refl])
      (use assms(2) self in \<open>simp_all add: identical_def\<close>)
  then show ?thesis
    by (simp add: search_mode_def select_funcs_def archBMHGeneralSearch_def)
qed

theorem search_mode_3_end_of_text_witness: "search_mode 3 ''a key'' ''key'' 5 = None"
proof -
  have "is_cstr (''a '' @ ''key'')" by code_simp
  moreover have "filter (occurs_at (\<lambda>c. c) (''a '' @ ''key'') ''key'') [0..<length ''a ''] = []"
    by code_simp
  ultimately show ?thesis using search_mode_3_end_of_text [of "''a ''" "''key''" 5] by simp
qed

text \<open>
  C35. In the case-sensitive, accent-insensitive mode every hit is an occurrence, but
  occurrences are missed: the shift table has slots for a key character and its unaccented
  form only, so an accented text character shifts the key past the place where it matches.
\<close>

theorem search_mode_2_sound_incomplete:
  "(is_cstr text0 \<longrightarrow> search_mode 2 text0 key maxhits = Some hits \<longrightarrow>
      (\<forall>k\<in>set hits. occurs_at NoAccent text0 key k)) \<and>
   occurrences NoAccent [CHR ''x'', CHR 0xE9, CHR ''a''] ''e'' = [1] \<and>
   search_mode 2 [CHR ''x'', CHR 0xE9, CHR ''a''] ''e'' 5 = Some []"
proof (intro conjI impI)
  assume "is_cstr text0" and "search_mode 2 text0 key maxhits = Some hits"
  then have "bmh_search (\<lambda>c. identical (NoAccent c))
      (\<lambda>c. [identical c, identical c, identical c, NoAccent c])
      (\<lambda>t k. map_option (\<lambda>r. r = 0) (Some (patrieUStrCsAiCmp t k))) text0 key maxhits = Some hits"
    by (simp add: search_mode_def select_funcs_def archBMHGeneralSearch_def)
  from cs_ai.bmh_search_sound [OF \<open>is_cstr text0\<close> this]
  show "\<forall>k\<in>set hits. occurs_at NoAccent text0 key k"
    by (simp add: patrieUStrCsAiCmp_def patrieUStrAccCmp_def ustr_fold_cmp_0_iff identical_def)
qed code_simp+

theorem search_mode_2_sound_incomplete_witness:
  "occurs_at NoAccent ''a bc'' ''b'' 2"
proof -
  have "is_cstr ''a bc''" "search_mode 2 ''a bc'' ''b'' 5 = Some [2]" by code_simp+
  then show ?thesis using search_mode_2_sound_incomplete [of "''a bc''" "''b''" 5 "[2]"] by simp
qed

end
