(* ===== verification/PatrieState.thy ===== *)
theory PatrieState
  imports Prelude
begin

section \<open>Patricia trie: the state of a search and its text form\<close>

text \<open>
  Models \<open>archie/lib/patrie/state.c\<close>.  A search that stops at its limit of hits keeps a stack
  of trie nodes; the server hands this state to the client as a printable string and gets it
  back with the next request, so it is parsed from text that anybody may have written.
  Numbers are written in base 94, least significant digit first, the key with \<open>%xx\<close> for
  characters that are not printable.

  \<open>int\<close> fields are integers in their range, an \<open>unsigned long\<close> (32 bits, as the source
  checks) is a \<open>32 word\<close> where it is computed with.  A buffer that is written through a
  moving pointer is the string written so far.
\<close>

subsection \<open>Nodes and states\<close>

record patrie_node =
  pn_val :: int
  pn_is_skip :: int
  pn_lev :: int
  pn_height :: int
  pn_pos :: int
  pn_inode :: int
  pn_enode :: int
  pn_tnode :: int
  pn_pageNum :: int

record patrie_state =
  ps_top :: int
  ps_nelts :: int
  ps_nodes :: "patrie_node list"     \<comment> \<open>the array \<open>stack\<close>\<close>
  ps_key :: "cstr option"
  ps_match :: int                    \<comment> \<open>\<open>matchCaseAccSens\<close>\<close>
  ps_first :: int                    \<comment> \<open>\<open>firstMatched\<close>\<close>

definition patrieAllocState :: patrie_state where
  "patrieAllocState = \<lparr>ps_top = - 1, ps_nelts = 0, ps_nodes = [], ps_key = None, ps_match = 0, ps_first = 0\<rparr>"

definition patrieStateEmpty :: "patrie_state \<Rightarrow> bool" where
  "patrieStateEmpty st = (ps_top st = - 1)"

definition patrieStatePop :: "patrie_state \<Rightarrow> (patrie_node \<times> patrie_state) res" where
  "patrieStatePop st =
     (if patrieStateEmpty st then Inl Aborted
      else if ps_top st < 0 \<or> int (length (ps_nodes st)) \<le> ps_top st then Inl Undefined
      else Inr (ps_nodes st ! nat (ps_top st), st\<lparr>ps_top := ps_top st - 1\<rparr>))"

text \<open>A full array grows by one element, which the push then sets.\<close>

definition patrieStatePush :: "patrie_node \<Rightarrow> patrie_state \<Rightarrow> patrie_state res" where
  "patrieStatePush nd st =
     (let (st1, arr) = (if ps_top st = ps_nelts st - 1 then (st\<lparr>ps_nelts := ps_nelts st + 1\<rparr>, ps_nodes st @ [nd])
                        else (st, ps_nodes st));
          i = ps_top st + 1
      in if i < 0 \<or> int (length arr) \<le> i then Inl Undefined
         else Inr (st1\<lparr>ps_top := i, ps_nodes := arr[nat i := nd]\<rparr>))"

definition patrieStateResetStack :: "patrie_state \<Rightarrow> patrie_state" where
  "patrieStateResetStack st = st\<lparr>ps_top := - 1\<rparr>"

text \<open>The stack proper, top first, and the invariant of the operations.\<close>

definition state_inv :: "patrie_state \<Rightarrow> bool" where
  "state_inv st = (- 1 \<le> ps_top st \<and> ps_top st < ps_nelts st \<and> ps_nelts st = int (length (ps_nodes st)))"

definition state_stack :: "patrie_state \<Rightarrow> patrie_node list" where
  "state_stack st = rev (take (nat (ps_top st + 1)) (ps_nodes st))"

lemma state_inv_alloc: "state_inv patrieAllocState" and state_stack_alloc: "state_stack patrieAllocState = []"
  by (simp_all add: state_inv_def state_stack_def patrieAllocState_def)

lemma state_stack_empty: "state_inv st \<Longrightarrow> patrieStateEmpty st \<longleftrightarrow> state_stack st = []"
  by (auto simp: state_inv_def state_stack_def patrieStateEmpty_def)

lemma patrieStatePush_stack:
  assumes "state_inv st"
  obtains st' where "patrieStatePush nd st = Inr st'" "state_inv st'" "state_stack st' = nd # state_stack st"
    "ps_key st' = ps_key st" "ps_match st' = ps_match st" "ps_first st' = ps_first st"
proof -
  let ?arr = "if ps_top st = ps_nelts st - 1 then ps_nodes st @ [nd] else ps_nodes st"
  let ?i = "nat (ps_top st + 1)"
  have i: "?i < length ?arr" "0 \<le> ps_top st + 1" and t: "take ?i ?arr = take ?i (ps_nodes st)"
    using assms by (auto simp: state_inv_def)
  have "take (Suc ?i) (?arr[?i := nd]) = take ?i (ps_nodes st) @ [nd]"
    using i t by (simp add: take_Suc_conv_app_nth)
  moreover have "nat (2 + ps_top st) = Suc ?i" "nat (ps_top st + 2) = Suc ?i" using i by simp_all
  ultimately show ?thesis
    using that assms i
    by (cases "ps_top st = ps_nelts st - 1")
      (auto simp: patrieStatePush_def state_inv_def state_stack_def Let_def)
qed

lemma patrieStatePop_stack:
  assumes "state_inv st" "state_stack st = nd # ns"
  obtains st' where "patrieStatePop st = Inr (nd, st')" "state_inv st'" "state_stack st' = ns"
    "ps_key st' = ps_key st" "ps_match st' = ps_match st" "ps_first st' = ps_first st"
proof -
  have ne: "\<not> patrieStateEmpty st" using assms state_stack_empty by auto
  then have t: "0 \<le> ps_top st" "ps_top st < int (length (ps_nodes st))" 
    using assms(1) by (auto simp: state_inv_def patrieStateEmpty_def)
  then have "nat (ps_top st + 1) = Suc (nat (ps_top st))" by simp
  then have "take (nat (ps_top st + 1)) (ps_nodes st) = take (nat (ps_top st)) (ps_nodes st) @ [ps_nodes st ! nat (ps_top st)]"
    using t by (simp add: take_Suc_conv_app_nth)
  then have "nd = ps_nodes st ! nat (ps_top st)" "ns = rev (take (nat (ps_top st)) (ps_nodes st))"
    using assms(2) by (simp_all add: state_stack_def)
  then show ?thesis
    using that assms(1) t ne by (auto simp: patrieStatePop_def state_inv_def state_stack_def)
qed

subsection \<open>Writing\<close>

text \<open>A conversion of \<open>int\<close> to \<open>unsigned long\<close> and back.\<close>

type_synonym u32 = "32 word"

definition as_ulong :: "int \<Rightarrow> nat" where
  "as_ulong n = unat (word_of_int n :: u32)"

definition maxrep :: "nat list" where
  "maxrep = [93, 8835, 830583, 78074895, 4294967295]"

fun rep_index :: "nat \<Rightarrow> nat list \<Rightarrow> nat" where
  \<comment> \<open>the first entry that is not less than \<open>n\<close>; the last one is the greatest value\<close>
  "rep_index n [] = 0"
| "rep_index n (m # ms) = (if m < n then Suc (rep_index n ms) else 0)"

definition numberSpace :: "int \<Rightarrow> nat" where
  "numberSpace n = rep_index (as_ulong n) maxrep + 1"

function quote_digits :: "nat \<Rightarrow> cstr" where
  "quote_digits n = chr (33 + n mod 94) # (if 0 < n div 94 then quote_digits (n div 94) else [])"
  by pat_completeness auto
termination by (relation "measure id") auto

declare quote_digits.simps [simp del]

definition quoteNumber :: "int \<Rightarrow> cstr" where
  "quoteNumber n = quote_digits (as_ulong n)"

definition MUST_QUOTE_CH :: "char \<Rightarrow> bool" where
  "MUST_QUOTE_CH c = (c = CHR ''%'' \<or> ord c < 33 \<or> 126 < ord c)"

definition keySpace :: "cstr \<Rightarrow> nat" where
  "keySpace key = (\<Sum>c\<leftarrow>key. if MUST_QUOTE_CH c then 3 else 1)"

definition hex_digits :: cstr where
  "hex_digits = ''0123456789abcdefABCDEF''"

fun quoteKey :: "cstr \<Rightarrow> cstr" where
  "quoteKey [] = []"
| "quoteKey (c # cs) =
     (if MUST_QUOTE_CH c then [CHR ''%'', hex_digits ! (ord c div 16), hex_digits ! (ord c mod 16)] else [c])
       @ quoteKey cs"

definition nodeSpace :: "patrie_node \<Rightarrow> nat" where
  "nodeSpace nd =
     numberSpace (pn_val nd) + 1 + numberSpace (pn_is_skip nd) + 1 + numberSpace (pn_lev nd) + 1 +
     numberSpace (pn_height nd) + 1 + numberSpace (pn_pos nd) + 1 + numberSpace (pn_inode nd) + 1 +
     numberSpace (pn_enode nd) + 1 + numberSpace (pn_tnode nd) + 1 + numberSpace (pn_pageNum nd)"

abbreviation SPC :: char where "SPC \<equiv> CHR '' ''"

definition quoteNode :: "patrie_node \<Rightarrow> cstr" where
  "quoteNode nd =
     quoteNumber (pn_val nd) @ SPC # quoteNumber (pn_is_skip nd) @ SPC # quoteNumber (pn_lev nd) @ SPC #
     quoteNumber (pn_height nd) @ SPC # quoteNumber (pn_pos nd) @ SPC # quoteNumber (pn_inode nd) @ SPC #
     quoteNumber (pn_enode nd) @ SPC # quoteNumber (pn_tnode nd) @ SPC # quoteNumber (pn_pageNum nd)"

text \<open>The elements at 0 to \<open>top\<close>; the space they need is a sum and \<open>top\<close> separators.\<close>

definition used_nodes :: "patrie_state \<Rightarrow> patrie_node list" where
  "used_nodes st = take (nat (ps_top st + 1)) (ps_nodes st)"

definition stackSpace :: "patrie_state \<Rightarrow> int" where
  "stackSpace st = (\<Sum>nd\<leftarrow>used_nodes st. int (nodeSpace nd)) + ps_top st"

fun quote_nodes :: "patrie_node list \<Rightarrow> cstr" where
  "quote_nodes [] = []"
| "quote_nodes [nd] = quoteNode nd"
| "quote_nodes (nd # nds) = quoteNode nd @ SPC # quote_nodes nds"

definition quoteStack :: "patrie_state \<Rightarrow> cstr" where
  "quoteStack st = quote_nodes (used_nodes st)"

definition stateSpace :: "patrie_state \<Rightarrow> int" where
  "stateSpace st =
     int (numberSpace (ps_top st)) + 1 + (if 0 \<le> ps_top st then stackSpace st else 0) + 1 +
     (case ps_key st of None \<Rightarrow> 0 | Some k \<Rightarrow> int (keySpace k)) + 1 +
     int (numberSpace (ps_match st)) + 1 + int (numberSpace (ps_first st))"

definition quoteState :: "patrie_state \<Rightarrow> cstr" where
  "quoteState st =
     quoteNumber (ps_top st) @ SPC # (if 0 \<le> ps_top st then quoteStack st else []) @ SPC #
     (case ps_key st of None \<Rightarrow> [] | Some k \<Rightarrow> quoteKey k) @ SPC #
     quoteNumber (ps_match st) @ SPC # quoteNumber (ps_first st)"

text \<open>
  The string is written with its nul into \<open>stateSpace + 1\<close> bytes, and then a nul is put at
  offset \<open>stateSpace\<close>.
\<close>

definition patrieGetStateString :: "patrie_state \<Rightarrow> cstr res" where
  "patrieGetStateString st =
     (if stateSpace st < int (length (quoteState st)) then Inl Undefined else Inr (quoteState st))"

text \<open>
  \<open>quoteKey\<close> leaves its pointer argument at the end of what it wrote, and that pointer is what
  \<open>patrieQuoteKey\<close> returns.
\<close>

definition patrieQuoteKey :: "cstr \<Rightarrow> cstr res" where
  "patrieQuoteKey key =
     (if keySpace key < length (quoteKey key) then Inl Undefined
      else Inr (drop (length (quoteKey key)) (quoteKey key)))"

subsection \<open>Reading\<close>

definition schar :: "char \<Rightarrow> int" where
  "schar c = (if ord c < 128 then int (ord c) else int (ord c) - 256)"

definition INT_MAX :: int where
  "INT_MAX = 2147483647"

fun dequote_digits :: "u32 \<Rightarrow> u32 \<Rightarrow> cstr \<Rightarrow> u32 \<times> cstr" where
  \<comment> \<open>\<open>n\<close>, \<open>mult\<close> and what is left of the string\<close>
  "dequote_digits n mult [] = (n, [])"
| "dequote_digits n mult (c # s) =
     (if c = SPC then (n, c # s)
      else dequote_digits (n + word_of_int (schar c - 33) * mult) (mult * 94) s)"

definition dequoteULong :: "cstr \<Rightarrow> (u32 \<times> cstr) res" where
  "dequoteULong str =
     (case dequote_digits 0 1 str of (n, s) \<Rightarrow> if s = str then Inl Rejected else Inr (n, s))"

definition dequoteSInt :: "cstr \<Rightarrow> (int \<times> cstr) res" where
  "dequoteSInt str = res_bind (dequoteULong str) (\<lambda>(n, s). Inr (sint n, s))"

text \<open>\<open>TRY(*s++ == c)\<close>.  At the end of the string \<open>*s\<close> is the nul.\<close>

definition expect :: "char \<Rightarrow> cstr \<Rightarrow> cstr res" where
  "expect c s = (if s \<noteq> [] \<and> hd s = c then Inr (tl s) else Inl Rejected)"

text \<open>
  \<open>strchr(dig, c)\<close> finds the nul that ends \<open>dig\<close>, too, and then the read of \<open>hex\<close> is behind
  its end.
\<close>

definition getHex :: "cstr \<Rightarrow> nat res" where
  "getHex s =
     (let val = (\<lambda>i. if i < 16 then i else i - 6);
          idx = (\<lambda>i. if length s \<le> i then Some 22
                     else map_option (\<lambda>t. 22 - length t) (strchr hex_digits (s ! i)))
      in case idx 0 of
           None \<Rightarrow> Inl Rejected
         | Some i \<Rightarrow>
             if s = [] then Inl Undefined
             else (case idx 1 of
                 None \<Rightarrow> Inl Rejected
               | Some j \<Rightarrow> if i = 22 \<or> j = 22 then Inl Undefined else Inr (val i * 16 + val j)))"

function dequote_chars :: "cstr \<Rightarrow> (cstr \<times> cstr) res" where
  "dequote_chars s =
     (case s of
        [] \<Rightarrow> Inr ([], [])
      | c # t \<Rightarrow>
          if c = SPC then Inr ([], s)
          else if c \<noteq> CHR ''%'' then res_bind (dequote_chars t) (\<lambda>(k, r). Inr (c # k, r))
          else res_bind (getHex t) (\<lambda>h. res_bind (dequote_chars (drop 2 t)) (\<lambda>(k, r). Inr (chr h # k, r))))"
  by pat_completeness auto
termination by (relation "measure length") auto

declare dequote_chars.simps [simp del]

text \<open>The key is a C string: it ends at the first nul, which \<open>%00\<close> can put into it.\<close>

definition dequoteKey :: "cstr \<Rightarrow> (cstr \<times> cstr) res" where
  "dequoteKey str =
     (if str = [] \<or> hd str = SPC then Inl Rejected
      else res_bind (dequote_chars str) (\<lambda>(k, r). Inr (takeWhile (\<lambda>c. c \<noteq> NUL) k, r)))"

text \<open>The fields of a node, each but the last followed by a space.\<close>

fun dequote_fields :: "nat \<Rightarrow> cstr \<Rightarrow> (int list \<times> cstr) res" where
  "dequote_fields 0 s = Inr ([], s)"
| "dequote_fields (Suc n) s =
     res_bind (dequoteSInt s) (\<lambda>(x, s1).
     if n = 0 then Inr ([x], s1)
     else res_bind (expect SPC s1) (\<lambda>s2. res_bind (dequote_fields n s2) (\<lambda>(xs, s3). Inr (x # xs, s3))))"

definition dequoteNode :: "cstr \<Rightarrow> (patrie_node \<times> cstr) res" where
  "dequoteNode str =
     res_bind (dequoteULong str) (\<lambda>(v, s).
     res_bind (expect SPC s) (\<lambda>s1.
     res_bind (dequote_fields 8 s1) (\<lambda>(xs, s2).
       Inr (\<lparr>pn_val = uint v, pn_is_skip = xs ! 0, pn_lev = xs ! 1, pn_height = xs ! 2, pn_pos = xs ! 3,
             pn_inode = xs ! 4, pn_enode = xs ! 5, pn_tnode = xs ! 6, pn_pageNum = xs ! 7\<rparr>, s2))))"

text \<open>
  \<open>dequoteStack\<close> fills an array for \<open>room\<close> elements, the size of the block that was allocated,
  and stops after \<open>nelts\<close> elements; the allocated size is \<open>nelts * sizeof(struct patrie_node)\<close>
  modulo \<open>2^32\<close>.  A node whose place is not inside the block counts as \<open>Undefined\<close> from its
  first field on.
\<close>

definition node_size :: nat where
  "node_size = 36"

definition node_room :: "int \<Rightarrow> nat" where
  "node_room nelts = as_ulong (nelts * int node_size) div node_size"

fun dequote_nodes :: "nat \<Rightarrow> nat \<Rightarrow> cstr \<Rightarrow> (patrie_node list \<times> cstr) res" where
  "dequote_nodes room 0 s = Inr ([], s)"
| "dequote_nodes room (Suc n) s =
     (if room = 0 then Inl Undefined
      else res_bind (dequoteNode s) (\<lambda>(nd, s1).
           if n = 0 then Inr ([nd], s1)
           else res_bind (expect SPC s1) (\<lambda>s2.
                res_bind (dequote_nodes (room - 1) n s2) (\<lambda>(nds, s3). Inr (nd # nds, s3)))))"

definition dequoteStack :: "int \<Rightarrow> cstr \<Rightarrow> (patrie_node list \<times> cstr) res" where
  "dequoteStack nelts s = dequote_nodes (node_room nelts) (nat nelts) s"

definition patrieSetStateFromString :: "cstr \<Rightarrow> patrie_state res" where
  "patrieSetStateFromString str =
     res_bind (dequoteSInt str) (\<lambda>(top, s1).
     res_bind (expect SPC s1) (\<lambda>s2.
     if top = INT_MAX then Inl Undefined
     else
     res_bind (if 0 < top + 1 then dequoteStack (top + 1) s2 else Inr ([], s2)) (\<lambda>(nds, s3).
     res_bind (expect SPC s3) (\<lambda>s4.
     res_bind (if s4 = [] \<or> hd s4 \<noteq> SPC then map_sum id (map_prod Some id) (dequoteKey s4) else Inr (None, s4)) (\<lambda>(key, s5).
     res_bind (expect SPC s5) (\<lambda>s6.
     res_bind (dequoteSInt s6) (\<lambda>(m, s7).
     res_bind (expect SPC s7) (\<lambda>s8.
     res_bind (dequoteSInt s8) (\<lambda>(f, s9).
     if s9 \<noteq> [] then Inl Rejected
     else Inr \<lparr>ps_top = top, ps_nelts = top + 1, ps_nodes = nds, ps_key = key, ps_match = m, ps_first = f\<rparr>)))))))))"

subsection \<open>Numbers\<close>

lemma as_ulong_less: "as_ulong n < 4294967296"
proof -
  have "unat (word_of_int n :: u32) < 2 ^ LENGTH(32)" by (rule unsigned_less)
  then show ?thesis by (simp add: as_ulong_def)
qed

lemma quote_digits_length: "length (quote_digits n) = (if n < 94 then 1 else Suc (length (quote_digits (n div 94))))"
  by (subst quote_digits.simps) auto

lemma quote_digits_space: "n < 4294967296 \<Longrightarrow> length (quote_digits n) = rep_index n maxrep + 1"
  using quote_digits_length [of n] quote_digits_length [of "n div 94"] quote_digits_length [of "n div 94 div 94"]
    quote_digits_length [of "n div 94 div 94 div 94"] quote_digits_length [of "n div 94 div 94 div 94 div 94"]
  by (auto simp: maxrep_def div_mult2_eq [symmetric] split: if_splits)

lemma quoteNumber_space: "length (quoteNumber n) = numberSpace n"
  by (simp add: quoteNumber_def numberSpace_def quote_digits_space as_ulong_less)

lemma quote_digits_chars: "c \<in> set (quote_digits n) \<Longrightarrow> 33 \<le> ord c \<and> ord c \<le> 126"
proof (induction n rule: quote_digits.induct)
  case (1 n)
  have "33 + n mod 94 < 127" using mod_less_divisor [of 94 n] by simp
  with 1 show ?case by (subst (asm) (2) quote_digits.simps) (auto split: if_splits)
qed

definition ends_field :: "cstr \<Rightarrow> bool" where
  "ends_field r = (r = [] \<or> hd r = SPC)"

lemma ends_field_simps [simp]: "ends_field []" "ends_field (c # r) \<longleftrightarrow> c = SPC"
  by (simp_all add: ends_field_def)

lemma SPC_ord: "ord SPC = 32" by (simp add: ord_def)

lemma digit_char: "chr (33 + n mod 94) \<noteq> SPC" "schar (chr (33 + n mod 94)) - 33 = int (n mod 94)"
proof -
  have "ord (chr (33 + n mod 94)) = 33 + n mod 94"
    using mod_less_divisor [of 94 n] by (intro ord_chr_less) linarith
  moreover have "33 + n mod 94 < 127" using mod_less_divisor [of 94 n] by linarith
  moreover from calculation have "chr (33 + n mod 94) = SPC \<Longrightarrow> 33 + n mod 94 = 32" using SPC_ord by metis
  ultimately show "chr (33 + n mod 94) \<noteq> SPC" "schar (chr (33 + n mod 94)) - 33 = int (n mod 94)"
    by (auto simp: schar_def)
qed

lemma dequote_digits_quote:
  "ends_field r \<Longrightarrow> dequote_digits n mult (quote_digits m @ r) = (n + mult * of_nat m, r)"
proof (induction m arbitrary: n mult rule: quote_digits.induct)
  case (1 m)
  have step: "dequote_digits n mult (chr (33 + m mod 94) # s) = dequote_digits (n + of_nat (m mod 94) * mult) (mult * 94) s" for s
    by (simp only: dequote_digits.simps digit_char if_False of_int_of_nat_eq)
  have m: "of_nat m = (of_nat (m mod 94) + 94 * of_nat (m div 94) :: u32)"
    by (metis mod_mult_div_eq of_nat_add of_nat_mult of_nat_numeral)
  show ?case
  proof (cases "0 < m div 94")
    case True
    with 1 show ?thesis
      by (subst quote_digits.simps) (simp add: step m algebra_simps del: dequote_digits.simps)
  next
    case False
    then have "m mod 94 = m" by simp
    moreover have "dequote_digits n' mult' r = (n', r)" for n' mult'
      using 1(2) by (cases r) auto
    ultimately show ?thesis using False step [of r] by (subst quote_digits.simps) (simp add: algebra_simps del: dequote_digits.simps)
  qed
qed

lemma dequoteULong_quote:
  assumes "ends_field r"
  shows "dequoteULong (quoteNumber n @ r) = Inr (word_of_int n, r)"
proof -
  have "quoteNumber n \<noteq> []" unfolding quoteNumber_def by (subst quote_digits.simps) simp
  then show ?thesis
    using dequote_digits_quote [OF assms, of 0 1 "as_ulong n"]
    by (simp add: dequoteULong_def quoteNumber_def) (simp add: as_ulong_def)
qed

text \<open>The range of \<open>int\<close>, in which a number survives the conversions.\<close>

definition int_range :: "int \<Rightarrow> bool" where
  "int_range n = (- 2147483648 \<le> n \<and> n \<le> 2147483647)"

lemma dequoteSInt_quote:
  assumes "ends_field r" "int_range n"
  shows "dequoteSInt (quoteNumber n @ r) = Inr (n, r)"
proof -
  have "sint (word_of_int n :: u32) = n"
    using assms(2) by (simp add: signed_of_int signed_take_bit_int_eq_self int_range_def)
  then show ?thesis by (simp add: dequoteSInt_def dequoteULong_quote [OF assms(1)])
qed

subsection \<open>Keys\<close>

lemma hex_digit: "i < 16 \<Longrightarrow> strchr hex_digits (hex_digits ! i) = Some (drop i hex_digits)"
  by (simp add: hex_digits_def less_Suc_eq numeral_eq_Suc) (elim disjE; simp)

lemma hex_length: "length hex_digits = 22" by (simp add: hex_digits_def)

lemma getHex_quote:
  assumes "i < 16" "j < 16"
  shows "getHex (hex_digits ! i # hex_digits ! j # s) = Inr (i * 16 + j)"
  using assms by (simp add: getHex_def hex_digit hex_length)

lemma quoteKey_length: "length (quoteKey key) = keySpace key"
  by (induction key) (auto simp: keySpace_def)

lemma dequote_chars_quote:
  "ends_field r \<Longrightarrow> dequote_chars (quoteKey key @ r) = Inr (key, r)"
proof (induction key)
  case Nil
  then show ?case by (subst dequote_chars.simps) (cases r; simp)
next
  case (Cons c key)
  have d: "ord c div 16 < 16" "ord c mod 16 < 16" using ord_less [of c] by (simp_all add: less_mult_imp_div_less)
  have b: "ord c div 16 * 16 + ord c mod 16 = ord c" by simp
  show ?case
  proof (cases "MUST_QUOTE_CH c")
    case True
    with Cons show ?thesis
      by (subst dequote_chars.simps) (simp add: getHex_quote [OF d] b)
  next
    case False
    then have "c \<noteq> SPC" "c \<noteq> CHR ''%''" by (auto simp: MUST_QUOTE_CH_def SPC_ord)
    with Cons False show ?thesis by (subst dequote_chars.simps) simp
  qed
qed

lemma quoteKey_ne: "key \<noteq> [] \<Longrightarrow> quoteKey key \<noteq> [] \<and> hd (quoteKey key) \<noteq> SPC"
  by (cases key) (auto simp: MUST_QUOTE_CH_def SPC_ord)

lemma dequoteKey_quote:
  assumes "key \<noteq> []" "is_cstr key" "ends_field r"
  shows "dequoteKey (quoteKey key @ r) = Inr (key, r)"
proof -
  have "takeWhile (\<lambda>c. c \<noteq> NUL) key = key" using assms(2) by (auto simp: is_cstr_def takeWhile_eq_all_conv)
  then show ?thesis
    using quoteKey_ne [OF assms(1)] dequote_chars_quote [OF assms(3), of key] by (simp add: dequoteKey_def)
qed

subsection \<open>Nodes\<close>

definition node_range :: "patrie_node \<Rightarrow> bool" where
  "node_range nd = (0 \<le> pn_val nd \<and> pn_val nd < 4294967296 \<and>
     list_all int_range [pn_is_skip nd, pn_lev nd, pn_height nd, pn_pos nd, pn_inode nd, pn_enode nd, pn_tnode nd, pn_pageNum nd])"

lemma expect_Cons [simp]: "expect c (c # s) = Inr s"
  by (simp add: expect_def)

lemma quoteNode_space: "length (quoteNode nd) = nodeSpace nd"
  by (simp add: quoteNode_def nodeSpace_def quoteNumber_space)

lemma dequoteNode_quote:
  assumes "node_range nd" "ends_field r"
  shows "dequoteNode (quoteNode nd @ r) = Inr (nd, r)"
proof -
  have "uint (word_of_int (pn_val nd) :: u32) = pn_val nd"
    using assms(1) by (simp add: node_range_def unsigned_of_int take_bit_int_eq_self)
  with assms show ?thesis
    by (simp add: dequoteNode_def quoteNode_def node_range_def dequoteULong_quote dequoteSInt_quote
        numeral_eq_Suc)
qed

lemma quote_nodes_length:
  "nds \<noteq> [] \<Longrightarrow> int (length (quote_nodes nds)) = (\<Sum>nd\<leftarrow>nds. int (nodeSpace nd)) + int (length nds) - 1"
  by (induction nds rule: quote_nodes.induct) (auto simp: quoteNode_space)

lemma dequote_nodes_quote:
  assumes "nds \<noteq> []" "list_all node_range nds" "length nds \<le> room" "ends_field r"
  shows "dequote_nodes room (length nds) (quote_nodes nds @ r) = Inr (nds, r)"
  using assms
proof (induction nds arbitrary: room rule: quote_nodes.induct)
  case (3 nd nd' nds)
  then obtain room' where "room = Suc room'" by (cases room) auto
  with 3 show ?case by (simp add: dequoteNode_quote)
qed (auto simp: dequoteNode_quote)

subsection \<open>States\<close>

text \<open>What the search keeps: its fields are in range and the stack fits into 32-bit sizes.\<close>

definition state_range :: "patrie_state \<Rightarrow> bool" where
  "state_range st = (state_inv st \<and> (ps_top st + 1) * int node_size < 4294967296 \<and>
     list_all node_range (ps_nodes st) \<and> int_range (ps_match st) \<and> int_range (ps_first st) \<and>
     (case ps_key st of None \<Rightarrow> True | Some k \<Rightarrow> is_cstr k))"

lemma used_nodes_length: "state_inv st \<Longrightarrow> int (length (used_nodes st)) = ps_top st + 1"
  by (auto simp: used_nodes_def state_inv_def)

lemma quoteState_space:
  assumes "state_inv st"
  shows "int (length (quoteState st)) = stateSpace st"
proof -
  have "0 \<le> ps_top st \<Longrightarrow> used_nodes st \<noteq> []"
    using used_nodes_length [OF assms] by (cases "used_nodes st") auto
  then have "0 \<le> ps_top st \<Longrightarrow> int (length (quoteStack st)) = stackSpace st"
    using used_nodes_length [OF assms] by (simp add: quoteStack_def stackSpace_def quote_nodes_length)
  then show ?thesis
    by (cases "ps_key st") (auto simp: quoteState_def stateSpace_def quoteNumber_space quoteKey_length)
qed

lemma as_ulong_nat: "0 \<le> n \<Longrightarrow> n < 4294967296 \<Longrightarrow> as_ulong n = nat n"
  unfolding as_ulong_def unsigned_of_int by (simp add: take_bit_int_eq_self)

lemma node_room: "0 \<le> n \<Longrightarrow> n * int node_size < 4294967296 \<Longrightarrow> node_room n = nat n"
  by (simp add: node_room_def as_ulong_nat node_size_def nat_mult_distrib del: of_nat_numeral)

lemma dequoteStack_quote:
  assumes "state_range st" "0 \<le> ps_top st" "ends_field r"
  shows "dequoteStack (ps_top st + 1) (quoteStack st @ r) = Inr (used_nodes st, r)"
proof -
  have inv: "state_inv st" using assms(1) by (simp add: state_range_def)
  have n: "int (length (used_nodes st)) = ps_top st + 1" using used_nodes_length [OF inv] .
  then have "length (used_nodes st) = nat (ps_top st + 1)" "used_nodes st \<noteq> []" using assms(2) by (auto simp: nat_eq_iff)
  moreover have "node_room (ps_top st + 1) = nat (ps_top st + 1)"
    using assms by (intro node_room) (auto simp: state_range_def)
  moreover have "list_all node_range (used_nodes st)"
    using assms(1) by (auto simp: state_range_def used_nodes_def list_all_iff dest: in_set_takeD)
  ultimately show ?thesis
    using dequote_nodes_quote [of "used_nodes st" "length (used_nodes st)" r] assms(3)
    by (simp add: dequoteStack_def quoteStack_def)
qed

text \<open>What a state is after the way to the client and back.\<close>

definition restored :: "patrie_state \<Rightarrow> patrie_state" where
  "restored st = st\<lparr>ps_nelts := ps_top st + 1, ps_nodes := used_nodes st,
     ps_key := (if ps_key st = Some [] then None else ps_key st)\<rparr>"

lemma restored_simps [simp]:
  "state_inv st \<Longrightarrow> state_inv (restored st)"
  "state_stack (restored st) = state_stack st"
  by (auto simp: restored_def state_inv_def state_stack_def used_nodes_def)

lemma key_ends: "ps_key st = Some k \<Longrightarrow> k \<noteq> [] \<Longrightarrow> quoteKey k @ r \<noteq> [] \<and> hd (quoteKey k @ r) \<noteq> SPC"
  using quoteKey_ne [of k] by simp

lemma set_get_state:
  assumes "state_range st"
  shows "patrieSetStateFromString (quoteState st) = Inr (restored st)"
proof -
  have r: "int_range (ps_top st)" "int_range (ps_match st)" "int_range (ps_first st)" "ps_top st \<noteq> INT_MAX" "- 1 \<le> ps_top st"
    using assms by (auto simp: state_range_def state_inv_def int_range_def node_size_def INT_MAX_def)
  let ?stk = "if 0 \<le> ps_top st then quoteStack st else []"
  let ?key = "case ps_key st of None \<Rightarrow> [] | Some k \<Rightarrow> quoteKey k"
  let ?t1 = "quoteNumber (ps_match st) @ SPC # quoteNumber (ps_first st)"
  have stk: "(if 0 < ps_top st + 1 then dequoteStack (ps_top st + 1) (?stk @ SPC # u) else Inr ([], ?stk @ SPC # u))
      = Inr (used_nodes st, SPC # u)" for u
    using dequoteStack_quote [OF assms, of "SPC # u"] r(5) by (auto simp: used_nodes_def)
  have key: "(if ?key @ SPC # ?t1 = [] \<or> hd (?key @ SPC # ?t1) \<noteq> SPC
        then map_sum id (map_prod Some id) (dequoteKey (?key @ SPC # ?t1)) else Inr (None, ?key @ SPC # ?t1))
      = Inr (if ps_key st = Some [] then None else ps_key st, SPC # ?t1)"
    using assms dequoteKey_quote [of "the (ps_key st)" "SPC # ?t1"] quoteKey_ne [of "the (ps_key st)"]
    by (cases "ps_key st") (auto simp: state_range_def)
  have last: "dequoteSInt (quoteNumber (ps_first st)) = Inr (ps_first st, [])"
    using dequoteSInt_quote [of "[]" "ps_first st"] r by simp
  show ?thesis
    unfolding patrieSetStateFromString_def quoteState_def
    using r stk key last by (simp add: dequoteSInt_quote restored_def)
qed

subsection \<open>Properties\<close>


definition sample_node :: patrie_node where
  "sample_node = \<lparr>pn_val = 12, pn_is_skip = 1, pn_lev = 3, pn_height = 94, pn_pos = 9120, pn_inode = 2,
     pn_enode = 0, pn_tnode = 4, pn_pageNum = 7\<rparr>"

definition sample_state :: patrie_state where
  "sample_state = \<lparr>ps_top = 0, ps_nelts = 2, ps_nodes = [sample_node, sample_node], ps_key = Some ''100% x'',
     ps_match = 3, ps_first = 1\<rparr>"


text \<open>
  C18.  The four operations on the stack of a search keep its array and indices consistent and
  act as on a list: a push puts a node on top, a pop takes it off, emptiness is what it says,
  and a reset empties the stack.
\<close>
theorem state_stack_refines:
  assumes "state_inv st"
  shows "patrieStateEmpty st = (state_stack st = []) \<and>
    (\<exists>st'. patrieStatePush nd st = Inr st' \<and> state_inv st' \<and> state_stack st' = nd # state_stack st) \<and>
    (case state_stack st of
       [] \<Rightarrow> patrieStatePop st = Inl Aborted
     | n # ns \<Rightarrow> \<exists>st'. patrieStatePop st = Inr (n, st') \<and> state_inv st' \<and> state_stack st' = ns) \<and>
    state_inv (patrieStateResetStack st) \<and> state_stack (patrieStateResetStack st) = []"
proof -
  have "\<exists>st'. patrieStatePush nd st = Inr st' \<and> state_inv st' \<and> state_stack st' = nd # state_stack st"
    using patrieStatePush_stack [OF assms, of nd] by metis
  moreover have "case state_stack st of [] \<Rightarrow> patrieStatePop st = Inl Aborted
      | n # ns \<Rightarrow> \<exists>st'. patrieStatePop st = Inr (n, st') \<and> state_inv st' \<and> state_stack st' = ns"
  proof (cases "state_stack st")
    case Nil
    then show ?thesis using state_stack_empty [OF assms] by (simp add: patrieStatePop_def)
  next
    case (Cons n ns)
    then show ?thesis using patrieStatePop_stack [OF assms Cons] by fastforce
  qed
  moreover have "state_inv (patrieStateResetStack st) \<and> state_stack (patrieStateResetStack st) = []"
    using assms by (simp add: state_inv_def state_stack_def patrieStateResetStack_def)
  ultimately show ?thesis using state_stack_empty [OF assms] by blast
qed

theorem state_stack_refines_witness:
  "patrieStateEmpty sample_state = (state_stack sample_state = []) \<and>
   state_stack (patrieStateResetStack sample_state) = []"
proof -
  have "state_inv sample_state" by code_simp
  from state_stack_refines [OF this, of sample_node] show ?thesis by blast
qed

lemma dequote_nodes_no_room: "0 < n \<Longrightarrow> dequote_nodes 0 n s = Inl Undefined"
  by (cases n) auto

text \<open>
  C20.  Text that did not come from a state is not safe to read: a \<open>top\<close> of 119304647 makes the
  size of the array wrap around, and storing the first node already writes behind it; a key that
  ends in a percent sign reads behind a table; and a \<open>top\<close> of -2 is accepted, a state that is
  neither empty nor has an element to pop.
\<close>
theorem forged_state_strings:
  "patrieSetStateFromString (quoteNumber 119304647 @ SPC # quoteNode sample_node) = Inl Undefined \<and>
   patrieSetStateFromString (quoteNumber (- 1) @ SPC # SPC # ''%'') = Inl Undefined \<and>
   (\<exists>st. patrieSetStateFromString (quoteNumber (- 2) @ SPC # SPC # SPC # quoteNumber 0 @ SPC # quoteNumber 0) = Inr st \<and>
         \<not> patrieStateEmpty st \<and> patrieStatePop st = Inl Undefined)"
proof -
  have "node_room 119304648 = 0"
    by (simp add: node_room_def as_ulong_def node_size_def)
  moreover have "dequote_nodes 0 (nat 119304648) s = Inl Undefined" for s
    by (rule dequote_nodes_no_room) simp
  ultimately have "patrieSetStateFromString (quoteNumber 119304647 @ SPC # quoteNode sample_node) = Inl Undefined"
    by (simp add: patrieSetStateFromString_def dequoteSInt_quote int_range_def INT_MAX_def dequoteStack_def del: nat_numeral)
  moreover have "dequoteKey ''%'' = Inl Undefined" by code_simp
  then have "patrieSetStateFromString (quoteNumber (- 1) @ SPC # SPC # ''%'') = Inl Undefined"
    by (simp add: patrieSetStateFromString_def dequoteSInt_quote int_range_def INT_MAX_def)
  ultimately show ?thesis
    by (simp add: patrieSetStateFromString_def dequoteSInt_quote int_range_def patrieStatePop_def
        patrieStateEmpty_def dequoteSInt_quote [of "[]", simplified] INT_MAX_def)
qed

text \<open>
  \<open>patrieQuoteKey\<close> hands out the end of the text it wrote instead of its beginning: whatever
  the key, the caller sees the empty string, which \<open>patrieDequoteKey\<close> rejects.
\<close>
theorem quoted_key_lost:
  "patrieQuoteKey key = Inr [] \<and> dequoteKey [] = Inl Rejected"
  by (simp add: patrieQuoteKey_def quoteKey_length dequoteKey_def)

end
