(* ===== verification/PatrieStack.thy ===== *)
theory PatrieStack
  imports PatrieState
begin

section \<open>Patricia trie: the stacks of the build\<close>

text \<open>
  Models \<open>int_stack.c\<close> and \<open>ptr_stack.c\<close> of \<open>archie/lib/patrie\<close>.  An \<open>int_stack\<close> is an
  array of fixed size with the index of its first free element.  A \<open>ptr_stack\<close> is a chain
  of malloced elements; \<open>mergePtrStack\<close> walks down two chains at once, merges the data of the
  elements at the same depth into the first chain and frees those of the second, and hangs
  what is left of the second chain under the first.

  The interface \<open>lifo\<close> is what the users of a stack rely on; both stacks and the stack of a
  search (\<open>state.c\<close>) provide it.
\<close>

subsection \<open>The interface\<close>

locale lifo =
  fixes push :: "'a \<Rightarrow> 's \<Rightarrow> 's res"
    and pop :: "'s \<Rightarrow> ('a \<times> 's) res"
    and is_empty :: "'s \<Rightarrow> bool"
    and rep :: "'s \<Rightarrow> 'a list \<Rightarrow> bool"
    and limit :: nat
  assumes push_law: "rep s xs \<Longrightarrow> length xs < limit \<Longrightarrow> \<exists>s'. push x s = Inr s' \<and> rep s' (x # xs)"
    and pop_law: "rep s (x # xs) \<Longrightarrow> \<exists>s'. pop s = Inr (x, s') \<and> rep s' xs"
    and pop_empty_law: "rep s [] \<Longrightarrow> pop s = Inl Aborted"
    and is_empty_law: "rep s xs \<Longrightarrow> is_empty s \<longleftrightarrow> xs = []"
begin

fun push_all :: "'a list \<Rightarrow> 's \<Rightarrow> 's res" where
  "push_all [] s = Inr s"
| "push_all (x # xs) s = res_bind (push x s) (push_all xs)"

primrec pop_all :: "nat \<Rightarrow> 's \<Rightarrow> ('a list \<times> 's) res" where
  \<comment> \<open>\<open>while (!is_empty(s)) pop(s)\<close>, at most \<open>n\<close> times\<close>
  "pop_all 0 = (\<lambda>s. if is_empty s then Inr ([], s) else Inl OutOfFuel)"
| "pop_all (Suc n) = (\<lambda>s.
     if is_empty s then Inr ([], s)
     else res_bind (pop s) (\<lambda>(x, s1). res_bind (pop_all n s1) (\<lambda>(xs, s2). Inr (x # xs, s2))))"

lemma push_all_rep:
  "rep s xs \<Longrightarrow> length xs + length ys \<le> limit \<Longrightarrow> \<exists>s'. push_all ys s = Inr s' \<and> rep s' (rev ys @ xs)"
proof (induction ys arbitrary: s xs)
  case (Cons y ys)
  then obtain s1 where "push y s = Inr s1" "rep s1 (y # xs)" using push_law [of s xs y] by auto
  with Cons show ?case by fastforce
qed simp

lemma pop_all_rep: "rep s xs \<Longrightarrow> length xs \<le> n \<Longrightarrow> \<exists>s'. pop_all n s = Inr (xs, s') \<and> rep s' []"
proof (induction n arbitrary: s xs)
  case 0
  then show ?case using is_empty_law by auto
next
  case (Suc n)
  show ?case
  proof (cases xs)
    case Nil
    with Suc.prems is_empty_law show ?thesis by auto
  next
    case (Cons y ys)
    with Suc.prems obtain s1 where "pop s = Inr (y, s1)" "rep s1 ys" using pop_law by blast
    with Suc.IH [of s1 ys] Suc.prems Cons is_empty_law show ?thesis by fastforce
  qed
qed

lemma last_in_first_out:
  assumes "rep s []" "length ys \<le> limit"
  shows "\<exists>s1 s2. push_all ys s = Inr s1 \<and> pop_all (length ys) s1 = Inr (rev ys, s2) \<and> rep s2 []"
  using push_all_rep [of s "[]" ys] pop_all_rep [of _ "rev ys" "length ys"] assms by fastforce

end

interpretation search_stack: lifo patrieStatePush patrieStatePop patrieStateEmpty
  "\<lambda>st xs. state_inv st \<and> state_stack st = xs" n for n
proof (unfold_locales, goal_cases)
  case (1 s xs x)
  then show ?case using patrieStatePush_stack [of s x] by metis
next
  case (2 s x xs)
  then show ?case using patrieStatePop_stack [of s x xs] by metis
next
  case (3 s)
  then show ?case using state_stack_empty [of s] by (simp add: patrieStatePop_def)
next
  case (4 s xs)
  then show ?case using state_stack_empty [of s] by auto
qed

subsection \<open>Stacks of integers\<close>

definition INT_STACK_SZ :: int where
  "INT_STACK_SZ = 10000"

record int_stack =
  is_top :: nat
  is_arr :: "int list"     \<comment> \<open>the elements below \<open>top\<close>; those above are not initialised\<close>

definition newIntStack :: int_stack where
  "newIntStack = \<lparr>is_top = 0, is_arr = []\<rparr>"

definition isEmptyIntStack :: "int_stack \<Rightarrow> bool" where
  "isEmptyIntStack s = (is_top s = 0)"

definition popIntStack :: "int_stack \<Rightarrow> (int \<times> int_stack) res" where
  "popIntStack s =
     (if is_top s = 0 then Inl Aborted
      else let t = is_top s - 1 in
           if length (is_arr s) \<le> t then Inl Undefined else Inr (is_arr s ! t, s\<lparr>is_top := t\<rparr>))"

definition pushIntStack :: "int \<Rightarrow> int_stack \<Rightarrow> int_stack res" where
  "pushIntStack h s =
     (if INT_STACK_SZ \<le> int (is_top s) then Inl Aborted
      else Inr (s\<lparr>is_arr := take (is_top s) (is_arr s) @ h # drop (Suc (is_top s)) (is_arr s), is_top := Suc (is_top s)\<rparr>))"

definition topIntStack :: "int_stack \<Rightarrow> int res" where
  \<comment> \<open>the assertion fails on a full stack, too\<close>
  "topIntStack s =
     (if is_top s = 0 \<or> INT_STACK_SZ \<le> int (is_top s) then Inl Aborted
      else if length (is_arr s) < is_top s then Inl Undefined else Inr (is_arr s ! (is_top s - 1)))"

definition int_stack_rep :: "int_stack \<Rightarrow> int list \<Rightarrow> bool" where
  "int_stack_rep s hs = (is_top s \<le> length (is_arr s) \<and> hs = rev (take (is_top s) (is_arr s)))"

interpretation height_stack: lifo pushIntStack popIntStack isEmptyIntStack int_stack_rep "nat INT_STACK_SZ"
proof (unfold_locales, goal_cases)
  case (1 s xs x)
  then show ?case by (auto simp: int_stack_rep_def pushIntStack_def)
next
  case (2 s x xs)
  then obtain t where t: "is_top s = Suc t" "t < length (is_arr s)" by (cases "is_top s") (auto simp: int_stack_rep_def)
  with 2 show ?case by (auto simp: int_stack_rep_def popIntStack_def take_Suc_conv_app_nth)
next
  case (3 s)
  then show ?case by (auto simp: int_stack_rep_def popIntStack_def)
next
  case (4 s xs)
  then show ?case by (auto simp: int_stack_rep_def isEmptyIntStack_def)
qed

lemma int_stack_new: "int_stack_rep newIntStack []"
  by (simp add: int_stack_rep_def newIntStack_def)

lemma topIntStack_rep: "int_stack_rep s (h # hs) \<Longrightarrow> int (Suc (length hs)) < INT_STACK_SZ \<Longrightarrow> topIntStack s = Inr h"
proof -
  assume r: "int_stack_rep s (h # hs)" and l: "int (Suc (length hs)) < INT_STACK_SZ"
  from r obtain t where t: "is_top s = Suc t" "t < length (is_arr s)" by (cases "is_top s") (auto simp: int_stack_rep_def)
  with r have "h = is_arr s ! t" "length hs = t" by (auto simp: int_stack_rep_def take_Suc_conv_app_nth)
  with t l show "topIntStack s = Inr h" by (simp add: topIntStack_def)
qed

subsection \<open>Stacks of pointers\<close>

text \<open>
  The elements of all stacks live in one heap; \<open>el_fresh\<close> is the address \<open>malloc\<close> returns next.
  A stack is the pointer to its top element.
\<close>

record 'a elt =
  el_data :: 'a
  el_down :: "nat option"

record 'a elts =
  el_mem :: "nat \<rightharpoonup> 'a elt"
  el_fresh :: nat

definition newPtrStack :: "nat option" where
  "newPtrStack = None"

definition isEmptyPtrStack :: "nat option \<Rightarrow> bool" where
  "isEmptyPtrStack s = (s = None)"

definition pushPtrStack :: "'a \<Rightarrow> nat option \<times> 'a elts \<Rightarrow> (nat option \<times> 'a elts) res" where
  "pushPtrStack d = (\<lambda>(s, h).
     let p = el_fresh h
     in Inr (Some p, h\<lparr>el_mem := (el_mem h)(p \<mapsto> \<lparr>el_data = d, el_down = s\<rparr>), el_fresh := Suc p\<rparr>))"

definition popPtrStack :: "nat option \<times> 'a elts \<Rightarrow> ('a \<times> nat option \<times> 'a elts) res" where
  "popPtrStack = (\<lambda>(s, h).
     case s of
       None \<Rightarrow> Inl Aborted
     | Some p \<Rightarrow>
         (case el_mem h p of
            None \<Rightarrow> Inl Undefined
          | Some e \<Rightarrow> Inr (el_data e, el_down e, h\<lparr>el_mem := (el_mem h)(p := None)\<rparr>)))"

definition topPtrStack :: "nat option \<times> 'a elts \<Rightarrow> 'a res" where
  "topPtrStack = (\<lambda>(s, h).
     case s of
       None \<Rightarrow> Inl Aborted
     | Some p \<Rightarrow> (case el_mem h p of None \<Rightarrow> Inl Undefined | Some e \<Rightarrow> Inr (el_data e)))"

text \<open>The loops walk along \<open>down\<close>; on a cyclic chain they do not end, which is \<open>None\<close>.\<close>

partial_function (option) size_loop :: "nat option \<Rightarrow> 'a elts \<Rightarrow> nat \<Rightarrow> nat res option" where
  "size_loop p h n =
     (case p of
        None \<Rightarrow> Some (Inr n)
      | Some a \<Rightarrow> (case el_mem h a of None \<Rightarrow> Some (Inl Undefined) | Some e \<Rightarrow> size_loop (el_down e) h (Suc n)))"

definition sizePtrStack :: "nat option \<times> 'a elts \<Rightarrow> nat res option" where
  "sizePtrStack = (\<lambda>(s, h). size_loop s h 0)"

text \<open>
  \<open>merge\<close> works on a state of its own (files and counters).  The result is where the loop
  stops in either chain, the element before in the first chain, and the heap.
\<close>

partial_function (option) merge_loop ::
  "('a \<Rightarrow> 'a \<Rightarrow> 'u \<Rightarrow> ('a \<times> 'u) res) \<Rightarrow> nat option \<Rightarrow> nat option \<Rightarrow> nat option \<Rightarrow> 'a elts \<Rightarrow> 'u
     \<Rightarrow> (nat option \<times> nat option \<times> 'a elts \<times> 'u) res option" where
  "merge_loop merge curr0 curr1 prev0 h u =
     (case (curr0, curr1) of
        (Some a, Some b) \<Rightarrow>
          (case (el_mem h a, el_mem h b) of
             (Some e0, Some e1) \<Rightarrow>
               (case merge (el_data e0) (el_data e1) u of
                  Inl f \<Rightarrow> Some (Inl f)
                | Inr (d, u') \<Rightarrow>
                    merge_loop merge (el_down e0) (el_down e1) (Some a)
                      (h\<lparr>el_mem := ((el_mem h)(a \<mapsto> e0\<lparr>el_data := d\<rparr>))(b := None)\<rparr>) u')
           | _ \<Rightarrow> Some (Inl Undefined))
      | _ \<Rightarrow> Some (Inr (curr1, prev0, h, u)))"

definition mergePtrStack ::
  "('a \<Rightarrow> 'a \<Rightarrow> 'u \<Rightarrow> ('a \<times> 'u) res) \<Rightarrow> nat option \<Rightarrow> nat option \<Rightarrow> 'a elts \<Rightarrow> 'u
     \<Rightarrow> (nat option \<times> nat option \<times> 'a elts \<times> 'u) res option" where
  \<comment> \<open>the tops of both stacks afterwards\<close>
  "mergePtrStack merge s0 s1 h0 u0 =
     map_option (\<lambda>r. res_bind r (\<lambda>(curr1, prev0, h, u).
         case (curr1, prev0) of
           (None, _) \<Rightarrow> Inr (s0, None, h, u)
         | (Some b, None) \<Rightarrow> Inr (Some b, None, h, u)
         | (Some b, Some p) \<Rightarrow>
             (case el_mem h p of
                None \<Rightarrow> Inl Undefined
              | Some e \<Rightarrow> Inr (s0, None, h\<lparr>el_mem := (el_mem h)(p \<mapsto> e\<lparr>el_down := Some b\<rparr>)\<rparr>, u))))
       (merge_loop merge s0 s1 s0 h0 u0)"

text \<open>The chain from a pointer: addresses and data, up to another pointer.\<close>

fun segment :: "(nat \<rightharpoonup> 'a elt) \<Rightarrow> nat option \<Rightarrow> (nat \<times> 'a) list \<Rightarrow> nat option \<Rightarrow> bool" where
  "segment m p [] q = (p = q)"
| "segment m p ((a, x) # as) q = (p = Some a \<and> (\<exists>d. m a = Some \<lparr>el_data = x, el_down = d\<rparr> \<and> segment m d as q))"

definition chain :: "(nat \<rightharpoonup> 'a elt) \<Rightarrow> nat option \<Rightarrow> (nat \<times> 'a) list \<Rightarrow> bool" where
  "chain m p as = (segment m p as None \<and> distinct (map fst as))"

definition ptr_stack_rep :: "nat option \<times> 'a elts \<Rightarrow> 'a list \<Rightarrow> bool" where
  "ptr_stack_rep = (\<lambda>(s, h) xs. \<exists>as. chain (el_mem h) s as \<and> map snd as = xs \<and> (\<forall>a\<in>dom (el_mem h). a < el_fresh h))"

lemma segment_cong: "(\<And>a. a \<in> fst ` set as \<Longrightarrow> m a = m' a) \<Longrightarrow> segment m p as q = segment m' p as q"
  by (induction as arbitrary: p) auto

lemma segment_upd: "a \<notin> fst ` set as \<Longrightarrow> segment (m(a := v)) p as q = segment m p as q"
  by (rule segment_cong) auto

lemma segment_append: "segment m p (as @ bs) q \<longleftrightarrow> (\<exists>r. segment m p as r \<and> segment m r bs q)"
  by (induction as arbitrary: p) fastforce+

lemma segment_dom: "segment m p as q \<Longrightarrow> a \<in> fst ` set as \<Longrightarrow> \<exists>e. m a = Some e"
  by (induction m p as q rule: segment.induct) auto

lemma segment_last_down:
  assumes "segment m p (as @ [(a, x)]) q" "a \<notin> fst ` set as"
  shows "segment (m(a \<mapsto> \<lparr>el_data = x, el_down = r\<rparr>)) p (as @ [(a, x)]) r"
  using assms by (auto simp: segment_append segment_upd)

lemma chain_simps [simp]:
  "chain m p [] \<longleftrightarrow> p = None"
  "chain m p ((a, x) # as) \<longleftrightarrow> p = Some a \<and> a \<notin> fst ` set as \<and> (\<exists>d. m a = Some \<lparr>el_data = x, el_down = d\<rparr> \<and> chain m d as)"
  by (auto simp: chain_def)

lemma chain_upd: "a \<notin> fst ` set as \<Longrightarrow> chain (m(a := v)) p as = chain m p as"
  by (simp add: chain_def segment_upd)

interpretation trie_stack: lifo pushPtrStack popPtrStack "\<lambda>(s, h). isEmptyPtrStack s" ptr_stack_rep n for n
proof (unfold_locales, goal_cases)
  case (1 s xs x)
  then obtain as where as: "chain (el_mem (snd s)) (fst s) as" "map snd as = xs" "\<forall>a\<in>dom (el_mem (snd s)). a < el_fresh (snd s)"
    by (auto simp: ptr_stack_rep_def)
  moreover from as have "el_fresh (snd s) \<notin> fst ` set as" by (force simp: chain_def dest: segment_dom)
  ultimately have "chain ((el_mem (snd s))(el_fresh (snd s) \<mapsto> \<lparr>el_data = x, el_down = fst s\<rparr>))
      (Some (el_fresh (snd s))) ((el_fresh (snd s), x) # as)"
    by (simp add: chain_upd)
  then have "ptr_stack_rep (Some (el_fresh (snd s)), (snd s)\<lparr>el_mem := (el_mem (snd s))(el_fresh (snd s) \<mapsto> \<lparr>el_data = x, el_down = fst s\<rparr>),
      el_fresh := Suc (el_fresh (snd s))\<rparr>) (x # xs)"
    unfolding ptr_stack_rep_def prod.case using as
    by (intro exI [of _ "(el_fresh (snd s), x) # as"] conjI) (auto simp: less_Suc_eq)
  then show ?case by (cases s) (simp add: pushPtrStack_def Let_def)
next
  case (2 s x xs)
  then obtain a as where "chain (el_mem (snd s)) (fst s) ((a, x) # as)" "map snd as = xs" "\<forall>a\<in>dom (el_mem (snd s)). a < el_fresh (snd s)"
    by (auto simp: ptr_stack_rep_def)
  then show ?case
    by (auto simp: ptr_stack_rep_def popPtrStack_def chain_upd split: prod.splits intro!: exI [of _ as])
next
  case (3 s)
  then show ?case by (auto simp: ptr_stack_rep_def popPtrStack_def)
next
  case (4 s xs)
  then show ?case by (cases s; cases xs) (auto simp: ptr_stack_rep_def isEmptyPtrStack_def)
qed

lemma size_loop_chain: "chain (el_mem h) p as \<Longrightarrow> size_loop p h n = Some (Inr (n + length as))"
  by (induction as arbitrary: p n) (subst size_loop.simps; force)+

lemma topPtrStack_rep: "ptr_stack_rep (s, h) (x # xs) \<Longrightarrow> topPtrStack (s, h) = Inr x"
  by (auto simp: ptr_stack_rep_def topPtrStack_def)

subsection \<open>Merging\<close>

text \<open>What \<open>mergePtrStack\<close> does to the lists of data.\<close>

fun merge_lists :: "('a \<Rightarrow> 'a \<Rightarrow> 'u \<Rightarrow> ('a \<times> 'u) res) \<Rightarrow> 'a list \<Rightarrow> 'a list \<Rightarrow> 'u \<Rightarrow> ('a list \<times> 'u) res" where
  "merge_lists merge [] ys u = Inr (ys, u)"
| "merge_lists merge xs [] u = Inr (xs, u)"
| "merge_lists merge (x # xs) (y # ys) u =
     res_bind (merge x y u) (\<lambda>(z, u1). res_bind (merge_lists merge xs ys u1) (\<lambda>(zs, u2). Inr (z # zs, u2)))"

text \<open>
  The loop on chains, followed by the repair of the last link.  \<open>ds\<close> are the elements of the
  first chain that are already merged, \<open>as\<close> and \<open>bs\<close> what is left of the two chains.
\<close>

definition link_rest :: "nat option \<Rightarrow> nat option \<times> nat option \<times> 'a elts \<times> 'u \<Rightarrow> (nat option \<times> nat option \<times> 'a elts \<times> 'u) res" where
  "link_rest s0 = (\<lambda>(curr1, prev0, h, u).
     case (curr1, prev0) of
       (None, _) \<Rightarrow> Inr (s0, None, h, u)
     | (Some b, None) \<Rightarrow> Inr (Some b, None, h, u)
     | (Some b, Some p) \<Rightarrow>
         (case el_mem h p of
            None \<Rightarrow> Inl Undefined
          | Some e \<Rightarrow> Inr (s0, None, h\<lparr>el_mem := (el_mem h)(p \<mapsto> e\<lparr>el_down := Some b\<rparr>)\<rparr>, u)))"

lemma mergePtrStack_link: "mergePtrStack merge s0 s1 h u = map_option (\<lambda>r. res_bind r (link_rest s0)) (merge_loop merge s0 s1 s0 h u)"
  by (simp add: mergePtrStack_def link_rest_def)

definition merged :: "nat option \<Rightarrow> 'a elts \<Rightarrow> (nat \<times> 'a) list \<Rightarrow> nat set \<Rightarrow> 'a list \<Rightarrow> 'u
    \<Rightarrow> (nat option \<times> nat option \<times> 'a elts \<times> 'u) res option \<Rightarrow> bool" where
  \<comment> \<open>the outcome is one chain of \<open>ds\<close> and then \<open>zs\<close>, at addresses of \<open>A\<close>, and the rest is as in \<open>h\<close>\<close>
  "merged s0 h ds A zs u r =
     (\<exists>s0' h' cs. r = Some (Inr (s0', None, h', u)) \<and> chain (el_mem h') s0' (ds @ cs) \<and> map snd cs = zs \<and>
        fst ` set cs \<subseteq> A \<and> el_fresh h' = el_fresh h \<and> dom (el_mem h') \<subseteq> dom (el_mem h) \<and>
        (\<forall>a. a \<notin> A \<union> fst ` set ds \<longrightarrow> el_mem h' a = el_mem h a))"

lemma merge_loop_end:
  assumes "segment (el_mem h) s0 ds None" "segment (el_mem h) q bs None"
    and "distinct (map fst (ds @ bs))" and "prev0 = (if ds = [] then s0 else Some (fst (last ds)))"
  shows "merged s0 h ds (fst ` set bs) (map snd bs) u (Some (link_rest s0 (q, prev0, h, u)))"
proof (cases bs)
  case Nil
  with assms show ?thesis
    by (auto simp: merged_def link_rest_def chain_def intro!: exI [of _ "[]"])
next
  case (Cons b bs')
  then have q: "q = Some (fst b)" using assms(2) by (cases b) auto
  show ?thesis
  proof (cases ds rule: rev_cases)
    case Nil
    with assms q show ?thesis
      by (auto simp: merged_def link_rest_def chain_def intro!: exI [of _ bs])
  next
    case (snoc ds' d)
    obtain a x where d: "d = (a, x)" by (cases d)
    have m: "el_mem h a = Some \<lparr>el_data = x, el_down = None\<rparr>"
      using assms(1) by (auto simp: snoc d segment_append)
    let ?m = "(el_mem h)(a \<mapsto> \<lparr>el_data = x, el_down = q\<rparr>)"
    have "segment ?m s0 ds q"
      using segment_last_down [of "el_mem h" s0 ds' a x None q] assms(1,3) by (simp add: snoc d)
    moreover have "segment ?m q bs None"
      using assms(2,3) by (simp add: snoc d segment_upd)
    ultimately have "chain ?m s0 (ds @ bs)"
      using assms(3) by (auto simp: chain_def segment_append)
    moreover have "link_rest s0 (q, prev0, h, u) = Inr (s0, None, h\<lparr>el_mem := ?m\<rparr>, u)"
      using q m assms(4) by (simp add: link_rest_def snoc d)
    ultimately show ?thesis
      using m by (auto simp: merged_def snoc d intro!: exI [of _ bs])
  qed
qed

lemma merge_loop_chain:
  assumes "segment (el_mem h) s0 ds p" "segment (el_mem h) p as None" "segment (el_mem h) q bs None"
    and "distinct (map fst (ds @ as @ bs))" and "prev0 = (if ds = [] then s0 else Some (fst (last ds)))"
  shows "case merge_lists merge (map snd as) (map snd bs) u of
      Inl f \<Rightarrow> merge_loop merge p q prev0 h u = Some (Inl f)
    | Inr (zs, u') \<Rightarrow> merged s0 h ds (fst ` set as \<union> fst ` set bs) zs u'
        (map_option (\<lambda>r. res_bind r (link_rest s0)) (merge_loop merge p q prev0 h u))"
  using assms
proof (induction as arbitrary: bs ds p q prev0 h u)
  case Nil
  then show ?case
    using merge_loop_end [of h s0 ds q bs prev0 u] by (subst merge_loop.simps) auto
next
  case (Cons e as)
  obtain a x where e: "e = (a, x)" by (cases e)
  show ?case
  proof (cases bs)
    case Nil
    with Cons.prems have "p = Some a" "q = None" by (auto simp: e)
    then have "merge_loop merge p q prev0 h u = Some (Inr (None, prev0, h, u))"
      by (subst merge_loop.simps) simp
    moreover have "merged s0 h ds (fst ` set (e # as)) (map snd (e # as)) u (Some (Inr (s0, None, h, u)))"
      unfolding merged_def using Cons.prems Nil
      by (intro exI [of _ s0] exI [of _ h] exI [of _ "e # as"]) (auto simp: chain_def segment_append)
    ultimately show ?thesis using Nil by (simp add: link_rest_def)
  next
    case (Cons g bs')
    obtain b y where g: "g = (b, y)" by (cases g)
    from Cons.prems obtain d0 d1 where p: "p = Some a" "q = Some b"
        "el_mem h a = Some \<lparr>el_data = x, el_down = d0\<rparr>" "el_mem h b = Some \<lparr>el_data = y, el_down = d1\<rparr>"
        "segment (el_mem h) d0 as None" "segment (el_mem h) d1 bs' None"
      by (auto simp: e g Cons)
    show ?thesis
    proof (cases "merge x y u")
      case (Inl f)
      with p show ?thesis by (subst merge_loop.simps) (simp add: e g Cons)
    next
      case (Inr r)
      obtain z u1 where r: "r = (z, u1)" by (cases r)
      let ?h = "h\<lparr>el_mem := ((el_mem h)(a \<mapsto> \<lparr>el_data = z, el_down = d0\<rparr>))(b := None)\<rparr>"
      have step: "merge_loop merge p q prev0 h u = merge_loop merge d0 d1 (Some a) ?h u1"
        using p Inr by (subst merge_loop.simps) (simp add: r)
      have "segment (el_mem ?h) s0 (ds @ [(a, z)]) d0" "segment (el_mem ?h) d0 as None" "segment (el_mem ?h) d1 bs' None"
        "distinct (map fst ((ds @ [(a, z)]) @ as @ bs'))"
        using Cons.prems p by (auto simp: e g Cons segment_append segment_upd)
      from Cons.IH [OF this, of "Some a" u1] have IH: "case merge_lists merge (map snd as) (map snd bs') u1 of
          Inl f \<Rightarrow> merge_loop merge p q prev0 h u = Some (Inl f)
        | Inr (zs, u') \<Rightarrow> merged s0 ?h (ds @ [(a, z)]) (fst ` set as \<union> fst ` set bs') zs u'
            (map_option (\<lambda>r. res_bind r (link_rest s0)) (merge_loop merge p q prev0 h u))"
        unfolding step by simp
      show ?thesis
      proof (cases "merge_lists merge (map snd as) (map snd bs') u1")
        case (Inl f)
        with IH Inr show ?thesis by (simp add: e g Cons r)
      next
        fix v assume v: "merge_lists merge (map snd as) (map snd bs') u1 = Inr v"
        obtain zs u2 where v': "v = (zs, u2)" by (cases v)
        from IH v v' obtain s0' h' cs where *:
          "map_option (\<lambda>r. res_bind r (link_rest s0)) (merge_loop merge p q prev0 h u) = Some (Inr (s0', None, h', u2))"
          "chain (el_mem h') s0' ((ds @ [(a, z)]) @ cs)" "map snd cs = zs" "fst ` set cs \<subseteq> fst ` set as \<union> fst ` set bs'"
          "el_fresh h' = el_fresh ?h" "dom (el_mem h') \<subseteq> dom (el_mem ?h)"
          "\<forall>c. c \<notin> fst ` set as \<union> fst ` set bs' \<union> fst ` set (ds @ [(a, z)]) \<longrightarrow> el_mem h' c = el_mem ?h c"
          by (auto simp: merged_def)
        have "merged s0 h ds (fst ` set ((a, x) # as) \<union> fst ` set ((b, y) # bs')) (z # zs) u2
            (map_option (\<lambda>r. res_bind r (link_rest s0)) (merge_loop merge p q prev0 h u))"
          unfolding merged_def *(1)
          using *(2-) p(3) by (intro exI [of _ s0'] exI [of _ h'] exI [of _ "(a, z) # cs"]) (auto simp: dom_def split: if_splits)
        with v v' Inr show ?thesis by (simp add: e g Cons r)
      qed
    qed
  qed
qed

subsection \<open>Properties\<close>

text \<open>
  C15.  Merging two disjoint stacks ends, touches no other stack and follows no dangling pointer:
  the first stack then holds the data of both, merged from the top as far as both are deep and
  continued with the rest of the deeper one, and the second stack is empty.  Where the merging
  of two elements fails, so does the whole.
\<close>
theorem mergePtrStack_refines:
  assumes "chain (el_mem h) s0 as" "chain (el_mem h) s1 bs" "fst ` set as \<inter> fst ` set bs = {}"
  shows "case merge_lists merge (map snd as) (map snd bs) u of
      Inl f \<Rightarrow> mergePtrStack merge s0 s1 h u = Some (Inl f)
    | Inr (zs, u') \<Rightarrow> \<exists>s0' h' cs.
        mergePtrStack merge s0 s1 h u = Some (Inr (s0', newPtrStack, h', u')) \<and>
        chain (el_mem h') s0' cs \<and> map snd cs = zs \<and> dom (el_mem h') \<subseteq> dom (el_mem h) \<and>
        (\<forall>a. a \<notin> fst ` set as \<union> fst ` set bs \<longrightarrow> el_mem h' a = el_mem h a)"
proof -
  have "case merge_lists merge (map snd as) (map snd bs) u of
      Inl f \<Rightarrow> merge_loop merge s0 s1 s0 h u = Some (Inl f)
    | Inr (zs, u') \<Rightarrow> merged s0 h [] (fst ` set as \<union> fst ` set bs) zs u'
        (map_option (\<lambda>r. res_bind r (link_rest s0)) (merge_loop merge s0 s1 s0 h u))"
    using assms by (intro merge_loop_chain) (auto simp: chain_def)
  then show ?thesis
    by (auto simp: mergePtrStack_link merged_def newPtrStack_def split: sum.splits)
qed

definition sample_elts :: "nat elts" where
  "sample_elts = \<lparr>el_mem = [1 \<mapsto> \<lparr>el_data = 10, el_down = None\<rparr>, 2 \<mapsto> \<lparr>el_data = 20, el_down = Some 3\<rparr>,
     3 \<mapsto> \<lparr>el_data = 30, el_down = None\<rparr>], el_fresh = 4\<rparr>"

theorem mergePtrStack_refines_witness:
  "\<exists>s0' h' cs. mergePtrStack (\<lambda>x y u. Inr (x + y, Suc u)) (Some 1) (Some 2) sample_elts 0 =
       Some (Inr (s0', newPtrStack, h', 1)) \<and> chain (el_mem h') s0' cs \<and> map snd cs = [30, 30]"
proof -
  have a: "chain (el_mem sample_elts) (Some 1) [(1, 10)]" "chain (el_mem sample_elts) (Some 2) [(2, 20), (3, 30)]"
    by (simp_all add: sample_elts_def)
  from mergePtrStack_refines [OF a, of "\<lambda>x y u. Inr (x + y, Suc u)" 0] show ?thesis
    by (simp del: chain_simps) (elim exE conjE; intro exI conjI; assumption)
qed

end
