(* ===== verification/PatrieLevels.thy ===== *)
theory PatrieLevels
  imports PatrieStack
begin

section \<open>Patricia trie: from the infix file to the levels file\<close>

text \<open>
  Models \<open>archie/lib/patrie/levels.c\<close> and the routines of \<open>page.c\<close> that read its result.
  The infix file lists the trie from left to right: a start (an external node, a position of
  the text) as a negative number, and between two starts the height of their common ancestor.
  \<open>_patrieLevelBuild\<close> reads it once and combines tries on a stack, driven by a stack of heights.
  A trie in the making is a stack of levels; a level is one page of nodes in memory and, when it
  has outgrown that page, a chain of pages in the levels file, linked by block number nodes.
  Two tries are merged level by level.

  The levels file is the list of its 32-bit cells; a node takes one cell, its type in the upper
  two bits.  Sizes and positions are counted in cells.  Stacks of pointers are lists here (top
  first), which \<open>PatrieStack\<close> justifies; counters that are only printed are left out.
\<close>

subsection \<open>Nodes and files\<close>

datatype node_type = SKIP_NODE | START_NODE | BLKNO_NODE | TERM_NODE

abbreviation HEIGHT_NODE :: node_type where "HEIGHT_NODE \<equiv> SKIP_NODE"

record Node =
  nd_type :: node_type
  nd_value :: int      \<comment> \<open>30 bits\<close>

definition mk_node :: "node_type \<Rightarrow> int \<Rightarrow> Node" where
  \<comment> \<open>assignment to the bit fields\<close>
  "mk_node t v = \<lparr>nd_type = t, nd_value = v mod 1073741824\<rparr>"

fun type_code :: "node_type \<Rightarrow> int" where
  "type_code SKIP_NODE = 0"
| "type_code START_NODE = 1"
| "type_code BLKNO_NODE = 2"
| "type_code TERM_NODE = 3"

definition code_type :: "int \<Rightarrow> node_type" where
  "code_type c = (if c = 0 then SKIP_NODE else if c = 1 then START_NODE else if c = 2 then BLKNO_NODE else TERM_NODE)"

definition enc_node :: "Node \<Rightarrow> int" where
  "enc_node n = type_code (nd_type n) * 1073741824 + nd_value n"

definition dec_node :: "int \<Rightarrow> Node" where
  "dec_node c = \<lparr>nd_type = code_type (c div 1073741824), nd_value = c mod 1073741824\<rparr>"

text \<open>Writing at a position of a file fills a hole behind its end with zeros.\<close>

definition write_at :: "nat \<Rightarrow> int list \<Rightarrow> int list \<Rightarrow> int list" where
  "write_at pos xs f = take pos f @ replicate (pos - length f) 0 @ xs @ drop (pos + length xs) f"

record level_cf =
  lc_N :: nat            \<comment> \<open>\<open>levelPageSize / sizeof(Node)\<close>\<close>
  lc_next :: nat         \<comment> \<open>\<open>nextAvailPage\<close>\<close>
  lc_file :: "int list"  \<comment> \<open>\<open>levelTrieFP\<close>\<close>
  lc_pos :: nat          \<comment> \<open>its file position\<close>

record single_level =
  sl_first :: int
  sl_page :: int
  sl_used :: nat
  sl_next :: nat
  sl_node :: "int list"

type_synonym trie_stack = "single_level list"

subsection \<open>Levels\<close>

definition newSingleLevel :: "level_cf \<Rightarrow> single_level" where
  "newSingleLevel cf = \<lparr>sl_first = - 1, sl_page = - 1, sl_used = 0, sl_next = 0, sl_node = replicate (lc_N cf) 0x7f7f7f7f\<rparr>"

definition nodeAppend :: "Node \<Rightarrow> single_level \<Rightarrow> single_level res" where
  "nodeAppend n l =
     (if length (sl_node l) \<le> sl_used l then Inl Undefined
      else Inr (l\<lparr>sl_node := (sl_node l)[sl_used l := enc_node n], sl_used := Suc (sl_used l)\<rparr>))"

text \<open>As many nodes as fit; the last cell of a page is kept for a link or the terminal node.\<close>

definition appendLevels :: "level_cf \<Rightarrow> single_level \<Rightarrow> single_level \<Rightarrow> (single_level \<times> single_level) res" where
  "appendLevels cf dst src =
     (let copy = min (int (lc_N cf) - int (sl_used dst) - 1) (int (sl_used src)); k = nat copy
      in if copy < 0 \<or> length (sl_node dst) < sl_used dst + k \<or> length (sl_node src) < sl_used src then Inl Undefined
         else Inr
           (dst\<lparr>sl_node := take (sl_used dst) (sl_node dst) @ take k (sl_node src) @ drop (sl_used dst + k) (sl_node dst),
                sl_used := sl_used dst + k\<rparr>,
            src\<lparr>sl_node := drop k (take (sl_used src) (sl_node src)) @ drop (sl_used src - k) (sl_node src),
                sl_used := sl_used src - k\<rparr>))"

definition writeTriePage :: "level_cf \<Rightarrow> single_level \<Rightarrow> single_level \<times> level_cf" where
  "writeTriePage cf l =
     (let (l1, cf1) = (if sl_page l = - 1
            then (l\<lparr>sl_page := int (lc_next cf), sl_first := int (lc_next cf)\<rparr>, cf\<lparr>lc_next := Suc (lc_next cf)\<rparr>)
            else (l, cf));
          pos = nat (sl_page l1) * lc_N cf
      in (l1\<lparr>sl_used := 0, sl_node := replicate (lc_N cf) 0\<rparr>,
          cf1\<lparr>lc_file := write_at pos (sl_node l1) (lc_file cf1), lc_pos := pos + lc_N cf\<rparr>))"

definition mergeSingleLevel :: "single_level \<Rightarrow> single_level \<Rightarrow> level_cf \<Rightarrow> (single_level \<times> level_cf) res" where
  "mergeSingleLevel left right cf =
     (if sl_first right = - 1 then
        res_bind (appendLevels cf left right) (\<lambda>(left1, right1).
        if 0 < sl_used right1 then
          let blkPtr = mk_node BLKNO_NODE (int (lc_next cf)); cf1 = cf\<lparr>lc_next := Suc (lc_next cf)\<rparr>
          in res_bind (nodeAppend blkPtr left1) (\<lambda>left2.
             let (left3, cf2) = writeTriePage cf1 left2
             in res_bind (appendLevels cf2 (left3\<lparr>sl_page := nd_value blkPtr\<rparr>) right1) (\<lambda>(left4, _). Inr (left4, cf2)))
        else Inr (left1, cf))
      else
        let blkPtr = mk_node BLKNO_NODE (sl_first right)
        in res_bind (nodeAppend blkPtr left) (\<lambda>left1.
           let (left2, cf1) = writeTriePage cf left1
           in res_bind (appendLevels cf1 (left2\<lparr>sl_page := sl_page right\<rparr>) right) (\<lambda>(left3, _). Inr (left3, cf1))))"

subsection \<open>Tries\<close>

definition cvtHeightToSkip :: "int \<Rightarrow> Node \<Rightarrow> Node res" where
  "cvtHeightToSkip currHeight n =
     (if nd_type n = HEIGHT_NODE then
        if nd_value n \<le> currHeight then Inl Aborted
        else Inr (mk_node SKIP_NODE (nd_value n - currHeight - 1))
      else Inr n)"

definition cvt_root :: "int \<Rightarrow> trie_stack \<Rightarrow> trie_stack res" where
  \<comment> \<open>\<open>cvtHeightToSkip(cf, currHeight, rootNode(levels))\<close>\<close>
  "cvt_root h ls =
     (case ls of
        [] \<Rightarrow> Inl Aborted
      | l # ls' \<Rightarrow>
          (case sl_node l of
             [] \<Rightarrow> Inl Undefined
           | c # cs \<Rightarrow> res_bind (cvtHeightToSkip h (dec_node c)) (\<lambda>n. Inr (l\<lparr>sl_node := enc_node n # cs\<rparr> # ls'))))"

definition createLevelStack :: "level_cf \<Rightarrow> Node \<Rightarrow> trie_stack res" where
  "createLevelStack cf root = res_bind (nodeAppend root (newSingleLevel cf)) (\<lambda>l. Inr [l])"

definition mergeLevelStacks :: "level_cf \<Rightarrow> Node \<Rightarrow> trie_stack \<Rightarrow> trie_stack \<Rightarrow> (trie_stack \<times> level_cf) res" where
  "mergeLevelStacks cf root left right =
     res_bind (merge_lists mergeSingleLevel left right cf) (\<lambda>(ls, cf1).
     res_bind (nodeAppend root (newSingleLevel cf1)) (\<lambda>l. Inr (l # ls, cf1)))"

definition readNode :: "int list \<Rightarrow> (Node \<times> int list) res" where
  "readNode fp =
     (case fp of
        [] \<Rightarrow> Inl Aborted
      | val # rest \<Rightarrow> Inr (mk_node (if val < 0 then START_NODE else HEIGHT_NODE) \<bar>val\<bar>, rest))"

text \<open>The inner loop of the build; the fuel is the number of heights on the stack.\<close>

definition combine :: "int_stack \<Rightarrow> trie_stack list \<Rightarrow> level_cf \<Rightarrow> (int_stack \<times> trie_stack list \<times> level_cf) res" where
  "combine hs ts cf =
     (case ts of
        right # left # ts' \<Rightarrow>
          res_bind (popIntStack hs) (\<lambda>(v, hs').
          let newNode = mk_node HEIGHT_NODE v; h = nd_value newNode in
          res_bind (cvt_root h left) (\<lambda>left'.
          res_bind (cvt_root h right) (\<lambda>right'.
          res_bind (mergeLevelStacks cf newNode left' right') (\<lambda>(t, cf').
            Inr (hs', t # ts', cf')))))
      | _ \<Rightarrow> Inl Aborted)"

fun combine_while :: "nat \<Rightarrow> Node \<Rightarrow> int_stack \<Rightarrow> trie_stack list \<Rightarrow> level_cf \<Rightarrow> (int_stack \<times> trie_stack list \<times> level_cf) res" where
  "combine_while 0 currNode hs ts cf = Inl OutOfFuel"
| "combine_while (Suc fuel) currNode hs ts cf =
     res_bind (combine hs ts cf) (\<lambda>(hs', ts', cf').
     res_bind (topIntStack hs') (\<lambda>top.
       if \<not> top \<le> nd_value currNode then combine_while fuel currNode hs' ts' cf' else Inr (hs', ts', cf')))"

fun build_loop :: "nat \<Rightarrow> int list \<Rightarrow> Node \<Rightarrow> int_stack \<Rightarrow> trie_stack list \<Rightarrow> level_cf \<Rightarrow> (int_stack \<times> trie_stack list \<times> level_cf) res" where
  "build_loop 0 fp currNode hs ts cf = Inl OutOfFuel"
| "build_loop (Suc fuel) fp currNode hs ts cf =
     (if nd_type currNode = START_NODE then
        res_bind (createLevelStack cf currNode) (\<lambda>t.
        res_bind (readNode fp) (\<lambda>(n, fp'). build_loop fuel fp' n hs (t # ts) cf))
      else
        res_bind (topIntStack hs) (\<lambda>top.
        if nd_value currNode = 0 \<and> top = 0 then
          res_bind (popIntStack hs) (\<lambda>(_, hs'). Inr (hs', ts, cf))
        else if top < nd_value currNode then
          res_bind (pushIntStack (nd_value currNode) hs) (\<lambda>hs'.
          res_bind (readNode fp) (\<lambda>(n, fp'). build_loop fuel fp' n hs' ts cf))
        else
          res_bind (combine_while (is_top hs) currNode hs ts cf) (\<lambda>(hs', ts', cf').
            build_loop fuel fp currNode hs' ts' cf')))"

text \<open>The end of the build: every level gets its terminal node and is written.\<close>

definition term_node :: Node where
  "term_node = mk_node TERM_NODE 0"

fun write_levels :: "trie_stack \<Rightarrow> level_cf \<Rightarrow> (int list \<times> level_cf) res" where
  \<comment> \<open>the page numbers \<open>first\<close>\<close>
  "write_levels [] cf = Inr ([], cf)"
| "write_levels (l # ls) cf =
     res_bind (nodeAppend term_node l) (\<lambda>l1.
     let (l2, cf1) = writeTriePage cf l1
     in res_bind (write_levels ls cf1) (\<lambda>(first, cf2). Inr (sl_first l2 # first, cf2)))"

definition patrieLevelBuild :: "int list \<Rightarrow> level_cf \<Rightarrow> level_cf res" where
  "patrieLevelBuild infix_fp cf =
     res_bind (readNode infix_fp) (\<lambda>(n0, fp0).
     res_bind (pushIntStack (nd_value n0) newIntStack) (\<lambda>hs0.
     res_bind (readNode fp0) (\<lambda>(n1, fp1).
     res_bind (build_loop (2 * length infix_fp) fp1 n1 hs0 [] cf) (\<lambda>(hs, ts, cf1).
     case ts of
       [] \<Rightarrow> Inl Aborted
     | t # ts' \<Rightarrow>
         if \<not> isEmptyIntStack hs \<or> ts' \<noteq> [] then Inl Aborted
         else res_bind (write_levels t cf1) (\<lambda>(first, cf2).
              Inr (cf2\<lparr>lc_file := write_at (lc_pos cf2) (first @ [int (length t)]) (lc_file cf2),
                       lc_pos := lc_pos cf2 + length t + 1\<rparr>))))))"

subsection \<open>Reading the levels\<close>

text \<open>The beginning of \<open>_patriePagedBuild\<close>: the number of levels and their first pages.\<close>

definition open_levels :: "level_cf \<Rightarrow> single_level list res" where
  "open_levels cf =
     (let f = lc_file cf in
      if f = [] \<or> last f < 0 \<or> int (length f) < last f + 1 then Inl Aborted
      else let n = nat (last f)
           in Inr (map (\<lambda>p. (newSingleLevel cf)\<lparr>sl_first := p\<rparr>) (take n (drop (length f - (n + 1)) f))))"

definition is_link :: "Node \<Rightarrow> bool" where
  "is_link n = (nd_type n = BLKNO_NODE \<or> nd_type n = TERM_NODE)"

fun nodes_used :: "int list \<Rightarrow> nat res" where
  \<comment> \<open>\<open>setNodesUsed\<close>\<close>
  "nodes_used [] = Inl Undefined"
| "nodes_used (c # cs) = (if is_link (dec_node c) then Inr 1 else res_bind (nodes_used cs) (\<lambda>n. Inr (Suc n)))"

definition readTriePage :: "level_cf \<Rightarrow> int \<Rightarrow> single_level \<Rightarrow> single_level res" where
  "readTriePage cf p lev =
     (let pg = take (lc_N cf) (drop (nat p * lc_N cf) (lc_file cf))
      in if p < 0 \<or> length pg \<noteq> lc_N cf then Inl Aborted
         else res_bind (nodes_used pg) (\<lambda>n. Inr (lev\<lparr>sl_node := pg, sl_page := p, sl_used := n\<rparr>)))"

fun follow_links :: "nat \<Rightarrow> level_cf \<Rightarrow> single_level \<Rightarrow> (Node \<times> single_level) res" where
  \<comment> \<open>\<open>while (node->type == BLKNO_NODE)\<close>\<close>
  "follow_links 0 cf lev = Inl OutOfFuel"
| "follow_links (Suc fuel) cf lev =
     (if length (sl_node lev) \<le> sl_next lev then Inl Undefined
      else let n = dec_node (sl_node lev ! sl_next lev)
           in if nd_type n = BLKNO_NODE
              then res_bind (readTriePage cf (nd_value n) lev) (\<lambda>lev1. follow_links fuel cf (lev1\<lparr>sl_next := 0\<rparr>))
              else Inr (n, lev))"

definition nextNode :: "level_cf \<Rightarrow> single_level \<Rightarrow> (Node option \<times> single_level) res" where
  \<comment> \<open>\<open>None\<close> is the return of 0 at the end of the level\<close>
  "nextNode cf lev =
     res_bind (if sl_used lev = 0
               then res_bind (readTriePage cf (sl_first lev) lev) (\<lambda>l. Inr (l\<lparr>sl_next := 0\<rparr>))
               else Inr lev) (\<lambda>lev0.
     res_bind (follow_links (Suc (length (lc_file cf))) cf lev0) (\<lambda>(n, lev1).
       if nd_type n = TERM_NODE then Inr (None, lev1)
       else Inr (Some n, lev1\<lparr>sl_next := Suc (sl_next lev1)\<rparr>)))"

end
