(* ===== verification/PatriePage.thy ===== *)
theory PatriePage
  imports PatrieLevels
begin

section \<open>Patricia trie: from the levels file to the paged file\<close>

text \<open>
  Models \<open>archie/lib/patrie/page.c\<close>: \<open>_patriePagedBuild\<close> and what it calls.  The levels of the trie
  are taken in groups of \<open>levelsPerPage\<close>, the deepest group first.  A node on the first level of a
  group is the root of a subtrie of that many levels; as many of these subtries as fit are packed
  into a page, level by level.  The header of a page says how many links leave the pages to
  its left, which page is the first one its own links enter, and for each child page how many
  links enter the pages to the left of that (the t-counts); that is enough to find the page and
  the place of every child.

  All counts, nodes and page numbers take one cell of 32 bits (\<open>bitsPerSkip\<close> and \<open>bitsPerStart\<close>
  are 31 whatever the caller does), and sizes are counted in cells.  An array with a count of its
  used elements is the list of these; appending to a full one is undefined.  Statistics and
  debugging output are left out, and memory is never exhausted.
\<close>

subsection \<open>Links entering the pages of a group\<close>

record page_cf =
  pc_levels :: level_cf   \<comment> \<open>\<open>levelTrieFP\<close> and \<open>levelPageSize\<close>\<close>
  pc_size :: nat          \<comment> \<open>\<open>pagedPageSize\<close>, in cells\<close>
  pc_lpp :: nat           \<comment> \<open>\<open>levelsPerPage\<close>\<close>

record top_count =
  tc_first :: int         \<comment> \<open>\<open>firstPage\<close>\<close>
  tc_left :: "int list"   \<comment> \<open>\<open>nLeftLinks\<close>\<close>

definition initTopCount :: "int \<Rightarrow> top_count" where
  "initTopCount firstPage = \<lparr>tc_first = firstPage, tc_left = []\<rparr>"

definition addTopCount :: "top_count \<Rightarrow> int \<Rightarrow> top_count" where
  "addTopCount tc n = tc\<lparr>tc_left := tc_left tc @ [n]\<rparr>"

fun scan_while :: "(int \<Rightarrow> bool) \<Rightarrow> int list \<Rightarrow> nat res" where
  \<comment> \<open>how many entries the loop passes\<close>
  "scan_while P [] = Inl Undefined"
| "scan_while P (x # xs) = (if P x then res_bind (scan_while P xs) (\<lambda>n. Inr (Suc n)) else Inr 0)"

definition firstTCountIdx :: "top_count \<Rightarrow> int \<Rightarrow> int \<Rightarrow> int res" where
  "firstTCountIdx tc startidx n =
     (if startidx < 0 then Inl Undefined
      else res_bind (scan_while (\<lambda>x. x \<le> n) (drop (nat startidx) (tc_left tc))) (\<lambda>k. Inr (startidx + int k - 1)))"

definition lastTCountIdx :: "top_count \<Rightarrow> int \<Rightarrow> int \<Rightarrow> int res" where
  "lastTCountIdx tc startidx n =
     (if startidx < 0 then Inl Undefined
      else res_bind (scan_while (\<lambda>x. x < n) (drop (nat startidx) (tc_left tc))) (\<lambda>k. Inr (startidx + int k)))"

subsection \<open>The node buffer\<close>

record node_buffer =
  nb_used :: nat                 \<comment> \<open>\<open>nBitsUsed\<close>, in cells\<close>
  nb_cells :: nat                \<comment> \<open>\<open>nBitsAllNodes\<close>, in cells\<close>
  nb_allT :: nat                 \<comment> \<open>\<open>nAllTCounts\<close>\<close>
  nb_penT :: nat                 \<comment> \<open>\<open>nPenTCounts\<close>\<close>
  nb_tCount :: "int list"        \<comment> \<open>\<open>tCount\<close>, written but never read\<close>
  nb_prev :: int                 \<comment> \<open>\<open>prevIdx\<close>\<close>
  nb_pen :: "nat list"           \<comment> \<open>\<open>nPenNodes\<close>\<close>
  nb_room :: nat                 \<comment> \<open>the size of a level's array\<close>
  nb_level :: "Node list list"   \<comment> \<open>\<open>level\<close>; \<open>nAllNodes\<close> are the lengths\<close>

definition n_child :: "Node \<Rightarrow> nat" where
  \<comment> \<open>\<open>N_CHILD_NODES\<close>\<close>
  "n_child n = (if nd_type n = SKIP_NODE then 2 else 0)"

definition count_children :: "Node list \<Rightarrow> nat" where
  "count_children ns = (\<Sum>n\<leftarrow>ns. n_child n)"

definition nodeBufferInit :: "page_cf \<Rightarrow> node_buffer" where
  "nodeBufferInit cf =
     \<lparr>nb_used = 0, nb_cells = 0, nb_allT = 0, nb_penT = 0, nb_tCount = replicate (pc_size cf + 1) 0, nb_prev = 0,
      nb_pen = replicate (pc_lpp cf) 0, nb_room = pc_size cf + 2 ^ (pc_lpp cf - 1), nb_level = replicate (pc_lpp cf) []\<rparr>"

definition nodeBufferReset :: "page_cf \<Rightarrow> node_buffer \<Rightarrow> node_buffer" where
  "nodeBufferReset cf nb =
     nb\<lparr>nb_used := 0, nb_cells := 0, nb_allT := 0, nb_penT := 0, nb_prev := 0,
        nb_pen := replicate (pc_lpp cf) 0, nb_level := replicate (pc_lpp cf) []\<rparr>"

definition cells_used :: "node_buffer \<Rightarrow> nat" where
  \<comment> \<open>\<open>bitsInNodeBuffer\<close>; the three header cells are bCount, page number and count of t-counts\<close>
  "cells_used nb = (if nb_level nb ! 0 = [] then 0 else nb_cells nb + 3 + nb_allT nb)"

definition linksEnteringPage :: "node_buffer \<Rightarrow> bool \<Rightarrow> nat" where
  "linksEnteringPage nb allNodes = (if allNodes then length (nb_level nb ! 0) else nb_pen nb ! 0)"

definition linksLeavingPage :: "node_buffer \<Rightarrow> bool \<Rightarrow> nat \<Rightarrow> nat" where
  "linksLeavingPage nb allNodes nLevs =
     (let row = nb_level nb ! (nLevs - 1)
      in count_children (if allNodes then row else take (nb_pen nb ! (nLevs - 1)) row))"

definition copy_tCounts :: "top_count \<Rightarrow> int \<Rightarrow> int \<Rightarrow> node_buffer \<Rightarrow> node_buffer res" where
  "copy_tCounts tc firstIdx lastIdx nb =
     (let n = nat (lastIdx - firstIdx + 1) in
      if n = 0 then Inr nb
      else if firstIdx < 0 \<or> length (tc_left tc) \<le> nat lastIdx \<or> length (nb_tCount nb) < n then Inl Undefined
      else Inr (nb\<lparr>nb_tCount := take n (drop (nat firstIdx) (tc_left tc)) @ drop n (nb_tCount nb)\<rparr>))"

subsection \<open>Loading the buffer\<close>

definition buffer_node :: "nat \<Rightarrow> Node \<Rightarrow> node_buffer \<Rightarrow> node_buffer res" where
  "buffer_node i n nb =
     (if length (nb_level nb) \<le> i \<or> nb_room nb \<le> length (nb_level nb ! i) then Inl Undefined
      else Inr (nb\<lparr>nb_level := (nb_level nb)[i := nb_level nb ! i @ [n]], nb_cells := nb_cells nb + 1\<rparr>))"

text \<open>
  \<open>nChild\<close> nodes of level \<open>i\<close> and the number of their children; then the levels below, as long as
  there are children.  The levels being read are threaded through.
\<close>

type_synonym load_state = "single_level list \<times> node_buffer"

fun load_nodes :: "page_cf \<Rightarrow> nat \<Rightarrow> nat \<Rightarrow> nat \<Rightarrow> load_state \<Rightarrow> (nat \<times> load_state) res" where
  "load_nodes cf i 0 n s = Inr (n, s)"
| "load_nodes cf i (Suc j) n (ls, nb) =
     (if length ls \<le> i then Inl Undefined
      else res_bind (nextNode (pc_levels cf) (ls ! i)) (\<lambda>(x, lev).
        case x of
          None \<Rightarrow> Inl Aborted
        | Some node \<Rightarrow>
            res_bind (buffer_node i node nb) (\<lambda>nb'. load_nodes cf i j (n + n_child node) (ls[i := lev], nb'))))"

fun load_below :: "page_cf \<Rightarrow> nat \<Rightarrow> nat \<Rightarrow> nat \<Rightarrow> load_state \<Rightarrow> load_state res" where
  \<comment> \<open>\<open>k\<close> levels from level \<open>i\<close> on\<close>
  "load_below cf 0 i nChild s = Inr s"
| "load_below cf (Suc k) i nChild s =
     (if nChild = 0 then Inr s
      else res_bind (load_nodes cf i nChild 0 s) (\<lambda>(n, s'). load_below cf k (Suc i) n s'))"

definition load_subtrie :: "page_cf \<Rightarrow> nat \<Rightarrow> Node \<Rightarrow> load_state \<Rightarrow> load_state res" where
  \<comment> \<open>the body of the loop up to the t-counts, \<open>root\<close> just read\<close>
  "load_subtrie cf nLevs root s =
     (let (ls, nb) = s in
      res_bind (buffer_node 0 root
          (nb\<lparr>nb_pen := take nLevs (map length (nb_level nb)) @ drop nLevs (nb_pen nb)\<rparr>)) (\<lambda>nb1.
        load_below cf (nLevs - 1) 1 (n_child root) (ls, nb1)))"

definition count_tCounts :: "nat \<Rightarrow> int \<Rightarrow> top_count \<Rightarrow> int \<Rightarrow> int \<Rightarrow> node_buffer \<Rightarrow> (int \<times> node_buffer) res" where
  "count_tCounts nLevs bCount tc firstIdx lastIdx nb =
     (let nb1 = nb\<lparr>nb_penT := nb_allT nb\<rparr>; nLeaving = count_children (nb_level nb1 ! (nLevs - 1)) in
      if nLeaving = 0 then Inr (lastIdx, nb1)
      else if firstIdx < 0 then Inl Aborted
      else res_bind (lastTCountIdx tc lastIdx (bCount + int nLeaving)) (\<lambda>last.
        if last - firstIdx + 1 < 0 then Inl Aborted
        else Inr (last, nb1\<lparr>nb_allT := nat (last - firstIdx + 1)\<rparr>)))"

text \<open>
  Every turn of the loop puts at least one node into the buffer, so that there are at most as many
  as a page has cells.
\<close>

fun load_loop :: "nat \<Rightarrow> page_cf \<Rightarrow> nat \<Rightarrow> int \<Rightarrow> top_count \<Rightarrow> int \<Rightarrow> int \<Rightarrow> load_state \<Rightarrow> (int \<times> load_state) res" where
  "load_loop 0 cf nLevs bCount tc firstIdx lastIdx s = Inl OutOfFuel"
| "load_loop (Suc fuel) cf nLevs bCount tc firstIdx lastIdx (ls, nb) =
     (if \<not> nb_used nb < pc_size cf then Inr (lastIdx, ls, nb)
      else if ls = [] then Inl Undefined
      else res_bind (nextNode (pc_levels cf) (ls ! 0)) (\<lambda>(x, lev).
        case x of
          None \<Rightarrow> Inr (lastIdx, ls[0 := lev], nb)
        | Some root \<Rightarrow>
            res_bind (load_subtrie cf nLevs root (ls[0 := lev], nb)) (\<lambda>(ls1, nb1).
            res_bind (count_tCounts nLevs bCount tc firstIdx lastIdx nb1) (\<lambda>(last, nb2).
              load_loop fuel cf nLevs bCount tc firstIdx last (ls1, nb2\<lparr>nb_used := cells_used nb2\<rparr>)))))"

definition nodeBufferLoad :: "page_cf \<Rightarrow> nat \<Rightarrow> int \<Rightarrow> top_count \<Rightarrow> load_state \<Rightarrow> load_state res" where
  "nodeBufferLoad cf nLevs bCount tc s =
     (let (ls, nb) = s; nb0 = nb\<lparr>nb_used := cells_used nb\<rparr> in
      res_bind (firstTCountIdx tc (nb_prev nb0) bCount) (\<lambda>firstIdx.
      res_bind (load_loop (Suc (pc_size cf)) cf nLevs bCount tc firstIdx firstIdx (ls, nb0)) (\<lambda>(lastIdx, ls1, nb1).
      res_bind (if 0 < nb_allT nb1 then copy_tCounts tc firstIdx lastIdx nb1 else Inr nb1) (\<lambda>nb2.
        Inr (ls1, if nb_prev nb2 < firstIdx then nb2\<lparr>nb_prev := firstIdx\<rparr> else nb2)))))"

subsection \<open>Shifting and writing\<close>

definition drop_pen :: "nat \<Rightarrow> node_buffer \<Rightarrow> node_buffer" where
  \<comment> \<open>the loop over \<open>i\<close>: the nodes of all but the last subtrie leave the buffer\<close>
  "drop_pen nLevs nb =
     (let lv = map (\<lambda>i. if i < nLevs then drop (nb_pen nb ! i) (nb_level nb ! i) else nb_level nb ! i) [0..<length (nb_level nb)]
      in nb\<lparr>nb_level := lv, nb_pen := replicate nLevs 0 @ drop nLevs (nb_pen nb), nb_cells := (\<Sum>i<nLevs. length (lv ! i))\<rparr>)"

definition nodeBufferShift :: "page_cf \<Rightarrow> nat \<Rightarrow> int \<Rightarrow> top_count \<Rightarrow> node_buffer \<Rightarrow> node_buffer res" where
  "nodeBufferShift cf nLevs bCount tc nb =
     (if nb_used nb \<le> pc_size cf then Inr (nodeBufferReset cf nb)
      else
        let nb1 = (drop_pen nLevs nb)\<lparr>nb_used := 0, nb_allT := 0, nb_penT := 0\<rparr>;
            nLeaving = count_children (nb_level nb1 ! (nLevs - 1))
        in res_bind
            (if nLeaving = 0 then Inr nb1
             else res_bind (firstTCountIdx tc (nb_prev nb1) bCount) (\<lambda>firstIdx.
                  res_bind (lastTCountIdx tc firstIdx (bCount + int nLeaving)) (\<lambda>lastIdx.
                    if lastIdx - firstIdx + 1 \<le> 0 then Inl Aborted
                    else res_bind (copy_tCounts tc firstIdx lastIdx (nb1\<lparr>nb_allT := nat (lastIdx - firstIdx + 1)\<rparr>)) (\<lambda>nb2.
                      Inr (nb2\<lparr>nb_prev := firstIdx\<rparr>)))))
            (\<lambda>nb3. Inr (nb3\<lparr>nb_used := cells_used nb3\<rparr>)))"

definition paged_cell :: "Node \<Rightarrow> int" where
  \<comment> \<open>\<open>MAKE_START\<close> sets bit 31, above the value\<close>
  "paged_cell n = nd_value n + (if nd_type n = START_NODE then 2147483648 else 0)"

definition CELL_MAX :: int where
  \<comment> \<open>four times \<open>CHAR_MAX\<close>\<close>
  "CELL_MAX = 0x7f7f7f7f"

definition fillPage :: "page_cf \<Rightarrow> bool \<Rightarrow> nat \<Rightarrow> int \<Rightarrow> top_count \<Rightarrow> node_buffer \<Rightarrow> int list res" where
  "fillPage cf useAllNodes nLevs bCount tc nb =
     (let nTCounts = (if useAllNodes then nb_allT nb else nb_penT nb);
          copied = concat (map (\<lambda>i. map paged_cell
             (if useAllNodes then nb_level nb ! i else take (nb_pen nb ! i) (nb_level nb ! i))) [0..<nLevs])
      in res_bind
          (if nTCounts = 0 then Inr (CELL_MAX, [])
           else res_bind (firstTCountIdx tc (nb_prev nb) bCount) (\<lambda>childOffset.
             if childOffset < 0 \<or> length (tc_left tc) < nat childOffset + nTCounts then Inl Undefined
             else Inr (tc_first tc + childOffset, take nTCounts (drop (nat childOffset) (tc_left tc)))))
          (\<lambda>(n, tcs).
            let page = bCount # n # int nTCounts # tcs @ copied
            in if pc_size cf < length page then Inl Undefined
               else Inr (page @ replicate (pc_size cf - length page) CELL_MAX)))"

subsection \<open>The build\<close>

text \<open>
  The check of the page size, in bytes: the guess of the overhead is 92, a node is taken to
  need \<open>31 / 8 = 3\<close> bytes, and the computation is in \<open>unsigned long\<close>.
\<close>

definition pageTooSmall :: "page_cf \<Rightarrow> bool" where
  "pageTooSmall cf =
     (let overhead = (32 + 32 + 32 + 20 * 32) div 8;
          nodes_ub = ((4 * int (pc_size cf) - overhead) mod 4294967296 div (31 div 8) - 1) mod 4294967296
      in pc_lpp cf = 0 \<or> 32 \<le> pc_lpp cf \<or> nodes_ub < 2 ^ (pc_lpp cf - 1))"

record group_state =
  gs_child :: top_count      \<comment> \<open>\<open>childTCount\<close>\<close>
  gs_buf :: node_buffer
  gs_out :: nat              \<comment> \<open>\<open>outputPageNum\<close>\<close>
  gs_file :: "int list"      \<comment> \<open>\<open>pagedTrieFP\<close>\<close>

text \<open>
  The pages of a group.  A turn that finds a subtrie too large for a page writes a page without nodes
  and changes nothing else, so that the loop need not end; the fuel is an argument of the build.
\<close>

fun write_pages :: "nat \<Rightarrow> page_cf \<Rightarrow> nat \<Rightarrow> int \<Rightarrow> int \<Rightarrow> top_count \<Rightarrow> single_level list \<Rightarrow> group_state \<Rightarrow>
    (int \<times> top_count \<times> group_state) res" where
  "write_pages 0 cf nLevs bCount tCount cur ls g = Inl OutOfFuel"
| "write_pages (Suc fuel) cf nLevs bCount tCount cur ls g =
     (let nb = gs_buf g in
      if nb_used nb = 0 then Inr (tCount, cur, g)
      else
        let useAllNodes = nb_used nb \<le> pc_size cf in
        res_bind (fillPage cf useAllNodes nLevs bCount (gs_child g) nb) (\<lambda>page.
        let bCount1 = bCount + int (linksLeavingPage nb useAllNodes nLevs);
            curr1 = addTopCount cur tCount;
            tCount1 = tCount + int (linksEnteringPage nb useAllNodes)
        in res_bind (nodeBufferShift cf nLevs bCount1 (gs_child g) nb) (\<lambda>nb1.
           res_bind (nodeBufferLoad cf nLevs bCount1 (gs_child g) (ls, nb1)) (\<lambda>(ls1, nb2).
             write_pages fuel cf nLevs bCount1 tCount1 curr1 ls1
               (g\<lparr>gs_buf := nb2, gs_out := Suc (gs_out g), gs_file := gs_file g @ page\<rparr>)))))"

definition write_group :: "nat \<Rightarrow> page_cf \<Rightarrow> single_level list \<Rightarrow> nat \<Rightarrow> group_state \<Rightarrow> group_state res" where
  \<comment> \<open>the body of the loop over \<open>i\<close>; \<open>trie\<close> are all levels\<close>
  "write_group fuel cf trie i g =
     (let currLev = i * pc_lpp cf; copyLevs = min (pc_lpp cf) (length trie - currLev);
          cur = initTopCount (int (gs_out g))
      in res_bind (nodeBufferLoad cf copyLevs 0 (gs_child g) (drop currLev trie, gs_buf g)) (\<lambda>(ls, nb).
         res_bind (write_pages fuel cf copyLevs 0 0 cur ls (g\<lparr>gs_buf := nb\<rparr>)) (\<lambda>(tCount, curr1, g1).
           Inr (g1\<lparr>gs_child := addTopCount (addTopCount curr1 tCount) INT_MAX,
                   gs_buf := nodeBufferReset cf (gs_buf g1)\<rparr>))))"

fun write_groups :: "nat \<Rightarrow> page_cf \<Rightarrow> single_level list \<Rightarrow> nat \<Rightarrow> group_state \<Rightarrow> group_state res" where
  \<comment> \<open>groups \<open>i - 1\<close> down to 0\<close>
  "write_groups fuel cf trie 0 g = Inr g"
| "write_groups fuel cf trie (Suc i) g =
     res_bind (write_group fuel cf trie i g) (\<lambda>g'. write_groups fuel cf trie i g')"

definition patriePagedBuild :: "nat \<Rightarrow> page_cf \<Rightarrow> int list res" where
  \<comment> \<open>the contents of the paged file, which is empty before\<close>
  "patriePagedBuild fuel cf =
     (if pageTooSmall cf then Inl Rejected
      else res_bind (open_levels (pc_levels cf)) (\<lambda>trie.
        let nlevs = length trie;
            pageLevel = nlevs div pc_lpp cf + (if nlevs mod pc_lpp cf \<noteq> 0 then 1 else 0);
            g0 = \<lparr>gs_child = addTopCount (initTopCount (- 1)) INT_MAX, gs_buf = nodeBufferInit cf, gs_out = 0, gs_file = []\<rparr>
        in res_bind (write_groups fuel cf trie pageLevel g0) (\<lambda>g. Inr (gs_file g))))"

end
