(* ===== verification/PatrieLevelTree.thy ===== *)
theory PatrieLevelTree
  imports PatrieLevels
begin

section \<open>Patricia trie: the levels file holds the levels of the trie\<close>

text \<open>
  The abstract side of \<open>PatrieLevels\<close>: a trie as a tree, its infix order and its levels, and
  the representation of a level by a page in memory and a chain of pages in the file.  Every
  level in the making owns the pages of its chain and the page it will write next; no two levels
  own a page in common, so merging two tries leaves all others as they are.
\<close>

subsection \<open>Tries\<close>

datatype trie = Start int | Fork int trie trie

fun infix_list :: "trie \<Rightarrow> int list" where
  "infix_list (Start s) = [- s]"
| "infix_list (Fork h l r) = infix_list l @ h # infix_list r"

fun above :: "int \<Rightarrow> trie \<Rightarrow> bool" where
  \<comment> \<open>all heights are greater than \<open>g\<close>\<close>
  "above g (Start s) = True"
| "above g (Fork h l r) = (g < h \<and> above g l \<and> above g r)"

fun trie_ok :: "trie \<Rightarrow> bool" where
  \<comment> \<open>heights grow downwards, and values fit into their 30 bits\<close>
  "trie_ok (Start s) = (0 < s \<and> s < 1073741824)"
| "trie_ok (Fork h l r) = (0 < h \<and> h < 1073741824 \<and> above h l \<and> above h r \<and> trie_ok l \<and> trie_ok r)"

fun depth :: "trie \<Rightarrow> nat" where
  "depth (Start s) = 1"
| "depth (Fork h l r) = Suc (max (depth l) (depth r))"

fun nodes :: "trie \<Rightarrow> nat" where
  "nodes (Start s) = 1"
| "nodes (Fork h l r) = Suc (nodes l + nodes r)"

text \<open>A node of the file: a start, or the skip between the height of a fork and its parent's.\<close>

fun child_node :: "int \<Rightarrow> trie \<Rightarrow> Node" where
  "child_node p (Start s) = \<lparr>nd_type = START_NODE, nd_value = s\<rparr>"
| "child_node p (Fork h l r) = \<lparr>nd_type = SKIP_NODE, nd_value = h - p - 1\<rparr>"

fun zip_levels :: "'a list list \<Rightarrow> 'a list list \<Rightarrow> 'a list list" where
  "zip_levels [] yss = yss"
| "zip_levels xss [] = xss"
| "zip_levels (xs # xss) (ys # yss) = (xs @ ys) # zip_levels xss yss"

fun below :: "trie \<Rightarrow> Node list list" where
  \<comment> \<open>the levels under the root\<close>
  "below (Start s) = []"
| "below (Fork h l r) = zip_levels ([child_node h l] # below l) ([child_node h r] # below r)"

definition levels :: "trie \<Rightarrow> Node list list" where
  \<comment> \<open>the root keeps its height: as if its parent had height -1\<close>
  "levels t = [child_node (- 1) t] # below t"

lemma length_zip_levels [simp]: "length (zip_levels xss yss) = max (length xss) (length yss)"
  by (induction xss yss rule: zip_levels.induct) auto

lemma length_levels: "length (levels t) = depth t"
  by (induction t) (auto simp: levels_def)

subsection \<open>Cells\<close>

definition node_ok :: "Node \<Rightarrow> bool" where
  "node_ok n = (0 \<le> nd_value n \<and> nd_value n < 1073741824)"

lemma code_type_code [simp]: "code_type (type_code t) = t"
  by (cases t) (simp_all add: code_type_def)

lemma dec_enc [simp]: "node_ok n \<Longrightarrow> dec_node (enc_node n) = n"
proof -
  assume n: "node_ok n"
  then have "nd_value n div 1073741824 = 0" by (intro div_pos_pos_trivial) (auto simp: node_ok_def)
  with n show ?thesis by (simp add: node_ok_def dec_node_def enc_node_def)
qed

lemma mk_node_ok [simp]: "node_ok (mk_node t v)"
  by (simp add: node_ok_def mk_node_def)

lemma mk_node_id: "0 \<le> v \<Longrightarrow> v < 1073741824 \<Longrightarrow> mk_node t v = \<lparr>nd_type = t, nd_value = v\<rparr>"
  by (simp add: mk_node_def)

text \<open>Page \<open>p\<close> of a file of pages of \<open>N\<close> cells holds some nodes and then a last one.\<close>

definition block :: "nat \<Rightarrow> int list \<Rightarrow> nat \<Rightarrow> Node list \<Rightarrow> Node \<Rightarrow> bool" where
  "block N f p seg t = (length seg < N \<and> p * N + N \<le> length f \<and>
     take (Suc (length seg)) (drop (p * N) f) = map enc_node (seg @ [t]))"

lemma length_write_at: "length (write_at pos xs f) = max (length f) (pos + length xs)"
  by (auto simp: write_at_def)

lemma nth_write_at: "i < max (length f) (pos + length xs) \<Longrightarrow>
    write_at pos xs f ! i = (if i < pos then if i < length f then f ! i else 0 else if i < pos + length xs then xs ! (i - pos) else f ! i)"
  by (auto simp: write_at_def nth_append min_def)

lemma take_drop_eq: "n + k \<le> length f \<Longrightarrow> n + k \<le> length g \<Longrightarrow> (\<And>i. n \<le> i \<Longrightarrow> i < n + k \<Longrightarrow> f ! i = g ! i) \<Longrightarrow>
    take k (drop n f) = take k (drop n g)"
  by (auto simp: list_eq_iff_nth_eq)

lemma page_disjoint: "(a::nat) \<noteq> b \<Longrightarrow> a * N + N \<le> b * N \<or> b * N + N \<le> a * N"
proof -
  have "a < b \<Longrightarrow> a * N + N \<le> b * N" for a b :: nat
    using mult_le_mono1 [of "Suc a" b N] by simp
  moreover assume "a \<noteq> b"
  ultimately show ?thesis by (metis linorder_neqE_nat)
qed

lemma block_write_other:
  assumes "block N f p seg t" "length xs = N" "p \<noteq> q"
  shows "block N (write_at (q * N) xs f) p seg t"
proof -
  have "take (Suc (length seg)) (drop (p * N) (write_at (q * N) xs f)) = take (Suc (length seg)) (drop (p * N) f)"
  proof (rule take_drop_eq)
    fix i assume i: "p * N \<le> i" "i < p * N + Suc (length seg)"
    then have "i < p * N + N" using assms(1) by (simp add: block_def)
    with i page_disjoint [OF assms(3), of N] assms(1,2) show "write_at (q * N) xs f ! i = f ! i"
      by (auto simp: nth_write_at block_def)
  qed (use assms in \<open>auto simp: block_def length_write_at\<close>)
  with assms show ?thesis by (auto simp: block_def length_write_at)
qed

lemma block_write_same:
  assumes "length xs = N" "length seg < N" "take (Suc (length seg)) xs = map enc_node (seg @ [t])"
  shows "block N (write_at (q * N) xs f) q seg t"
proof -
  have "take (Suc (length seg)) (drop (q * N) (write_at (q * N) xs f)) = take (Suc (length seg)) xs"
    using assms(1,2) by (auto simp: list_eq_iff_nth_eq nth_write_at length_write_at)
  with assms show ?thesis by (simp add: block_def length_write_at)
qed

text \<open>What a step leaves alone: page size, and the pages of \<open>D\<close>.\<close>

definition keeps :: "level_cf \<Rightarrow> level_cf \<Rightarrow> nat set \<Rightarrow> bool" where
  "keeps cf cf' D = (lc_N cf' = lc_N cf \<and> lc_next cf \<le> lc_next cf' \<and>
     (\<forall>p\<in>D. \<forall>seg t. block (lc_N cf) (lc_file cf) p seg t \<longrightarrow> block (lc_N cf) (lc_file cf') p seg t))"

lemma keeps_refl [simp]: "keeps cf cf D"
  by (simp add: keeps_def)

lemma keeps_trans: "keeps cf cf' D \<Longrightarrow> keeps cf' cf'' D \<Longrightarrow> keeps cf cf'' D"
  by (auto simp: keeps_def)

lemma keeps_mono: "keeps cf cf' D \<Longrightarrow> E \<subseteq> D \<Longrightarrow> keeps cf cf' E"
  by (auto simp: keeps_def)

definition within :: "level_cf \<Rightarrow> bool" where
  \<comment> \<open>the file has no page that was not handed out\<close>
  "within cf = (length (lc_file cf) \<le> lc_next cf * lc_N cf)"

definition keeps_others :: "level_cf \<Rightarrow> level_cf \<Rightarrow> nat set \<Rightarrow> bool" where
  "keeps_others cf cf' A = (lc_N cf' = lc_N cf \<and> lc_next cf \<le> lc_next cf' \<and> (within cf \<longrightarrow> within cf') \<and>
     (\<forall>D. D \<inter> A = {} \<and> (\<forall>d\<in>D. d < lc_next cf) \<longrightarrow> keeps cf cf' D))"

lemma keeps_othersD: "keeps_others cf cf' A \<Longrightarrow> D \<inter> A = {} \<Longrightarrow> \<forall>d\<in>D. d < lc_next cf \<Longrightarrow> keeps cf cf' D"
  by (simp add: keeps_others_def)

lemma keeps_others_trans:
  assumes "keeps_others cf cf' A" "keeps_others cf' cf'' B" "A \<subseteq> C" "\<And>b. b \<in> B \<Longrightarrow> b < lc_next cf \<Longrightarrow> b \<in> C"
  shows "keeps_others cf cf'' C"
proof -
  have le: "lc_N cf'' = lc_N cf" "lc_next cf \<le> lc_next cf'" "lc_next cf' \<le> lc_next cf''" "within cf \<longrightarrow> within cf''"
    using assms(1,2) by (auto simp: keeps_others_def)
  have "keeps cf cf'' D" if D: "D \<inter> C = {}" "\<forall>d\<in>D. d < lc_next cf" for D
  proof (rule keeps_trans)
    show "keeps cf cf' D" using assms(3) D by (intro keeps_othersD [OF assms(1)]) blast+
    have "D \<inter> B = {}" using assms(4) D by blast
    moreover have "\<forall>d\<in>D. d < lc_next cf'" using D(2) le(2) by (meson order_less_le_trans)
    ultimately show "keeps cf' cf'' D" by (rule keeps_othersD [OF assms(2)])
  qed
  with le show ?thesis by (simp add: keeps_others_def)
qed

subsection \<open>Representation of a level\<close>

text \<open>A chain of written pages from \<open>p\<close>; the last one links to \<open>q\<close>.\<close>

definition link_to :: "nat \<Rightarrow> Node" where
  "link_to p = \<lparr>nd_type = BLKNO_NODE, nd_value = int p\<rparr>"

fun linked :: "nat \<Rightarrow> int list \<Rightarrow> nat \<Rightarrow> (nat \<times> Node list) list \<Rightarrow> nat \<Rightarrow> bool" where
  "linked N f p [] q = (p = q)"
| "linked N f p ((a, seg) # pgs) q = (p = a \<and> (\<exists>nx. block N f a seg (link_to nx) \<and> linked N f nx pgs q))"

lemma linked_append: "linked N f p (as @ bs) q \<longleftrightarrow> (\<exists>r. linked N f p as r \<and> linked N f r bs q)"
  by (induction as arbitrary: p) fastforce+

lemma linked_keeps:
  "linked (lc_N cf) (lc_file cf) p pgs q \<Longrightarrow> keeps cf cf' D \<Longrightarrow> fst ` set pgs \<subseteq> D \<Longrightarrow>
   linked (lc_N cf') (lc_file cf') p pgs q"
  by (induction pgs arbitrary: p) (auto simp: keeps_def, blast)

definition in_memory :: "level_cf \<Rightarrow> single_level \<Rightarrow> Node list \<Rightarrow> bool" where
  "in_memory cf l ns = (length (sl_node l) = lc_N cf \<and> sl_used l < lc_N cf \<and> sl_used l = length ns \<and>
     take (sl_used l) (sl_node l) = map enc_node ns)"

definition level_rep :: "level_cf \<Rightarrow> single_level \<Rightarrow> Node list \<Rightarrow> nat set \<Rightarrow> bool" where
  \<comment> \<open>the nodes of the written pages, then those in memory; \<open>q\<close> is the page these will go to\<close>
  "level_rep cf l ns A = (\<exists>pgs q mem.
     list_all node_ok ns \<and> in_memory cf l mem \<and> ns = concat (map snd pgs) @ mem \<and>
     (pgs = [] \<longrightarrow> sl_first l = - 1 \<and> sl_page l = - 1 \<and> A = {}) \<and>
     (pgs \<noteq> [] \<longrightarrow> sl_first l = int (fst (hd pgs)) \<and> sl_page l = int q \<and>
        linked (lc_N cf) (lc_file cf) (fst (hd pgs)) pgs q \<and> distinct (map fst pgs @ [q]) \<and>
        A = set (map fst pgs @ [q]) \<and> (\<forall>a\<in>A. a < lc_next cf)))"

lemma level_repI:
  assumes "list_all node_ok ns" "in_memory cf l mem" "ns = concat (map snd pgs) @ mem"
    "pgs = [] \<Longrightarrow> sl_first l = - 1 \<and> sl_page l = - 1 \<and> A = {}"
    "pgs \<noteq> [] \<Longrightarrow> sl_first l = int (fst (hd pgs)) \<and> sl_page l = int q \<and>
       linked (lc_N cf) (lc_file cf) (fst (hd pgs)) pgs q \<and> distinct (map fst pgs @ [q]) \<and>
       A = set (map fst pgs @ [q]) \<and> (\<forall>a\<in>A. a < lc_next cf)"
  shows "level_rep cf l ns A"
  unfolding level_rep_def using assms by blast

lemma level_repE:
  assumes "level_rep cf l ns A"
  obtains pgs q mem where "list_all node_ok ns" "in_memory cf l mem" "ns = concat (map snd pgs) @ mem"
    "pgs = [] \<longrightarrow> sl_first l = - 1 \<and> sl_page l = - 1 \<and> A = {}"
    "pgs \<noteq> [] \<longrightarrow> sl_first l = int (fst (hd pgs)) \<and> sl_page l = int q \<and>
       linked (lc_N cf) (lc_file cf) (fst (hd pgs)) pgs q \<and> distinct (map fst pgs @ [q]) \<and>
       A = set (map fst pgs @ [q]) \<and> (\<forall>a\<in>A. a < lc_next cf)"
  using assms unfolding level_rep_def by blast

lemma level_rep_keeps:
  assumes "level_rep cf l ns A" "keeps cf cf' A"
  shows "level_rep cf' l ns A"
proof -
  have N: "lc_N cf' = lc_N cf" "lc_next cf \<le> lc_next cf'" using assms(2) by (auto simp: keeps_def)
  from assms(1) show ?thesis
  proof (rule level_repE)
    fix pgs q mem
    assume r: "list_all node_ok ns" "in_memory cf l mem" "ns = concat (map snd pgs) @ mem"
      "pgs = [] \<longrightarrow> sl_first l = - 1 \<and> sl_page l = - 1 \<and> A = {}"
      "pgs \<noteq> [] \<longrightarrow> sl_first l = int (fst (hd pgs)) \<and> sl_page l = int q \<and>
         linked (lc_N cf) (lc_file cf) (fst (hd pgs)) pgs q \<and> distinct (map fst pgs @ [q]) \<and>
         A = set (map fst pgs @ [q]) \<and> (\<forall>a\<in>A. a < lc_next cf)"
    show ?thesis
    proof (rule level_repI [of ns cf' l mem pgs A q])
      show "in_memory cf' l mem" using r(2) unfolding in_memory_def N(1) .
      assume "pgs \<noteq> []"
      with r have p: "sl_first l = int (fst (hd pgs)) \<and> sl_page l = int q \<and>
         linked (lc_N cf) (lc_file cf) (fst (hd pgs)) pgs q \<and> distinct (map fst pgs @ [q]) \<and>
         A = set (map fst pgs @ [q]) \<and> (\<forall>a\<in>A. a < lc_next cf)" by blast
      then have "linked (lc_N cf') (lc_file cf') (fst (hd pgs)) pgs q"
        using linked_keeps [of cf "fst (hd pgs)" pgs q cf' A] assms(2) by auto
      with p N(2) show "sl_first l = int (fst (hd pgs)) \<and> sl_page l = int q \<and>
         linked (lc_N cf') (lc_file cf') (fst (hd pgs)) pgs q \<and> distinct (map fst pgs @ [q]) \<and>
         A = set (map fst pgs @ [q]) \<and> (\<forall>a\<in>A. a < lc_next cf')" by (meson order_less_le_trans)
    qed (use r in auto)
  qed
qed

lemma level_rep_less: "level_rep cf l ns A \<Longrightarrow> a \<in> A \<Longrightarrow> a < lc_next cf"
  unfolding level_rep_def by blast

lemma level_rep_room: "level_rep cf l ns A \<Longrightarrow> sl_used l < lc_N cf \<and> length (sl_node l) = lc_N cf"
  unfolding level_rep_def in_memory_def by blast

subsection \<open>Operations on a level\<close>

lemma nodeAppend_memory:
  assumes "in_memory cf l ns" "length ns < lc_N cf"
  shows "\<exists>l'. nodeAppend n l = Inr l' \<and> sl_first l' = sl_first l \<and> sl_page l' = sl_page l \<and>
           length (sl_node l') = lc_N cf \<and> sl_used l' = Suc (length ns) \<and>
           take (Suc (length ns)) (sl_node l') = map enc_node (ns @ [n])"
  using assms
  by (auto simp: nodeAppend_def in_memory_def take_Suc_conv_app_nth)

text \<open>Writing a page that ends with the node \<open>t\<close>.\<close>

lemma write_page:
  assumes l: "level_rep cf l ns A"
    and a: "nodeAppend t l = Inr l1" and w: "writeTriePage cf l1 = (l2, cf2)"
  obtains pgs q mem where "sl_first l2 = int (fst (hd (pgs @ [(q, mem)])))" "sl_page l2 = int q"
    "linked (lc_N cf) (lc_file cf2) (fst (hd (pgs @ [(q, mem)]))) pgs q" "block (lc_N cf) (lc_file cf2) q mem t"
    "ns = concat (map snd pgs) @ mem" "distinct (map fst pgs @ [q])"
    "set (map fst pgs @ [q]) \<subseteq> A \<union> {lc_next cf..<lc_next cf2}" "\<forall>a\<in>set (map fst pgs @ [q]). a < lc_next cf2"
    "\<And>D. D \<inter> A = {} \<Longrightarrow> (\<forall>d\<in>D. d < lc_next cf) \<Longrightarrow> keeps cf cf2 D"
    "lc_N cf2 = lc_N cf" "lc_next cf \<le> lc_next cf2" "lc_next cf2 \<le> Suc (lc_next cf)"
    "sl_used l2 = 0" "length (sl_node l2) = lc_N cf" "lc_pos cf2 = q * lc_N cf + lc_N cf"
    "lc_file cf2 = write_at (q * lc_N cf) (sl_node l1) (lc_file cf)" "length (sl_node l1) = lc_N cf"
    "sl_first l = - 1 \<longrightarrow> pgs = [] \<and> q = lc_next cf \<and> lc_next cf2 = Suc (lc_next cf)"
    "sl_first l \<noteq> - 1 \<longrightarrow> A = set (map fst pgs @ [q]) \<and> lc_next cf2 = lc_next cf"
    "within cf \<longrightarrow> within cf2"
proof -
  from l obtain pgs q mem where r: "list_all node_ok ns" "in_memory cf l mem" "ns = concat (map snd pgs) @ mem"
    "pgs = [] \<longrightarrow> sl_first l = - 1 \<and> sl_page l = - 1 \<and> A = {}"
    "pgs \<noteq> [] \<longrightarrow> sl_first l = int (fst (hd pgs)) \<and> sl_page l = int q \<and>
       linked (lc_N cf) (lc_file cf) (fst (hd pgs)) pgs q \<and> distinct (map fst pgs @ [q]) \<and>
       A = set (map fst pgs @ [q]) \<and> (\<forall>a\<in>A. a < lc_next cf)"
    by (rule level_repE)
  have mem: "length mem < lc_N cf" using r(2) by (simp add: in_memory_def)
  from nodeAppend_memory [OF r(2) mem, of t] a have l1: "sl_first l1 = sl_first l" "sl_page l1 = sl_page l"
      "length (sl_node l1) = lc_N cf" "take (Suc (length mem)) (sl_node l1) = map enc_node (mem @ [t])"
    by auto
  have keep: "keeps cf cf' D" if "D \<inter> {q'} = {}" "lc_file cf' = write_at (q' * lc_N cf) (sl_node l1) (lc_file cf)"
      "lc_N cf' = lc_N cf" "lc_next cf \<le> lc_next cf'" for cf' q' D
    using that by (auto simp: keeps_def intro!: block_write_other [OF _ l1(3)])
  have wi: "within cf \<longrightarrow> within cf'" if "lc_file cf' = write_at (q' * lc_N cf) (sl_node l1) (lc_file cf)"
      "lc_N cf' = lc_N cf" "lc_next cf \<le> lc_next cf'" "q' < lc_next cf'" for cf' q'
  proof -
    have "q' * lc_N cf + lc_N cf \<le> lc_next cf' * lc_N cf" using mult_le_mono1 [of "Suc q'" "lc_next cf'" "lc_N cf"] that(4) by simp
    moreover have "n \<le> lc_next cf' * lc_N cf" if "n \<le> lc_next cf * lc_N cf" for n
      using mult_le_mono1 [OF \<open>lc_next cf \<le> lc_next cf'\<close>] that by (rule order_trans [rotated])
    ultimately show ?thesis using that l1(3) by (simp add: within_def length_write_at)
  qed
  show ?thesis
  proof (cases "pgs = []")
    case True
    with r l1 have p: "sl_page l1 = - 1" "sl_first l = - 1" "A = {}" by auto
    with w have w': "l2 = l1\<lparr>sl_page := int (lc_next cf), sl_first := int (lc_next cf), sl_used := 0, sl_node := replicate (lc_N cf) 0\<rparr>"
        "cf2 = cf\<lparr>lc_next := Suc (lc_next cf), lc_file := write_at (lc_next cf * lc_N cf) (sl_node l1) (lc_file cf),
                  lc_pos := lc_next cf * lc_N cf + lc_N cf\<rparr>"
      by (auto simp: writeTriePage_def Let_def)
    have "block (lc_N cf) (lc_file cf2) (lc_next cf) mem t"
      unfolding w' using block_write_same [OF l1(3) mem l1(4)] by simp
    then show ?thesis
      using p w' r(3) True l1(3) by (intro that [of "[]" "lc_next cf" mem]) (auto intro!: keep [where q' = "lc_next cf"] wi [where q' = "lc_next cf", rule_format])
  next
    case False
    with r have p: "sl_first l = int (fst (hd pgs))" "sl_page l = int q" "linked (lc_N cf) (lc_file cf) (fst (hd pgs)) pgs q"
        "distinct (map fst pgs @ [q])" "A = set (map fst pgs @ [q])" "\<forall>a\<in>A. a < lc_next cf" by auto
    with w l1 have w': "l2 = l1\<lparr>sl_used := 0, sl_node := replicate (lc_N cf) 0\<rparr>"
        "cf2 = cf\<lparr>lc_file := write_at (q * lc_N cf) (sl_node l1) (lc_file cf), lc_pos := q * lc_N cf + lc_N cf\<rparr>"
      by (auto simp: writeTriePage_def Let_def)
    have "linked (lc_N cf2) (lc_file cf2) (fst (hd pgs)) pgs q"
      using p(4) by (intro linked_keeps [OF p(3)] keep) (auto simp: w')
    moreover have "block (lc_N cf) (lc_file cf2) q mem t"
      unfolding w' using block_write_same [OF l1(3) mem l1(4)] by simp
    ultimately show ?thesis
      using p w' r(3) False l1 by (intro that [of pgs q mem]) (auto intro!: keep [where q' = q] wi [where q' = q, rule_format])
  qed
qed

lemma write_page_frame:
  assumes "level_rep cf l ns A" "nodeAppend t l = Inr l1" "writeTriePage cf l1 = (l2, cf2)"
  shows "lc_N cf2 = lc_N cf" "lc_next cf \<le> lc_next cf2" "lc_next cf2 \<le> Suc (lc_next cf)" "sl_used l2 = 0"
    "D \<inter> A = {} \<Longrightarrow> \<forall>d\<in>D. d < lc_next cf \<Longrightarrow> keeps cf cf2 D" "within cf \<longrightarrow> within cf2"
  by (rule write_page [OF assms]; simp)+

text \<open>When that node is a link, the level goes on in the page linked to, with nothing in memory yet.\<close>

lemma write_link:
  assumes l: "level_rep cf l ns A"
    and a: "nodeAppend (link_to nx) l = Inr l1" and w: "writeTriePage cf l1 = (l2, cf2)"
    and nx: "nx < lc_next cf" "nx \<notin> A" and N: "0 < lc_N cf"
  obtains B where "level_rep cf2 (l2\<lparr>sl_page := int nx\<rparr>) ns B" "B \<subseteq> A \<union> {nx} \<union> {lc_next cf..<lc_next cf2}"
     "nx \<in> B"
proof -
  obtain pgs q mem where p: "sl_first l2 = int (fst (hd (pgs @ [(q, mem)])))" "sl_page l2 = int q"
    "linked (lc_N cf) (lc_file cf2) (fst (hd (pgs @ [(q, mem)]))) pgs q" "block (lc_N cf) (lc_file cf2) q mem (link_to nx)"
    "ns = concat (map snd pgs) @ mem" "distinct (map fst pgs @ [q])"
    "set (map fst pgs @ [q]) \<subseteq> A \<union> {lc_next cf..<lc_next cf2}" "\<forall>a\<in>set (map fst pgs @ [q]). a < lc_next cf2"
    "lc_N cf2 = lc_N cf" "lc_next cf \<le> lc_next cf2" "sl_used l2 = 0" "length (sl_node l2) = lc_N cf"
    by (rule write_page [OF l a w])
  have "in_memory cf2 l2 []" using p N by (simp add: in_memory_def)
  moreover have "linked (lc_N cf2) (lc_file cf2) (fst (hd (pgs @ [(q, mem)]))) (pgs @ [(q, mem)]) nx"
    using p(3,4,9) by (auto simp: linked_append)
  moreover have "nx \<notin> set (map fst pgs @ [q])" using nx p(7) by auto
  moreover have "list_all node_ok ns" using l by (simp add: level_rep_def)
  ultimately have "level_rep cf2 (l2\<lparr>sl_page := int nx\<rparr>) ns (set (map fst (pgs @ [(q, mem)]) @ [nx]))"
    using p nx by (intro level_repI [of ns cf2 _ "[]" "pgs @ [(q, mem)]" _ nx]) (auto simp: in_memory_def)
  moreover have "set (map fst (pgs @ [(q, mem)]) @ [nx]) \<subseteq> A \<union> {nx} \<union> {lc_next cf..<lc_next cf2}"
    using p(7) by auto
  ultimately show ?thesis using that by auto
qed

lemma append_rep:
  assumes l: "level_rep cf dst ns A" and m: "in_memory cf src ss" "list_all node_ok ss"
  obtains dst' src' k where "appendLevels cf dst src = Inr (dst', src')" "k = min (lc_N cf - sl_used dst - 1) (length ss)"
    "level_rep cf dst' (ns @ take k ss) A" "in_memory cf src' (drop k ss)"
proof -
  from l obtain pgs q mem where r: "list_all node_ok ns" "in_memory cf dst mem" "ns = concat (map snd pgs) @ mem"
    "pgs = [] \<longrightarrow> sl_first dst = - 1 \<and> sl_page dst = - 1 \<and> A = {}"
    "pgs \<noteq> [] \<longrightarrow> sl_first dst = int (fst (hd pgs)) \<and> sl_page dst = int q \<and>
       linked (lc_N cf) (lc_file cf) (fst (hd pgs)) pgs q \<and> distinct (map fst pgs @ [q]) \<and>
       A = set (map fst pgs @ [q]) \<and> (\<forall>a\<in>A. a < lc_next cf)"
    by (rule level_repE)
  define k where "k = min (lc_N cf - sl_used dst - 1) (length ss)"
  have u: "sl_used dst < lc_N cf" "sl_used dst = length mem" "sl_used src = length ss" "length (sl_node dst) = lc_N cf"
      "length (sl_node src) = lc_N cf" "length ss < lc_N cf"
      "take (length mem) (sl_node dst) = map enc_node mem" "take (length ss) (sl_node src) = map enc_node ss"
    using r(2) m(1) by (auto simp: in_memory_def)
  have k: "min (int (lc_N cf) - int (sl_used dst) - 1) (int (sl_used src)) = int k" "k \<le> length ss" "length mem + k < lc_N cf"
    using u by (auto simp: k_def)
  let ?d = "dst\<lparr>sl_node := take (sl_used dst) (sl_node dst) @ take k (sl_node src) @ drop (sl_used dst + k) (sl_node dst),
               sl_used := sl_used dst + k\<rparr>"
  let ?s = "src\<lparr>sl_node := drop k (take (sl_used src) (sl_node src)) @ drop (sl_used src - k) (sl_node src), sl_used := sl_used src - k\<rparr>"
  have a: "appendLevels cf dst src = Inr (?d, ?s)"
    using u k by (simp add: appendLevels_def Let_def)
  have "take k (sl_node src) = map enc_node (take k ss)"
    using u(8) k(2) by (metis take_map take_take min.absorb1)
  then have md: "in_memory cf ?d (mem @ take k ss)"
    using u k by (simp add: in_memory_def)
  have ms: "in_memory cf ?s (drop k ss)"
    using u k by (simp add: in_memory_def drop_map)
  have "list_all node_ok (ns @ take k ss)" using r(1) m(2) by (auto simp: list_all_iff dest: in_set_takeD)
  moreover have "ns @ take k ss = concat (map snd pgs) @ mem @ take k ss" using r(3) by simp
  ultimately have rep: "level_rep cf ?d (ns @ take k ss) A"
    using md r(4,5) by (intro level_repI [of _ cf ?d "mem @ take k ss" pgs A q]) auto
  show ?thesis by (rule that [OF a k_def rep ms])
qed

lemma in_memory_cong: "lc_N cf' = lc_N cf \<Longrightarrow> in_memory cf' = in_memory cf"
  by (intro ext) (simp add: in_memory_def)

lemma level_rep_node_ok: "level_rep cf l ns A \<Longrightarrow> list_all node_ok ns"
  by (auto simp: level_rep_def)

lemma level_rep_append_ok: "level_rep cf l ns A \<Longrightarrow> \<exists>l1. nodeAppend n l = Inr l1"
  using level_rep_room [of cf l ns A] by (auto simp: nodeAppend_def)

text \<open>The outcome of merging levels: what was merged, in pages of the parts or new ones.\<close>

definition merged_rep :: "level_cf \<Rightarrow> single_level \<times> level_cf \<Rightarrow> Node list \<Rightarrow> nat set \<Rightarrow> bool" where
  "merged_rep cf r ns A = (\<exists>C.
     level_rep (snd r) (fst r) ns C \<and> C \<subseteq> A \<union> {lc_next cf..<lc_next (snd r)} \<and>
     lc_next (snd r) \<le> lc_next cf + 2 \<and> keeps_others cf (snd r) A)"

lemma merge_memory:
  assumes l: "level_rep cf l xs A" and r: "level_rep cf r ys B" "sl_first r = - 1"
    and n: "lc_next cf + 2 \<le> 1073741824" "2 \<le> lc_N cf"
  shows "\<exists>res. mergeSingleLevel l r cf = Inr res \<and> merged_rep cf res (xs @ ys) (A \<union> B)"
proof -
  from r have m: "in_memory cf r ys" "list_all node_ok ys" by (auto simp: level_rep_def)
  from append_rep [OF l m] obtain l1 r1 k where a: "appendLevels cf l r = Inr (l1, r1)"
      "k = min (lc_N cf - sl_used l - 1) (length ys)" "level_rep cf l1 (xs @ take k ys) A" "in_memory cf r1 (drop k ys)" .
  have used: "sl_used r1 = length ys - k" using a(4) by (simp add: in_memory_def)
  show ?thesis
  proof (cases "0 < sl_used r1")
    case False
    with used have "take k ys = ys" by simp
    with a False r(2) show ?thesis
      by (auto simp: mergeSingleLevel_def merged_rep_def keeps_others_def intro!: exI [of _ A])
  next
    case True
    let ?nx = "lc_next cf" and ?cf1 = "cf\<lparr>lc_next := Suc (lc_next cf)\<rparr>"
    have blk: "mk_node BLKNO_NODE (int ?nx) = link_to ?nx" using n by (simp add: mk_node_id link_to_def)
    have k1: "keeps cf ?cf1 D" for D by (auto simp: keeps_def)
    have l1: "level_rep ?cf1 l1 (xs @ take k ys) A" using a(3) k1 by (rule level_rep_keeps)
    obtain l2 where l2: "nodeAppend (link_to ?nx) l1 = Inr l2" using level_rep_append_ok [OF l1] by blast
    obtain l3 cf2 where w: "writeTriePage ?cf1 l2 = (l3, cf2)" by fastforce
    have nx: "?nx < lc_next ?cf1" "?nx \<notin> A" "0 < lc_N ?cf1" using level_rep_less [OF l] n by auto
    obtain B' where B': "level_rep cf2 (l3\<lparr>sl_page := int ?nx\<rparr>) (xs @ take k ys) B'"
        "B' \<subseteq> A \<union> {?nx} \<union> {lc_next ?cf1..<lc_next cf2}"
      using write_link [OF l1 l2 w nx] by metis
    have f: "lc_N cf2 = lc_N cf" "Suc ?nx \<le> lc_next cf2" "lc_next cf2 \<le> Suc (Suc ?nx)" "sl_used l3 = 0"
        "D \<inter> A = {} \<Longrightarrow> \<forall>d\<in>D. d < lc_next ?cf1 \<Longrightarrow> keeps ?cf1 cf2 D" "within ?cf1 \<longrightarrow> within cf2" for D
      using write_page_frame [OF l1 l2 w] by simp_all
    then have wi: "within cf \<longrightarrow> within cf2" by (simp add: within_def)
    have m1: "in_memory cf2 r1 (drop k ys)" "list_all node_ok (drop k ys)"
      using a(4) in_memory_cong [OF f(1)] m(2) by (auto simp: list_all_iff dest: in_set_dropD)
    from append_rep [OF B'(1) m1] obtain l4 r4 k' where a4: "appendLevels cf2 (l3\<lparr>sl_page := int ?nx\<rparr>) r1 = Inr (l4, r4)"
        "k' = min (lc_N cf2 - sl_used (l3\<lparr>sl_page := int ?nx\<rparr>) - 1) (length (drop k ys))"
        "level_rep cf2 l4 ((xs @ take k ys) @ take k' (drop k ys)) B'" .
    have "length (drop k ys) < lc_N cf2" using a(4) f(1) by (simp add: in_memory_def)
    with a4(2) f(4) have "take k' (drop k ys) = drop k ys" by simp
    with a4(3) have rep: "level_rep cf2 l4 (xs @ ys) B'" by simp
    have "keeps cf cf2 D" if "D \<inter> (A \<union> B) = {}" "\<forall>d\<in>D. d < lc_next cf" for D
      using keeps_trans [OF k1 f(5), of D] that by (auto simp: less_Suc_eq)
    then have ko: "keeps_others cf cf2 (A \<union> B)"
      unfolding keeps_others_def using f(1,2) wi Suc_leD by blast
    have "B' \<subseteq> A \<union> {?nx} \<union> {Suc ?nx..<lc_next cf2}" using B'(2) by simp
    also have "\<dots> \<subseteq> A \<union> B \<union> {?nx..<lc_next cf2}" using f(2) by auto
    finally have "merged_rep cf (l4, cf2) (xs @ ys) (A \<union> B)"
      unfolding merged_rep_def fst_conv snd_conv using rep f(3) ko by (intro exI [of _ B'] conjI) simp_all
    moreover have "mergeSingleLevel l r cf = Inr (l4, cf2)"
      using True a(1) l2 w a4(1) r(2) by (simp add: mergeSingleLevel_def Let_def blk) (simp add: link_to_def)
    ultimately show ?thesis by blast
  qed
qed

lemma hd_map_fst: "xs \<noteq> [] \<Longrightarrow> fst (hd (xs @ ys)) = fst (hd xs)"
  by (cases xs) auto

lemma merge_pages:
  assumes l: "level_rep cf l xs A" and r: "level_rep cf r ys B" "sl_first r \<noteq> - 1" and AB: "A \<inter> B = {}"
    and n: "lc_next cf + 2 \<le> 1073741824" "2 \<le> lc_N cf"
  shows "\<exists>res. mergeSingleLevel l r cf = Inr res \<and> merged_rep cf res (xs @ ys) (A \<union> B)"
proof -
  from r(1) obtain pgs q mem where R: "list_all node_ok ys" "in_memory cf r mem" "ys = concat (map snd pgs) @ mem"
    "pgs = [] \<longrightarrow> sl_first r = - 1 \<and> sl_page r = - 1 \<and> B = {}"
    "pgs \<noteq> [] \<longrightarrow> sl_first r = int (fst (hd pgs)) \<and> sl_page r = int q \<and>
       linked (lc_N cf) (lc_file cf) (fst (hd pgs)) pgs q \<and> distinct (map fst pgs @ [q]) \<and>
       B = set (map fst pgs @ [q]) \<and> (\<forall>a\<in>B. a < lc_next cf)"
    by (rule level_repE)
  define p where "p = fst (hd pgs)"
  have ne: "pgs \<noteq> []" using R(4) r(2) by auto
  with R(5) have R': "sl_first r = int p" "sl_page r = int q" "linked (lc_N cf) (lc_file cf) p pgs q" "distinct (map fst pgs @ [q])"
      "B = set (map fst pgs @ [q])" "\<forall>a\<in>B. a < lc_next cf" by (auto simp: p_def)
  have "p \<in> B" using ne R'(5) by (auto simp: p_def)
  with R'(6) n(1) have pb: "p < 1073741824" by auto
  then have blk: "mk_node BLKNO_NODE (sl_first r) = link_to p" using R'(1) by (simp add: mk_node_id link_to_def)
  obtain l1 where l1: "nodeAppend (link_to p) l = Inr l1" using level_rep_append_ok [OF l] by blast
  obtain l2 cf2 where w: "writeTriePage cf l1 = (l2, cf2)" by fastforce
  note f = write_page_frame [OF l l1 w]
  have keepB: "keeps cf cf2 B" using f(5) [of B] AB R'(6) by auto
  obtain pgs0 q0 mem0 where P: "sl_first l2 = int (fst (hd (pgs0 @ [(q0, mem0)])))"
    "linked (lc_N cf) (lc_file cf2) (fst (hd (pgs0 @ [(q0, mem0)]))) pgs0 q0" "block (lc_N cf) (lc_file cf2) q0 mem0 (link_to p)"
    "xs = concat (map snd pgs0) @ mem0" "distinct (map fst pgs0 @ [q0])"
    "set (map fst pgs0 @ [q0]) \<subseteq> A \<union> {lc_next cf..<lc_next cf2}" "\<forall>a\<in>set (map fst pgs0 @ [q0]). a < lc_next cf2"
    "sl_used l2 = 0" "length (sl_node l2) = lc_N cf"
    by (rule write_page [OF l l1 w])
  let ?pgs = "(pgs0 @ [(q0, mem0)]) @ pgs" and ?l3 = "l2\<lparr>sl_page := sl_page r\<rparr>" and ?C = "set (map fst pgs0 @ [q0]) \<union> B"
  have hd: "fst (hd ?pgs) = fst (hd (pgs0 @ [(q0, mem0)]))" by (rule hd_map_fst) simp
  have "linked (lc_N cf) (lc_file cf2) p pgs q"
    using linked_keeps [OF R'(3) keepB] R'(5) f(1) by auto
  then have "linked (lc_N cf) (lc_file cf2) (fst (hd ?pgs)) ?pgs q"
    using P(2,3) unfolding hd by (auto simp: linked_append)
  moreover have "set (map fst pgs0 @ [q0]) \<inter> B = {}" using P(6) AB R'(6) by fastforce
  moreover have "in_memory cf2 ?l3 []" using P f n(2) by (simp add: in_memory_def)
  moreover have "list_all node_ok (xs @ concat (map snd pgs))"
    using l R(1,3) by (auto simp: level_rep_def list_all_iff)
  ultimately have rep3: "level_rep cf2 ?l3 (xs @ concat (map snd pgs)) ?C"
    using P R' f(1,2) unfolding hd [symmetric] by (intro level_repI [of _ cf2 ?l3 "[]" ?pgs ?C q]) (auto intro: order_less_le_trans)
  have m: "in_memory cf2 r mem" "list_all node_ok mem" using R(1-3) in_memory_cong [OF f(1)] by auto
  from append_rep [OF rep3 m] obtain l4 r4 k where a: "appendLevels cf2 ?l3 r = Inr (l4, r4)"
      "k = min (lc_N cf2 - sl_used ?l3 - 1) (length mem)" "level_rep cf2 l4 ((xs @ concat (map snd pgs)) @ take k mem) ?C" .
  have "length mem < lc_N cf2" using R(2) f(1) by (simp add: in_memory_def)
  with a(2) P(8) have "take k mem = mem" by simp
  with a(3) R(3) have rep: "level_rep cf2 l4 (xs @ ys) ?C" by simp
  have sub: "?C \<subseteq> A \<union> B \<union> {lc_next cf..<lc_next cf2}" using P(6) by auto
  have keep: "\<forall>D. D \<inter> (A \<union> B) = {} \<and> (\<forall>d\<in>D. d < lc_next cf) \<longrightarrow> keeps cf cf2 D" using f(5) by blast
  have "merged_rep cf (l4, cf2) (xs @ ys) (A \<union> B)"
    unfolding merged_rep_def using rep sub keep f(1-3,6) by (intro exI [of _ ?C]) (simp add: keeps_others_def)
  moreover have "mergeSingleLevel l r cf = Inr (l4, cf2)"
    using r(2) l1 w a(1) by (simp add: mergeSingleLevel_def Let_def blk)
  ultimately show ?thesis by blast
qed

lemma mergeSingleLevel_rep:
  assumes "level_rep cf l xs A" "level_rep cf r ys B" "A \<inter> B = {}" "lc_next cf + 2 \<le> 1073741824" "2 \<le> lc_N cf"
  shows "\<exists>res. mergeSingleLevel l r cf = Inr res \<and> merged_rep cf res (xs @ ys) (A \<union> B)"
  using merge_memory [of cf l xs A r ys B] merge_pages [of cf l xs A r ys B] assms by blast

text \<open>A level that fits into one page stays in memory.\<close>

lemma mergeSingleLevel_small:
  assumes "level_rep cf l xs A" "level_rep cf r ys B" "sl_first l = - 1" "sl_first r = - 1"
    "length (xs @ ys) < lc_N cf" "mergeSingleLevel l r cf = Inr (l', cf')"
  shows "sl_first l' = - 1"
proof -
  have u: "sl_used l = length xs" "sl_used r = length ys" "length (sl_node l) = lc_N cf" "length (sl_node r) = lc_N cf"
    using assms(1-4) by (auto simp: level_rep_def in_memory_def)
  then have "min (int (lc_N cf) - int (sl_used l) - 1) (int (sl_used r)) = int (length ys)"
    using assms(5) by auto
  with assms u show ?thesis by (auto simp: mergeSingleLevel_def appendLevels_def Let_def)
qed

subsection \<open>Stacks of levels\<close>

fun levels_rep :: "level_cf \<Rightarrow> trie_stack \<Rightarrow> Node list list \<Rightarrow> nat set \<Rightarrow> bool" where
  "levels_rep cf [] [] A = (A = {})"
| "levels_rep cf (l # ls) (ns # nss) A =
     (\<exists>B C. level_rep cf l ns B \<and> levels_rep cf ls nss C \<and> B \<inter> C = {} \<and> A = B \<union> C \<and>
        (length ns < lc_N cf \<longrightarrow> sl_first l = - 1))"
| "levels_rep cf _ _ A = False"

lemma levels_rep_length: "levels_rep cf ls nss A \<Longrightarrow> length ls = length nss"
  by (induction cf ls nss A rule: levels_rep.induct) auto

lemma levels_rep_less: "levels_rep cf ls nss A \<Longrightarrow> a \<in> A \<Longrightarrow> a < lc_next cf"
  by (induction cf ls nss A rule: levels_rep.induct) (auto dest: level_rep_less)

lemma levels_rep_keeps: "levels_rep cf ls nss A \<Longrightarrow> keeps cf cf' A \<Longrightarrow> levels_rep cf' ls nss A"
proof (induction cf ls nss A rule: levels_rep.induct)
  case (2 cf l ls ns nss A)
  then obtain B C where *: "level_rep cf l ns B" "levels_rep cf ls nss C" "B \<inter> C = {}" "A = B \<union> C"
      "length ns < lc_N cf \<longrightarrow> sl_first l = - 1" by auto
  then have "keeps cf cf' B" "keeps cf cf' C" "lc_N cf' = lc_N cf" using 2(3) by (auto intro: keeps_mono simp: keeps_def)
  with * have "level_rep cf' l ns B" "levels_rep cf' ls nss C" using 2(1) by (auto intro: level_rep_keeps)
  with * \<open>lc_N cf' = lc_N cf\<close> show ?case unfolding levels_rep.simps by metis
qed auto

lemma merge_levels_rep:
  assumes "levels_rep cf ls xss A" "levels_rep cf rs yss B" "A \<inter> B = {}" "2 \<le> lc_N cf"
    "lc_next cf + 2 * min (length xss) (length yss) \<le> 1073741824"
  shows "\<exists>ms cf' C. merge_lists mergeSingleLevel ls rs cf = Inr (ms, cf') \<and> levels_rep cf' ms (zip_levels xss yss) C \<and>
    C \<subseteq> A \<union> B \<union> {lc_next cf..<lc_next cf'} \<and> keeps_others cf cf' (A \<union> B) \<and>
    lc_next cf' \<le> lc_next cf + 2 * min (length xss) (length yss)"
  using assms
proof (induction xss yss arbitrary: ls rs A B cf rule: zip_levels.induct)
  case (1 yss)
  then show ?case by (cases ls) (auto simp: keeps_others_def)
next
  case (2 xs xss)
  then show ?case by (cases ls; cases rs) (auto simp: keeps_others_def)
next
  case (3 xs xss ys yss)
  then obtain l ls' r rs' where lr: "ls = l # ls'" "rs = r # rs'" by (cases ls; cases rs) auto
  with 3 obtain A1 A2 B1 B2 where r: "level_rep cf l xs A1" "levels_rep cf ls' xss A2" "A1 \<inter> A2 = {}" "A = A1 \<union> A2"
      "level_rep cf r ys B1" "levels_rep cf rs' yss B2" "B1 \<inter> B2 = {}" "B = B1 \<union> B2"
      "length xs < lc_N cf \<longrightarrow> sl_first l = - 1" "length ys < lc_N cf \<longrightarrow> sl_first r = - 1" by auto
  have "A1 \<inter> B1 = {}" "lc_next cf + 2 \<le> 1073741824" using r(4,8) 3(4) 3(6) by auto
  from mergeSingleLevel_rep [OF r(1,5) this 3(5)] obtain res where res: "mergeSingleLevel l r cf = Inr res"
      "merged_rep cf res (xs @ ys) (A1 \<union> B1)" by blast
  obtain m cf1 where rm: "res = (m, cf1)" by (cases res)
  from res(2) obtain C1 where m: "level_rep cf1 m (xs @ ys) C1" "C1 \<subseteq> A1 \<union> B1 \<union> {lc_next cf..<lc_next cf1}"
      "lc_next cf1 \<le> lc_next cf + 2" "keeps_others cf cf1 (A1 \<union> B1)"
    unfolding merged_rep_def rm fst_conv snd_conv by blast
  have N: "lc_N cf1 = lc_N cf" "lc_next cf \<le> lc_next cf1" using m(4) by (simp_all add: keeps_others_def)
  have less: "\<forall>d\<in>A2 \<union> B2. d < lc_next cf" using levels_rep_less r(2,6) by blast
  have dis: "A2 \<inter> (A1 \<union> B1) = {}" "B2 \<inter> (A1 \<union> B1) = {}" using r 3(4) by auto
  have "keeps cf cf1 A2" "keeps cf cf1 B2" using less by (auto intro!: keeps_othersD [OF m(4)] dis)
  then have "levels_rep cf1 ls' xss A2" "levels_rep cf1 rs' yss B2"
    using levels_rep_keeps [OF r(2)] levels_rep_keeps [OF r(6)] by auto
  moreover have "A2 \<inter> B2 = {}" using r(4,8) 3(4) by auto
  moreover have "lc_next cf1 + 2 * min (length xss) (length yss) \<le> 1073741824" using m(3) 3(6) by auto
  ultimately obtain ms cf2 C2 where ms: "merge_lists mergeSingleLevel ls' rs' cf1 = Inr (ms, cf2)"
      "levels_rep cf2 ms (zip_levels xss yss) C2" "C2 \<subseteq> A2 \<union> B2 \<union> {lc_next cf1..<lc_next cf2}"
      "keeps_others cf1 cf2 (A2 \<union> B2)" "lc_next cf2 \<le> lc_next cf1 + 2 * min (length xss) (length yss)"
    using 3(1) [of cf1 ls' A2 rs' B2] 3(5) N(1) by metis
  have N2: "lc_N cf2 = lc_N cf" using ms(4) N(1) by (simp add: keeps_others_def)
  have d: "C1 \<inter> (A2 \<union> B2) = {}"
  proof -
    have "x \<in> A1 \<union> B1 \<or> lc_next cf \<le> x" if "x \<in> C1" for x using m(2) that by auto
    moreover have "x < lc_next cf" if "x \<in> A2 \<union> B2" for x using less that by blast
    ultimately show ?thesis using dis by (meson disjoint_iff UnE not_less)
  qed
  have C1: "\<forall>c\<in>C1. c < lc_next cf1" using level_rep_less [OF m(1)] by blast
  with d ms(4) have "keeps cf1 cf2 C1" by (auto simp: keeps_others_def)
  with m(1) have "level_rep cf2 m (xs @ ys) C1" by (rule level_rep_keeps)
  moreover have "C1 \<inter> C2 = {}"
  proof -
    have "x \<in> A2 \<union> B2 \<or> lc_next cf1 \<le> x" if "x \<in> C2" for x using ms(3) that by auto
    then show ?thesis using d C1 by (meson disjoint_iff not_less)
  qed
  moreover have "length (xs @ ys) < lc_N cf2 \<longrightarrow> sl_first m = - 1"
    using mergeSingleLevel_small [OF r(1,5), of m cf1] r(9,10) res(1) rm N2 by auto
  ultimately have rep: "levels_rep cf2 (m # ms) (zip_levels (xs # xss) (ys # yss)) (C1 \<union> C2)"
    using ms(2) unfolding zip_levels.simps levels_rep.simps by blast
  have ko: "keeps_others cf cf2 (A \<union> B)"
    by (rule keeps_others_trans [OF m(4) ms(4)]) (use r(4,8) in blast)+
  have "lc_next cf1 \<le> lc_next cf2" using ms(4) by (simp add: keeps_others_def)
  then have "{lc_next cf..<lc_next cf1} \<union> {lc_next cf1..<lc_next cf2} \<subseteq> {lc_next cf..<lc_next cf2}"
    using N(2) by (intro Un_least ivl_subset [THEN iffD2]) auto
  then have sub: "C1 \<union> C2 \<subseteq> A \<union> B \<union> {lc_next cf..<lc_next cf2}"
    using m(2) ms(3) r(4,8) by blast
  show ?case
    using rep ko sub m(3) ms(1,5) res(1) by (intro exI [of _ "m # ms"] exI [of _ cf2] exI [of _ "C1 \<union> C2"] conjI) (simp_all add: lr rm)
qed

subsection \<open>Combining two tries\<close>

lemma above_mono: "above g t \<Longrightarrow> h \<le> g \<Longrightarrow> above h t"
  by (induction t) auto

lemma trie_ok_above: "trie_ok t \<Longrightarrow> above 0 t"
  by (induction t) (auto intro: above_mono)

lemma child_node_ok: "trie_ok t \<Longrightarrow> above p t \<Longrightarrow> - 1 \<le> p \<Longrightarrow> node_ok (child_node p t)"
  by (cases t) (auto simp: node_ok_def)

lemma cvtHeightToSkip_child:
  assumes "trie_ok t" "above h t" "0 \<le> h"
  shows "cvtHeightToSkip h (child_node (- 1) t) = Inr (child_node h t)"
  using assms by (cases t) (auto simp: cvtHeightToSkip_def mk_node_id)

text \<open>A trie is in memory at its root.\<close>

lemma levels_rep_root:
  assumes "levels_rep cf T ([n] # nss) A" "2 \<le> lc_N cf"
  obtains l ls cs where "T = l # ls" "sl_node l = enc_node n # cs" "level_rep cf l [n] {}" "levels_rep cf ls nss A"
    "sl_first l = - 1" "node_ok n"
proof -
  from assms obtain l ls B C where T: "T = l # ls" "level_rep cf l [n] B" "levels_rep cf ls nss C" "B \<inter> C = {}" "A = B \<union> C"
      "sl_first l = - 1" by (cases T) auto
  then have B: "B = {}" "in_memory cf l [n]" "node_ok n" by (auto simp: level_rep_def)
  then have u: "sl_used l = length [n]" "take (sl_used l) (sl_node l) = map enc_node [n]"
    unfolding in_memory_def by blast+
  have "take 1 (sl_node l) = [enc_node n]" using u(2) unfolding u(1) by simp
  then obtain cs where "sl_node l = enc_node n # cs" by (cases "sl_node l") auto
  with T B show ?thesis using that by auto
qed

lemma levels_rep_Cons:
  "level_rep cf l ns {} \<Longrightarrow> levels_rep cf ls nss C \<Longrightarrow> sl_first l = - 1 \<Longrightarrow> levels_rep cf (l # ls) (ns # nss) C"
  unfolding levels_rep.simps by (intro exI [of _ "{}"] exI [of _ C]) simp

lemma level_rep_replace:
  assumes "level_rep cf l [n] {}" "sl_first l = - 1" "sl_node l = c # cs" "node_ok n'"
  shows "level_rep cf (l\<lparr>sl_node := enc_node n' # cs\<rparr>) [n'] {}"
  using assms by (auto simp: level_rep_def in_memory_def)

lemma cvt_root_rep:
  assumes "levels_rep cf T (levels t) A" "2 \<le> lc_N cf" "trie_ok t" "above h t" "0 \<le> h"
  shows "\<exists>T'. cvt_root h T = Inr T' \<and> levels_rep cf T' ([child_node h t] # below t) A"
proof -
  from assms(1,2) obtain l ls cs where T: "T = l # ls" "sl_node l = enc_node (child_node (- 1) t) # cs"
      "level_rep cf l [child_node (- 1) t] {}" "levels_rep cf ls (below t) A" "sl_first l = - 1" "node_ok (child_node (- 1) t)"
    unfolding levels_def append_Cons append_Nil by (rule levels_rep_root)
  have "node_ok (child_node h t)" using assms(3-5) by (intro child_node_ok) auto
  with T(2,3,5) have "level_rep cf (l\<lparr>sl_node := enc_node (child_node h t) # cs\<rparr>) [child_node h t] {}"
    by (intro level_rep_replace)
  then have "levels_rep cf (l\<lparr>sl_node := enc_node (child_node h t) # cs\<rparr> # ls) ([child_node h t] # below t) A"
    using T(4,5) by auto
  then show ?thesis
    using T cvtHeightToSkip_child [OF assms(3-5)] by (simp add: cvt_root_def)
qed

lemma new_level_rep:
  assumes "2 \<le> lc_N cf" "node_ok n"
  obtains l where "nodeAppend n (newSingleLevel cf) = Inr l" "level_rep cf l [n] {}" "sl_first l = - 1"
proof -
  have m: "in_memory cf (newSingleLevel cf) []" using assms(1) by (simp add: in_memory_def newSingleLevel_def)
  from nodeAppend_memory [OF m, of n] assms(1) obtain l where "nodeAppend n (newSingleLevel cf) = Inr l" "sl_first l = - 1"
      "sl_page l = - 1" "length (sl_node l) = lc_N cf" "sl_used l = 1" "take 1 (sl_node l) = [enc_node n]"
    by (auto simp: newSingleLevel_def)
  moreover from this have "level_rep cf l [n] {}"
    using assms by (intro level_repI [of _ _ _ "[n]" "[]"]) (auto simp: in_memory_def)
  ultimately show ?thesis using that by blast
qed

fun pages :: "trie \<Rightarrow> nat" where
  \<comment> \<open>a bound on the pages that a build hands out before its end\<close>
  "pages (Start s) = 0"
| "pages (Fork h l r) = pages l + pages r + 2 * min (depth l) (depth r)"

lemma pages_le: "pages t + 2 * depth t \<le> 2 * nodes t"
  by (induction t) auto

lemma combine_rep:
  assumes s: "int_stack_rep hs (h # hs0)" and N: "2 \<le> lc_N cf"
    and l: "levels_rep cf Tl (levels l) A" and r: "levels_rep cf Tr (levels r) B" and AB: "A \<inter> B = {}"
    and t: "trie_ok (Fork h l r)" and p: "lc_next cf + 2 * min (depth l) (depth r) \<le> 1073741824"
  shows "\<exists>hs' T cf' C. combine hs (Tr # Tl # Ts) cf = Inr (hs', T # Ts, cf') \<and> int_stack_rep hs' hs0 \<and>
    levels_rep cf' T (levels (Fork h l r)) C \<and> C \<subseteq> A \<union> B \<union> {lc_next cf..<lc_next cf'} \<and>
    keeps_others cf cf' (A \<union> B) \<and> lc_next cf' \<le> lc_next cf + 2 * min (depth l) (depth r)"
proof -
  from height_stack.pop_law [OF s] obtain hs' where hs: "popIntStack hs = Inr (h, hs')" "int_stack_rep hs' hs0" by blast
  have t': "trie_ok l" "trie_ok r" "above h l" "above h r" "0 \<le> h" "h < 1073741824" using t by auto
  then have root: "mk_node HEIGHT_NODE h = child_node (- 1) (Fork h l r)" by (simp add: mk_node_id)
  from cvt_root_rep [OF l N t'(1,3,5)] obtain Tl' where Tl': "cvt_root h Tl = Inr Tl'" "levels_rep cf Tl' ([child_node h l] # below l) A" by blast
  from cvt_root_rep [OF r N t'(2,4,5)] obtain Tr' where Tr': "cvt_root h Tr = Inr Tr'" "levels_rep cf Tr' ([child_node h r] # below r) B" by blast
  have len: "length ([child_node h t] # below t) = depth t" for t using length_levels [of t] by (simp add: levels_def)
  from merge_levels_rep [OF Tl'(2) Tr'(2) AB N] obtain ms cf' C where m: "merge_lists mergeSingleLevel Tl' Tr' cf = Inr (ms, cf')"
      "levels_rep cf' ms (below (Fork h l r)) C" "C \<subseteq> A \<union> B \<union> {lc_next cf..<lc_next cf'}" "keeps_others cf cf' (A \<union> B)"
      "lc_next cf' \<le> lc_next cf + 2 * min (depth l) (depth r)"
    unfolding len using p by auto
  have N': "2 \<le> lc_N cf'" using N m(4) by (simp add: keeps_others_def)
  have "node_ok (child_node (- 1) (Fork h l r))" using t by (simp add: node_ok_def)
  from new_level_rep [OF N' this] obtain l0 where l0: "nodeAppend (child_node (- 1) (Fork h l r)) (newSingleLevel cf') = Inr l0"
      "level_rep cf' l0 [child_node (- 1) (Fork h l r)] {}" "sl_first l0 = - 1" by blast
  then have "levels_rep cf' (l0 # ms) (levels (Fork h l r)) C"
    using m(2) unfolding levels_def append_Cons append_Nil by (intro levels_rep_Cons) simp_all
  moreover have "combine hs (Tr # Tl # Ts) cf = Inr (hs', (l0 # ms) # Ts, cf')"
    using hs(1) Tl'(1) Tr'(1) m(1) l0(1)
    by (simp add: combine_def Let_def root mergeLevelStacks_def del: child_node.simps) (simp)
  ultimately show ?thesis using hs(2) m(3-5) by blast
qed


subsection \<open>The loop\<close>

lemma readNode_height: "0 \<le> c \<Longrightarrow> c < 1073741824 \<Longrightarrow> readNode (c # rest) = Inr (\<lparr>nd_type = HEIGHT_NODE, nd_value = c\<rparr>, rest)"
  by (simp add: readNode_def mk_node_id)

lemma readNode_start: "0 < s \<Longrightarrow> s < 1073741824 \<Longrightarrow> readNode (- s # rest) = Inr (\<lparr>nd_type = START_NODE, nd_value = s\<rparr>, rest)"
  by (simp add: readNode_def mk_node_id)

lemma is_top_rep: "int_stack_rep hs xs \<Longrightarrow> is_top hs = length xs"
  by (simp add: int_stack_rep_def)

abbreviation height_node :: "int \<Rightarrow> Node" where
  "height_node c \<equiv> \<lparr>nd_type = HEIGHT_NODE, nd_value = c\<rparr>"

text \<open>One round of the inner loop: at the head of the outer loop or inside, it comes to the same.\<close>

lemma build_loop_combine:
  assumes s: "int_stack_rep hs (h # g # gs)" "int (Suc (Suc (length gs))) < INT_STACK_SZ" and c: "0 \<le> c" "c < h"
    and m: "combine hs Ts cf = Inr (hs', Ts', cf')" "int_stack_rep hs' (g # gs)"
  shows "\<exists>k\<le>1. \<forall>f. build_loop (k + f) fp (height_node c) hs Ts cf = build_loop f fp (height_node c) hs' Ts' cf'"
proof -
  have top: "topIntStack hs = Inr h" "topIntStack hs' = Inr g"
    using topIntStack_rep [OF s(1)] topIntStack_rep [OF m(2)] s(2) by auto
  have it: "is_top hs = Suc (is_top hs')" using is_top_rep [OF s(1)] is_top_rep [OF m(2)] by simp
  have one: "build_loop (Suc f) fp (height_node c) hs Ts cf =
      res_bind (combine_while (Suc (is_top hs')) (height_node c) hs Ts cf) (\<lambda>(hs', ts', cf'). build_loop f fp (height_node c) hs' ts' cf')" for f
    using top(1) c it by (simp del: combine_while.simps)
  have inner: "combine_while (Suc n) (height_node c) hs Ts cf =
      (if g \<le> c then Inr (hs', Ts', cf') else combine_while n (height_node c) hs' Ts' cf')" for n
    using m(1) top(2) by simp
  show ?thesis
  proof (cases "g \<le> c")
    case True
    then show ?thesis using one inner by (intro exI [of _ 1]) simp
  next
    case False
    have "build_loop f fp (height_node c) hs Ts cf = build_loop f fp (height_node c) hs' Ts' cf'" for f
    proof (cases f)
      case (Suc f')
      have "build_loop (Suc f') fp (height_node c) hs' Ts' cf' =
          res_bind (combine_while (is_top hs') (height_node c) hs' Ts' cf') (\<lambda>(hs', ts', cf'). build_loop f' fp (height_node c) hs' ts' cf')"
        using top(2) c False by (simp del: combine_while.simps)
      with Suc one inner False show ?thesis by simp
    qed simp
    then show ?thesis by (intro exI [of _ 0]) simp
  qed
qed

lemma build_trie:
  assumes "trie_ok t" "above g t" "above c t" "0 \<le> g" "0 \<le> c" "c < 1073741824"
    and "int_stack_rep hs (g # gs)" "int (length gs + depth t + 1) < INT_STACK_SZ" "2 \<le> lc_N cf"
    and "lc_next cf + pages t \<le> 1073741824" "readNode (infix_list t @ c # rest) = Inr (n0, fp0)"
  shows "\<exists>T cf' B hs' k. k \<le> 2 * length (infix_list t) \<and>
    (\<forall>f. build_loop (k + f) fp0 n0 hs Ts cf = build_loop f rest (height_node c) hs' (T # Ts) cf') \<and>
    int_stack_rep hs' (g # gs) \<and> levels_rep cf' T (levels t) B \<and> B \<subseteq> {lc_next cf..<lc_next cf'} \<and>
    keeps_others cf cf' {} \<and> lc_next cf' \<le> lc_next cf + pages t"
  using assms
proof (induction t arbitrary: g gs c hs cf Ts rest n0 fp0)
  case (Start s)
  have n0: "n0 = \<lparr>nd_type = START_NODE, nd_value = s\<rparr>" "fp0 = c # rest"
    using Start.prems(1,11) by (auto simp: readNode_start)
  have "node_ok n0" using Start.prems(1) by (simp add: n0 node_ok_def)
  from new_level_rep [OF Start.prems(9) this] obtain l where l: "nodeAppend n0 (newSingleLevel cf) = Inr l" "level_rep cf l [n0] {}" "sl_first l = - 1" .
  have "levels_rep cf [l] (levels (Start s)) {}" using l(2,3) by (simp add: levels_def n0)
  moreover have "build_loop (1 + f) fp0 n0 hs Ts cf = build_loop f rest (height_node c) hs ([l] # Ts) cf" for f
    using l(1) Start.prems(5,6) by (simp add: n0 createLevelStack_def readNode_height)
  ultimately show ?case
    using Start.prems(7) by (intro exI [of _ "[l]"] exI [of _ cf] exI [of _ "{}"] exI [of _ hs] exI [of _ 1]) (simp add: keeps_others_def)
next
  case (Fork h l r)
  note P = Fork.prems
  have t: "trie_ok l" "trie_ok r" "above h l" "above h r" "0 < h" "h < 1073741824" "g < h" "c < h" using P(1-3) by auto
  have gl: "above g l" and len: "int (length gs + depth l + 1) < INT_STACK_SZ" "int (length (g # gs) + depth r + 1) < INT_STACK_SZ"
    using P(2,8) by auto
  have rl: "readNode (infix_list l @ h # infix_list r @ c # rest) = Inr (n0, fp0)" using P(11) by simp
  have pl: "lc_next cf + pages l \<le> 1073741824" using P(10) by simp
  from Fork.IH(1) [OF t(1) gl t(3) P(4) _ t(6) P(7) len(1) P(9) pl rl, of Ts] t(5) obtain Tl cf1 Bl hs1 k1 where
    L: "k1 \<le> 2 * length (infix_list l)"
      "\<forall>f. build_loop (k1 + f) fp0 n0 hs Ts cf = build_loop f (infix_list r @ c # rest) (height_node h) hs1 (Tl # Ts) cf1"
      "int_stack_rep hs1 (g # gs)" "levels_rep cf1 Tl (levels l) Bl" "Bl \<subseteq> {lc_next cf..<lc_next cf1}"
      "keeps_others cf cf1 {}" "lc_next cf1 \<le> lc_next cf + pages l" by auto
  have room: "length (g # gs) < nat INT_STACK_SZ" using P(8) by simp
  from height_stack.push_law [OF L(3) room] obtain hs2 where hs2: "pushIntStack h hs1 = Inr hs2" "int_stack_rep hs2 (h # g # gs)" by blast
  obtain n1 fp1 where n1: "readNode (infix_list r @ c # rest) = Inr (n1, fp1)"
    by (cases "infix_list r") (auto simp: readNode_def)
  have "topIntStack hs1 = Inr g" using topIntStack_rep [OF L(3)] P(8) by simp
  then have push: "build_loop (Suc f) (infix_list r @ c # rest) (height_node h) hs1 (Tl # Ts) cf1 = build_loop f fp1 n1 hs2 (Tl # Ts) cf1" for f
    using t(5,7) hs2(1) n1 by simp
  have N1: "2 \<le> lc_N cf1" using P(9) L(6) by (simp add: keeps_others_def)
  have pr: "lc_next cf1 + pages r \<le> 1073741824" using P(10) L(7) by simp
  have h0: "0 \<le> h" "above c r" using t(5) P(3) by auto
  from Fork.IH(2) [OF t(2,4) h0(2,1) P(5,6) hs2(2) len(2) N1 pr n1, of "Tl # Ts"] obtain Tr cf2 Br hs3 k2 where
    R: "k2 \<le> 2 * length (infix_list r)"
      "\<forall>f. build_loop (k2 + f) fp1 n1 hs2 (Tl # Ts) cf1 = build_loop f rest (height_node c) hs3 (Tr # Tl # Ts) cf2"
      "int_stack_rep hs3 (h # g # gs)" "levels_rep cf2 Tr (levels r) Br" "Br \<subseteq> {lc_next cf1..<lc_next cf2}"
      "keeps_others cf1 cf2 {}" "lc_next cf2 \<le> lc_next cf1 + pages r" by auto
  have "keeps cf1 cf2 Bl" using L(5) by (intro keeps_othersD [OF R(6)]) auto
  with L(4) have Tl: "levels_rep cf2 Tl (levels l) Bl" by (rule levels_rep_keeps)
  have disj: "Bl \<inter> Br = {}" using L(5) R(5) by fastforce
  have N2: "2 \<le> lc_N cf2" using N1 R(6) by (simp add: keeps_others_def)
  have pm: "lc_next cf2 + 2 * min (depth l) (depth r) \<le> 1073741824" using P(10) L(7) R(7) by simp
  from combine_rep [OF R(3) N2 Tl R(4) disj P(1) pm, of Ts] obtain hs4 T cf3 C where
    M: "combine hs3 (Tr # Tl # Ts) cf2 = Inr (hs4, T # Ts, cf3)" "int_stack_rep hs4 (g # gs)"
      "levels_rep cf3 T (levels (Fork h l r)) C" "C \<subseteq> Bl \<union> Br \<union> {lc_next cf2..<lc_next cf3}"
      "keeps_others cf2 cf3 (Bl \<union> Br)" "lc_next cf3 \<le> lc_next cf2 + 2 * min (depth l) (depth r)" by blast
  have sz: "int (Suc (Suc (length gs))) < INT_STACK_SZ" using P(8) by (cases l) auto
  from build_loop_combine [OF R(3) sz P(5) t(8) M(1,2), of rest] obtain k3 where
    K: "k3 \<le> 1" "\<forall>f. build_loop (k3 + f) rest (height_node c) hs3 (Tr # Tl # Ts) cf2 = build_loop f rest (height_node c) hs4 (T # Ts) cf3"
    by blast
  have run: "build_loop ((k1 + Suc (k2 + k3)) + f) fp0 n0 hs Ts cf = build_loop f rest (height_node c) hs4 (T # Ts) cf3" for f
  proof -
    have e: "(k1 + Suc (k2 + k3)) + f = k1 + Suc (k2 + (k3 + f))" by simp
    show ?thesis unfolding e L(2) [rule_format] push R(2) [rule_format] K(2) [rule_format] ..
  qed
  have ko: "keeps_others cf cf3 {}"
  proof (rule keeps_others_trans [OF keeps_others_trans [OF L(6) R(6)] M(5)])
    fix b assume "b \<in> Bl \<union> Br" "b < lc_next cf"
    moreover have "lc_next cf \<le> lc_next cf1" using L(6) by (simp add: keeps_others_def)
    ultimately show "b \<in> {}" using L(5) R(5) by auto
  qed auto
  have nxt: "lc_next cf \<le> lc_next cf1" "lc_next cf1 \<le> lc_next cf2" "lc_next cf2 \<le> lc_next cf3"
    using L(6) R(6) M(5) by (simp_all add: keeps_others_def)
  have sub: "C \<subseteq> {lc_next cf..<lc_next cf3}"
  proof
    fix x assume "x \<in> C"
    with M(4) L(5) R(5) have "x \<in> {lc_next cf..<lc_next cf1} \<or> x \<in> {lc_next cf1..<lc_next cf2} \<or> x \<in> {lc_next cf2..<lc_next cf3}" by blast
    with nxt show "x \<in> {lc_next cf..<lc_next cf3}" by auto
  qed
  have "k1 + Suc (k2 + k3) \<le> 2 * length (infix_list (Fork h l r))" using L(1) R(1) K(1) by simp
  moreover have "lc_next cf3 \<le> lc_next cf + pages (Fork h l r)" using L(7) R(7) M(6) by simp
  ultimately show ?case using run M(2,3) sub ko by blast
qed


subsection \<open>The end of the build\<close>

text \<open>A level as it is stored in the finished file: the chain ends with a terminal node.\<close>

definition stored :: "nat \<Rightarrow> int list \<Rightarrow> int \<Rightarrow> Node list \<Rightarrow> nat set \<Rightarrow> bool" where
  "stored N f p ns A = (\<exists>pgs q mem. p = int (fst (hd (pgs @ [(q, mem)]))) \<and> linked N f (nat p) pgs q \<and>
     block N f q mem term_node \<and> ns = concat (map snd pgs) @ mem \<and> A = set (map fst pgs @ [q]) \<and> distinct (map fst pgs @ [q]))"

lemma stored_keeps:
  "stored (lc_N cf) (lc_file cf) p ns A \<Longrightarrow> keeps cf cf' A \<Longrightarrow> stored (lc_N cf) (lc_file cf') p ns A"
proof -
  assume "stored (lc_N cf) (lc_file cf) p ns A" and k: "keeps cf cf' A"
  then obtain pgs q mem where *: "p = int (fst (hd (pgs @ [(q, mem)])))" "linked (lc_N cf) (lc_file cf) (nat p) pgs q"
     "block (lc_N cf) (lc_file cf) q mem term_node" "ns = concat (map snd pgs) @ mem" "A = set (map fst pgs @ [q])" "distinct (map fst pgs @ [q])"
    unfolding stored_def by blast
  have "linked (lc_N cf') (lc_file cf') (nat p) pgs q" using *(5) by (intro linked_keeps [OF *(2) k]) auto
  moreover have "block (lc_N cf) (lc_file cf') q mem term_node" using * k by (auto simp: keeps_def)
  moreover have "lc_N cf' = lc_N cf" using k by (simp add: keeps_def)
  ultimately show ?thesis unfolding stored_def using * by auto
qed

lemma term_node_type: "nd_type term_node = TERM_NODE" "node_ok term_node"
  by (simp_all add: term_node_def mk_node_def node_ok_def)

lemma write_level_stored:
  assumes r: "level_rep cf l ns B" and l1: "nodeAppend term_node l = Inr l1" and w: "writeTriePage cf l1 = (l2, cf1)"
  obtains B' where "stored (lc_N cf) (lc_file cf1) (sl_first l2) ns B'" "B' \<subseteq> B \<union> {lc_next cf..<lc_next cf1}"
    "\<forall>b\<in>B'. b < lc_next cf1" "0 \<le> sl_first l2"
    "within cf \<longrightarrow> sl_first l = - 1 \<longrightarrow> lc_pos cf1 = length (lc_file cf1)"
proof -
  obtain pgs q mem where p: "sl_first l2 = int (fst (hd (pgs @ [(q, mem)])))"
    "linked (lc_N cf) (lc_file cf1) (fst (hd (pgs @ [(q, mem)]))) pgs q" "block (lc_N cf) (lc_file cf1) q mem term_node"
    "ns = concat (map snd pgs) @ mem" "distinct (map fst pgs @ [q])"
    "set (map fst pgs @ [q]) \<subseteq> B \<union> {lc_next cf..<lc_next cf1}" "\<forall>a\<in>set (map fst pgs @ [q]). a < lc_next cf1"
    "lc_pos cf1 = q * lc_N cf + lc_N cf" "lc_file cf1 = write_at (q * lc_N cf) (sl_node l1) (lc_file cf)"
    "length (sl_node l1) = lc_N cf" "sl_first l = - 1 \<longrightarrow> pgs = [] \<and> q = lc_next cf \<and> lc_next cf1 = Suc (lc_next cf)"
    by (rule write_page [OF r l1 w])
  have "stored (lc_N cf) (lc_file cf1) (sl_first l2) ns (set (map fst pgs @ [q]))"
    unfolding stored_def using p(1-5) by auto
  moreover have "within cf \<longrightarrow> sl_first l = - 1 \<longrightarrow> lc_pos cf1 = length (lc_file cf1)"
    using p(8-11) by (simp add: within_def length_write_at)
  ultimately show ?thesis using that [of "set (map fst pgs @ [q])"] p(1,6,7) by simp
qed

lemma write_levels_stored:
  assumes "levels_rep cf T nss A"
  shows "\<exists>first cf'. write_levels T cf = Inr (first, cf') \<and>
    list_all2 (\<lambda>p ns. 0 \<le> p \<and> (\<exists>B. stored (lc_N cf) (lc_file cf') p ns B \<and> (\<forall>b\<in>B. b < lc_next cf'))) first nss \<and>
    keeps_others cf cf' A \<and> lc_next cf' \<le> lc_next cf + length nss \<and>
    (within cf \<longrightarrow> nss \<noteq> [] \<longrightarrow> length (last nss) < lc_N cf \<longrightarrow> lc_pos cf' = length (lc_file cf'))"
  using assms
proof (induction T nss arbitrary: cf A rule: list_induct2')
  case 1
  then show ?case by (simp add: keeps_others_def)
next
  case (4 l ls ns nss)
  then obtain B C where r: "level_rep cf l ns B" "levels_rep cf ls nss C" "B \<inter> C = {}" "A = B \<union> C"
      "length ns < lc_N cf \<longrightarrow> sl_first l = - 1" by auto
  obtain l1 where l1: "nodeAppend term_node l = Inr l1" using level_rep_append_ok [OF r(1)] by blast
  obtain l2 cf1 where w: "writeTriePage cf l1 = (l2, cf1)" by fastforce
  note f = write_page_frame [OF r(1) l1 w]
  have ko1: "keeps_others cf cf1 B" using f by (simp add: keeps_others_def)
  have Cl: "\<forall>c\<in>C. c < lc_next cf" using levels_rep_less [OF r(2)] by blast
  have "keeps cf cf1 C" using r(3) Cl by (intro f(5)) auto
  with r(2) have "levels_rep cf1 ls nss C" by (rule levels_rep_keeps)
  from 4(1) [OF this] obtain first cf2 where IH: "write_levels ls cf1 = Inr (first, cf2)"
    "list_all2 (\<lambda>p ns. 0 \<le> p \<and> (\<exists>B. stored (lc_N cf1) (lc_file cf2) p ns B \<and> (\<forall>b\<in>B. b < lc_next cf2))) first nss"
    "keeps_others cf1 cf2 C" "lc_next cf2 \<le> lc_next cf1 + length nss"
    "within cf1 \<longrightarrow> nss \<noteq> [] \<longrightarrow> length (last nss) < lc_N cf1 \<longrightarrow> lc_pos cf2 = length (lc_file cf2)"
    by blast
  obtain B' where B': "stored (lc_N cf) (lc_file cf1) (sl_first l2) ns B'" "B' \<subseteq> B \<union> {lc_next cf..<lc_next cf1}"
    "\<forall>b\<in>B'. b < lc_next cf1" "0 \<le> sl_first l2" "within cf \<longrightarrow> sl_first l = - 1 \<longrightarrow> lc_pos cf1 = length (lc_file cf1)"
    by (rule write_level_stored [OF r(1) l1 w])
  have "B' \<inter> C = {}"
  proof -
    have "x \<in> B \<or> lc_next cf \<le> x" if "x \<in> B'" for x using B'(2) that by auto
    with r(3) Cl show ?thesis by (meson disjoint_iff not_less)
  qed
  then have "keeps cf1 cf2 B'" using B'(3) by (rule keeps_othersD [OF IH(3)])
  then have st: "stored (lc_N cf) (lc_file cf2) (sl_first l2) ns B'"
    using B'(1) stored_keeps [of cf1 "sl_first l2" ns B' cf2] f(1) by simp
  have nx: "lc_next cf1 \<le> lc_next cf2" using IH(3) by (simp add: keeps_others_def)
  have ko: "keeps_others cf cf2 A" by (rule keeps_others_trans [OF ko1 IH(3)]) (use r(4) in blast)+
  have "write_levels (l # ls) cf = Inr (sl_first l2 # first, cf2)"
    using l1 w IH(1) by simp
  moreover have "\<forall>b\<in>B'. b < lc_next cf2" using B'(3) nx by (meson order_less_le_trans)
  moreover have "lc_pos cf2 = length (lc_file cf2)" if "within cf" "length (last (ns # nss)) < lc_N cf"
  proof (cases nss)
    case Nil
    then have "cf2 = cf1" using IH(1) levels_rep_length [OF r(2)] by simp
    with Nil that B'(5) r(5) show ?thesis by simp
  next
    case (Cons a list)
    with that IH(5) f(1,6) show ?thesis by simp
  qed
  ultimately show ?case using st ko IH(2,4) B'(4) f(1,3) by auto
qed auto


end
