(* ===== verification/PatrieLevelFile.thy ===== *)
theory PatrieLevelFile
  imports PatrieLevelTree
begin

section \<open>Patricia trie: the levels file reads back\<close>

text \<open>
  The finished levels file as its reader sees it: the chain of pages of a level, walked by
  \<open>nextNode\<close>, gives the nodes of the level, and the whole build is correct.
\<close>

subsection \<open>Reading\<close>

definition plain :: "Node \<Rightarrow> bool" where
  "plain n = (node_ok n \<and> \<not> is_link n)"

text \<open>What follows after a last node of a page, and over how many pages.\<close>

inductive follows :: "nat \<Rightarrow> int list \<Rightarrow> Node \<Rightarrow> Node list \<Rightarrow> nat \<Rightarrow> bool" for N f where
  follows_term: "follows N f term_node [] 0"
| follows_link: "block N f p seg t \<Longrightarrow> list_all plain seg \<Longrightarrow> p < 1073741824 \<Longrightarrow> follows N f t rest n \<Longrightarrow>
    follows N f (link_to p) (seg @ rest) (Suc n)"

inductive_cases follows_termE: "follows N f term_node ns n"
inductive_cases follows_linkE: "follows N f (link_to p) ns n"

lemma link_to_simps [simp]: "nd_type (link_to p) = BLKNO_NODE" "nd_value (link_to p) = int p" "link_to p \<noteq> term_node"
  "link_to p = link_to q \<longleftrightarrow> p = q"
  by (simp_all add: link_to_def term_node_def mk_node_def)

lemma link_to_ok: "p < 1073741824 \<Longrightarrow> node_ok (link_to p)"
  by (simp add: link_to_def node_ok_def)

lemma follows_last: "follows N f t ns n \<Longrightarrow> node_ok t \<and> is_link t"
  by (induction rule: follows.induct) (auto simp: term_node_type is_link_def link_to_ok)

lemma linked_follows:
  assumes "linked N f p pgs q" "block N f q mem term_node" "list_all plain (concat (map snd pgs) @ mem)"
    "\<forall>a\<in>set (map fst pgs @ [q]). a < 1073741824"
  shows "follows N f (link_to p) (concat (map snd pgs) @ mem) (Suc (length pgs))"
  using assms
proof (induction pgs arbitrary: p)
  case Nil
  then have "follows N f (link_to q) (mem @ []) (Suc 0)" by (intro follows_link [OF _ _ _ follows_term]) auto
  with Nil show ?case by simp
next
  case (Cons ab pgs)
  obtain a seg where ab: "ab = (a, seg)" by (cases ab)
  with Cons.prems obtain nx where nx: "p = a" "block N f a seg (link_to nx)" "linked N f nx pgs q" by auto
  with Cons ab have "follows N f (link_to nx) (concat (map snd pgs) @ mem) (Suc (length pgs))" by auto
  with nx Cons.prems ab have "follows N f (link_to p) (seg @ (concat (map snd pgs) @ mem)) (Suc (Suc (length pgs)))"
    by (intro follows_link) auto
  with ab show ?case by simp
qed

text \<open>The pages of a chain are different pages of the file, so there are not more than cells.\<close>

lemma linked_pages: "linked N f p pgs q \<Longrightarrow> a \<in> fst ` set pgs \<Longrightarrow> 0 < N \<Longrightarrow> a < length f"
proof (induction pgs arbitrary: p)
  case (Cons ab pgs)
  have "a < length f" if "block N f a seg t" for seg t
  proof -
    have "a * N + N \<le> length f" using that by (simp add: block_def)
    moreover have "a * 1 \<le> a * N" using Cons.prems(3) by (intro mult_le_mono2) simp
    ultimately show ?thesis using Cons.prems(3) by linarith
  qed
  with Cons show ?case by (cases ab) auto
qed simp

lemma distinct_pages: "distinct ps \<Longrightarrow> \<forall>a\<in>set ps. a < (n::nat) \<Longrightarrow> length ps \<le> n"
  using card_mono [of "{..<n}" "set ps"] distinct_card [of ps] by (auto simp: subset_iff)

lemma nodes_used_link: "is_link (dec_node c) \<Longrightarrow> \<exists>n. nodes_used (cs @ c # ds) = Inr (Suc n)"
  by (induction cs) auto

lemma readTriePage_block:
  assumes "block N f p seg t" "list_all plain seg" "node_ok t" "is_link t" "lc_N cf = N" "lc_file cf = f"
  obtains lev1 where "readTriePage cf (int p) lev = Inr lev1" "sl_used lev1 \<noteq> 0"
    "take (Suc (length seg)) (sl_node lev1) = map enc_node (seg @ [t])" "length seg < length (sl_node lev1)"
proof -
  let ?pg = "take N (drop (p * N) f)"
  have len: "length ?pg = N" "length seg < N" and tk: "take (Suc (length seg)) ?pg = map enc_node (seg @ [t])"
    using assms(1) by (auto simp: block_def min_def)
  have "?pg = map enc_node seg @ enc_node t # drop (Suc (length seg)) ?pg"
    using tk append_take_drop_id [of "Suc (length seg)" ?pg] by simp
  moreover have "is_link (dec_node (enc_node t))" using assms(3,4) by simp
  ultimately obtain n where "nodes_used ?pg = Inr (Suc n)" using nodes_used_link by metis
  then have "readTriePage cf (int p) lev = Inr (lev\<lparr>sl_node := ?pg, sl_page := int p, sl_used := Suc n\<rparr>)"
    using len assms(5,6) by (simp add: readTriePage_def Let_def)
  then show ?thesis using that tk len by fastforce
qed

text \<open>A level that is being read: what is left of the page, and what follows it.\<close>

definition reading :: "level_cf \<Rightarrow> single_level \<Rightarrow> Node list \<Rightarrow> bool" where
  "reading cf lev ns = (sl_used lev \<noteq> 0 \<and> (\<exists>seg t rest n.
     take (Suc (length seg)) (sl_node lev) = map enc_node (seg @ [t]) \<and> length seg < length (sl_node lev) \<and>
     list_all plain seg \<and> sl_next lev \<le> length seg \<and> follows (lc_N cf) (lc_file cf) t rest n \<and> n \<le> length (lc_file cf) \<and>
     ns = drop (sl_next lev) seg @ rest))"

lemma follow_links_reading:
  assumes "take (Suc (length seg)) (sl_node lev) = map enc_node (seg @ [t])" "length seg < length (sl_node lev)"
    "list_all plain seg" "sl_next lev \<le> length seg" "follows (lc_N cf) (lc_file cf) t rest n" "n \<le> length (lc_file cf)"
    "sl_used lev \<noteq> 0" "n < fuel"
  shows "\<exists>x lev1. follow_links fuel cf lev = Inr (x, lev1) \<and> reading cf lev1 (drop (sl_next lev) seg @ rest) \<and>
    (case drop (sl_next lev) seg @ rest of [] \<Rightarrow> nd_type x = TERM_NODE
     | y # ys \<Rightarrow> x = y \<and> plain x \<and> reading cf (lev1\<lparr>sl_next := Suc (sl_next lev1)\<rparr>) ys)"
  using assms
proof (induction fuel arbitrary: seg lev t rest n)
  case (Suc fuel)
  have rd: "reading cf lev (drop (sl_next lev) seg @ rest)" unfolding reading_def using Suc.prems by blast
  have cell: "sl_node lev ! i = (map enc_node (seg @ [t])) ! i" if "i \<le> length seg" for i
    using Suc.prems(1) that by (metis less_Suc_eq_le nth_take)
  show ?case
  proof (cases "sl_next lev < length seg")
    case True
    let ?x = "seg ! sl_next lev"
    have pl: "plain ?x" using Suc.prems(3) True by (simp add: list_all_length)
    have d: "drop (sl_next lev) seg = ?x # drop (Suc (sl_next lev)) seg" using True by (simp add: Cons_nth_drop_Suc)
    have "dec_node (sl_node lev ! sl_next lev) = ?x" using cell [of "sl_next lev"] True pl by (simp add: nth_append plain_def)
    moreover have "nd_type ?x \<noteq> BLKNO_NODE" using pl by (simp add: plain_def is_link_def)
    ultimately have "follow_links (Suc fuel) cf lev = Inr (?x, lev)" using True Suc.prems(2) by (simp add: Let_def)
    moreover have "reading cf (lev\<lparr>sl_next := Suc (sl_next lev)\<rparr>) (drop (Suc (sl_next lev)) seg @ rest)"
      unfolding reading_def using Suc.prems True by (intro conjI exI [of _ seg] exI [of _ t] exI [of _ rest] exI [of _ n]) auto
    ultimately show ?thesis using rd pl unfolding d by simp
  next
    case False
    then have k: "sl_next lev = length seg" using Suc.prems(4) by simp
    have t: "node_ok t" "is_link t" using follows_last [OF Suc.prems(5)] by auto
    have x: "dec_node (sl_node lev ! sl_next lev) = t" using cell [of "sl_next lev"] k t(1) by (simp add: nth_append)
    from Suc.prems(5) show ?thesis
    proof (cases rule: follows.cases)
      case follows_term
      then show ?thesis using x k Suc.prems(2) rd term_node_type by (auto simp: Let_def)
    next
      case (follows_link p seg' t' rest' n')
      have t': "node_ok t'" "is_link t'" using follows_last [OF follows_link(7)] by auto
      obtain lev1 where l1: "readTriePage cf (int p) lev = Inr lev1" "sl_used lev1 \<noteq> 0"
          "take (Suc (length seg')) (sl_node lev1) = map enc_node (seg' @ [t'])" "length seg' < length (sl_node lev1)"
        using readTriePage_block [OF follows_link(4,5) t' refl refl] by blast
      have "follow_links (Suc fuel) cf lev = follow_links fuel cf (lev1\<lparr>sl_next := 0\<rparr>)"
        using x k Suc.prems(2) l1(1) follows_link(1) by (simp add: Let_def)
      moreover from Suc.IH [of seg' "lev1\<lparr>sl_next := 0\<rparr>" t' rest' n'] have
        "\<exists>x lev2. follow_links fuel cf (lev1\<lparr>sl_next := 0\<rparr>) = Inr (x, lev2) \<and> reading cf lev2 (seg' @ rest') \<and>
          (case seg' @ rest' of [] \<Rightarrow> nd_type x = TERM_NODE
           | y # ys \<Rightarrow> x = y \<and> plain x \<and> reading cf (lev2\<lparr>sl_next := Suc (sl_next lev2)\<rparr>) ys)"
        using l1 follows_link Suc.prems(6,8) by simp
      ultimately show ?thesis using k follows_link(2) by simp
    qed
  qed
qed simp

lemma nextNode_reading:
  assumes "reading cf lev ns"
  shows "\<exists>lev1. nextNode cf lev = Inr (case ns of [] \<Rightarrow> None | y # ys \<Rightarrow> Some y, lev1) \<and>
    reading cf lev1 (tl ns)"
proof -
  from assms obtain seg t rest n where r: "sl_used lev \<noteq> 0"
     "take (Suc (length seg)) (sl_node lev) = map enc_node (seg @ [t])" "length seg < length (sl_node lev)"
     "list_all plain seg" "sl_next lev \<le> length seg" "follows (lc_N cf) (lc_file cf) t rest n" "n \<le> length (lc_file cf)"
     "ns = drop (sl_next lev) seg @ rest"
    unfolding reading_def by blast
  have fuel: "n < Suc (length (lc_file cf))" using r(7) by simp
  from follow_links_reading [OF r(2-7,1) fuel] obtain x lev1 where x:
    "follow_links (Suc (length (lc_file cf))) cf lev = Inr (x, lev1)" "reading cf lev1 ns"
    "case ns of [] \<Rightarrow> nd_type x = TERM_NODE | y # ys \<Rightarrow> x = y \<and> plain x \<and> reading cf (lev1\<lparr>sl_next := Suc (sl_next lev1)\<rparr>) ys"
    unfolding r(8) by blast
  show ?thesis
  proof (cases ns)
    case Nil
    with x r(1) show ?thesis by (simp add: nextNode_def del: follow_links.simps)
  next
    case (Cons y ys)
    with x have "nd_type x \<noteq> TERM_NODE" by (auto simp: plain_def is_link_def)
    with Cons x r(1) show ?thesis by (simp add: nextNode_def del: follow_links.simps)
  qed
qed


text \<open>All nodes of a level, one after the other, until \<open>nextNode\<close> reports the end.\<close>

fun read_level :: "nat \<Rightarrow> level_cf \<Rightarrow> single_level \<Rightarrow> Node list res" where
  "read_level 0 cf lev = Inl OutOfFuel"
| "read_level (Suc n) cf lev =
     res_bind (nextNode cf lev) (\<lambda>(x, lev1).
       case x of None \<Rightarrow> Inr [] | Some y \<Rightarrow> res_bind (read_level n cf lev1) (\<lambda>ys. Inr (y # ys)))"

lemma nextNode_first:
  assumes "follows (lc_N cf) (lc_file cf) (link_to p) ns n" "n \<le> length (lc_file cf)" "sl_used lev = 0" "sl_first lev = int p"
  shows "\<exists>lev1. nextNode cf lev = nextNode cf lev1 \<and> reading cf lev1 ns"
proof -
  from assms(1) obtain seg t rest n' where f: "block (lc_N cf) (lc_file cf) p seg t" "list_all plain seg"
      "follows (lc_N cf) (lc_file cf) t rest n'" "ns = seg @ rest" "n = Suc n'"
    by (cases rule: follows.cases) auto
  have t: "node_ok t" "is_link t" using follows_last [OF f(3)] by auto
  obtain lev1 where l1: "readTriePage cf (int p) lev = Inr lev1" "sl_used lev1 \<noteq> 0"
      "take (Suc (length seg)) (sl_node lev1) = map enc_node (seg @ [t])" "length seg < length (sl_node lev1)"
    using readTriePage_block [OF f(1,2) t refl refl] by blast
  have "reading cf (lev1\<lparr>sl_next := 0\<rparr>) ns"
    unfolding reading_def using l1 f assms(2)
    by (intro conjI exI [of _ seg] exI [of _ t] exI [of _ rest] exI [of _ n']) auto
  moreover have "nextNode cf lev = nextNode cf (lev1\<lparr>sl_next := 0\<rparr>)"
    using l1(1,2) assms(3,4) by (simp add: nextNode_def del: follow_links.simps)
  ultimately show ?thesis by blast
qed

text \<open>A level that has not been read yet loads its first page with the first \<open>nextNode\<close>.\<close>

definition ready :: "level_cf \<Rightarrow> single_level \<Rightarrow> Node list \<Rightarrow> bool" where
  "ready cf lev ns = (\<exists>lev1. nextNode cf lev = nextNode cf lev1 \<and> reading cf lev1 ns)"

lemma nextNode_ready:
  assumes "ready cf lev ns"
  obtains lev1 where "nextNode cf lev = Inr (case ns of [] \<Rightarrow> None | y # ys \<Rightarrow> Some y, lev1)" "ready cf lev1 (tl ns)"
  using assms nextNode_reading unfolding ready_def by metis

lemma stored_ready:
  assumes st: "stored (lc_N cf) (lc_file cf) p ns B" "\<forall>b\<in>B. b < 1073741824" "list_all plain ns" "0 < lc_N cf"
    and lev: "sl_used lev = 0" "sl_first lev = p"
  shows "ready cf lev ns"
proof -
  from st(1) obtain pgs q mem where s: "p = int (fst (hd (pgs @ [(q, mem)])))" "linked (lc_N cf) (lc_file cf) (nat p) pgs q"
     "block (lc_N cf) (lc_file cf) q mem term_node" "ns = concat (map snd pgs) @ mem" "B = set (map fst pgs @ [q])"
     "distinct (map fst pgs @ [q])"
    unfolding stored_def by blast
  let ?pgs = "map fst pgs @ [q]"
  have f: "follows (lc_N cf) (lc_file cf) (link_to (nat p)) ns (Suc (length pgs))"
    using linked_follows [OF s(2,3)] st(2,3) s(4,5) by simp
  have "q < length (lc_file cf)"
  proof -
    have "q * lc_N cf + lc_N cf \<le> length (lc_file cf)" using s(3) by (simp add: block_def)
    moreover have "q * 1 \<le> q * lc_N cf" using st(4) by (intro mult_le_mono2) simp
    ultimately show ?thesis using st(4) by linarith
  qed
  then have "\<forall>a\<in>set ?pgs. a < length (lc_file cf)" using linked_pages [OF s(2) _ st(4)] by auto
  from distinct_pages [OF s(6) this] have "Suc (length pgs) \<le> length (lc_file cf)" by simp
  from nextNode_first [OF f this lev(1)] lev(2) s(1) show ?thesis by (auto simp: ready_def)
qed

lemma read_level_ready: "ready cf lev ns \<Longrightarrow> length ns < n \<Longrightarrow> read_level n cf lev = Inr ns"
proof (induction n arbitrary: lev ns)
  case (Suc n)
  obtain lev1 where "nextNode cf lev = Inr (case ns of [] \<Rightarrow> None | y # ys \<Rightarrow> Some y, lev1)" "ready cf lev1 (tl ns)"
    using nextNode_ready [OF Suc.prems(1)] .
  with Suc show ?case by (cases ns) auto
qed simp

subsection \<open>The whole build\<close>

lemma child_node_plain: "trie_ok t \<Longrightarrow> above p t \<Longrightarrow> - 1 \<le> p \<Longrightarrow> plain (child_node p t)"
  using child_node_ok [of t p] by (cases t) (auto simp: plain_def is_link_def)

lemma zip_levels_all: "list_all (list_all P) (zip_levels xss yss) \<longleftrightarrow> list_all (list_all P) xss \<and> list_all (list_all P) yss"
  by (induction xss yss rule: zip_levels.induct) auto

lemma below_plain: "trie_ok t \<Longrightarrow> list_all (list_all plain) (below t)"
proof (induction t)
  case (Fork h l r)
  have "plain (child_node h l)" "plain (child_node h r)" using Fork.prems by (auto intro: child_node_plain)
  with Fork show ?case unfolding below.simps zip_levels_all by simp
qed simp

lemma levels_plain: "trie_ok t \<Longrightarrow> list_all (list_all plain) (levels t)"
  using below_plain [of t] child_node_plain [of t "- 1"] trie_ok_above [of t] by (simp add: levels_def above_mono [of 0])

lemma sum_zip_levels: "sum_list (map length (zip_levels xss yss)) = sum_list (map length xss) + sum_list (map length yss)"
  by (induction xss yss rule: zip_levels.induct) auto

lemma sum_levels: "sum_list (map length (levels t)) = nodes t"
  by (induction t) (auto simp: levels_def sum_zip_levels)

lemma length_level: "ns \<in> set (levels t) \<Longrightarrow> length ns \<le> nodes t"
  using member_le_sum_list [of "length ns" "map length (levels t)"] by (simp add: sum_levels)

lemma block_append: "block N f p seg t \<Longrightarrow> block N (f @ g) p seg t"
  by (auto simp: block_def)

lemma linked_append_file: "linked N f p pgs q \<Longrightarrow> linked N (f @ g) p pgs q"
  by (induction pgs arbitrary: p) (auto, blast intro: block_append)

lemma stored_append: "stored N f p ns B \<Longrightarrow> stored N (f @ g) p ns B"
  unfolding stored_def using linked_append_file block_append by fast


lemma build_levels:
  assumes t: "trie_ok t" "int (depth t + 1) < INT_STACK_SZ" and N: "2 \<le> lc_N cf" and p: "lc_next cf + 2 * nodes t \<le> 1073741824"
    and w: "within cf" "length (last (levels t)) < lc_N cf"
  obtains first cf1 where
    "patrieLevelBuild (0 # infix_list t @ [0]) cf = Inr (cf1\<lparr>lc_file := lc_file cf1 @ first @ [int (depth t)],
       lc_pos := length (lc_file cf1) + depth t + 1\<rparr>)"
    "list_all2 (\<lambda>p ns. 0 \<le> p \<and> (\<exists>B. stored (lc_N cf) (lc_file cf1) p ns B \<and> (\<forall>b\<in>B. b < 1073741824))) first (levels t)"
    "lc_N cf1 = lc_N cf"
proof -
  have p1: "lc_next cf + pages t \<le> 1073741824" using p pages_le [of t] by simp
  obtain hs0 where hs0: "pushIntStack 0 newIntStack = Inr hs0" "int_stack_rep hs0 [0]"
    using height_stack.push_law [OF int_stack_new, of 0] by (auto simp: INT_STACK_SZ_def)
  obtain n0 fp0 where n0: "readNode (infix_list t @ 0 # []) = Inr (n0, fp0)"
    by (cases "infix_list t") (auto simp: readNode_def)
  have a: "above 0 t" using trie_ok_above [OF t(1)] .
  have len: "int (length [] + depth t + 1) < INT_STACK_SZ" using t(2) by simp
  from build_trie [OF t(1) a a _ _ _ hs0(2) len N p1 n0, of "[]"] obtain T cf0 B hs1 k where
    B: "k \<le> 2 * length (infix_list t)" "\<forall>f. build_loop (k + f) fp0 n0 hs0 [] cf = build_loop f [] (height_node 0) hs1 [T] cf0"
      "int_stack_rep hs1 [0]" "levels_rep cf0 T (levels t) B" "keeps_others cf cf0 {}" "lc_next cf0 \<le> lc_next cf + pages t"
    by auto
  obtain hs2 where hs2: "popIntStack hs1 = Inr (0, hs2)" "int_stack_rep hs2 []"
    using height_stack.pop_law [OF B(3)] by blast
  obtain f where f: "2 * length (0 # infix_list t @ [0]) = k + Suc f"
    using B(1) by (intro that [of "2 * length (0 # infix_list t @ [0]) - k - 1"]) simp
  have "topIntStack hs1 = Inr 0" using topIntStack_rep [OF B(3)] by (simp add: INT_STACK_SZ_def)
  then have run: "build_loop (2 * length (0 # infix_list t @ [0])) fp0 n0 hs0 [] cf = Inr (hs2, [T], cf0)"
    unfolding f B(2) [rule_format] using hs2(1) by simp
  have N0: "lc_N cf0 = lc_N cf" "within cf0" using B(5) w(1) by (simp_all add: keeps_others_def)
  from write_levels_stored [OF B(4)] obtain first cf1 where W: "write_levels T cf0 = Inr (first, cf1)"
    "list_all2 (\<lambda>p ns. 0 \<le> p \<and> (\<exists>B. stored (lc_N cf0) (lc_file cf1) p ns B \<and> (\<forall>b\<in>B. b < lc_next cf1))) first (levels t)"
    "keeps_others cf0 cf1 B" "lc_next cf1 \<le> lc_next cf0 + length (levels t)"
    "lc_pos cf1 = length (lc_file cf1)"
    using N0 w(2) by (auto simp: levels_def)
  have nx: "lc_next cf1 \<le> 1073741824" using W(4) B(6) p pages_le [of t] by (simp add: length_levels)
  have "isEmptyIntStack hs2" using height_stack.is_empty_law [OF hs2(2)] by simp
  moreover have "length T = depth t" using levels_rep_length [OF B(4)] by (simp add: length_levels)
  moreover have "readNode (0 # infix_list t @ [0]) = Inr (height_node 0, infix_list t @ [0])" by (simp add: readNode_height)
  ultimately have "patrieLevelBuild (0 # infix_list t @ [0]) cf = Inr (cf1\<lparr>lc_file := lc_file cf1 @ first @ [int (depth t)],
       lc_pos := length (lc_file cf1) + depth t + 1\<rparr>)"
    using hs0(1) n0 run W(1,5) by (simp add: patrieLevelBuild_def write_at_def)
  moreover have "list_all2 (\<lambda>p ns. 0 \<le> p \<and> (\<exists>B. stored (lc_N cf) (lc_file cf1) p ns B \<and> (\<forall>b\<in>B. b < 1073741824))) first (levels t)"
    using W(2) unfolding N0(1) by (rule list_all2_mono) (use nx order_less_le_trans in blast)
  moreover have "lc_N cf1 = lc_N cf" using W(3) N0 by (simp add: keeps_others_def)
  ultimately show ?thesis using that by blast
qed

lemma levels_ready:
  assumes "trie_ok t" "int (depth t + 1) < INT_STACK_SZ" "2 \<le> lc_N cf" "lc_next cf + 2 * nodes t \<le> 1073741824"
    and "length (lc_file cf) \<le> lc_next cf * lc_N cf" "length (last (levels t)) < lc_N cf"
  obtains cf' ls where "patrieLevelBuild (0 # infix_list t @ [0]) cf = Inr cf'" "open_levels cf' = Inr ls"
    "list_all2 (ready cf') ls (levels t)"
proof -
  have "within cf" using assms(5) by (simp add: within_def)
  from build_levels [OF assms(1-4) this assms(6)] obtain first cf1 where b:
    "patrieLevelBuild (0 # infix_list t @ [0]) cf = Inr (cf1\<lparr>lc_file := lc_file cf1 @ first @ [int (depth t)],
       lc_pos := length (lc_file cf1) + depth t + 1\<rparr>)"
    "list_all2 (\<lambda>p ns. 0 \<le> p \<and> (\<exists>B. stored (lc_N cf) (lc_file cf1) p ns B \<and> (\<forall>b\<in>B. b < 1073741824))) first (levels t)"
    "lc_N cf1 = lc_N cf" .
  let ?cf = "cf1\<lparr>lc_file := lc_file cf1 @ first @ [int (depth t)], lc_pos := length (lc_file cf1) + depth t + 1\<rparr>"
  let ?lev = "\<lambda>p. (newSingleLevel ?cf)\<lparr>sl_first := p\<rparr>"
  have len: "length first = depth t" using list_all2_lengthD [OF b(2)] by (simp add: length_levels)
  have o: "open_levels ?cf = Inr (map ?lev first)" by (simp add: open_levels_def Let_def len)
  have "ready ?cf (?lev (first ! i)) (levels t ! i)" if i: "i < depth t" for i
  proof -
    from b(2) i len obtain B where B: "0 \<le> first ! i" "stored (lc_N cf) (lc_file cf1) (first ! i) (levels t ! i) B" "\<forall>b\<in>B. b < 1073741824"
      by (auto simp: list_all2_conv_all_nth)
    have m: "levels t ! i \<in> set (levels t)" using i by (simp add: length_levels)
    have "stored (lc_N ?cf) (lc_file ?cf) (first ! i) (levels t ! i) B" using stored_append [OF B(2)] b(3) by simp
    moreover have "list_all plain (levels t ! i)" using levels_plain [OF assms(1)] m by (auto simp: list_all_iff)
    ultimately show ?thesis
      using B(3) assms(3) b(3) by (intro stored_ready [where B = B]) (auto simp: newSingleLevel_def)
  qed
  then have "list_all2 (ready ?cf) (map ?lev first) (levels t)" by (simp add: list_all2_conv_all_nth len length_levels)
  with b(1) o show ?thesis by (rule that)
qed


definition sample_trie :: trie where
  "sample_trie = Fork 3 (Fork 5 (Start 1) (Start 2)) (Fork 4 (Start 3) (Fork 9 (Start 4) (Start 5)))"

definition empty_levels :: "nat \<Rightarrow> level_cf" where
  "empty_levels N = \<lparr>lc_N = N, lc_next = 0, lc_file = [], lc_pos = 0\<rparr>"



end
