(* ===== verification/PatrieRows.thy ===== *)
theory PatrieRows
  imports PatriePage PatrieLevelFile
begin

section \<open>Patricia trie: rows of subtries and the t-counts of a page\<close>

text \<open>
  The abstract side of \<open>PatriePage\<close>: the levels of a trie as the rows of a forest of subtries, and
  what the two searches of the link counts find.
\<close>

subsection \<open>Rows of a forest\<close>

text \<open>A forest is a list of tries with the heights of their parents; a row holds all children of the row above.\<close>

type_synonym forest = "(int \<times> trie) list"

fun kids :: "int \<times> trie \<Rightarrow> forest" where
  "kids (p, Start s) = []"
| "kids (p, Fork h l r) = [(h, l), (h, r)]"

fun row :: "nat \<Rightarrow> forest \<Rightarrow> forest" where
  "row 0 F = F"
| "row (Suc i) F = row i (concat (map kids F))"

definition node_of :: "int \<times> trie \<Rightarrow> Node" where
  "node_of x = child_node (fst x) (snd x)"

lemma row_Suc: "row (Suc i) F = concat (map kids (row i F))"
  by (induction i arbitrary: F) auto

lemma row_add: "row (i + j) F = row i (row j F)"
  by (induction j arbitrary: F) auto

lemma row_append [simp]: "row i (F @ G) = row i F @ row i G"
  by (induction i arbitrary: F G) auto

lemma row_Nil [simp]: "row i [] = []"
  by (induction i) auto

lemma row_concat: "row i (concat Fs) = concat (map (row i) Fs)"
  by (induction Fs) auto

lemma n_child_node_of [simp]: "n_child (node_of x) = length (kids x)"
  by (cases x rule: kids.cases) (auto simp: n_child_def node_of_def)

lemma count_children_nodes: "count_children (map node_of F) = length (concat (map kids F))"
  by (induction F) (auto simp: count_children_def)

lemma length_kids_le: "length (concat (map kids F)) \<le> 2 * length F"
proof (induction F)
  case (Cons x F)
  then show ?case by (cases x rule: kids.cases) auto
qed simp

lemma length_row_le: "length (row i F) \<le> 2 ^ i * length F"
proof (induction i)
  case (Suc i)
  then show ?case using length_kids_le [of "row i F"] unfolding row_Suc by simp
qed simp

lemma nth_zip_levels: "i < max (length xss) (length yss) \<Longrightarrow>
    zip_levels xss yss ! i = (if i < length xss then xss ! i else []) @ (if i < length yss then yss ! i else [])"
  by (induction xss yss arbitrary: i rule: zip_levels.induct) (auto simp: nth_Cons split: nat.splits)

lemma length_below: "length (below t) = depth t - 1"
  using length_levels [of t] by (simp add: levels_def)

lemma row_depth: "depth t \<le> i \<Longrightarrow> row i [(p, t)] = []"
proof (induction t arbitrary: p i)
  case (Fork h l r)
  then obtain j where "i = Suc j" by (cases i) auto
  with Fork show ?case using row_append [of j "[(h, l)]" "[(h, r)]"] by simp
next
  case (Start s)
  then show ?case by (cases i) auto
qed

lemma below_row: "Suc i < depth t \<Longrightarrow> below t ! i = map node_of (row (Suc i) [(p, t)])"
proof (induction t arbitrary: p i)
  case (Fork h l r)
  have d: "0 < depth l" "0 < depth r" by (cases l; simp) (cases r; simp)
  have sub: "(if i < length ([child_node h t] # below t) then ([child_node h t] # below t) ! i else []) = map node_of (row i [(h, t)])"
    if IH: "\<And>i. Suc i < depth t \<Longrightarrow> below t ! i = map node_of (row (Suc i) [(h, t)])" and dt: "0 < depth t" for t
  proof (cases i)
    case (Suc j)
    show ?thesis
    proof (cases "i < depth t")
      case False
      then show ?thesis using dt by (simp add: length_below row_depth)
    next
      case True
      then show ?thesis using IH [of j] Suc by (simp add: length_below)
    qed
  qed (simp add: node_of_def)
  have i: "i < max (length ([child_node h l] # below l)) (length ([child_node h r] # below r))"
    using Fork.prems d by (auto simp: length_below)
  have "below (Fork h l r) ! i = map node_of (row i [(h, l)]) @ map node_of (row i [(h, r)])"
    unfolding below.simps by (subst nth_zip_levels [OF i], subst sub [OF Fork.IH(1) d(1)], assumption, subst sub [OF Fork.IH(2) d(2)], assumption, rule refl)
  then show ?case using row_append [of i "[(h, l)]" "[(h, r)]"] by simp
qed simp

lemma levels_row: "i < depth t \<Longrightarrow> levels t ! i = map node_of (row i [(- 1, t)])"
  using below_row [of "i - 1" t "- 1"] by (cases i) (auto simp: levels_def node_of_def)

lemma row_nonempty_up: "row i F = [] \<Longrightarrow> i \<le> j \<Longrightarrow> row j F = []"
  by (metis le_add_diff_inverse2 row_Nil row_add)

subsection \<open>Scanning the links\<close>

definition idx_le :: "int list \<Rightarrow> int \<Rightarrow> nat" where
  "idx_le left b = length (filter (\<lambda>x. x \<le> b) left)"

definition idx_less :: "int list \<Rightarrow> int \<Rightarrow> nat" where
  "idx_less left c = length (filter (\<lambda>x. x < c) left)"

definition ends_max :: "int list \<Rightarrow> bool" where
  \<comment> \<open>strictly increasing up to \<open>INT_MAX\<close>\<close>
  "ends_max left = (sorted_wrt (<) left \<and> left \<noteq> [] \<and> last left = INT_MAX)"

lemma scan_while_takeWhile: "\<exists>x\<in>set xs. \<not> P x \<Longrightarrow> scan_while P xs = Inr (length (takeWhile P xs))"
  by (induction xs) auto

lemma idx_le_takeWhile: "sorted_wrt (<) xs \<Longrightarrow> filter (\<lambda>x. x \<le> (b :: int)) xs = takeWhile (\<lambda>x. x \<le> b) xs"
  by (induction xs) (auto simp: takeWhile_eq_Nil_iff dest: bspec [OF _ hd_in_set])

lemma idx_less_takeWhile: "sorted_wrt (<) xs \<Longrightarrow> filter (\<lambda>x. x < (b :: int)) xs = takeWhile (\<lambda>x. x < b) xs"
  by (induction xs) (auto simp: takeWhile_eq_Nil_iff dest: bspec [OF _ hd_in_set])

lemma scan_from:
  assumes "xs \<noteq> []" "\<not> P (last xs)" "start \<le> length (takeWhile P xs)"
  shows "scan_while P (drop start xs) = Inr (length (takeWhile P xs) - start)"
  using assms
proof (induction xs arbitrary: start)
  case (Cons x xs)
  show ?case
  proof (cases start)
    case 0
    have "\<exists>y\<in>set (x # xs). \<not> P y" using Cons.prems(2) last_in_set [of "x # xs"] by blast
    then show ?thesis using scan_while_takeWhile [of "x # xs" P] 0 by simp
  next
    case (Suc m)
    then have "P x" "m \<le> length (takeWhile P xs)" using Cons.prems(3) by (auto split: if_splits)
    moreover have "xs \<noteq> []" using \<open>P x\<close> Cons.prems(2) by auto
    ultimately show ?thesis using Cons Suc by simp
  qed
qed simp

lemma firstTCountIdx_le:
  assumes "ends_max (tc_left tc)" "b < INT_MAX" "0 \<le> start" "start \<le> int (idx_le (tc_left tc) b)"
  shows "firstTCountIdx tc start b = Inr (int (idx_le (tc_left tc) b) - 1)"
proof -
  have s: "sorted_wrt (<) (tc_left tc)" "tc_left tc \<noteq> []" "\<not> last (tc_left tc) \<le> b" using assms by (auto simp: ends_max_def)
  have i: "idx_le (tc_left tc) b = length (takeWhile (\<lambda>x. x \<le> b) (tc_left tc))" using idx_le_takeWhile [OF s(1)] by (simp add: idx_le_def)
  have "scan_while (\<lambda>x. x \<le> b) (drop (nat start) (tc_left tc)) = Inr (idx_le (tc_left tc) b - nat start)"
    unfolding i by (rule scan_from) (use s assms(3,4) i in auto)
  then show ?thesis using assms(3,4) by (simp add: firstTCountIdx_def of_nat_diff nat_le_iff)
qed

lemma lastTCountIdx_less:
  assumes "ends_max (tc_left tc)" "c \<le> INT_MAX" "0 \<le> start" "start \<le> int (idx_less (tc_left tc) c)"
  shows "lastTCountIdx tc start c = Inr (int (idx_less (tc_left tc) c))"
proof -
  have s: "sorted_wrt (<) (tc_left tc)" "tc_left tc \<noteq> []" "\<not> last (tc_left tc) < c" using assms by (auto simp: ends_max_def)
  have i: "idx_less (tc_left tc) c = length (takeWhile (\<lambda>x. x < c) (tc_left tc))" using idx_less_takeWhile [OF s(1)] by (simp add: idx_less_def)
  have "scan_while (\<lambda>x. x < c) (drop (nat start) (tc_left tc)) = Inr (idx_less (tc_left tc) c - nat start)"
    unfolding i by (rule scan_from) (use s assms(3,4) i in auto)
  then show ?thesis using assms(3,4) by (simp add: lastTCountIdx_def of_nat_diff nat_le_iff)
qed

lemma idx_less_mono: "c \<le> d \<Longrightarrow> idx_less left c \<le> idx_less left d"
  unfolding idx_less_def by (induction left) auto

lemma idx_le_mono: "c \<le> d \<Longrightarrow> idx_le left c \<le> idx_le left d"
  unfolding idx_le_def by (induction left) auto

lemma idx_le_less: "c < d \<Longrightarrow> idx_le left c \<le> idx_less left d"
  unfolding idx_le_def idx_less_def by (induction left) auto

lemma idx_less_length: "ends_max left \<Longrightarrow> c \<le> INT_MAX \<Longrightarrow> idx_less left c < length left"
  unfolding idx_less_def ends_max_def using length_filter_less [of "last left" left "\<lambda>x. x < c"] last_in_set [of left] by auto

lemma idx_less_plus: "sorted_wrt (<) left \<Longrightarrow> idx_less left (c + int n) \<le> idx_less left c + n"
proof -
  assume s: "sorted_wrt (<) left"
  then have d: "distinct left" using strict_sorted_iff by blast
  have "idx_less left (c + int n) = card {x \<in> set left. x < c + int n}"
    unfolding idx_less_def using distinct_card [OF distinct_filter [OF d]] by (metis set_filter)
  also have "{x \<in> set left. x < c + int n} \<subseteq> {x \<in> set left. x < c} \<union> {c..<c + int n}" by auto
  then have "card {x \<in> set left. x < c + int n} \<le> card ({x \<in> set left. x < c} \<union> {c..<c + int n})" by (intro card_mono) auto
  also have "\<dots> \<le> card {x \<in> set left. x < c} + card {c..<c + int n}" by (rule card_Un_le)
  also have "card {x \<in> set left. x < c} = idx_less left c"
    unfolding idx_less_def using distinct_card [OF distinct_filter [OF d]] by (metis set_filter)
  finally show ?thesis by simp
qed

text \<open>The number of t-counts of a page that \<open>n\<close> links leave, \<open>b\<close> links leaving the pages to its left.\<close>

definition t_counts :: "int list \<Rightarrow> int \<Rightarrow> nat \<Rightarrow> nat" where
  "t_counts left b n = (if n = 0 then 0 else idx_less left (b + int n) + 2 - idx_le left b)"

lemma idx_less_le_Suc: "sorted_wrt (<) left \<Longrightarrow> idx_less left (c + 1) = idx_le left c"
  unfolding idx_le_def idx_less_def by (rule arg_cong [of _ _ length], rule filter_cong) auto

lemma t_counts_le: "sorted_wrt (<) left \<Longrightarrow> t_counts left b n \<le> n + 1"
proof (cases n)
  case (Suc m)
  assume s: "sorted_wrt (<) left"
  have "idx_less left (b + 1 + int m) \<le> idx_le left b + m"
    using idx_less_plus [OF s, of "b + 1" m] idx_less_le_Suc [OF s, of b] by simp
  then show ?thesis using Suc by (simp add: t_counts_def add.commute add.left_commute)
qed (simp add: t_counts_def)

lemma t_counts_mono: "n \<le> m \<Longrightarrow> t_counts left b n \<le> t_counts left b m"
  using idx_less_mono [of "b + int n" "b + int m" left] by (auto simp: t_counts_def)

lemma t_counts_plus: "sorted_wrt (<) left \<Longrightarrow> 0 < n \<Longrightarrow> t_counts left b (n + m) \<le> t_counts left b n + m"
  using idx_less_plus [of left "b + int n" m] by (auto simp: t_counts_def add.assoc)

end
