(* ===== verification/PatriePaged.thy ===== *)
theory PatriePaged
  imports PatrieRows
begin

section \<open>Patricia trie: what the pages hold\<close>

text \<open>
  Proofs about the node buffer and the pages of \<open>PatriePage\<close>.  The buffer holds the rows of a list
  of subtries (\<open>buffer_rep\<close>); loading appends subtries until a page would overflow, shifting drops
  all but the last, and a page that is written has the rows of the subtries that left
  (\<open>page_image\<close>).  Twice as many cells as a complete subtrie and all its t-counts need are enough
  for every subtrie to fit.
\<close>

subsection \<open>Loading\<close>

definition cells :: "nat \<Rightarrow> forest \<Rightarrow> nat" where
  \<comment> \<open>the nodes of \<open>k\<close> levels\<close>
  "cells k F = (\<Sum>i<k. length (row i F))"

definition reads :: "page_cf \<Rightarrow> nat \<Rightarrow> single_level list \<Rightarrow> forest \<Rightarrow> bool" where
  "reads cf k ls F = (k \<le> length ls \<and> (\<forall>i<k. ready (pc_levels cf) (ls ! i) (map node_of (row i F))))"

lemma cells_append [simp]: "cells k (F @ G) = cells k F + cells k G"
  by (simp add: cells_def sum.distrib)

lemma cells_Nil [simp]: "cells k [] = 0"
  by (simp add: cells_def)

lemma row_le_cells: "i < k \<Longrightarrow> length (row i F) \<le> cells k F"
  unfolding cells_def by (rule member_le_sum) auto

lemma buffer_node_ok:
  assumes "i < length (nb_level nb)" "length (nb_level nb ! i) < nb_room nb"
  shows "buffer_node i n nb = Inr (nb\<lparr>nb_level := (nb_level nb)[i := nb_level nb ! i @ [n]], nb_cells := nb_cells nb + 1\<rparr>)"
  using assms by (simp add: buffer_node_def)

lemma load_nodes_ok:
  assumes "ready (pc_levels cf) (ls ! i) (ns @ rest)" "i < length ls" "i < length (nb_level nb)"
    and "length (nb_level nb ! i) + length ns \<le> nb_room nb"
  shows "\<exists>lev. load_nodes cf i (length ns) n (ls, nb) = Inr (n + count_children ns, ls[i := lev],
      nb\<lparr>nb_level := (nb_level nb)[i := nb_level nb ! i @ ns], nb_cells := nb_cells nb + length ns\<rparr>) \<and>
    ready (pc_levels cf) lev rest"
  using assms
proof (induction ns arbitrary: n ls nb)
  case Nil
  then show ?case by (intro exI [of _ "ls ! i"]) (simp add: count_children_def)
next
  case (Cons x ns)
  obtain lev where lev: "nextNode (pc_levels cf) (ls ! i) = Inr (Some x, lev)" "ready (pc_levels cf) lev (ns @ rest)"
    using nextNode_ready [OF Cons.prems(1)] by auto
  let ?nb = "nb\<lparr>nb_level := (nb_level nb)[i := nb_level nb ! i @ [x]], nb_cells := nb_cells nb + 1\<rparr>"
  have b: "buffer_node i x nb = Inr ?nb" using Cons.prems by (intro buffer_node_ok) auto
  from Cons.IH [of "ls[i := lev]" ?nb "n + n_child x"] Cons.prems lev(2) obtain lev' where
    "load_nodes cf i (length ns) (n + n_child x) (ls[i := lev], ?nb) = Inr (n + n_child x + count_children ns, ls[i := lev'],
      nb\<lparr>nb_level := (nb_level nb)[i := nb_level nb ! i @ x # ns], nb_cells := nb_cells nb + Suc (length ns)\<rparr>)"
    "ready (pc_levels cf) lev' rest"
    by auto
  then show ?case using lev(1) b Cons.prems(2) by (auto simp: count_children_def add.assoc)
qed

lemma load_below_ok:
  assumes "\<And>m. m < k \<Longrightarrow> ready (pc_levels cf) (ls ! (i + m)) (map node_of (row m X @ R m))" "i + k \<le> length ls"
    and "i + k \<le> length (nb_level nb)" "\<And>m. m < k \<Longrightarrow> length (nb_level nb ! (i + m)) + length (row m X) \<le> nb_room nb"
  shows "\<exists>ls' lv. load_below cf k i (length X) (ls, nb) = Inr (ls', nb\<lparr>nb_level := lv, nb_cells := nb_cells nb + cells k X\<rparr>) \<and>
    length ls' = length ls \<and> length lv = length (nb_level nb) \<and>
    (\<forall>q. q < i \<longrightarrow> ls' ! q = ls ! q \<and> lv ! q = nb_level nb ! q) \<and>
    (\<forall>m<k. ready (pc_levels cf) (ls' ! (i + m)) (map node_of (R m)) \<and> lv ! (i + m) = nb_level nb ! (i + m) @ map node_of (row m X))"
  using assms
proof (induction k arbitrary: i X R ls nb)
  case 0
  then show ?case by (intro exI [of _ ls] exI [of _ "nb_level nb"]) (simp add: cells_def)
next
  case (Suc k)
  show ?case
  proof (cases "X = []")
    case True
    then show ?thesis using Suc.prems(1) by (intro exI [of _ ls] exI [of _ "nb_level nb"]) (auto simp del: row.simps)
  next
    case False
    let ?ns = "map node_of X" and ?Y = "concat (map kids X)"
    have "ready (pc_levels cf) (ls ! i) (?ns @ map node_of (R 0))" using Suc.prems(1) [of 0] by simp
    moreover have "length (nb_level nb ! i) + length ?ns \<le> nb_room nb" using Suc.prems(4) [of 0] by simp
    ultimately obtain lev where lev: "load_nodes cf i (length X) 0 (ls, nb) = Inr (length ?Y, ls[i := lev],
        nb\<lparr>nb_level := (nb_level nb)[i := nb_level nb ! i @ ?ns], nb_cells := nb_cells nb + length X\<rparr>)"
      "ready (pc_levels cf) lev (map node_of (R 0))"
      using load_nodes_ok [of cf ls i ?ns "map node_of (R 0)" nb 0] Suc.prems(2,3) by (auto simp: count_children_nodes)
    let ?nb = "nb\<lparr>nb_level := (nb_level nb)[i := nb_level nb ! i @ ?ns], nb_cells := nb_cells nb + length X\<rparr>"
    have "\<exists>ls' lv. load_below cf k (Suc i) (length ?Y) (ls[i := lev], ?nb) =
        Inr (ls', ?nb\<lparr>nb_level := lv, nb_cells := nb_cells ?nb + cells k ?Y\<rparr>) \<and>
      length ls' = length (ls[i := lev]) \<and> length lv = length (nb_level ?nb) \<and>
      (\<forall>q. q < Suc i \<longrightarrow> ls' ! q = ls[i := lev] ! q \<and> lv ! q = nb_level ?nb ! q) \<and>
      (\<forall>m<k. ready (pc_levels cf) (ls' ! (Suc i + m)) (map node_of (R (Suc m))) \<and>
        lv ! (Suc i + m) = nb_level ?nb ! (Suc i + m) @ map node_of (row m ?Y))"
    proof (rule Suc.IH)
      show "ready (pc_levels cf) (ls[i := lev] ! (Suc i + m)) (map node_of (row m ?Y @ R (Suc m)))" if "m < k" for m
        using Suc.prems(1) [of "Suc m"] that by simp
      show "length (nb_level ?nb ! (Suc i + m)) + length (row m ?Y) \<le> nb_room ?nb" if "m < k" for m
        using Suc.prems(4) [of "Suc m"] that by simp
    qed (use Suc.prems in auto)
    then obtain ls' lv where IH: "load_below cf k (Suc i) (length ?Y) (ls[i := lev], ?nb) =
        Inr (ls', ?nb\<lparr>nb_level := lv, nb_cells := nb_cells ?nb + cells k ?Y\<rparr>)"
      "length ls' = length ls" "length lv = length (nb_level nb)"
      "\<forall>q. q < Suc i \<longrightarrow> ls' ! q = ls[i := lev] ! q \<and> lv ! q = nb_level ?nb ! q"
      "\<forall>m<k. ready (pc_levels cf) (ls' ! (Suc i + m)) (map node_of (R (Suc m))) \<and>
        lv ! (Suc i + m) = nb_level ?nb ! (Suc i + m) @ map node_of (row m ?Y)"
      by auto
    have c: "cells (Suc k) X = length X + cells k ?Y"
      unfolding cells_def by (simp add: sum.lessThan_Suc_shift del: sum.lessThan_Suc)
    have rest: "ready (pc_levels cf) (ls' ! (i + m)) (map node_of (R m)) \<and> lv ! (i + m) = nb_level nb ! (i + m) @ map node_of (row m X)"
      if "m < Suc k" for m
    proof (cases m)
      case 0
      then show ?thesis using IH(4) [rule_format, of i] lev(2) Suc.prems(2,3) by simp
    next
      case (Suc m')
      then show ?thesis using IH(5) [rule_format, of m'] that by simp
    qed
    have "load_below cf (Suc k) i (length X) (ls, nb) = Inr (ls', nb\<lparr>nb_level := lv, nb_cells := nb_cells nb + cells (Suc k) X\<rparr>)"
      using False lev(1) IH(1) c by (simp add: add.assoc)
    moreover have "\<forall>q. q < i \<longrightarrow> ls' ! q = ls ! q \<and> lv ! q = nb_level nb ! q" using IH(4) by auto
    ultimately show ?thesis using IH(2,3) rest by blast
  qed
qed

subsection \<open>The buffer holds subtries\<close>

definition need :: "nat \<Rightarrow> int list \<Rightarrow> int \<Rightarrow> forest \<Rightarrow> nat" where
  \<comment> \<open>the cells of a page with the first \<open>k\<close> rows of these subtries\<close>
  "need k left b B = (if B = [] then 0 else cells k B + 3 + t_counts left b (length (row k B)))"

definition buffer_rep :: "page_cf \<Rightarrow> nat \<Rightarrow> int list \<Rightarrow> int \<Rightarrow> forest \<Rightarrow> forest \<Rightarrow> node_buffer \<Rightarrow> bool" where
  \<comment> \<open>\<open>B\<close> in the buffer, \<open>P\<close> of them counted as all but the last\<close>
  "buffer_rep cf k left b B P nb =
     (length (nb_level nb) = pc_lpp cf \<and> length (nb_pen nb) = pc_lpp cf \<and> nb_room nb = pc_size cf + 2 ^ (pc_lpp cf - 1) \<and>
      length (nb_tCount nb) = pc_size cf + 1 \<and> 0 \<le> nb_prev nb \<and> nb_prev nb \<le> int (idx_le left b) \<and>
      (\<forall>i<k. nb_level nb ! i = map node_of (row i B)) \<and> nb_cells nb = cells k B \<and>
      nb_allT nb = t_counts left b (length (row k B)) \<and>
      (\<forall>i<k. nb_pen nb ! i = length (row i P)) \<and> nb_penT nb = t_counts left b (length (row k P)))"

lemma cells_used_rep: "buffer_rep cf k left b B P nb \<Longrightarrow> 0 < k \<Longrightarrow> cells_used nb = need k left b B"
  by (auto simp: buffer_rep_def cells_used_def need_def)

lemma length_row_one: "length (row i [x]) \<le> 2 ^ i"
  using length_row_le [of i "[x]"] by simp

lemma cells_one: "cells k [x] \<le> 2 ^ k - 1"
proof -
  have "cells k [x] \<le> (\<Sum>i<k. 2 ^ i)" unfolding cells_def by (intro sum_mono length_row_one)
  also have "\<dots> = 2 ^ k - 1" by (induction k) simp_all
  finally show ?thesis .
qed

lemma cells_one_pos: "0 < k \<Longrightarrow> 0 < cells k [x]"
  using row_le_cells [of 0 k "[x]"] by simp

lemma load_subtrie_rep:
  assumes rep: "buffer_rep cf k left b B P nb" and k: "0 < k" "k \<le> pc_lpp cf"
    and rd: "k \<le> length ls" "ready (pc_levels cf) (ls ! 0) (map node_of R)"
      "\<And>i. 0 < i \<Longrightarrow> i < k \<Longrightarrow> ready (pc_levels cf) (ls ! i) (map node_of (row i (x # R)))"
    and room: "cells k B \<le> pc_size cf"
  shows "\<exists>ls' nb'. load_subtrie cf k (node_of x) (ls, nb) = Inr (ls', nb') \<and> length ls' = length ls \<and> reads cf k ls' R \<and>
    nb_allT nb' = nb_allT nb \<and> nb_prev nb' = nb_prev nb \<and> nb_room nb' = nb_room nb \<and> nb_tCount nb' = nb_tCount nb \<and>
    length (nb_level nb') = pc_lpp cf \<and> length (nb_pen nb') = pc_lpp cf \<and> nb_cells nb' = cells k (B @ [x]) \<and>
    (\<forall>i<k. nb_level nb' ! i = map node_of (row i (B @ [x]))) \<and> (\<forall>i<k. nb_pen nb' ! i = length (row i B))"
proof -
  note r = rep [unfolded buffer_rep_def]
  let ?pen = "take k (map length (nb_level nb)) @ drop k (nb_pen nb)"
  let ?nb0 = "nb\<lparr>nb_pen := ?pen\<rparr>"
  let ?nb1 = "?nb0\<lparr>nb_level := (nb_level nb)[0 := nb_level nb ! 0 @ [node_of x]], nb_cells := nb_cells nb + 1\<rparr>"
  have pen: "length ?pen = pc_lpp cf" "\<And>i. i < k \<Longrightarrow> ?pen ! i = length (row i B)" using r k by (auto simp: nth_append)
  have le: "length (row i B) + length (row i [x]) \<le> nb_room nb" if "i < k" for i
  proof -
    have "length (row i [x]) \<le> 2 ^ (pc_lpp cf - 1)"
      using length_row_one [of i x] power_increasing [of i "pc_lpp cf - 1" "2 :: nat"] that k by linarith
    moreover have "length (row i B) \<le> pc_size cf" using row_le_cells [OF that, of B] room by simp
    ultimately show ?thesis using r by simp
  qed
  have b0: "buffer_node 0 (node_of x) ?nb0 = Inr ?nb1"
    using buffer_node_ok [of 0 ?nb0 "node_of x"] le [of 0] r k by simp
  let ?X = "kids x" and ?R = "\<lambda>m. row (Suc m) R"
  have "\<exists>ls' lv. load_below cf (k - 1) 1 (length ?X) (ls, ?nb1) = Inr (ls', ?nb1\<lparr>nb_level := lv, nb_cells := nb_cells ?nb1 + cells (k - 1) ?X\<rparr>) \<and>
    length ls' = length ls \<and> length lv = length (nb_level ?nb1) \<and>
    (\<forall>q. q < 1 \<longrightarrow> ls' ! q = ls ! q \<and> lv ! q = nb_level ?nb1 ! q) \<and>
    (\<forall>m<k - 1. ready (pc_levels cf) (ls' ! (1 + m)) (map node_of (?R m)) \<and> lv ! (1 + m) = nb_level ?nb1 ! (1 + m) @ map node_of (row m ?X))"
  proof (rule load_below_ok)
    show "ready (pc_levels cf) (ls ! (1 + m)) (map node_of (row m ?X @ ?R m))" if "m < k - 1" for m
      using rd(3) [of "Suc m"] that by simp
    show "length (nb_level ?nb1 ! (1 + m)) + length (row m ?X) \<le> nb_room ?nb1" if "m < k - 1" for m
      using le [of "Suc m"] that r by simp
  qed (use rd(1) k r in auto)
  then obtain ls' lv where l: "load_below cf (k - 1) 1 (length ?X) (ls, ?nb1) = Inr (ls', ?nb1\<lparr>nb_level := lv, nb_cells := nb_cells ?nb1 + cells (k - 1) ?X\<rparr>)"
    "length ls' = length ls" "length lv = length (nb_level ?nb1)" "ls' ! 0 = ls ! 0" "lv ! 0 = nb_level ?nb1 ! 0"
    "\<And>m. m < k - 1 \<Longrightarrow> ready (pc_levels cf) (ls' ! (1 + m)) (map node_of (?R m)) \<and> lv ! (1 + m) = nb_level ?nb1 ! (1 + m) @ map node_of (row m ?X)"
    by blast
  have c: "cells k [x] = 1 + cells (k - 1) ?X"
    unfolding cells_def using k sum.lessThan_Suc_shift [of "\<lambda>i. length (row i [x])" "k - 1"] by simp
  have "lv ! i = map node_of (row i (B @ [x]))" if "i < k" for i
  proof (cases i)
    case 0
    then show ?thesis using l(5) r k by simp
  next
    case (Suc m)
    then show ?thesis using l(6) [of m] that r by simp
  qed
  moreover have "reads cf k ls' R"
    unfolding reads_def
  proof (intro conjI allI impI)
    show "ready (pc_levels cf) (ls' ! i) (map node_of (row i R))" if "i < k" for i
      using l(4) l(6) [of "i - 1"] rd(2) that by (cases i) auto
  qed (use rd(1) l(2) in simp)
  moreover have "load_subtrie cf k (node_of x) (ls, nb) = Inr (ls', ?nb1\<lparr>nb_level := lv, nb_cells := nb_cells ?nb1 + cells (k - 1) ?X\<rparr>)"
    using b0 l(1) by (simp add: load_subtrie_def)
  ultimately show ?thesis
    using l(2,3) r pen c by (intro exI [of _ ls'] exI [of _ "?nb1\<lparr>nb_level := lv, nb_cells := nb_cells ?nb1 + cells (k - 1) ?X\<rparr>"]) simp
qed

text \<open>The t-counts after a subtrie has been loaded; \<open>z\<close> is the index where the next search starts.\<close>

definition last_ok :: "int list \<Rightarrow> int \<Rightarrow> nat \<Rightarrow> int \<Rightarrow> bool" where
  "last_ok left b n z = (int (idx_le left b) - 1 \<le> z \<and> z \<le> int (idx_less left (b + int (max 1 n))))"

lemma count_tCounts_rep:
  assumes e: "ends_max (tc_left tc)" "left = tc_left tc" and lv: "0 < k" "nb_level nb ! (k - 1) = map node_of (row (k - 1) B')"
    and n: "length (row k B) \<le> length (row k B')" "b + int (length (row k B')) < INT_MAX" "row k B' = [] \<or> 1 \<le> idx_le left b"
    and z: "last_ok left b (length (row k B)) z" and t: "nb_allT nb = t_counts left b (length (row k B))"
  shows "\<exists>z'. count_tCounts k b tc (int (idx_le left b) - 1) z nb = Inr (z', nb\<lparr>nb_penT := t_counts left b (length (row k B)),
      nb_allT := t_counts left b (length (row k B'))\<rparr>) \<and> last_ok left b (length (row k B')) z'"
proof -
  let ?n = "length (row k B')"
  have c: "count_children (nb_level nb ! (k - 1)) = ?n" using lv row_Suc [of "k - 1" B'] by (simp add: count_children_nodes)
  show ?thesis
  proof (cases "?n = 0")
    case True
    then have "nb\<lparr>nb_penT := t_counts left b (length (row k B)), nb_allT := t_counts left b ?n\<rparr> = nb\<lparr>nb_penT := nb_allT nb\<rparr>"
      using n(1) t by (simp add: t_counts_def)
    with True c z n(1) show ?thesis by (intro exI [of _ z]) (simp add: count_tCounts_def)
  next
    case False
    then have f: "1 \<le> idx_le left b" using n(3) by auto
    let ?l = "idx_less left (b + int ?n)"
    have le: "idx_le left b \<le> ?l" using idx_le_less [of b "b + int ?n" left] False by simp
    have "idx_less left (b + int (max 1 (length (row k B)))) \<le> ?l" using n(1) False by (intro idx_less_mono) (simp add: Suc_le_eq)
    then have "z \<le> int ?l" "0 \<le> z" using z f by (auto simp: last_ok_def)
    then have "lastTCountIdx tc z (b + int ?n) = Inr (int ?l)"
      using lastTCountIdx_less [OF e(1), of "b + int ?n" z] n(2) e(2) by simp
    moreover have "nat (int ?l - (int (idx_le left b) - 1) + 1) = t_counts left b ?n"
      using False le by (simp add: t_counts_def)
    moreover have "max 1 ?n = ?n" using False by (intro max_absorb2) linarith
    then have "last_ok left b ?n (int ?l)" using le by (simp add: last_ok_def)
    ultimately show ?thesis using c False f t le by (intro exI [of _ "int ?l"]) (simp add: count_tCounts_def Let_def)
  qed
qed

lemma t_counts_room:
  assumes s: "sorted_wrt (<) left" and need: "need k left b B < sz" and k: "0 < k" "4 * 2 ^ k \<le> sz"
  shows "t_counts left b (length (row k (B @ [x]))) \<le> sz + 1"
proof -
  let ?n = "length (row k B)" and ?m = "length (row k [x])"
  have m: "?m \<le> 2 ^ k" by (rule length_row_one)
  show ?thesis
  proof (cases "?n = 0")
    case True
    then show ?thesis using t_counts_le [OF s, of b "?n + ?m"] m k(2) by simp
  next
    case False
    then have ne: "B \<noteq> []" by auto
    have "length (concat (map kids (row (k - 1) B))) \<le> 2 * length (row (k - 1) B)" by (rule length_kids_le)
    then have "?n \<le> 2 * cells k B" using row_le_cells [of "k - 1" k B] row_Suc [of "k - 1" B] k(1) by simp
    moreover have "cells k B + 3 + t_counts left b ?n < sz" using need ne by (simp add: need_def)
    moreover have "t_counts left b (?n + ?m) \<le> ?n + ?m + 1" by (rule t_counts_le [OF s])
    moreover have "t_counts left b (?n + ?m) \<le> t_counts left b ?n + ?m" using False by (intro t_counts_plus [OF s]) simp
    ultimately show ?thesis using m k(2) by simp
  qed
qed

lemma load_loop_rep:
  assumes e: "ends_max (tc_left tc)" "left = tc_left tc" and k: "0 < k" "k \<le> pc_lpp cf" "4 * 2 ^ pc_lpp cf \<le> pc_size cf"
    and "buffer_rep cf k left b B P nb" "nb_used nb = need k left b B" "reads cf k ls R"
    and "b + int (length (row k (B @ R))) < INT_MAX" "row k (B @ R) = [] \<or> 1 \<le> idx_le left b"
    and "last_ok left b (length (row k B)) z" "t_counts left b (length (row k B)) \<le> pc_size cf + 1"
    and "pc_size cf - nb_used nb < fuel"
  shows "\<exists>R1 R2 z' ls' nb'. R = R1 @ R2 \<and>
    load_loop fuel cf k b tc (int (idx_le left b) - 1) z (ls, nb) = Inr (z', ls', nb') \<and>
    buffer_rep cf k left b (B @ R1) (if R1 = [] then P else butlast (B @ R1)) nb' \<and> nb_used nb' = need k left b (B @ R1) \<and>
    reads cf k ls' R2 \<and> (pc_size cf \<le> need k left b (B @ R1) \<or> R2 = []) \<and>
    (R1 \<noteq> [] \<longrightarrow> need k left b (butlast (B @ R1)) < pc_size cf) \<and>
    last_ok left b (length (row k (B @ R1))) z' \<and> t_counts left b (length (row k (B @ R1))) \<le> pc_size cf + 1"
  using assms(6-)
proof (induction fuel arbitrary: B P nb ls R z)
  case (Suc fuel)
  note rep = Suc.prems(1)
  have le0: "k \<le> length ls" "ls \<noteq> []" and rd: "\<And>i. i < k \<Longrightarrow> ready (pc_levels cf) (ls ! i) (map node_of (row i R))"
    using Suc.prems(3) k by (auto simp: reads_def)
  show ?case
  proof (cases "nb_used nb < pc_size cf")
    case False
    then show ?thesis
      using Suc.prems by (intro exI [of _ "[]"] exI [of _ R] exI [of _ z] exI [of _ ls] exI [of _ nb]) simp
  next
    case True
    obtain lev where lev: "nextNode (pc_levels cf) (ls ! 0) = Inr (case map node_of R of [] \<Rightarrow> None | y # ys \<Rightarrow> Some y, lev)"
      "ready (pc_levels cf) lev (tl (map node_of R))"
      using nextNode_ready [OF rd [OF k(1)]] by auto
    show ?thesis
    proof (cases R)
      case Nil
      have "reads cf k (ls[0 := lev]) []"
        unfolding reads_def
      proof (intro conjI allI impI)
        show "ready (pc_levels cf) (ls[0 := lev] ! i) (map node_of (row i []))" if "i < k" for i
          using lev(2) rd [OF that] Nil le0(2) by (cases i) auto
      qed (use le0 in simp)
      then show ?thesis
        using Suc.prems True lev(1) Nil le0
        by (intro exI [of _ "[]"] exI [of _ z] exI [of _ "ls[0 := lev]"] exI [of _ nb]) simp
    next
      case (Cons x R')
      have room: "cells k B \<le> pc_size cf" using True Suc.prems(2) by (auto simp: need_def split: if_splits)
      have "\<exists>ls1 nb1. load_subtrie cf k (node_of x) (ls[0 := lev], nb) = Inr (ls1, nb1) \<and> length ls1 = length (ls[0 := lev]) \<and> reads cf k ls1 R' \<and>
        nb_allT nb1 = nb_allT nb \<and> nb_prev nb1 = nb_prev nb \<and> nb_room nb1 = nb_room nb \<and> nb_tCount nb1 = nb_tCount nb \<and>
        length (nb_level nb1) = pc_lpp cf \<and> length (nb_pen nb1) = pc_lpp cf \<and> nb_cells nb1 = cells k (B @ [x]) \<and>
        (\<forall>i<k. nb_level nb1 ! i = map node_of (row i (B @ [x]))) \<and> (\<forall>i<k. nb_pen nb1 ! i = length (row i B))"
      proof (rule load_subtrie_rep [OF rep k(1,2) _ _ _ room])
        show "ready (pc_levels cf) (ls[0 := lev] ! i) (map node_of (row i (x # R')))" if "0 < i" "i < k" for i
          using rd [OF that(2)] that(1) Cons by simp
      qed (use lev(2) Cons le0 in auto)
      then obtain ls1 nb1 where l: "load_subtrie cf k (node_of x) (ls[0 := lev], nb) = Inr (ls1, nb1)" "reads cf k ls1 R'"
          "nb_allT nb1 = nb_allT nb" "nb_prev nb1 = nb_prev nb" "nb_room nb1 = nb_room nb" "nb_tCount nb1 = nb_tCount nb"
          "length (nb_level nb1) = pc_lpp cf" "length (nb_pen nb1) = pc_lpp cf" "nb_cells nb1 = cells k (B @ [x])"
          "\<forall>i<k. nb_level nb1 ! i = map node_of (row i (B @ [x]))" "\<forall>i<k. nb_pen nb1 ! i = length (row i B)"
        by (elim exE conjE) (rule that)
      have lim: "b + int (length (row k (B @ [x]))) < INT_MAX" "row k (B @ [x]) = [] \<or> 1 \<le> idx_le left b"
        using Suc.prems(4,5) Cons row_append [of k "[x]" R'] by auto
      have "\<exists>z1. count_tCounts k b tc (int (idx_le left b) - 1) z nb1 = Inr (z1, nb1\<lparr>nb_penT := t_counts left b (length (row k B)),
          nb_allT := t_counts left b (length (row k (B @ [x])))\<rparr>) \<and> last_ok left b (length (row k (B @ [x]))) z1"
      proof (rule count_tCounts_rep [OF e k(1) _ _ lim Suc.prems(6)])
        show "nb_level nb1 ! (k - 1) = map node_of (row (k - 1) (B @ [x]))" using l(10) k(1) by simp
        show "nb_allT nb1 = t_counts left b (length (row k B))" using l(3) rep by (simp add: buffer_rep_def)
      qed simp
      then obtain z1 where z1: "count_tCounts k b tc (int (idx_le left b) - 1) z nb1 = Inr (z1, nb1\<lparr>nb_penT := t_counts left b (length (row k B)),
          nb_allT := t_counts left b (length (row k (B @ [x])))\<rparr>)" "last_ok left b (length (row k (B @ [x]))) z1"
        by blast
      let ?nb2 = "nb1\<lparr>nb_penT := t_counts left b (length (row k B)), nb_allT := t_counts left b (length (row k (B @ [x])))\<rparr>"
      let ?nb3 = "?nb2\<lparr>nb_used := cells_used ?nb2\<rparr>"
      have rep2: "buffer_rep cf k left b (B @ [x]) B ?nb2" using rep l by (simp add: buffer_rep_def)
      then have rep3: "buffer_rep cf k left b (B @ [x]) B ?nb3" and used3: "nb_used ?nb3 = need k left b (B @ [x])"
        using cells_used_rep [OF rep2 k(1)] by (simp_all add: buffer_rep_def)
      have more: "need k left b B < need k left b (B @ [x])"
        using cells_one_pos [OF k(1), of x] t_counts_mono [of "length (row k B)" "length (row k (B @ [x]))" left b] by (auto simp: need_def)
      have sorted: "sorted_wrt (<) left" using e by (simp add: ends_max_def)
      have "4 * 2 ^ k \<le> pc_size cf" using k(2,3) power_increasing [of k "pc_lpp cf" "2 :: nat"] by linarith
      then have cap: "t_counts left b (length (row k (B @ [x]))) \<le> pc_size cf + 1"
        using True Suc.prems(2) by (intro t_counts_room [OF sorted _ k(1)]) auto
      have "\<exists>R1 R2 z' ls' nb'. R' = R1 @ R2 \<and>
        load_loop fuel cf k b tc (int (idx_le left b) - 1) z1 (ls1, ?nb3) = Inr (z', ls', nb') \<and>
        buffer_rep cf k left b ((B @ [x]) @ R1) (if R1 = [] then B else butlast ((B @ [x]) @ R1)) nb' \<and>
        nb_used nb' = need k left b ((B @ [x]) @ R1) \<and>
        reads cf k ls' R2 \<and> (pc_size cf \<le> need k left b ((B @ [x]) @ R1) \<or> R2 = []) \<and>
        (R1 \<noteq> [] \<longrightarrow> need k left b (butlast ((B @ [x]) @ R1)) < pc_size cf) \<and>
        last_ok left b (length (row k ((B @ [x]) @ R1))) z' \<and> t_counts left b (length (row k ((B @ [x]) @ R1))) \<le> pc_size cf + 1"
      proof (rule Suc.IH [OF rep3 used3 l(2) _ _ z1(2) cap])
        show "b + int (length (row k ((B @ [x]) @ R'))) < INT_MAX" "row k ((B @ [x]) @ R') = [] \<or> 1 \<le> idx_le left b"
          using Suc.prems(4,5) Cons by simp_all
        show "pc_size cf - nb_used ?nb3 < fuel" using Suc.prems(2,8) used3 more True by linarith
      qed
      then obtain R1 R2 z' ls' nb' where IH: "R' = R1 @ R2"
        "load_loop fuel cf k b tc (int (idx_le left b) - 1) z1 (ls1, ?nb3) = Inr (z', ls', nb')"
        "buffer_rep cf k left b ((B @ [x]) @ R1) (if R1 = [] then B else butlast ((B @ [x]) @ R1)) nb'"
        "nb_used nb' = need k left b ((B @ [x]) @ R1)"
        "reads cf k ls' R2" "pc_size cf \<le> need k left b ((B @ [x]) @ R1) \<or> R2 = []"
        "R1 \<noteq> [] \<longrightarrow> need k left b (butlast ((B @ [x]) @ R1)) < pc_size cf"
        "last_ok left b (length (row k ((B @ [x]) @ R1))) z'" "t_counts left b (length (row k ((B @ [x]) @ R1))) \<le> pc_size cf + 1"
        by (elim exE conjE) (rule that)
      have a: "(B @ [x]) @ R1 = B @ (x # R1)" by simp
      have run: "load_loop (Suc fuel) cf k b tc (int (idx_le left b) - 1) z (ls, nb) = Inr (z', ls', nb')"
        using True le0(2) lev(1) Cons l(1) z1(1) IH(2) by simp
      have P: "(if R1 = [] then B else butlast (B @ x # R1)) = (if x # R1 = [] then P else butlast (B @ x # R1))"
        by (simp add: butlast_append)
      have nb: "need k left b (butlast (B @ x # R1)) < pc_size cf"
        using IH(7) True Suc.prems(2) by (cases "R1 = []") (simp_all add: butlast_append)
      show ?thesis
        using IH(1) Cons run IH(3-6,8,9) nb unfolding a P
        by (intro exI [of _ "x # R1"] exI [of _ R2] exI [of _ z'] exI [of _ ls'] exI [of _ nb'] conjI) simp_all
    qed
  qed
qed simp

lemma nodeBufferLoad_rep:
  assumes e: "ends_max (tc_left tc)" "left = tc_left tc" and k: "0 < k" "k \<le> pc_lpp cf" "4 * 2 ^ pc_lpp cf \<le> pc_size cf"
    and rep: "buffer_rep cf k left b B P nb" and rd: "reads cf k ls R"
    and lim: "b + int (length (row k (B @ R))) < INT_MAX" "row k (B @ R) = [] \<or> 1 \<le> idx_le left b" "length B \<le> 1" "0 \<le> b"
  obtains R1 R2 ls' nb' where "R = R1 @ R2" "nodeBufferLoad cf k b tc (ls, nb) = Inr (ls', nb')"
    "buffer_rep cf k left b (B @ R1) (if R1 = [] then P else butlast (B @ R1)) nb'" "nb_used nb' = need k left b (B @ R1)"
    "int (idx_le left b) - 1 \<le> nb_prev nb'"
    "reads cf k ls' R2" "pc_size cf \<le> need k left b (B @ R1) \<or> R2 = []"
    "R1 \<noteq> [] \<longrightarrow> need k left b (butlast (B @ R1)) < pc_size cf"
proof -
  let ?nb0 = "nb\<lparr>nb_used := cells_used nb\<rparr>" and ?f = "int (idx_le left b) - 1"
  have sorted: "sorted_wrt (<) left" using e by (simp add: ends_max_def)
  have rep0: "buffer_rep cf k left b B P ?nb0" using rep by (simp add: buffer_rep_def)
  have used0: "nb_used ?nb0 = need k left b B" using cells_used_rep [OF rep k(1)] by simp
  have b: "b < INT_MAX" using lim(1) by linarith
  have f: "firstTCountIdx tc (nb_prev ?nb0) b = Inr ?f"
    using firstTCountIdx_le [OF e(1) b, of "nb_prev nb"] rep e(2) by (simp add: buffer_rep_def)
  have pw: "4 * 2 ^ k \<le> pc_size cf" using k(2,3) power_increasing [of k "pc_lpp cf" "2 :: nat"] by linarith
  have "length (row k B) \<le> 2 ^ k" using length_row_le [of k B] lim(3) mult_le_mono2 [of "length B" 1 "2 ^ k"] by linarith
  then have cap: "t_counts left b (length (row k B)) \<le> pc_size cf + 1"
    using t_counts_le [OF sorted, of b "length (row k B)"] pw by linarith
  have "idx_le left b \<le> idx_less left (b + int (max 1 (length (row k B))))" by (rule idx_le_less) simp
  then have z: "last_ok left b (length (row k B)) ?f" by (simp add: last_ok_def)
  from load_loop_rep [OF e k rep0 used0 rd lim(1,2) z cap, of "Suc (pc_size cf)"] obtain R1 R2 z' ls' nb' where l: "R = R1 @ R2"
    "load_loop (Suc (pc_size cf)) cf k b tc ?f ?f (ls, ?nb0) = Inr (z', ls', nb')"
    "buffer_rep cf k left b (B @ R1) (if R1 = [] then P else butlast (B @ R1)) nb'" "nb_used nb' = need k left b (B @ R1)"
    "reads cf k ls' R2" "pc_size cf \<le> need k left b (B @ R1) \<or> R2 = []"
    "R1 \<noteq> [] \<longrightarrow> need k left b (butlast (B @ R1)) < pc_size cf"
    "last_ok left b (length (row k (B @ R1))) z'" "t_counts left b (length (row k (B @ R1))) \<le> pc_size cf + 1"
    by (metis less_Suc_eq_le diff_le_self)
  let ?n = "length (row k (B @ R1))"
  have "\<exists>tcs. (if 0 < nb_allT nb' then copy_tCounts tc ?f z' nb' else Inr nb') = Inr (nb'\<lparr>nb_tCount := tcs\<rparr>) \<and> length tcs = pc_size cf + 1"
  proof (cases "0 < nb_allT nb'")
    case False
    then show ?thesis using l(3) by (intro exI [of _ "nb_tCount nb'"]) (simp add: buffer_rep_def)
  next
    case True
    then have n: "0 < ?n" using l(3) by (auto simp: buffer_rep_def t_counts_def split: if_splits)
    then have f0: "1 \<le> idx_le left b" using lim(2) l(1) by auto
    have mx: "max 1 ?n = ?n" using n by (intro max_absorb2) linarith
    have zl: "?f \<le> z'" "z' \<le> int (idx_less left (b + int ?n))" using l(8) unfolding last_ok_def mx by auto
    have "b + int ?n \<le> INT_MAX" using lim(1) l(1) by simp
    then have "idx_less left (b + int ?n) < length left" using idx_less_length e by blast
    then have "z' < int (length left)" "0 \<le> z'" using zl f0 by linarith+
    then have "nat z' < length (tc_left tc)" by (simp add: nat_less_iff e(2))
    moreover have "idx_le left b \<le> idx_less left (b + int ?n)" by (rule idx_le_less) (use n in linarith)
    then have "nat (z' - ?f + 1) \<le> t_counts left b ?n" using zl n by (simp add: t_counts_def nat_le_iff of_nat_diff)
    then have "nat (z' - ?f + 1) \<le> pc_size cf + 1" using l(9) by (rule order_trans)
    moreover have "length (nb_tCount nb') = pc_size cf + 1" using l(3) by (simp add: buffer_rep_def)
    ultimately show ?thesis
      using True f0 zl
      by (intro exI [of _ "take (nat (z' - ?f + 1)) (drop (nat ?f) (tc_left tc)) @ drop (nat (z' - ?f + 1)) (nb_tCount nb')"])
        (simp add: copy_tCounts_def Let_def not_le)
  qed
  then obtain tcs where tcs: "(if 0 < nb_allT nb' then copy_tCounts tc ?f z' nb' else Inr nb') = Inr (nb'\<lparr>nb_tCount := tcs\<rparr>)"
    "length tcs = pc_size cf + 1" by blast
  let ?nb2 = "nb'\<lparr>nb_tCount := tcs\<rparr>"
  let ?nb3 = "if nb_prev ?nb2 < ?f then ?nb2\<lparr>nb_prev := ?f\<rparr> else ?nb2"
  have run: "nodeBufferLoad cf k b tc (ls, nb) = Inr (ls', ?nb3)"
    unfolding nodeBufferLoad_def Let_def prod.case f res_bind_simps l(2) tcs(1) by simp
  have rep3: "buffer_rep cf k left b (B @ R1) (if R1 = [] then P else butlast (B @ R1)) ?nb3"
    using l(3) tcs(2) by (auto simp: buffer_rep_def)
  show ?thesis
    by (rule that [OF l(1) run rep3 _ _ l(5-7)]) (use l(4) in auto)
qed

subsection \<open>Shifting\<close>

lemma need_one: "sorted_wrt (<) left \<Longrightarrow> 0 < k \<Longrightarrow> 4 * 2 ^ k \<le> sz \<Longrightarrow> length B \<le> 1 \<Longrightarrow> need k left b B \<le> sz"
proof (cases B)
  case (Cons x xs)
  assume a: "sorted_wrt (<) left" "0 < k" "4 * 2 ^ k \<le> sz" "length B \<le> 1"
  then have B: "B = [x]" using Cons by simp
  have "need k left b B = cells k [x] + 3 + t_counts left b (length (row k [x]))" by (simp add: need_def B)
  moreover have "t_counts left b (length (row k [x])) \<le> 2 ^ k + 1"
    using t_counts_le [OF a(1), of b "length (row k [x])"] length_row_one [of k x] by linarith
  moreover have "cells k [x] \<le> 2 ^ k - 1" by (rule cells_one)
  moreover have "(2 :: nat) \<le> 2 ^ k" using a(2) by (cases k) simp_all
  ultimately show ?thesis using a(3) by linarith
qed (simp add: need_def)

lemma reset_rep:
  assumes "buffer_rep cf k left b B P nb" "k \<le> pc_lpp cf"
  shows "buffer_rep cf k left b' [] [] (nodeBufferReset cf nb)"
  using assms by (simp add: buffer_rep_def nodeBufferReset_def t_counts_def)

lemma drop_pen_rep:
  assumes rep: "buffer_rep cf k left b (P @ X) P nb" and k: "k \<le> pc_lpp cf"
  shows "(\<forall>i<k. nb_level (drop_pen k nb) ! i = map node_of (row i X))" "length (nb_level (drop_pen k nb)) = pc_lpp cf"
    "nb_cells (drop_pen k nb) = cells k X" "\<forall>i<k. nb_pen (drop_pen k nb) ! i = 0" "length (nb_pen (drop_pen k nb)) = pc_lpp cf"
    "nb_room (drop_pen k nb) = nb_room nb" "nb_tCount (drop_pen k nb) = nb_tCount nb" "nb_prev (drop_pen k nb) = nb_prev nb"
proof -
  note r = rep [unfolded buffer_rep_def]
  show l: "\<forall>i<k. nb_level (drop_pen k nb) ! i = map node_of (row i X)" using r k by (simp add: drop_pen_def Let_def)
  show "length (nb_level (drop_pen k nb)) = pc_lpp cf" using r by (simp add: drop_pen_def Let_def)
  have "nb_cells (drop_pen k nb) = (\<Sum>i<k. length (nb_level (drop_pen k nb) ! i))" by (simp add: drop_pen_def Let_def)
  also have "\<dots> = cells k X" unfolding cells_def using l by (intro sum.cong) auto
  finally show "nb_cells (drop_pen k nb) = cells k X" .
  show "\<forall>i<k. nb_pen (drop_pen k nb) ! i = 0" by (simp add: drop_pen_def Let_def nth_append)
  show "length (nb_pen (drop_pen k nb)) = pc_lpp cf" using r k by (simp add: drop_pen_def Let_def)
qed (simp_all add: drop_pen_def Let_def)

lemma nodeBufferShift_rep:
  assumes e: "ends_max (tc_left tc)" "left = tc_left tc" and k: "0 < k" "k \<le> pc_lpp cf" "4 * 2 ^ pc_lpp cf \<le> pc_size cf"
    and rep: "buffer_rep cf k left b B (butlast B) nb" "nb_used nb = need k left b B"
    and S: "S = (if need k left b B \<le> pc_size cf then B else butlast B)" "B = S @ X"
    and lim: "b + int (length (row k B)) < INT_MAX" "row k B = [] \<or> 1 \<le> idx_le left b"
  obtains nb' where "nodeBufferShift cf k (b + int (length (row k S))) tc nb = Inr nb'"
    "buffer_rep cf k left (b + int (length (row k S))) X [] nb'" "length X \<le> 1"
proof (cases "need k left b B \<le> pc_size cf")
  case True
  then have "S = B" using S(1) by (simp only: if_True)
  then have "X = []" using S(2) by (metis append_self_conv)
  then show ?thesis
    using that [of "nodeBufferReset cf nb"] reset_rep [OF rep(1) k(2)] True rep(2) by (simp add: nodeBufferShift_def)
next
  case False
  let ?b = "b + int (length (row k S))"
  have sorted: "sorted_wrt (<) left" using e by (simp add: ends_max_def)
  have P: "butlast B = S" using S(1) False by simp
  have X1: "length X \<le> 1"
  proof -
    have "length B = length S + length X" using S(2) by simp
    moreover have "length S = length B - 1" unfolding P [symmetric] by simp
    ultimately show ?thesis by linarith
  qed
  have repS: "buffer_rep cf k left b (S @ X) S nb" using rep(1) P S(2) by simp
  note dp = drop_pen_rep [OF repS k(2)]
  let ?nb1 = "(drop_pen k nb)\<lparr>nb_used := 0, nb_allT := 0, nb_penT := 0\<rparr>" and ?n = "length (row k X)"
  have c: "count_children (nb_level ?nb1 ! (k - 1)) = ?n" using dp(1) k(1) row_Suc [of "k - 1" X] by (simp add: count_children_nodes)
  have prev: "0 \<le> nb_prev nb" "nb_prev nb \<le> int (idx_le left ?b)"
    using rep(1) idx_le_mono [of b ?b left] unfolding buffer_rep_def by (simp, linarith)
  show ?thesis
  proof (cases "?n = 0")
    case True
    let ?nb = "?nb1\<lparr>nb_used := cells_used ?nb1\<rparr>"
    have "nodeBufferShift cf k ?b tc nb = Inr ?nb" using False rep(2) c True by (simp add: nodeBufferShift_def Let_def)
    moreover have "buffer_rep cf k left ?b X [] ?nb"
      using dp rep(1) prev True by (simp add: buffer_rep_def t_counts_def)
    ultimately show ?thesis using X1 by (rule that)
  next
    case ne: False
    let ?f = "int (idx_le left ?b) - 1" and ?l = "idx_less left (?b + int ?n)"
    have total: "?b + int ?n < INT_MAX" using lim(1) S(2) by simp
    have f1: "1 \<le> idx_le left ?b" using lim(2) ne S(2) idx_le_mono [of b ?b left] by auto
    have f: "firstTCountIdx tc (nb_prev ?nb1) ?b = Inr ?f"
      using firstTCountIdx_le [OF e(1), of ?b "nb_prev nb"] prev e(2) total dp(8) by simp
    have fl: "idx_le left ?b \<le> ?l" using idx_le_less [of ?b "?b + int ?n" left] ne by simp
    have l: "lastTCountIdx tc ?f (?b + int ?n) = Inr (int ?l)"
      using lastTCountIdx_less [OF e(1), of "?b + int ?n" ?f] f1 fl total e(2) by simp
    have len: "?l < length left" using idx_less_length [of left "?b + int ?n"] e total by simp
    have n: "nat (int ?l - ?f + 1) = t_counts left ?b ?n" using ne fl by (simp add: t_counts_def)
    have "?n \<le> 2 ^ k" using length_row_le [of k X] X1 mult_le_mono2 [of "length X" 1 "2 ^ k"] by linarith
    moreover have "4 * 2 ^ k \<le> pc_size cf" using k(2,3) power_increasing [of k "pc_lpp cf" "2 :: nat"] by linarith
    ultimately have cap: "t_counts left ?b ?n \<le> pc_size cf + 1" using t_counts_le [OF sorted, of ?b ?n] by linarith
    let ?nb2 = "?nb1\<lparr>nb_allT := nat (int ?l - ?f + 1)\<rparr>"
    have tl: "length (nb_tCount ?nb2) = pc_size cf + 1" using rep(1) dp(7) by (simp add: buffer_rep_def)
    then have "\<exists>tcs. copy_tCounts tc ?f (int ?l) ?nb2 = Inr (?nb2\<lparr>nb_tCount := tcs\<rparr>) \<and> length tcs = pc_size cf + 1"
      using len f1 fl cap n e(2)
      by (intro exI [of _ "take (nat (int ?l - ?f + 1)) (drop (nat ?f) (tc_left tc)) @ drop (nat (int ?l - ?f + 1)) (nb_tCount ?nb2)"]) (simp add: copy_tCounts_def Let_def not_le)
    then obtain tcs where tcs: "copy_tCounts tc ?f (int ?l) ?nb2 = Inr (?nb2\<lparr>nb_tCount := tcs\<rparr>)" "length tcs = pc_size cf + 1" by blast
    let ?nb3 = "?nb2\<lparr>nb_tCount := tcs, nb_prev := ?f\<rparr>"
    let ?nb4 = "?nb3\<lparr>nb_used := cells_used ?nb3\<rparr>"
    have u: "\<not> nb_used nb \<le> pc_size cf" using False rep(2) by simp
    have pos: "\<not> int ?l - ?f + 1 \<le> 0" using fl by simp
    have "nodeBufferShift cf k ?b tc nb = Inr ?nb4"
      unfolding nodeBufferShift_def Let_def c if_not_P [OF u] if_not_P [OF ne] f res_bind_simps l if_not_P [OF pos] tcs(1) by simp
    moreover have "buffer_rep cf k left ?b X [] ?nb4"
      using dp rep(1) tcs(2) n f1 unfolding buffer_rep_def by (simp add: t_counts_def)
    ultimately show ?thesis using X1 by (rule that)
  qed
qed

subsection \<open>Pages\<close>

definition page_image :: "nat \<Rightarrow> int list \<Rightarrow> int \<Rightarrow> int \<Rightarrow> forest \<Rightarrow> int list" where
  \<comment> \<open>the used part of a page with \<open>k\<close> rows of the subtries \<open>S\<close>; \<open>left\<close> and \<open>first\<close> describe the child pages\<close>
  "page_image k left first b S =
     (let n = t_counts left b (length (row k S)) in
      b # (if n = 0 then CELL_MAX else first + int (idx_le left b) - 1) # int n # take n (drop (idx_le left b - 1) left) @
      concat (map (\<lambda>i. map (paged_cell \<circ> node_of) (row i S)) [0..<k]))"

definition page_of :: "nat \<Rightarrow> nat \<Rightarrow> int list \<Rightarrow> int \<Rightarrow> int \<Rightarrow> forest \<Rightarrow> int list" where
  "page_of sz k left first b S = (let img = page_image k left first b S in img @ replicate (sz - length img) CELL_MAX)"

lemma t_counts_fit:
  assumes "ends_max left" "b + int n < INT_MAX" "n = 0 \<or> 1 \<le> idx_le left b"
  shows "n \<noteq> 0 \<Longrightarrow> idx_le left b - 1 + t_counts left b n \<le> length left"
proof -
  assume "n \<noteq> 0"
  moreover have "idx_less left (b + int n) < length left" by (rule idx_less_length) (use assms in auto)
  moreover have "idx_le left b \<le> idx_less left (b + int n)" using \<open>n \<noteq> 0\<close> by (intro idx_le_less) simp
  ultimately show ?thesis using assms(3) by (simp add: t_counts_def)
qed

lemma length_page_image:
  assumes "ends_max left" "b + int (length (row k S)) < INT_MAX" "row k S = [] \<or> 1 \<le> idx_le left b" "S \<noteq> []"
  shows "length (page_image k left first b S) = need k left b S"
proof -
  have "length (concat (map (\<lambda>i. map (paged_cell \<circ> node_of) (row i S)) [0..<k])) = cells k S"
    by (induction k) (simp_all add: cells_def)
  moreover have "length (take (t_counts left b (length (row k S))) (drop (idx_le left b - 1) left)) = t_counts left b (length (row k S))"
    using t_counts_fit [of left b "length (row k S)"] assms(1-3) by (cases "row k S = []") (auto simp: t_counts_def)
  ultimately show ?thesis using assms(4) by (simp add: page_image_def need_def Let_def)
qed

lemma fillPage_rep:
  assumes e: "ends_max (tc_left tc)" "left = tc_left tc" and k: "k \<le> pc_lpp cf"
    and rep: "buffer_rep cf k left b B P nb" and S: "S = (if all then B else P)" "B = P @ X" "S \<noteq> []" "need k left b S \<le> pc_size cf"
    and lim: "b + int (length (row k S)) < INT_MAX" "row k S = [] \<or> 1 \<le> idx_le left b"
  shows "fillPage cf all k b tc nb = Inr (page_of (pc_size cf) k left (tc_first tc) b S)"
proof -
  note r = rep [unfolded buffer_rep_def]
  let ?n = "t_counts left b (length (row k S))"
  have nT: "(if all then nb_allT nb else nb_penT nb) = ?n" using r S(1) by simp
  have "(\<lambda>i. map paged_cell (if all then nb_level nb ! i else take (nb_pen nb ! i) (nb_level nb ! i))) i = map (paged_cell \<circ> node_of) (row i S)"
    if "i < k" for i using that r S(1,2) by auto
  then have copied: "map (\<lambda>i. map paged_cell (if all then nb_level nb ! i else take (nb_pen nb ! i) (nb_level nb ! i))) [0..<k] =
    map (\<lambda>i. map (paged_cell \<circ> node_of) (row i S)) [0..<k]" by (intro map_cong) auto
  have f: "firstTCountIdx tc (nb_prev nb) b = Inr (int (idx_le left b) - 1)"
    using firstTCountIdx_le [OF e(1), of b "nb_prev nb"] r e(2) lim(1) by simp
  have head: "(if ?n = 0 then Inr (CELL_MAX, [])
     else res_bind (firstTCountIdx tc (nb_prev nb) b) (\<lambda>childOffset.
       if childOffset < 0 \<or> length (tc_left tc) < nat childOffset + ?n then Inl Undefined
       else Inr (tc_first tc + childOffset, take ?n (drop (nat childOffset) (tc_left tc))))) =
    Inr (if ?n = 0 then CELL_MAX else tc_first tc + int (idx_le left b) - 1, take ?n (drop (idx_le left b - 1) left))"
  proof (cases "?n = 0")
    case False
    then have ne: "length (row k S) \<noteq> 0" by (auto simp: t_counts_def)
    moreover have "idx_le left b - 1 + ?n \<le> length left"
      using t_counts_fit [of left b "length (row k S)"] e lim ne by auto
    moreover have "1 \<le> idx_le left b" using lim(2) ne by auto
    ultimately show ?thesis using False f e(2) by (simp add: nat_diff_distrib)
  qed simp
  have len: "length (page_image k left (tc_first tc) b S) \<le> pc_size cf"
    using length_page_image [of left b k S] e lim S(3,4) by simp
  show ?thesis
    unfolding fillPage_def Let_def nT copied head res_bind_simps prod.case
    using len by (simp add: page_of_def page_image_def Let_def)
qed

end
