(* ===== verification/PatriePagedFile.thy ===== *)
theory PatriePagedFile
  imports PatriePaged
begin

section \<open>Patricia trie: the paged file\<close>

text \<open>
  The pages of a group, the groups of the file, and the whole build.  \<open>links_of\<close> are the links that
  enter the pages to the left of each page of a group, \<open>pages_of\<close> the pages, and \<open>laid_out\<close> says
  that a file holds all groups of a forest: the subtries of a group are cut into pages, and the
  t-counts of a page are those of the group below.
\<close>

subsection \<open>The pages of a group\<close>

fun starts :: "int \<Rightarrow> forest list \<Rightarrow> int list" where
  "starts n [] = []"
| "starts n (S # Ss) = n # starts (n + int (length S)) Ss"

definition links_of :: "forest list \<Rightarrow> int list" where
  \<comment> \<open>the links entering pages to the left of each page, their total, and the sentinel\<close>
  "links_of Ss = starts 0 Ss @ [int (length (concat Ss)), INT_MAX]"

fun pages_of :: "nat \<Rightarrow> nat \<Rightarrow> int list \<Rightarrow> int \<Rightarrow> int \<Rightarrow> forest list \<Rightarrow> int list list" where
  "pages_of sz k left first b [] = []"
| "pages_of sz k left first b (S # Ss) = page_of sz k left first b S # pages_of sz k left first (b + int (length (row k S))) Ss"

lemma length_pages_of [simp]: "length (pages_of sz k left first b Ss) = length Ss"
  by (induction Ss arbitrary: b) auto

lemma length_starts [simp]: "length (starts n Ss) = length Ss"
  by (induction Ss arbitrary: n) auto

lemma starts_bounds: "[] \<notin> set Ss \<Longrightarrow> x \<in> set (starts n Ss) \<Longrightarrow> n \<le> x \<and> x < n + int (length (concat Ss))"
proof (induction Ss arbitrary: n)
  case (Cons S Ss)
  then have "0 < int (length S)" by auto
  with Cons.IH [of "n + int (length S)"] Cons.prems show ?case by (auto simp del: of_nat_0_less_iff length_greater_0_conv)
qed simp

lemma starts_sorted: "[] \<notin> set Ss \<Longrightarrow> sorted_wrt (<) (starts n Ss)"
proof (induction Ss arbitrary: n)
  case (Cons S Ss)
  then have "0 < int (length S)" by auto
  then have "n < x" if "x \<in> set (starts (n + int (length S)) Ss)" for x
    using starts_bounds [OF _ that] Cons.prems by (auto simp del: of_nat_0_less_iff length_greater_0_conv)
  with Cons show ?case by simp
qed simp

lemma links_of_max: "[] \<notin> set Ss \<Longrightarrow> int (length (concat Ss)) < INT_MAX \<Longrightarrow> ends_max (links_of Ss)"
  using starts_bounds [of Ss _ 0] starts_sorted [of Ss 0] by (fastforce simp: links_of_def ends_max_def sorted_wrt_append)

definition at_page :: "page_cf \<Rightarrow> nat \<Rightarrow> int list \<Rightarrow> int \<Rightarrow> forest \<Rightarrow> forest \<Rightarrow> single_level list \<Rightarrow> node_buffer \<Rightarrow> bool" where
  \<comment> \<open>before a page is written: \<open>B\<close> in the buffer, \<open>R\<close> not yet read\<close>
  "at_page cf k left b B R ls nb =
     (buffer_rep cf k left b B (butlast B) nb \<and> nb_used nb = need k left b B \<and> need k left b (butlast B) \<le> pc_size cf \<and>
      reads cf k ls R \<and> (pc_size cf \<le> need k left b B \<or> R = []) \<and> 0 \<le> b \<and>
      b + int (length (row k (B @ R))) < INT_MAX \<and> (row k (B @ R) = [] \<or> 1 \<le> idx_le left b))"

lemma links_counted:
  assumes rep: "buffer_rep cf k left b B P nb" and k: "0 < k" and S: "S = (if all then B else P)" "B = P @ Y"
  shows "linksLeavingPage nb all k = length (row k S)" "linksEnteringPage nb all = length S"
proof -
  have "nb_level nb ! (k - 1) = map node_of (row (k - 1) B)" "nb_pen nb ! (k - 1) = length (row (k - 1) P)"
    using rep k by (auto simp: buffer_rep_def)
  then have "linksLeavingPage nb all k = count_children (map node_of (row (k - 1) S))"
    unfolding linksLeavingPage_def S by (simp add: take_map)
  then show "linksLeavingPage nb all k = length (row k S)" using k row_Suc [of "k - 1" S] by (simp add: count_children_nodes)
  have "nb_level nb ! 0 = map node_of (row 0 B)" "nb_pen nb ! 0 = length (row 0 P)"
    using rep k unfolding buffer_rep_def by blast+
  then show "linksEnteringPage nb all = length S" by (simp add: linksEnteringPage_def S(1))
qed

lemma load_at_page:
  assumes e: "ends_max (tc_left tc)" "left = tc_left tc" and k: "0 < k" "k \<le> pc_lpp cf" "4 * 2 ^ pc_lpp cf \<le> pc_size cf"
    and rep: "buffer_rep cf k left b X [] nb" "length X \<le> 1" and rd: "reads cf k ls R"
    and lim: "b + int (length (row k (X @ R))) < INT_MAX" "row k (X @ R) = [] \<or> 1 \<le> idx_le left b" "0 \<le> b"
  obtains B' R' ls' nb' where "B' @ R' = X @ R" "nodeBufferLoad cf k b tc (ls, nb) = Inr (ls', nb')" "at_page cf k left b B' R' ls' nb'"
proof -
  from nodeBufferLoad_rep [OF e k rep(1) rd lim(1,2) rep(2) lim(3)] obtain R1 R2 ls2 nb2 where
    load: "R = R1 @ R2" "nodeBufferLoad cf k b tc (ls, nb) = Inr (ls2, nb2)"
      "buffer_rep cf k left b (X @ R1) (if R1 = [] then [] else butlast (X @ R1)) nb2" "nb_used nb2 = need k left b (X @ R1)"
      "int (idx_le left b) - 1 \<le> nb_prev nb2"
      "reads cf k ls2 R2" "pc_size cf \<le> need k left b (X @ R1) \<or> R2 = []"
      "R1 \<noteq> [] \<longrightarrow> need k left b (butlast (X @ R1)) < pc_size cf" .
  have bl: "butlast X = []" using rep(2) by (cases X) auto
  have "buffer_rep cf k left b (X @ R1) (butlast (X @ R1)) nb2" using load(3) bl by (cases "R1 = []") auto
  moreover have "need k left b (butlast (X @ R1)) \<le> pc_size cf" using load(8) bl by (cases "R1 = []") (auto simp: need_def)
  ultimately have "at_page cf k left b (X @ R1) R2 ls2 nb2"
    unfolding at_page_def using load(1,4,6,7) lim by simp
  then show ?thesis using that [of "X @ R1" R2 ls2 nb2] load(1,2) by simp
qed

lemma write_page_turn:
  assumes e: "ends_max (tc_left (gs_child g))" "left = tc_left (gs_child g)" and k: "0 < k" "k \<le> pc_lpp cf" "4 * 2 ^ pc_lpp cf \<le> pc_size cf"
    and at: "at_page cf k left b B R ls (gs_buf g)" "B \<noteq> []"
  obtains S B' R' ls' nb' where "S \<noteq> []" "B @ R = S @ B' @ R'" "at_page cf k left (b + int (length (row k S))) B' R' ls' nb'"
    "length (page_of (pc_size cf) k left (tc_first (gs_child g)) b S) = pc_size cf"
    "\<And>fuel t cur. write_pages (Suc fuel) cf k b t cur ls g =
       write_pages fuel cf k (b + int (length (row k S))) (t + int (length S)) (cur\<lparr>tc_left := tc_left cur @ [t]\<rparr>) ls'
         (g\<lparr>gs_buf := nb', gs_out := Suc (gs_out g), gs_file := gs_file g @ page_of (pc_size cf) k left (tc_first (gs_child g)) b S\<rparr>)"
proof -
  note a = at(1) [unfolded at_page_def]
  have rep: "buffer_rep cf k left b B (butlast B) (gs_buf g)" and used: "nb_used (gs_buf g) = need k left b B" using a by blast+
  let ?all = "need k left b B \<le> pc_size cf"
  define S where "S = (if ?all then B else butlast B)"
  obtain X where X: "B = S @ X" by (metis S_def append.right_neutral append_butlast_last_id at(2))
  have pw: "4 * 2 ^ k \<le> pc_size cf" using k(2,3) power_increasing [of k "pc_lpp cf" "2 :: nat"] by linarith
  have sorted: "sorted_wrt (<) left" using e by (simp add: ends_max_def)
  have ne: "S \<noteq> []"
  proof (cases ?all)
    case False
    then have "\<not> length B \<le> 1" using need_one [OF sorted k(1) pw] by blast
    moreover have "length S = length B - 1" using False by (simp add: S_def)
    ultimately show ?thesis by (metis diff_is_0_eq list.size(3))
  qed (use at(2) in \<open>simp add: S_def\<close>)
  have fits: "need k left b S \<le> pc_size cf" using a by (simp add: S_def)
  let ?b = "b + int (length (row k S))"
  have lim: "b + int (length (row k S)) < INT_MAX" "row k S = [] \<or> 1 \<le> idx_le left b" using a X by auto
  have limB: "b + int (length (row k B)) < INT_MAX" "row k B = [] \<or> 1 \<le> idx_le left b" using a by auto
  obtain P Y where Y: "B = P @ Y" "butlast B = P" using append_butlast_last_id [OF at(2)] by metis
  note S1 = S_def and S2 = S_def [unfolded Y(2)]
  have fill: "fillPage cf ?all k b (gs_child g) (gs_buf g) = Inr (page_of (pc_size cf) k left (tc_first (gs_child g)) b S)"
    using fillPage_rep [OF e k(2) rep [unfolded Y(2)] S2 Y(1) ne fits lim] .
  note count = links_counted [OF rep [unfolded Y(2)] k(1) S2 Y(1)]
  from nodeBufferShift_rep [OF e k rep used S1 X limB] obtain nb1 where
    shift: "nodeBufferShift cf k ?b (gs_child g) (gs_buf g) = Inr nb1" "buffer_rep cf k left ?b X [] nb1" "length X \<le> 1" .
  have i: "idx_le left b \<le> idx_le left ?b" by (rule idx_le_mono) simp
  have rd: "reads cf k ls R" and lim1: "?b + int (length (row k (X @ R))) < INT_MAX" "row k (X @ R) = [] \<or> 1 \<le> idx_le left ?b" "0 \<le> ?b"
    using a X i by auto
  from load_at_page [OF e k shift(2,3) rd lim1] obtain B' R' ls' nb' where
    load: "B' @ R' = X @ R" "nodeBufferLoad cf k ?b (gs_child g) (ls, nb1) = Inr (ls', nb')" "at_page cf k left ?b B' R' ls' nb'" .
  have used': "(nb_used (gs_buf g) \<le> pc_size cf) = ?all" and nz: "nb_used (gs_buf g) \<noteq> 0" using used at(2) by (simp_all add: need_def)
  have BR: "B @ R = S @ B' @ R'" using X load(1) by simp
  have len: "length (page_of (pc_size cf) k left (tc_first (gs_child g)) b S) = pc_size cf"
    using length_page_image [of left b k S "tc_first (gs_child g)"] e lim ne fits by (simp add: page_of_def Let_def)
  show ?thesis
    by (rule that [OF ne BR load(3) len])
      (use nz fill shift(1) load(2) in \<open>simp only: write_pages.simps Let_def used' count if_False res_bind_simps prod.case addTopCount_def\<close>)
qed

lemma write_pages_rep:
  assumes "ends_max (tc_left (gs_child g))" "left = tc_left (gs_child g)" and k: "0 < k" "k \<le> pc_lpp cf" "4 * 2 ^ pc_lpp cf \<le> pc_size cf"
    and "at_page cf k left b B R ls (gs_buf g)" "length (B @ R) < fuel"
  shows "\<exists>Ss nb b'. concat Ss = B @ R \<and> [] \<notin> set Ss \<and>
    write_pages fuel cf k b t cur ls g = Inr (t + int (length (B @ R)), cur\<lparr>tc_left := tc_left cur @ starts t Ss\<rparr>,
      g\<lparr>gs_buf := nb, gs_out := gs_out g + length Ss, gs_file := gs_file g @ concat (pages_of (pc_size cf) k left (tc_first (gs_child g)) b Ss)\<rparr>) \<and>
    buffer_rep cf k left b' [] [] nb \<and>
    (\<forall>pg\<in>set (pages_of (pc_size cf) k left (tc_first (gs_child g)) b Ss). length pg = pc_size cf)"
  using assms(1,2,6-)
proof (induction fuel arbitrary: g b B ls R t cur)
  case (Suc fuel)
  note e = Suc.prems(1,2) and at = Suc.prems(3)
  show ?case
  proof (cases "B = []")
    case True
    have "0 < pc_size cf" using k(3) by (metis bot_nat_0.not_eq_extremum le_zero_eq mult_is_0 power_not_zero zero_neq_numeral)
    then have "R = []" using at True by (simp add: need_def at_page_def)
    with True at show ?thesis by (intro exI [of _ "[]"] exI [of _ "gs_buf g"] exI [of _ b]) (simp add: need_def at_page_def)
  next
    case False
    from write_page_turn [OF e k at False] obtain S B' R' ls' nb' where
      t: "S \<noteq> []" "B @ R = S @ B' @ R'" "at_page cf k left (b + int (length (row k S))) B' R' ls' nb'"
      "length (page_of (pc_size cf) k left (tc_first (gs_child g)) b S) = pc_size cf"
      "\<And>fuel t cur. write_pages (Suc fuel) cf k b t cur ls g =
         write_pages fuel cf k (b + int (length (row k S))) (t + int (length S)) (cur\<lparr>tc_left := tc_left cur @ [t]\<rparr>) ls'
           (g\<lparr>gs_buf := nb', gs_out := Suc (gs_out g), gs_file := gs_file g @ page_of (pc_size cf) k left (tc_first (gs_child g)) b S\<rparr>)"
      by blast
    let ?b = "b + int (length (row k S))" and ?cur = "cur\<lparr>tc_left := tc_left cur @ [t]\<rparr>"
    let ?g = "g\<lparr>gs_buf := nb', gs_out := Suc (gs_out g), gs_file := gs_file g @ page_of (pc_size cf) k left (tc_first (gs_child g)) b S\<rparr>"
    have len: "length (B' @ R') < fuel" using Suc.prems(4) t(1,2) by (cases S) auto
    have "\<exists>Ss nb b'. concat Ss = B' @ R' \<and> [] \<notin> set Ss \<and>
      write_pages fuel cf k ?b (t + int (length S)) ?cur ls' ?g =
        Inr (t + int (length S) + int (length (B' @ R')), ?cur\<lparr>tc_left := tc_left ?cur @ starts (t + int (length S)) Ss\<rparr>,
          ?g\<lparr>gs_buf := nb, gs_out := gs_out ?g + length Ss,
            gs_file := gs_file ?g @ concat (pages_of (pc_size cf) k left (tc_first (gs_child ?g)) ?b Ss)\<rparr>) \<and>
      buffer_rep cf k left b' [] [] nb \<and>
      (\<forall>pg\<in>set (pages_of (pc_size cf) k left (tc_first (gs_child ?g)) ?b Ss). length pg = pc_size cf)"
      by (rule Suc.IH) (use e t(3) len in simp_all)
    then obtain Ss nb b' where IH: "concat Ss = B' @ R'" "[] \<notin> set Ss"
      "write_pages fuel cf k ?b (t + int (length S)) ?cur ls' ?g =
        Inr (t + int (length S) + int (length (B' @ R')), ?cur\<lparr>tc_left := tc_left ?cur @ starts (t + int (length S)) Ss\<rparr>,
          ?g\<lparr>gs_buf := nb, gs_out := gs_out ?g + length Ss,
            gs_file := gs_file ?g @ concat (pages_of (pc_size cf) k left (tc_first (gs_child ?g)) ?b Ss)\<rparr>)"
      "buffer_rep cf k left b' [] [] nb" "\<forall>pg\<in>set (pages_of (pc_size cf) k left (tc_first (gs_child ?g)) ?b Ss). length pg = pc_size cf"
      by (elim exE conjE) (rule that)
    have "concat (S # Ss) = B @ R" "[] \<notin> set (S # Ss)" using IH(1,2) t(1,2) by simp_all
    moreover have "write_pages (Suc fuel) cf k b t cur ls g =
        Inr (t + int (length (B @ R)), cur\<lparr>tc_left := tc_left cur @ starts t (S # Ss)\<rparr>,
          g\<lparr>gs_buf := nb, gs_out := gs_out g + length (S # Ss),
            gs_file := gs_file g @ concat (pages_of (pc_size cf) k left (tc_first (gs_child g)) b (S # Ss))\<rparr>)"
      unfolding t(5) IH(3) t(2) by simp
    moreover have "\<forall>pg\<in>set (pages_of (pc_size cf) k left (tc_first (gs_child g)) b (S # Ss)). length pg = pc_size cf"
      using IH(5) t(4) by simp
    ultimately show ?thesis using IH(4) by blast
  qed
qed simp

subsection \<open>The whole file\<close>

definition page_at :: "nat \<Rightarrow> int list \<Rightarrow> nat \<Rightarrow> int list \<Rightarrow> bool" where
  "page_at sz f p pg = (p * sz + sz \<le> length f \<and> take sz (drop (p * sz) f) = pg)"

text \<open>The groups from the top: for each the number of its first page and the subtries on its pages.\<close>

type_synonym groups = "(nat \<times> forest list) list"

fun left_of :: "groups \<Rightarrow> int list" where
  "left_of [] = [INT_MAX]"
| "left_of ((p, Ss) # gs) = links_of Ss"

fun first_of :: "groups \<Rightarrow> int" where
  "first_of [] = - 1"
| "first_of ((p, Ss) # gs) = int p"

fun laid_out :: "nat \<Rightarrow> nat \<Rightarrow> int list \<Rightarrow> forest \<Rightarrow> groups \<Rightarrow> bool" where
  "laid_out sz L f F [] = (F = [])"
| "laid_out sz L f F ((p, Ss) # gs) = (concat Ss = F \<and> [] \<notin> set Ss \<and>
     (\<forall>j<length Ss. page_at sz f (p + j) (pages_of sz L (left_of gs) (first_of gs) 0 Ss ! j)) \<and> laid_out sz L f (row L F) gs)"

lemma page_at_append: "page_at sz f p pg \<Longrightarrow> page_at sz (f @ f') p pg"
  by (simp add: page_at_def)

lemma laid_out_append: "laid_out sz L f F gs \<Longrightarrow> laid_out sz L (f @ f') F gs"
  by (induction sz L f F gs rule: laid_out.induct) (auto intro: page_at_append)

lemma page_at_concat:
  assumes "\<forall>pg\<in>set pgs. length pg = sz" "length f = p * sz" "j < length pgs"
  shows "page_at sz (f @ concat pgs) (p + j) (pgs ! j)"
proof -
  have l: "length (concat (take n pgs)) = n * sz" if "n \<le> length pgs" for n
    using assms(1) that by (induction n) (auto simp: take_Suc_conv_app_nth)
  have "concat pgs = concat (take j pgs) @ pgs ! j @ concat (drop (Suc j) pgs)"
    using id_take_nth_drop [OF assms(3)] by (metis concat.simps(2) concat_append)
  then have "f @ concat pgs = (f @ concat (take j pgs)) @ pgs ! j @ concat (drop (Suc j) pgs)" by simp
  moreover have "length (f @ concat (take j pgs)) = (p + j) * sz" using l [of j] assms(2,3) by (simp add: algebra_simps)
  moreover have "length (pgs ! j) = sz" using assms(1,3) by simp
  ultimately show ?thesis unfolding page_at_def
    by (metis append_eq_conv_conj append_take_drop_id le_add1 length_append nat_add_left_cancel_le)
qed

lemma page_of_rows:
  assumes "row k S = []" "k \<le> L"
  shows "page_of sz k left first b S = page_of sz L left first b S"
proof -
  have e: "row i S = []" if "k \<le> i" for i using row_nonempty_up [OF assms(1) that] .
  have "concat (map (\<lambda>i. map (paged_cell \<circ> node_of) (row i S)) [k..<L]) = []" using e by simp
  then have "concat (map (\<lambda>i. map (paged_cell \<circ> node_of) (row i S)) [0..<L]) = concat (map (\<lambda>i. map (paged_cell \<circ> node_of) (row i S)) [0..<k])"
    using upt_add_eq_append [of 0 k "L - k"] assms(2) by simp
  moreover have "row L S = []" using e assms(2) by simp
  ultimately show ?thesis using assms(1) by (simp add: page_of_def page_image_def)
qed

lemma pages_of_rows: "row k (concat Ss) = [] \<Longrightarrow> k \<le> L \<Longrightarrow> pages_of sz k left first b Ss = pages_of sz L left first b Ss"
proof (induction Ss arbitrary: b)
  case (Cons S Ss)
  then have "row k S = []" "row L S = []" using row_nonempty_up [of k S L] by auto
  with Cons show ?case using page_of_rows [of k S L] by simp
qed simp

definition idle :: "page_cf \<Rightarrow> node_buffer \<Rightarrow> bool" where
  "idle cf nb = (nb_room nb = pc_size cf + 2 ^ (pc_lpp cf - 1) \<and> length (nb_tCount nb) = pc_size cf + 1 \<and> nodeBufferReset cf nb = nb)"

lemma idle_rep: "idle cf nb \<Longrightarrow> k \<le> pc_lpp cf \<Longrightarrow> buffer_rep cf k left b [] [] nb"
proof -
  assume i: "idle cf nb" and k: "k \<le> pc_lpp cf"
  have "buffer_rep cf k left b [] [] (nodeBufferReset cf nb)"
    using conjunct1 [OF i [unfolded idle_def]] conjunct1 [OF conjunct2 [OF i [unfolded idle_def]]] k
    by (simp add: buffer_rep_def nodeBufferReset_def t_counts_def)
  then show ?thesis using i by (simp add: idle_def)
qed

lemma idle_init: "idle cf (nodeBufferInit cf)"
  by (simp add: idle_def nodeBufferInit_def nodeBufferReset_def)

lemma idle_reset: "buffer_rep cf k left b B P nb \<Longrightarrow> idle cf (nodeBufferReset cf nb)"
  by (simp add: idle_def buffer_rep_def nodeBufferReset_def)

lemma write_group_rep:
  assumes k: "k = min (pc_lpp cf) (length trie - i * pc_lpp cf)" "0 < k" "4 * 2 ^ pc_lpp cf \<le> pc_size cf"
    and e: "ends_max (tc_left (gs_child g))" and idle: "idle cf (gs_buf g)"
    and rd: "reads cf k (drop (i * pc_lpp cf) trie) F"
    and lim: "int (length (row k F)) < INT_MAX" "row k F = [] \<or> 1 \<le> idx_le (tc_left (gs_child g)) 0" "length F < fuel"
  obtains Ss nb where "concat Ss = F" "[] \<notin> set Ss" "idle cf nb"
    "\<forall>pg\<in>set (pages_of (pc_size cf) k (tc_left (gs_child g)) (tc_first (gs_child g)) 0 Ss). length pg = pc_size cf"
    "write_group fuel cf trie i g = Inr \<lparr>gs_child = \<lparr>tc_first = int (gs_out g), tc_left = links_of Ss\<rparr>, gs_buf = nb,
       gs_out = gs_out g + length Ss,
       gs_file = gs_file g @ concat (pages_of (pc_size cf) k (tc_left (gs_child g)) (tc_first (gs_child g)) 0 Ss)\<rparr>"
proof -
  have kL: "k \<le> pc_lpp cf" using k(1) by simp
  let ?left = "tc_left (gs_child g)"
  have rep: "buffer_rep cf k ?left 0 [] [] (gs_buf g)" using idle_rep [OF idle kL] .
  have lims: "length ([] :: forest) \<le> 1" "0 + int (length (row k ([] @ F))) < INT_MAX" "row k ([] @ F) = [] \<or> 1 \<le> idx_le ?left 0" "(0 :: int) \<le> 0"
    using lim(1,2) by simp_all
  from load_at_page [OF e refl k(2) kL k(3) rep lims(1) rd lims(2-4)] obtain B R ls nb where
    l: "B @ R = [] @ F" "nodeBufferLoad cf k 0 (gs_child g) (drop (i * pc_lpp cf) trie, gs_buf g) = Inr (ls, nb)" "at_page cf k ?left 0 B R ls nb" .
  let ?g = "g\<lparr>gs_buf := nb\<rparr>" and ?cur = "initTopCount (int (gs_out g))"
  have "\<exists>Ss nb1 b'. concat Ss = B @ R \<and> [] \<notin> set Ss \<and>
    write_pages fuel cf k 0 0 ?cur ls ?g = Inr (0 + int (length (B @ R)), ?cur\<lparr>tc_left := tc_left ?cur @ starts 0 Ss\<rparr>,
      ?g\<lparr>gs_buf := nb1, gs_out := gs_out ?g + length Ss, gs_file := gs_file ?g @ concat (pages_of (pc_size cf) k ?left (tc_first (gs_child ?g)) 0 Ss)\<rparr>) \<and>
    buffer_rep cf k ?left b' [] [] nb1 \<and>
    (\<forall>pg\<in>set (pages_of (pc_size cf) k ?left (tc_first (gs_child ?g)) 0 Ss). length pg = pc_size cf)"
    by (rule write_pages_rep) (use e k(2,3) kL l(1,3) lim(3) in simp_all)
  then obtain Ss nb1 b' where w: "concat Ss = B @ R" "[] \<notin> set Ss"
    "write_pages fuel cf k 0 0 ?cur ls ?g = Inr (0 + int (length (B @ R)), ?cur\<lparr>tc_left := tc_left ?cur @ starts 0 Ss\<rparr>,
      ?g\<lparr>gs_buf := nb1, gs_out := gs_out ?g + length Ss, gs_file := gs_file ?g @ concat (pages_of (pc_size cf) k ?left (tc_first (gs_child ?g)) 0 Ss)\<rparr>)"
    "buffer_rep cf k ?left b' [] [] nb1"
    "\<forall>pg\<in>set (pages_of (pc_size cf) k ?left (tc_first (gs_child ?g)) 0 Ss). length pg = pc_size cf"
    by (elim exE conjE) (rule that)
  have "write_group fuel cf trie i g = Inr \<lparr>gs_child = \<lparr>tc_first = int (gs_out g), tc_left = links_of Ss\<rparr>, gs_buf = nodeBufferReset cf nb1,
       gs_out = gs_out g + length Ss,
       gs_file = gs_file g @ concat (pages_of (pc_size cf) k ?left (tc_first (gs_child g)) 0 Ss)\<rparr>"
    unfolding write_group_def Let_def k(1) [symmetric] l(2) res_bind_simps prod.case w(3)
    using w(1) by (simp add: addTopCount_def initTopCount_def links_of_def)
  then show ?thesis using that [OF _ w(2) idle_reset [OF w(4)]] w(1,5) l(1) by simp
qed

lemma links_of_start: "concat Ss \<noteq> [] \<Longrightarrow> 1 \<le> idx_le (links_of Ss) 0"
  by (cases Ss) (auto simp: links_of_def idx_le_def)

lemma write_groups_rep:
  assumes trie: "length trie = depth t" "\<And>m. m < depth t \<Longrightarrow> ready (pc_levels cf) (trie ! m) (map node_of (row m [(- 1, t)]))"
    and small: "4 * 2 ^ pc_lpp cf \<le> pc_size cf" "0 < pc_lpp cf" "int (nodes t) < INT_MAX" "nodes t < fuel"
    and "0 < i \<Longrightarrow> (i - 1) * pc_lpp cf < depth t" "idle cf (gs_buf g)"
    and "gs_child g = \<lparr>tc_first = first_of gs, tc_left = left_of gs\<rparr>" "length (gs_file g) = gs_out g * pc_size cf"
    and "laid_out (pc_size cf) (pc_lpp cf) (gs_file g) (row (i * pc_lpp cf) [(- 1, t)]) gs \<or> depth t \<le> i * pc_lpp cf \<and> gs = []"
    and "gs \<noteq> [] \<Longrightarrow> gs_out g = fst (hd gs) + length (snd (hd gs))"
  shows "\<exists>g' gs'. write_groups fuel cf trie i g = Inr g' \<and> length (gs_file g') = gs_out g' * pc_size cf \<and>
    laid_out (pc_size cf) (pc_lpp cf) (gs_file g') [(- 1, t)] gs' \<and> gs_out g' = fst (hd gs') + length (snd (hd gs'))"
  using assms(7-)
proof (induction i arbitrary: g gs)
  case 0
  have "0 < depth t" by (cases t) simp_all
  with 0 show ?case by (intro exI [of _ g] exI [of _ gs]) (cases gs; auto)
next
  case (Suc i)
  let ?L = "pc_lpp cf" and ?T = "[(- 1, t)]" and ?sz = "pc_size cf"
  define k where "k = min ?L (length trie - i * ?L)"
  let ?F = "row (i * ?L) ?T"
  have i: "i * ?L < depth t" using Suc.prems(1) by simp
  have k0: "0 < k" and kL: "k \<le> ?L" using i small(2) trie(1) by (simp_all add: k_def)
  have rd: "reads cf k (drop (i * ?L) trie) ?F"
    unfolding reads_def
  proof (intro conjI allI impI)
    show "k \<le> length (drop (i * ?L) trie)" by (simp add: k_def)
    fix m assume m: "m < k"
    then have "i * ?L + m < depth t" by (simp add: k_def trie(1) less_diff_conv add.commute)
    moreover from this have "drop (i * ?L) trie ! m = trie ! (i * ?L + m)" by (simp add: trie(1))
    moreover have "row m ?F = row (i * ?L + m) ?T" by (simp add: row_add [symmetric] add.commute)
    ultimately show "ready (pc_levels cf) (drop (i * ?L) trie ! m) (map node_of (row m ?F))" using trie(2) by simp
  qed
  have rowlen: "length (row m ?T) \<le> nodes t" for m
  proof (cases "m < depth t")
    case True
    then have "levels t ! m \<in> set (levels t)" by (simp add: length_levels)
    then show ?thesis using length_level [of "levels t ! m" t] levels_row [OF True] by simp
  qed (simp add: row_depth)
  have next_row: "row ?L ?F = row (Suc i * ?L) ?T" by (simp add: row_add [symmetric])
  have kF: "row k ?F = [] \<or> k = ?L"
  proof (cases "k = ?L")
    case False
    then have "depth t \<le> k + i * ?L" by (auto simp: k_def trie(1))
    then show ?thesis by (simp add: row_add [symmetric] row_depth)
  qed simp
  have below: "laid_out ?sz ?L (gs_file g) (row ?L ?F) gs"
    using Suc.prems(5) unfolding next_row by (auto simp: row_depth)
  have start: "row k ?F = [] \<or> 1 \<le> idx_le (left_of gs) 0"
  proof (cases gs)
    case Nil
    then show ?thesis using below kF by auto
  next
    case (Cons a gs')
    obtain p Ss where "a = (p, Ss)" by (cases a)
    then show ?thesis using Cons below kF links_of_start [of Ss] by auto
  qed
  have e: "ends_max (left_of gs)"
  proof (cases gs)
    case (Cons a gs')
    obtain p Ss where a: "a = (p, Ss)" by (cases a)
    have "length (row (?L + i * ?L) ?T) \<le> nodes t" by (rule rowlen)
    then have "int (length (concat Ss)) < INT_MAX" using Cons a below small(3) by (simp add: row_add [symmetric])
    then show ?thesis using Cons a below links_of_max by simp
  qed (simp add: ends_max_def)
  have ex: "ends_max (tc_left (gs_child g))" "int (length (row k ?F)) < INT_MAX" "row k ?F = [] \<or> 1 \<le> idx_le (tc_left (gs_child g)) 0" "length ?F < fuel"
    using e start Suc.prems(3) rowlen [of "k + i * ?L"] rowlen [of "i * ?L"] small(3,4) by (simp_all add: row_add [symmetric])
  from write_group_rep [OF k_def k0 small(1) ex(1) Suc.prems(2) rd ex(2-4)] obtain Ss nb where w: "concat Ss = ?F" "[] \<notin> set Ss" "idle cf nb"
    "\<forall>pg\<in>set (pages_of ?sz k (tc_left (gs_child g)) (tc_first (gs_child g)) 0 Ss). length pg = ?sz"
    "write_group fuel cf trie i g = Inr \<lparr>gs_child = \<lparr>tc_first = int (gs_out g), tc_left = links_of Ss\<rparr>, gs_buf = nb,
       gs_out = gs_out g + length Ss, gs_file = gs_file g @ concat (pages_of ?sz k (tc_left (gs_child g)) (tc_first (gs_child g)) 0 Ss)\<rparr>" .
  let ?pgs = "pages_of ?sz ?L (left_of gs) (first_of gs) 0 Ss"
  have pgs: "pages_of ?sz k (tc_left (gs_child g)) (tc_first (gs_child g)) 0 Ss = ?pgs"
    using kF pages_of_rows [of k Ss ?L] w(1) kL Suc.prems(3) by auto
  let ?g = "\<lparr>gs_child = \<lparr>tc_first = int (gs_out g), tc_left = links_of Ss\<rparr>, gs_buf = nb, gs_out = gs_out g + length Ss, gs_file = gs_file g @ concat ?pgs\<rparr>"
  have lens: "\<forall>pg\<in>set ?pgs. length pg = ?sz" using w(4) unfolding pgs .
  have "\<forall>pg\<in>set pgs. length pg = n \<Longrightarrow> length (concat pgs) = length pgs * n" for pgs :: "int list list" and n
    by (induction pgs) auto
  from this [OF lens] have len: "length (gs_file ?g) = gs_out ?g * ?sz" using Suc.prems(4) by (simp add: algebra_simps)
  have out: "laid_out ?sz ?L (gs_file ?g) ?F ((gs_out g, Ss) # gs)"
    using w(1,2) page_at_concat [OF lens Suc.prems(4)] laid_out_append [OF below] by simp
  have "\<exists>g' gs'. write_groups fuel cf trie i ?g = Inr g' \<and> length (gs_file g') = gs_out g' * ?sz \<and>
    laid_out ?sz ?L (gs_file g') ?T gs' \<and> gs_out g' = fst (hd gs') + length (snd (hd gs'))"
  proof (rule Suc.IH [where gs = "(gs_out g, Ss) # gs"])
    show "(i - 1) * ?L < depth t" if "0 < i"
      by (rule le_less_trans [OF mult_le_mono1 i]) simp
  qed (use w(3) len out in simp_all)
  then show ?case using w(5) unfolding pgs by simp
qed

text \<open>
  The file that is built from the levels of a trie: every page holds what \<open>laid_out\<close> says, and
  the last page of the file holds the root.
\<close>

lemma paged_build_rep:
  assumes "open_levels (pc_levels cf) = Inr trie" "list_all2 (ready (pc_levels cf)) trie (levels t)" "\<not> pageTooSmall cf"
    and "4 * 2 ^ pc_lpp cf \<le> pc_size cf" "int (nodes t) < INT_MAX" "nodes t < fuel"
  obtains f gs where "patriePagedBuild fuel cf = Inr f" "laid_out (pc_size cf) (pc_lpp cf) f [(- 1, t)] gs"
    "length f = (fst (hd gs) + length (snd (hd gs))) * pc_size cf"
proof -
  have len: "length trie = depth t" using list_all2_lengthD [OF assms(2)] by (simp add: length_levels)
  have rd: "ready (pc_levels cf) (trie ! m) (map node_of (row m [(- 1, t)]))" if "m < depth t" for m
    using assms(2) that levels_row [OF that] by (auto simp: list_all2_conv_all_nth length_levels)
  have L: "0 < pc_lpp cf" using assms(3) by (simp add: pageTooSmall_def Let_def)
  let ?i = "depth t div pc_lpp cf + (if depth t mod pc_lpp cf \<noteq> 0 then 1 else 0)"
  let ?g = "\<lparr>gs_child = addTopCount (initTopCount (- 1)) INT_MAX, gs_buf = nodeBufferInit cf, gs_out = 0, gs_file = []\<rparr>"
  obtain q r where qr: "depth t = q * pc_lpp cf + r" "r < pc_lpp cf"
    using that L mod_less_divisor [OF L, of "depth t"] div_mult_mod_eq [of "depth t" "pc_lpp cf"] by metis
  then have i: "?i = q + (if r = 0 then 0 else 1)" by simp
  have top: "depth t \<le> ?i * pc_lpp cf" unfolding i using qr by (simp add: algebra_simps)
  have bottom: "(?i - 1) * pc_lpp cf < depth t"
  proof (cases "r = 0")
    case True
    have "0 < depth t" by (cases t) simp_all
    with True qr(1) obtain q' where "q = Suc q'" by (cases q) auto
    then show ?thesis unfolding i using qr True L by simp
  next
    case False
    then show ?thesis unfolding i using qr by simp
  qed
  have "\<exists>g' gs'. write_groups fuel cf trie ?i ?g = Inr g' \<and> length (gs_file g') = gs_out g' * pc_size cf \<and>
    laid_out (pc_size cf) (pc_lpp cf) (gs_file g') [(- 1, t)] gs' \<and> gs_out g' = fst (hd gs') + length (snd (hd gs'))"
    by (rule write_groups_rep [OF len rd assms(4) L assms(5,6) bottom, where gs = "[]"])
      (use top in \<open>simp_all add: idle_init addTopCount_def initTopCount_def\<close>)
  then obtain g' gs' where g: "write_groups fuel cf trie ?i ?g = Inr g'" "length (gs_file g') = gs_out g' * pc_size cf"
    "laid_out (pc_size cf) (pc_lpp cf) (gs_file g') [(- 1, t)] gs'" "gs_out g' = fst (hd gs') + length (snd (hd gs'))"
    by blast
  have "patriePagedBuild fuel cf = Inr (gs_file g')"
    using assms(3) g(1) by (simp add: patriePagedBuild_def assms(1) Let_def len)
  from that [OF this g(3)] g(2,4) show ?thesis by simp
qed

end
