(* ===== verification/PatrieSort.thy ===== *)
theory PatrieSort
  imports PatrieCase "HOL-Library.Multiset"
begin

section \<open>Patricia trie: sorting the text into the infix file\<close>

text \<open>
  Models \<open>archie/lib/patrie/sort.c\<close>, with the parts of \<open>init.c\<close> and \<open>archstridx/api.c\<close> that
  configure it.  \<open>_patrieInfixBuild\<close> cuts the text into chunks that fit into memory.  The index
  points of a chunk become run elements, which are sorted by the strings that start there
  (sistrings) with a quicksort in place.  Then every earlier run is merged against the new one,
  without moving anything: each element counts the elements of earlier runs that fall between
  it and its predecessor, and keeps the greatest heights (first differing bits) to its left and
  to its right.  \<open>cmerge\<close> reads all runs at once and needs only these counts to find the order.

  A text buffer is a list of characters, and a sistring runs to the first nul in it; the buffer
  ends with one.  A run element is addressed by its index in the runs file.
\<close>

subsection \<open>Configuration\<close>

text \<open>A comparison that runs past both strings, and a differing bit that does not exist, are \<open>None\<close>.\<close>

record 'arg sort_cf =
  cf_text :: cstr                                       \<comment> \<open>\<open>textFP\<close>\<close>
  cf_strcomp :: "cstr \<Rightarrow> cstr \<Rightarrow> int option"
  cf_diffbit :: "cstr \<Rightarrow> cstr \<Rightarrow> nat option"
  cf_setIndexPoints :: "nat \<Rightarrow> cstr \<Rightarrow> 'arg \<Rightarrow> nat list \<times> 'arg" \<comment> \<open>the points marked, in order, and \<open>*arg\<close> afterwards\<close>
  cf_indexArg :: 'arg
  cf_sortMaxMem :: nat
  cf_sortPadLen :: nat

definition CMP_CIAI :: int where "CMP_CIAI = 0"
definition CMP_CIAS :: int where "CMP_CIAS = 1"
definition CMP_CSAI :: int where "CMP_CSAI = 2"

definition patrieSetCaseSensitive :: "int \<Rightarrow> 'arg sort_cf \<Rightarrow> 'arg sort_cf" where
  "patrieSetCaseSensitive sens cf =
     (if sens = CMP_CIAI then
        cf\<lparr>cf_strcomp := (\<lambda>s t. Some (patrieUStrCiAiCmp s t)), cf_diffbit := patrieDiffBitCiAi\<rparr>
      else if sens = CMP_CIAS then
        cf\<lparr>cf_strcomp := (\<lambda>s t. Some (patrieUStrCiAsCmp s t)), cf_diffbit := patrieDiffBitCiAs\<rparr>
      else if sens = CMP_CSAI then
        cf\<lparr>cf_strcomp := (\<lambda>s t. Some (patrieUStrCsAiCmp s t)), cf_diffbit := patrieDiffBitCsAi\<rparr>
      else cf\<lparr>cf_strcomp := patrieUStrCsAsCmp, cf_diffbit := patrieDiffBitCsAs\<rparr>)"

text \<open>Every character is an index point (the default), or every first character of a word.\<close>

definition patrieSetIndexPoints :: "nat \<Rightarrow> cstr \<Rightarrow> 'arg \<Rightarrow> nat list \<times> 'arg" where
  "patrieSetIndexPoints tlen text arg = ([0..<tlen], arg)"

definition KEYSEP_CH :: char where
  "KEYSEP_CH = CHR 0x0A"

fun index_words_from :: "nat \<Rightarrow> cstr \<Rightarrow> bool \<Rightarrow> nat list \<times> bool" where
  "index_words_from i [] prevnl = ([], prevnl)"
| "index_words_from i (c # cs) prevnl =
     (if prevnl then (let (is, p) = index_words_from (Suc i) cs False in (i # is, p))
      else if c = KEYSEP_CH then index_words_from (Suc i) cs True
      else index_words_from (Suc i) cs prevnl)"

definition index_words :: "nat \<Rightarrow> cstr \<Rightarrow> bool \<Rightarrow> nat list \<times> bool" where
  "index_words tlen text arg = index_words_from 0 (take tlen text) arg"

subsection \<open>Run elements\<close>

record RunElement =
  re_c :: nat
  re_s :: nat
  re_lh :: "16 word"
  re_rh :: "16 word"

abbreviation new_elt :: "nat \<Rightarrow> RunElement" where
  "new_elt s \<equiv> \<lparr>re_c = 0, re_s = s, re_lh = 0, re_rh = 0\<rparr>"

definition str_at :: "cstr \<Rightarrow> nat \<Rightarrow> cstr" where
  "str_at buf i = takeWhile (\<lambda>c. c \<noteq> NUL) (drop i buf)"

definition defined :: "'a option \<Rightarrow> 'a res" where
  "defined v = (case v of None \<Rightarrow> Inl Undefined | Some x \<Rightarrow> Inr x)"

lemma defined_simps [simp]: "defined None = Inl Undefined" "defined (Some x) = Inr x"
  by (simp_all add: defined_def)

definition cmpRunElt :: "(cstr \<Rightarrow> cstr \<Rightarrow> int option) \<Rightarrow> cstr \<Rightarrow> RunElement \<Rightarrow> RunElement \<Rightarrow> int res" where
  "cmpRunElt cmp txt a b =
     (if re_s a = re_s b then Inr 0 else defined (cmp (str_at txt (re_s a)) (str_at txt (re_s b))))"

subsection \<open>Quicksort\<close>

text \<open>
  The three loops of the partition.  The first has no bound of its own: at index 0 it would go
  on below the array.
\<close>

fun scan_down :: "('a \<Rightarrow> 'a \<Rightarrow> int res) \<Rightarrow> 'a list \<Rightarrow> 'a \<Rightarrow> nat \<Rightarrow> nat res" where
  "scan_down cmp a pivot 0 = res_bind (cmp (a ! 0) pivot) (\<lambda>v. if 0 < v then Inl Undefined else Inr 0)"
| "scan_down cmp a pivot (Suc j) =
     res_bind (cmp (a ! Suc j) pivot) (\<lambda>v. if 0 < v then scan_down cmp a pivot j else Inr (Suc j))"

fun scan_up :: "('a \<Rightarrow> 'a \<Rightarrow> int res) \<Rightarrow> 'a list \<Rightarrow> 'a \<Rightarrow> nat \<Rightarrow> nat \<Rightarrow> nat res" where
  \<comment> \<open>the first number is \<open>j - i\<close>\<close>
  "scan_up cmp a pivot 0 i = Inr i"
| "scan_up cmp a pivot (Suc d) i =
     res_bind (cmp (a ! i) pivot) (\<lambda>v. if v \<le> 0 then scan_up cmp a pivot d (Suc i) else Inr i)"

lemma scan_down_le: "scan_down cmp a p j = Inr j1 \<Longrightarrow> j1 \<le> j \<and> (\<exists>v\<le>0. cmp (a ! j1) p = Inr v)"
  by (induction j) (auto simp: res_bind_Inr not_less split: if_splits)

lemma scan_up_le: "scan_up cmp a p d i = Inr i1 \<Longrightarrow> i \<le> i1 \<and> i1 \<le> i + d"
  by (induction d arbitrary: i) (fastforce simp: res_bind_Inr split: if_splits)+

lemma res_bind_cong [fundef_cong]:
  "r = r' \<Longrightarrow> (\<And>x. r' = Inr x \<Longrightarrow> k x = k' x) \<Longrightarrow> res_bind r k = res_bind r' k'"
  by (cases r') auto

function partition_elts :: "('a \<Rightarrow> 'a \<Rightarrow> int res) \<Rightarrow> 'a list \<Rightarrow> 'a \<Rightarrow> nat \<Rightarrow> nat \<Rightarrow> ('a list \<times> nat) res" where
  "partition_elts cmp a pivot i j =
     (if i < j then
        if length a \<le> j then Inl Undefined
        else res_bind (scan_down cmp a pivot j) (\<lambda>j1.
             res_bind (scan_up cmp (a[i := a ! j1]) pivot (j1 - i) i) (\<lambda>i1.
               partition_elts cmp (a[i := a ! j1, j1 := a[i := a ! j1] ! i1]) pivot i1 j1))
      else Inr (a, i))"
  by pat_completeness auto
termination
proof (relation "measure (\<lambda>(cmp, a, pivot, i, j). j - i)", goal_cases)
  case (2 cmp a p i j j1 i1)
  from scan_down_le [OF 2(3)] obtain v where j1: "j1 \<le> j" "v \<le> 0" "cmp (a ! j1) p = Inr v" by blast
  show ?case
  proof (cases "j1 - i")
    case 0
    with 2 j1 show ?thesis by simp
  next
    case (Suc d)
    with 2 j1 have "scan_up cmp (a[i := a ! j1]) p d (Suc i) = Inr i1" by simp
    with scan_up_le [OF this] 2 j1 Suc show ?thesis by auto
  qed
qed simp

declare partition_elts.simps [simp del]

lemma partition_elts_bounds:
  "partition_elts cmp a p i j = Inr (b, k) \<Longrightarrow> i \<le> j \<Longrightarrow> i \<le> k \<and> k \<le> j \<and> length b = length a"
proof (induction cmp a p i j rule: partition_elts.induct)
  case (1 cmp a p i j)
  show ?case
  proof (cases "i < j")
    case True
    with "1.prems" obtain j1 i1 where s: "\<not> length a \<le> j" "scan_down cmp a p j = Inr j1" "scan_up cmp (a[i := a ! j1]) p (j1 - i) i = Inr i1"
      "partition_elts cmp (a[i := a ! j1, j1 := a[i := a ! j1] ! i1]) p i1 j1 = Inr (b, k)"
      by (subst (asm) partition_elts.simps) (auto simp: res_bind_Inr split: if_splits)
    note le = scan_down_le [OF s(2)] scan_up_le [OF s(3)]
    show ?thesis
    proof (cases "i1 \<le> j1")
      case True
      with "1.IH" [OF \<open>i < j\<close> s(1-4) True] le show ?thesis by auto
    next
      case False
      with s(4) have "k = i1 \<and> length b = length a" by (subst (asm) partition_elts.simps) auto
      with le False \<open>i < j\<close> show ?thesis by auto
    qed
  next
    case False
    with "1.prems" show ?thesis by (subst (asm) partition_elts.simps) auto
  qed
qed

text \<open>\<open>i - 1\<close> is only computed where \<open>lo < i\<close>.\<close>

function sort_elts :: "('a \<Rightarrow> 'a \<Rightarrow> int res) \<Rightarrow> 'a list \<Rightarrow> nat \<Rightarrow> nat \<Rightarrow> 'a list res" where
  "sort_elts cmp relt lo up =
     (if lo < up then
        if length relt \<le> up then Inl Undefined
        else res_bind (partition_elts cmp relt (relt ! lo) lo up) (\<lambda>(a, i).
             let a1 = a[i := relt ! lo]
             in if i - lo < up - i
                then res_bind (if lo + 1 < i then sort_elts cmp a1 lo (i - 1) else Inr a1) (\<lambda>a2. sort_elts cmp a2 (i + 1) up)
                else res_bind (if i + 1 < up then sort_elts cmp a1 (i + 1) up else Inr a1) (\<lambda>a2. sort_elts cmp a2 lo (i - 1)))
      else Inr relt)"
  by pat_completeness auto
termination
  by (relation "measure (\<lambda>(cmp, relt, lo, up). up - lo)") (auto dest!: partition_elts_bounds)

declare sort_elts.simps [simp del]

definition sortRun :: "('a \<Rightarrow> 'a \<Rightarrow> int res) \<Rightarrow> 'a list \<Rightarrow> 'a list res" where
  \<comment> \<open>for no elements \<open>nelts - 1\<close> is the greatest \<open>size_t\<close>\<close>
  "sortRun cmp run = (if run = [] then Inl Undefined else sort_elts cmp run 0 (length run - 1))"

subsection \<open>Counts and heights\<close>

definition cmp_at :: "(cstr \<Rightarrow> cstr \<Rightarrow> int option) \<Rightarrow> cstr \<Rightarrow> RunElement \<Rightarrow> cstr \<Rightarrow> RunElement \<Rightarrow> int res" where
  "cmp_at cmp t1 x t2 y = defined (cmp (str_at t1 (re_s x)) (str_at t2 (re_s y)))"

definition diff_at :: "(cstr \<Rightarrow> cstr \<Rightarrow> nat option) \<Rightarrow> cstr \<Rightarrow> RunElement \<Rightarrow> cstr \<Rightarrow> RunElement \<Rightarrow> nat res" where
  "diff_at diffbit t1 x t2 y = defined (diffbit (str_at t1 (re_s x)) (str_at t2 (re_s y)))"

text \<open>\<open>MAX\<close> is computed on \<open>long\<close>s and stored in 16 bits.\<close>

definition max_lh :: "nat \<Rightarrow> RunElement \<Rightarrow> RunElement" where
  "max_lh diff e = e\<lparr>re_lh := of_nat (max (unat (re_lh e)) diff)\<rparr>"

definition max_rh :: "nat \<Rightarrow> RunElement \<Rightarrow> RunElement" where
  "max_rh diff e = e\<lparr>re_rh := of_nat (max (unat (re_rh e)) diff)\<rparr>"

definition incr_c :: "RunElement \<Rightarrow> RunElement" where
  "incr_c e = e\<lparr>re_c := Suc (re_c e)\<rparr>"

text \<open>
  The three loops of \<open>generateRun\<close>: the previous run from its \<open>i\<close>-th element on, and the current
  run.  They return what is left of the previous run.
\<close>

fun generate_first :: "'arg sort_cf \<Rightarrow> cstr \<Rightarrow> cstr \<Rightarrow> RunElement list \<Rightarrow> RunElement list \<Rightarrow> (RunElement list \<times> RunElement list) res" where
  "generate_first cf t1 t2 [] r2 = Inr ([], r2)"
| "generate_first cf t1 t2 (x # r1) r2 =
     (case r2 of
        [] \<Rightarrow> Inl Undefined
      | y # ys \<Rightarrow>
          res_bind (cmp_at (cf_strcomp cf) t1 x t2 y) (\<lambda>v.
          if v < 0 then
            res_bind (diff_at (cf_diffbit cf) t1 x t2 y) (\<lambda>diff.
              generate_first cf t1 t2 r1 (max_lh diff (incr_c y) # ys))
          else Inr (x # r1, r2)))"

function generate_second :: "'arg sort_cf \<Rightarrow> cstr \<Rightarrow> cstr \<Rightarrow> RunElement list \<Rightarrow> nat \<Rightarrow> RunElement list
    \<Rightarrow> (RunElement list \<times> nat \<times> RunElement list) res" where
  "generate_second cf t1 t2 r1 j r2 =
     (case r1 of
        [] \<Rightarrow> Inr (r1, j, r2)
      | x # r1' \<Rightarrow>
          if j < length r2 then
            res_bind (cmp_at (cf_strcomp cf) t1 x t2 (r2 ! j)) (\<lambda>v.
            if 0 \<le> v then generate_second cf t1 t2 r1 (Suc j) r2
            else
              res_bind (diff_at (cf_diffbit cf) t1 x t2 (r2 ! j)) (\<lambda>diff.
              let r2a = r2[j := max_lh diff (incr_c (r2 ! j))]
              in if j = 0 then Inl Undefined
                 else res_bind (diff_at (cf_diffbit cf) t2 (r2a ! (j - 1)) t1 x) (\<lambda>diff1.
                      generate_second cf t1 t2 r1' j (r2a[j - 1 := max_rh diff1 (r2a ! (j - 1))]))))
          else Inr (r1, j, r2))"
  by pat_completeness auto
termination
  by (relation "measure (\<lambda>(cf, t1, t2, r1, j, r2). length r1 + (length r2 - j))") (auto simp: Let_def)

declare generate_second.simps [simp del]

fun generate_third :: "'arg sort_cf \<Rightarrow> cstr \<Rightarrow> cstr \<Rightarrow> RunElement list \<Rightarrow> nat \<Rightarrow> RunElement list \<Rightarrow> RunElement list res" where
  "generate_third cf t1 t2 [] j r2 = Inr r2"
| "generate_third cf t1 t2 (x # r1) j r2 =
     (if length r2 \<le> j then Inl Undefined
      else res_bind (cmp_at (cf_strcomp cf) t1 x t2 (r2 ! j)) (\<lambda>v.
           if 0 < v then
             res_bind (diff_at (cf_diffbit cf) t2 (r2 ! j) t1 x) (\<lambda>diff.
               generate_third cf t1 t2 r1 j (r2[j := max_rh diff (r2 ! j)]))
           else generate_third cf t1 t2 r1 j r2))"

definition generateRun :: "'arg sort_cf \<Rightarrow> RunElement list \<Rightarrow> cstr \<Rightarrow> RunElement list \<Rightarrow> cstr \<Rightarrow> RunElement list res" where
  "generateRun cf r1 t1 r2 t2 =
     res_bind (generate_first cf t1 t2 r1 r2) (\<lambda>(r1a, r2a).
     res_bind (generate_second cf t1 t2 r1a 0 r2a) (\<lambda>(r1b, j, r2b).
       generate_third cf t1 t2 r1b (if j = length r2b then j - 1 else j) r2b))"

subsection \<open>The runs\<close>

record Run =
  rn_elt :: "RunElement list"    \<comment> \<open>the current buffer, \<open>nelts\<close> elements\<close>
  rn_curr :: nat
  rn_offset :: nat
  rn_nitems :: nat
  rn_outposi :: int              \<comment> \<open>\<open>- 1\<close> at the end of the run\<close>
  rn_outsofar :: nat

fun set_heights :: "'arg sort_cf \<Rightarrow> cstr \<Rightarrow> RunElement list \<Rightarrow> RunElement list res" where
  \<comment> \<open>the loop over neighbours after the sort\<close>
  "set_heights cf txt (x # y # es) =
     res_bind (diff_at (cf_diffbit cf) txt x txt y) (\<lambda>diff.
     let x1 = x\<lparr>re_c := 0, re_rh := of_nat diff\<rparr>
     in res_bind (set_heights cf txt (y\<lparr>re_lh := re_rh x1\<rparr> # es)) (\<lambda>es1. Inr (x1 # es1)))"
| "set_heights cf txt es = Inr es"

definition sizeof_RunElement :: nat where
  "sizeof_RunElement = 12"

definition text_buffer_size :: "'arg sort_cf \<Rightarrow> nat" where
  \<comment> \<open>\<open>size_t\<close> arithmetic\<close>
  "text_buffer_size cf =
     unat (of_nat (cf_sortMaxMem cf) - 2 * (of_nat (cf_sortPadLen cf) + 1) :: 32 word) div (2 * (1 + sizeof_RunElement))"

definition buffers_fit :: "'arg sort_cf \<Rightarrow> bool" where
  \<comment> \<open>the two text buffers and the two run buffers lie in the block\<close>
  "buffers_fit cf =
     (2 * (text_buffer_size cf + cf_sortPadLen cf + 1) + 2 * text_buffer_size cf * sizeof_RunElement \<le> cf_sortMaxMem cf)"

definition read_text :: "'arg sort_cf \<Rightarrow> nat \<Rightarrow> cstr" where
  \<comment> \<open>\<open>fread(buf, 1, textsz + cf->sortPadLen, cf->textFP)\<close> at an offset\<close>
  "read_text cf off = take (text_buffer_size cf + cf_sortPadLen cf) (drop off (cf_text cf))"

fun merge_earlier :: "'arg sort_cf \<Rightarrow> nat \<Rightarrow> Run list \<Rightarrow> RunElement list \<Rightarrow> cstr \<Rightarrow> RunElement list \<Rightarrow> RunElement list res" where
  \<comment> \<open>the loop over the earlier runs, from the \<open>j\<close>-th on\<close>
  "merge_earlier cf j [] runFP currText currRun = Inr currRun"
| "merge_earlier cf j (r # rs) runFP currText currRun =
     (let prevRun = take (rn_nitems r) (drop (rn_offset r) runFP); prevText = read_text cf (j * text_buffer_size cf)
      in if prevRun = [] \<or> prevText = [] then Inl Rejected
         else res_bind (generateRun cf prevRun prevText currRun currText) (\<lambda>currRun1.
              merge_earlier cf (Suc j) rs runFP currText currRun1))"

text \<open>
  One chunk of text.  A function that marks more points than the chunk has characters, or a point
  outside it, makes the program work on what lies in the other buffers, which counts as undefined.
\<close>

definition sort_chunk :: "'arg sort_cf \<Rightarrow> cstr \<Rightarrow> 'arg \<Rightarrow> Run list \<Rightarrow> RunElement list
    \<Rightarrow> ('arg \<times> Run list \<times> RunElement list) res" where
  "sort_chunk cf currText arg run runFP =
     (let (points, arg1) = cf_setIndexPoints cf (min (length currText) (text_buffer_size cf)) currText arg in
      if text_buffer_size cf < length points \<or> \<not> list_all (\<lambda>s. s < length currText) points then Inl Undefined
      else
        res_bind (sortRun (cmpRunElt (cf_strcomp cf) currText) (map new_elt points)) (\<lambda>sorted.
        res_bind (set_heights cf currText sorted) (\<lambda>currRun.
        res_bind (merge_earlier cf 0 run runFP currText currRun) (\<lambda>currRun1.
          Inr (arg1,
               run @ [\<lparr>rn_elt = [], rn_curr = 0, rn_offset = length runFP, rn_nitems = length points, rn_outposi = 0, rn_outsofar = 0\<rparr>],
               runFP @ currRun1)))))"

fun csort_loop :: "nat \<Rightarrow> 'arg sort_cf \<Rightarrow> nat \<Rightarrow> 'arg \<Rightarrow> Run list \<Rightarrow> RunElement list \<Rightarrow> (Run list \<times> RunElement list) res" where
  "csort_loop 0 cf pos arg run runFP = Inl OutOfFuel"
| "csort_loop (Suc fuel) cf pos arg run runFP =
     (let currText = read_text cf pos; nbytes = length currText in
      if nbytes = 0 then Inr (run, runFP)
      else res_bind (sort_chunk cf currText arg run runFP) (\<lambda>(arg1, run1, runFP1).
           csort_loop fuel cf (pos + nbytes - (if text_buffer_size cf < nbytes then nbytes - text_buffer_size cf else 0))
             arg1 run1 runFP1))"

definition csort :: "'arg sort_cf \<Rightarrow> (Run list \<times> RunElement list) res" where
  "csort cf = (if buffers_fit cf then csort_loop (Suc (length (cf_text cf))) cf 0 (cf_indexArg cf) [] [] else Inl Undefined)"

subsection \<open>Merging\<close>

definition initRun :: "nat \<Rightarrow> RunElement list \<Rightarrow> Run \<Rightarrow> Run res" where
  "initRun nelts runFP r =
     (let elt = take nelts (drop (rn_offset r) runFP)
      in if elt = [] then Inl Rejected else Inr (r\<lparr>rn_elt := elt, rn_curr := 0, rn_outsofar := 0, rn_outposi := 0\<rparr>))"

fun map_res :: "('a \<Rightarrow> 'b res) \<Rightarrow> 'a list \<Rightarrow> 'b list res" where
  "map_res f [] = Inr []"
| "map_res f (x # xs) = res_bind (f x) (\<lambda>y. res_bind (map_res f xs) (\<lambda>ys. Inr (y # ys)))"

definition initRuns :: "nat \<Rightarrow> RunElement list \<Rightarrow> Run list \<Rightarrow> Run list res" where
  \<comment> \<open>without runs this divides by zero\<close>
  "initRuns memsz runFP run =
     (if run = [] then Inl Undefined else map_res (initRun (memsz div (length run * sizeof_RunElement)) runFP) run)"

definition moreFromRun :: "RunElement list \<Rightarrow> Run \<Rightarrow> Run" where
  "moreFromRun runFP r =
     (let elt = take (length (rn_elt r)) (drop (rn_offset r + nat (rn_outposi r)) runFP)
      in r\<lparr>rn_elt := elt, rn_outposi := (if elt = [] then - 1 else rn_outposi r), rn_curr := 0\<rparr>)"

fun select_run :: "Run list \<Rightarrow> nat \<Rightarrow> nat option res" where
  \<comment> \<open>from run \<open>i - 1\<close> downwards\<close>
  "select_run run 0 = Inr None"
| "select_run run (Suc i) =
     (if rn_outposi (run ! i) = - 1 then select_run run i
      else if length (rn_elt (run ! i)) \<le> rn_curr (run ! i) then Inl Undefined
      else if re_c (rn_elt (run ! i) ! rn_curr (run ! i)) = rn_outsofar (run ! i) then Inr (Some i)
      else select_run run i)"

definition count_out :: "nat \<Rightarrow> Run list \<Rightarrow> Run list" where
  \<comment> \<open>zero the counter of run \<open>i\<close> and increment those of the later runs\<close>
  "count_out i run = map (\<lambda>(j, r). if j = i then r\<lparr>rn_outsofar := 0\<rparr> else if i < j then r\<lparr>rn_outsofar := Suc (rn_outsofar r)\<rparr> else r)
     (enumerate 0 run)"

definition next_item :: "RunElement list \<Rightarrow> Run \<Rightarrow> Run" where
  "next_item runFP r =
     (let r1 = r\<lparr>rn_outposi := rn_outposi r + 1\<rparr> in
      if int (rn_nitems r1) \<le> rn_outposi r1 then r1\<lparr>rn_outposi := - 1\<rparr>
      else let r2 = r1\<lparr>rn_curr := Suc (rn_curr r1)\<rparr>
           in if rn_curr r2 = length (rn_elt r2) then moreFromRun runFP r2 else r2)"

text \<open>\<open>lasth\<close> is \<open>None\<close> before the first item (\<open>flag\<close>).\<close>

fun cmerge_loop :: "nat \<Rightarrow> nat \<Rightarrow> RunElement list \<Rightarrow> Run list \<Rightarrow> nat option \<Rightarrow> int list \<Rightarrow> int list res" where
  "cmerge_loop 0 tbs runFP run lasth infix_fp = Inl OutOfFuel"
| "cmerge_loop (Suc fuel) tbs runFP run lasth infix_fp =
     res_bind (select_run run (length run)) (\<lambda>sel.
     case sel of
       None \<Rightarrow> Inr infix_fp
     | Some i \<Rightarrow>
         let run1 = count_out i run;
             e = rn_elt (run1 ! i) ! rn_curr (run1 ! i);
             heights = (case lasth of None \<Rightarrow> [] | Some lh \<Rightarrow> [int (max lh (unat (re_lh e)))])
         in cmerge_loop fuel tbs runFP (run1[i := next_item runFP (run1 ! i)]) (Some (unat (re_rh e)))
              (infix_fp @ heights @ [- (int (i * tbs + re_s e) + 1)]))"

definition cmerge :: "nat \<Rightarrow> nat \<Rightarrow> Run list \<Rightarrow> RunElement list \<Rightarrow> int list res" where
  "cmerge memsz tbs run runFP =
     res_bind (initRuns memsz runFP run) (\<lambda>run1.
     res_bind (cmerge_loop (Suc (\<Sum>r\<leftarrow>run1. max 1 (rn_nitems r))) tbs runFP run1 None [0]) (\<lambda>infix_fp.
       Inr (infix_fp @ [0])))"

definition patrieInfixBuild :: "'arg sort_cf \<Rightarrow> int list res" where
  "patrieInfixBuild cf =
     res_bind (csort cf) (\<lambda>(run, runFP). cmerge (cf_sortMaxMem cf) (text_buffer_size cf) run runFP)"

subsection \<open>The quicksort sorts\<close>

text \<open>The comparison orders the elements of a set by some rank.\<close>

definition ranks :: "('a \<Rightarrow> 'a \<Rightarrow> int res) \<Rightarrow> ('a \<Rightarrow> 'k::linorder) \<Rightarrow> 'a set \<Rightarrow> bool" where
  "ranks cmp rk S = (\<forall>x\<in>S. \<forall>y\<in>S. \<exists>v. cmp x y = Inr v \<and> (0 < v \<longleftrightarrow> rk y < rk x) \<and> (v < 0 \<longleftrightarrow> rk x < rk y))"

lemma ranksE:
  assumes "ranks cmp rk S" "x \<in> S" "y \<in> S"
  obtains v where "cmp x y = Inr v" "0 < v \<longleftrightarrow> rk y < rk x" "v < 0 \<longleftrightarrow> rk x < rk y"
  using assms unfolding ranks_def by blast

lemma scan_down_rank:
  assumes "ranks cmp rk S" "p \<in> S" "\<forall>k\<le>j. a ! k \<in> S" "m \<le> j" "rk (a ! m) \<le> rk p"
  shows "\<exists>j1. scan_down cmp a p j = Inr j1 \<and> m \<le> j1 \<and> j1 \<le> j \<and> rk (a ! j1) \<le> rk p \<and> (\<forall>k. j1 < k \<longrightarrow> k \<le> j \<longrightarrow> rk p < rk (a ! k))"
  using assms(3-)
proof (induction j)
  case 0
  obtain v where "cmp (a ! 0) p = Inr v" "0 < v \<longleftrightarrow> rk p < rk (a ! 0)"
    using ranksE [OF assms(1), of "a ! 0" p] 0 assms(2) by blast
  with 0 show ?case by auto
next
  case (Suc j)
  obtain v where v: "cmp (a ! Suc j) p = Inr v" "0 < v \<longleftrightarrow> rk p < rk (a ! Suc j)"
    using ranksE [OF assms(1), of "a ! Suc j" p] Suc.prems assms(2) by blast
  show ?case
  proof (cases "0 < v")
    case True
    then have "m \<noteq> Suc j" using v Suc.prems by auto
    with Suc.IH Suc.prems obtain j1 where "scan_down cmp a p j = Inr j1" "m \<le> j1" "j1 \<le> j" "rk (a ! j1) \<le> rk p" "\<forall>k. j1 < k \<longrightarrow> k \<le> j \<longrightarrow> rk p < rk (a ! k)"
      by (metis le_SucE le_Suc_eq)
    with v True show ?thesis by (auto simp: le_Suc_eq)
  qed (use v Suc.prems in auto)
qed

lemma scan_up_rank:
  assumes "ranks cmp rk S" "p \<in> S" "\<forall>k<i + d. a ! k \<in> S"
  shows "\<exists>i1. scan_up cmp a p d i = Inr i1 \<and> i \<le> i1 \<and> i1 \<le> i + d \<and> (\<forall>k. i \<le> k \<longrightarrow> k < i1 \<longrightarrow> rk (a ! k) \<le> rk p) \<and>
    (i1 < i + d \<longrightarrow> rk p < rk (a ! i1)) \<and> (0 < d \<longrightarrow> rk (a ! i) \<le> rk p \<longrightarrow> i < i1)"
  using assms(3)
proof (induction d arbitrary: i)
  case (Suc d)
  obtain v where v: "cmp (a ! i) p = Inr v" "0 < v \<longleftrightarrow> rk p < rk (a ! i)"
    using ranksE [OF assms(1), of "a ! i" p] Suc.prems assms(2) by auto
  show ?case
  proof (cases "v \<le> 0")
    case True
    with Suc.IH [of "Suc i"] Suc.prems obtain i1 where i1: "scan_up cmp a p d (Suc i) = Inr i1" "Suc i \<le> i1" "i1 \<le> Suc i + d"
      "\<forall>k. Suc i \<le> k \<longrightarrow> k < i1 \<longrightarrow> rk (a ! k) \<le> rk p" "i1 < Suc i + d \<longrightarrow> rk p < rk (a ! i1)" by auto
    have "rk (a ! k) \<le> rk p" if "i \<le> k" "k < i1" for k
      using that i1(4) v True by (cases "k = i") auto
    with i1 v True show ?thesis by auto
  qed (use v in auto)
qed simp

text \<open>The invariant of the partition: \<open>i\<close> is the place left free for the pivot.\<close>

definition part_inv :: "('a \<Rightarrow> 'k::linorder) \<Rightarrow> 'a \<Rightarrow> nat \<Rightarrow> nat \<Rightarrow> 'a list \<Rightarrow> nat \<Rightarrow> nat \<Rightarrow> bool" where
  "part_inv rk p lo up a i j = (lo \<le> i \<and> i \<le> up \<and> j \<le> up \<and> up < length a \<and>
     (\<forall>k. lo \<le> k \<longrightarrow> k < i \<longrightarrow> rk (a ! k) \<le> rk p) \<and>
     (\<forall>k. j < k \<longrightarrow> k \<le> up \<longrightarrow> k \<noteq> i \<longrightarrow> rk p \<le> rk (a ! k)) \<and> (rk (a ! i) \<le> rk p \<or> lo < i))"

definition same_but :: "nat \<Rightarrow> nat \<Rightarrow> 'a list \<Rightarrow> 'a list \<Rightarrow> bool" where
  "same_but lo up a b = (mset b = mset a \<and> (\<forall>k. k < lo \<or> up < k \<longrightarrow> b ! k = a ! k))"

lemma same_butD:
  assumes "same_but lo up a b" "up < length a"
  shows "length b = length a" "set b = set a" "mset (take (Suc up - lo) (drop lo b)) = mset (take (Suc up - lo) (drop lo a))"
proof -
  show l: "length b = length a" "set b = set a" using assms(1) by (auto simp: same_but_def dest: mset_eq_length mset_eq_setD)
  show "mset (take (Suc up - lo) (drop lo b)) = mset (take (Suc up - lo) (drop lo a))"
  proof (cases "lo \<le> Suc up")
    case True
    have split: "mset c = mset (take lo c) + mset (take (Suc up - lo) (drop lo c)) + mset (drop (Suc up) c)" for c :: "'a list"
      using append_take_drop_id [of lo c] append_take_drop_id [of "Suc up - lo" "drop lo c"] True
      by (metis (no_types, lifting) add.commute add.assoc drop_drop le_add_diff_inverse2 mset_append)
    have "take lo b = take lo a" "drop (Suc up) b = drop (Suc up) a"
      using assms l by (auto simp: same_but_def list_eq_iff_nth_eq)
    with split [of a] split [of b] assms(1) show ?thesis by (simp add: same_but_def)
  qed simp
qed

lemma mset_move: "i < length a \<Longrightarrow> j < length a \<Longrightarrow> mset (a[i := a ! j, j := p]) = mset (a[i := p])"
proof -
  assume l: "i < length a" "j < length a"
  have "(a[i := p])[i := a[i := p] ! j, j := a[i := p] ! i] = a[i := a ! j, j := p]"
    using l by (cases "i = j") (auto simp: list_eq_iff_nth_eq nth_list_update)
  moreover have "mset ((a[i := p])[i := a[i := p] ! j, j := a[i := p] ! i]) = mset (a[i := p])"
    using mset_swap [of j "a[i := p]" i] l by simp
  ultimately show ?thesis by metis
qed

lemma set_update_in: "i < length a \<Longrightarrow> set (a[j := a ! i]) \<subseteq> set a"
  using set_update_subset_insert [of a j "a ! i"] by auto

lemma partition_step:
  assumes "ranks cmp rk S" "p \<in> S" "set a \<subseteq> S" "part_inv rk p lo up a i j" "i < j"
  obtains j1 i1 where "scan_down cmp a p j = Inr j1" "scan_up cmp (a[i := a ! j1]) p (j1 - i) i = Inr i1"
    "part_inv rk p lo up (a[i := a ! j1, j1 := a[i := a ! j1] ! i1]) i1 j1"
    "same_but lo up (a[i := p]) (a[i := a ! j1, j1 := a[i := a ! j1] ! i1, i1 := p])"
    "set (a[i := a ! j1, j1 := a[i := a ! j1] ! i1]) \<subseteq> S"
proof -
  note inv = assms(4) [unfolded part_inv_def]
  let ?m = "if rk (a ! i) \<le> rk p then i else i - 1"
  have in_S: "\<forall>k\<le>j. a ! k \<in> S" using inv assms(3) nth_mem [of _ a] by force
  have m: "?m \<le> j" "rk (a ! ?m) \<le> rk p" "lo \<le> ?m" using inv assms(5) by auto
  from scan_down_rank [OF assms(1,2) in_S m(1,2)] obtain j1 where j1: "scan_down cmp a p j = Inr j1" "?m \<le> j1" "j1 \<le> j"
    "rk (a ! j1) \<le> rk p" "\<forall>k. j1 < k \<longrightarrow> k \<le> j \<longrightarrow> rk p < rk (a ! k)" by blast
  let ?a1 = "a[i := a ! j1]"
  have l: "i < length a" "j1 < length a" "up < length a" using inv j1 by auto
  then have a1: "set ?a1 \<subseteq> S" using set_update_in [of j1 a i] assms(3) by blast
  then have "\<forall>k<i + (j1 - i). ?a1 ! k \<in> S" using l by (auto intro!: subsetD [OF a1] nth_mem)
  from scan_up_rank [OF assms(1,2) this] obtain i1 where i1: "scan_up cmp ?a1 p (j1 - i) i = Inr i1" "i \<le> i1" "i1 \<le> i + (j1 - i)"
    "\<forall>k. i \<le> k \<longrightarrow> k < i1 \<longrightarrow> rk (?a1 ! k) \<le> rk p" "i1 < i + (j1 - i) \<longrightarrow> rk p < rk (?a1 ! i1)" "0 < j1 - i \<longrightarrow> rk (?a1 ! i) \<le> rk p \<longrightarrow> i < i1"
    by (elim exE conjE) (rule that)
  let ?a2 = "?a1[j1 := ?a1 ! i1]"
  have i1l: "i1 < length a" "i1 \<le> up" using i1(2,3) l j1 inv assms(5) by auto
  then have "set ?a2 \<subseteq> S" using set_update_in [of i1 ?a1 j1] a1 by auto
  moreover have "part_inv rk p lo up ?a2 i1 j1"
    unfolding part_inv_def
  proof (intro conjI allI impI)
    fix k assume k: "lo \<le> k" "k < i1"
    show "rk (?a2 ! k) \<le> rk p"
    proof (cases "k < i")
      case True
      with inv k have "rk (a ! k) \<le> rk p" by auto
      moreover have "?a2 ! k = a ! k \<or> k = j1 \<and> i1 = i \<and> ?a2 ! k = a ! j1"
        using True l i1 k by (cases "k = j1") (auto simp: nth_list_update)
      ultimately show ?thesis using j1(4) by auto
    next
      case False
      then have "k \<noteq> j1" using k i1 by (cases "i \<le> j1") auto
      with i1(4) False k show ?thesis by auto
    qed
  next
    fix k assume k: "j1 < k" "k \<le> up" "k \<noteq> i1"
    have "k \<noteq> i" using k i1 by (cases "i < j1") auto
    then show "rk p \<le> rk (?a2 ! k)" using k j1(5) inv by (cases "k \<le> j") (auto simp: less_imp_le)
  next
    show "rk (?a2 ! i1) \<le> rk p \<or> lo < i1"
    proof (cases "j1 < i")
      case True
      then have "lo < i" using j1(2) m(3) by (auto split: if_splits)
      with i1 show ?thesis by auto
    next
      case False
      then show ?thesis using i1 l j1 inv by (cases "i = j1") (auto simp: nth_list_update)
    qed
  qed (use inv i1 i1l l j1 in auto)
  moreover have "same_but lo up (a[i := p]) (?a2[i1 := p])"
  proof -
    have "mset (?a1[j1 := ?a1 ! i1, i1 := p]) = mset (?a1[j1 := p])"
      using mset_move [of j1 ?a1 i1 p] l i1l by simp
    also have "\<dots> = mset (a[i := p])" using mset_move [of i a j1 p] l by simp
    finally show ?thesis using inv i1 i1l m(3) j1 by (auto simp: same_but_def nth_list_update split: if_splits)
  qed
  ultimately show ?thesis using that j1(1) i1(1) by blast
qed

lemma same_but_trans: "same_but lo up a b \<Longrightarrow> same_but lo up b c \<Longrightarrow> same_but lo up a c"
  by (auto simp: same_but_def)

lemma partition_rank:
  "ranks cmp rk S \<Longrightarrow> p \<in> S \<Longrightarrow> set a \<subseteq> S \<Longrightarrow> part_inv rk p lo up a i j \<Longrightarrow>
   \<exists>b k. partition_elts cmp a p i j = Inr (b, k) \<and> same_but lo up (a[i := p]) (b[k := p]) \<and> lo \<le> k \<and> k \<le> up \<and> k < length b \<and>
     (\<forall>m. lo \<le> m \<longrightarrow> m < k \<longrightarrow> rk (b ! m) \<le> rk p) \<and> (\<forall>m. k < m \<longrightarrow> m \<le> up \<longrightarrow> rk p \<le> rk (b ! m))"
proof (induction cmp a p i j rule: partition_elts.induct)
  case (1 cmp a p i j)
  note prems = "1.prems"
  show ?case
  proof (cases "i < j")
    case True
    from partition_step [OF prems True] obtain j1 i1 where s: "scan_down cmp a p j = Inr j1" "scan_up cmp (a[i := a ! j1]) p (j1 - i) i = Inr i1"
      "part_inv rk p lo up (a[i := a ! j1, j1 := a[i := a ! j1] ! i1]) i1 j1"
      "same_but lo up (a[i := p]) (a[i := a ! j1, j1 := a[i := a ! j1] ! i1, i1 := p])"
      "set (a[i := a ! j1, j1 := a[i := a ! j1] ! i1]) \<subseteq> S" .
    have n: "\<not> length a \<le> j" using prems(4) by (auto simp: part_inv_def)
    have e: "partition_elts cmp a p i j = partition_elts cmp (a[i := a ! j1, j1 := a[i := a ! j1] ! i1]) p i1 j1"
      by (subst partition_elts.simps) (simp add: True n s(1,2))
    from "1.IH" [OF True n s(1,2) prems(1,2) s(5,3)] same_but_trans [OF s(4)] show ?thesis unfolding e by blast
  next
    case False
    then show ?thesis using prems
      by (subst partition_elts.simps) (auto simp: part_inv_def same_but_def)
  qed
qed

text \<open>A sorted part of an array.\<close>

definition sorted_part :: "('a \<Rightarrow> 'k::linorder) \<Rightarrow> 'a list \<Rightarrow> nat \<Rightarrow> nat \<Rightarrow> bool" where
  "sorted_part rk a lo up = (\<forall>i j. lo \<le> i \<longrightarrow> i < j \<longrightarrow> j \<le> up \<longrightarrow> rk (a ! i) \<le> rk (a ! j))"

lemma same_but_refl [simp]: "same_but lo up a a"
  by (simp add: same_but_def)

lemma same_but_mono: "same_but lo up a b \<Longrightarrow> lo' \<le> lo \<Longrightarrow> up \<le> up' \<Longrightarrow> same_but lo' up' a b"
  by (auto simp: same_but_def)

lemma same_but_range:
  assumes "same_but lo up a b" "up < length a" "lo \<le> m" "m \<le> up"
  obtains n where "lo \<le> n" "n \<le> up" "b ! m = a ! n"
proof -
  note s = same_butD [OF assms(1,2)]
  have "b ! m = take (Suc up - lo) (drop lo b) ! (m - lo)" "m - lo < length (take (Suc up - lo) (drop lo b))"
    using assms s(1) by auto
  then have "b ! m \<in> set (take (Suc up - lo) (drop lo b))" by (metis nth_mem)
  then have "b ! m \<in> set (take (Suc up - lo) (drop lo a))" using s(3) by (metis mset_eq_setD)
  then obtain i where "i < Suc up - lo" "lo + i < length a" "b ! m = a ! (lo + i)"
    by (auto simp: in_set_conv_nth)
  then show ?thesis using that [of "lo + i"] by auto
qed

text \<open>A pivot in its place, a sorted part to its left and one to its right.\<close>

definition pivot_at :: "('a \<Rightarrow> 'k::linorder) \<Rightarrow> 'a list \<Rightarrow> nat \<Rightarrow> nat \<Rightarrow> nat \<Rightarrow> bool" where
  "pivot_at rk a lo k up = (lo \<le> k \<and> k \<le> up \<and> up < length a \<and>
     (\<forall>m. lo \<le> m \<longrightarrow> m < k \<longrightarrow> rk (a ! m) \<le> rk (a ! k)) \<and> (\<forall>m. k < m \<longrightarrow> m \<le> up \<longrightarrow> rk (a ! k) \<le> rk (a ! m)))"

lemma pivot_at_left:
  assumes "pivot_at rk a lo k up" "same_but lo (k - 1) a b" "lo < k"
  shows "pivot_at rk b lo k up" "same_but lo up a b"
proof -
  show "same_but lo up a b" using assms by (intro same_but_mono [OF assms(2)]) (auto simp: pivot_at_def)
  have e: "b ! m = a ! m" if "k \<le> m" for m using that assms(2,3) by (auto simp: same_but_def)
  have l: "length b = length a" using assms(2) by (auto simp: same_but_def dest: mset_eq_length)
  have "rk (b ! m) \<le> rk (b ! k)" if m: "lo \<le> m" "m < k" for m
  proof -
    have "k - 1 < length a" "m \<le> k - 1" using assms(1) m by (auto simp: pivot_at_def)
    from same_but_range [OF assms(2) this(1) m(1) this(2)] obtain n where "lo \<le> n" "n \<le> k - 1" "b ! m = a ! n" .
    with assms(1,3) e [of k] show ?thesis by (auto simp: pivot_at_def)
  qed
  with assms(1) e l show "pivot_at rk b lo k up" by (auto simp: pivot_at_def)
qed

lemma pivot_at_right:
  assumes "pivot_at rk a lo k up" "same_but (k + 1) up a b"
  shows "pivot_at rk b lo k up" "same_but lo up a b"
proof -
  show "same_but lo up a b" using assms by (intro same_but_mono [OF assms(2)]) (auto simp: pivot_at_def)
  have e: "b ! m = a ! m" if "m \<le> k" for m using that assms(2) by (auto simp: same_but_def)
  have l: "length b = length a" using assms(2) by (auto simp: same_but_def dest: mset_eq_length)
  have "rk (b ! k) \<le> rk (b ! m)" if m: "k < m" "m \<le> up" for m
  proof -
    have "up < length a" "k + 1 \<le> m" using assms(1) m by (auto simp: pivot_at_def)
    from same_but_range [OF assms(2) this m(2)] obtain n where "k + 1 \<le> n" "n \<le> up" "b ! m = a ! n" .
    with assms(1) e [of k] show ?thesis by (auto simp: pivot_at_def)
  qed
  with assms(1) e l show "pivot_at rk b lo k up" by (auto simp: pivot_at_def)
qed

lemma pivot_at_sorted:
  assumes "pivot_at rk a lo k up" "lo < k \<longrightarrow> sorted_part rk a lo (k - 1)" "k < up \<longrightarrow> sorted_part rk a (k + 1) up"
  shows "sorted_part rk a lo up"
  unfolding sorted_part_def
proof (intro allI impI)
  fix i j assume ij: "lo \<le> i" "i < j" "j \<le> up"
  have left: "rk (a ! m) \<le> rk (a ! k)" if "lo \<le> m" "m \<le> k" for m using assms(1) that by (cases "m = k") (auto simp: pivot_at_def)
  have right: "rk (a ! k) \<le> rk (a ! m)" if "k \<le> m" "m \<le> up" for m using assms(1) that by (cases "m = k") (auto simp: pivot_at_def)
  consider "j < k" | "k < i" | "i \<le> k" "k \<le> j" using ij by linarith
  then show "rk (a ! i) \<le> rk (a ! j)"
  proof cases
    case 3
    with left [of i] right [of j] ij show ?thesis by auto
  qed (use assms ij in \<open>auto simp: sorted_part_def\<close>)
qed

lemma sorted_part_short: "up \<le> lo \<Longrightarrow> sorted_part rk a lo up"
  by (auto simp: sorted_part_def)

lemma sorted_part_same: "sorted_part rk a lo up \<Longrightarrow> (\<forall>k. lo \<le> k \<longrightarrow> k \<le> up \<longrightarrow> b ! k = a ! k) \<Longrightarrow> sorted_part rk b lo up"
  by (auto simp: sorted_part_def)

text \<open>Both orders of the two recursive calls.\<close>

lemma sort_left_right:
  assumes "pivot_at rk a lo k up" "lo < k \<longrightarrow> same_but lo (k - 1) a b \<and> sorted_part rk b lo (k - 1)" "\<not> lo < k \<longrightarrow> b = a"
    and "same_but (k + 1) up b c \<and> sorted_part rk c (k + 1) up"
  shows "same_but lo up a c \<and> sorted_part rk c lo up"
proof -
  have b: "pivot_at rk b lo k up \<and> same_but lo up a b" using assms(1-3) pivot_at_left by (cases "lo < k") auto
  with assms(4) pivot_at_right have c: "pivot_at rk c lo k up \<and> same_but lo up b c" by blast
  have "lo < k \<longrightarrow> sorted_part rk c lo (k - 1)"
  proof
    assume "lo < k"
    with assms(2) have "sorted_part rk b lo (k - 1)" by blast
    then show "sorted_part rk c lo (k - 1)" by (rule sorted_part_same) (use assms(4) \<open>lo < k\<close> in \<open>auto simp: same_but_def\<close>)
  qed
  with b c assms(4) pivot_at_sorted same_but_trans show ?thesis by blast
qed

lemma sort_right_left:
  assumes "pivot_at rk a lo k up" "same_but (k + 1) up a b \<and> sorted_part rk b (k + 1) up"
    and "same_but lo (k - 1) b c \<and> sorted_part rk c lo (k - 1)" "lo < k"
  shows "same_but lo up a c \<and> sorted_part rk c lo up"
proof -
  have b: "pivot_at rk b lo k up \<and> same_but lo up a b" using assms(1,2) pivot_at_right by blast
  with assms(3,4) pivot_at_left have c: "pivot_at rk c lo k up \<and> same_but lo up b c" by blast
  have "sorted_part rk c (k + 1) up"
    by (rule sorted_part_same) (use assms(2,3) in \<open>auto simp: same_but_def\<close>)
  with b c assms(3) pivot_at_sorted same_but_trans show ?thesis by blast
qed

lemma sort_elts_rank:
  assumes "ranks cmp rk S"
  shows "set a \<subseteq> S \<Longrightarrow> up < length a \<Longrightarrow>
    \<exists>b. sort_elts cmp a lo up = Inr b \<and> same_but lo up a b \<and> sorted_part rk b lo up"
proof (induction "up - lo" arbitrary: a lo up rule: less_induct)
  case less
  note IH = less.hyps
  show ?case
  proof (cases "lo < up")
    case False
    then show ?thesis by (subst sort_elts.simps) (simp add: sorted_part_short)
  next
    case True
    let ?p = "a ! lo"
    have p: "?p \<in> S" using less.prems True by auto
    have "part_inv rk ?p lo up a lo up" using less.prems True by (simp add: part_inv_def)
    from partition_rank [OF assms p less.prems(1) this] obtain b k where b: "partition_elts cmp a ?p lo up = Inr (b, k)"
      "same_but lo up a (b[k := ?p])" "lo \<le> k" "k \<le> up" "k < length b"
      "\<forall>m. lo \<le> m \<longrightarrow> m < k \<longrightarrow> rk (b ! m) \<le> rk ?p" "\<forall>m. k < m \<longrightarrow> m \<le> up \<longrightarrow> rk ?p \<le> rk (b ! m)"
      unfolding list_update_id by (elim exE conjE) (rule that)
    let ?a1 = "b[k := ?p]"
    have a1: "length ?a1 = length a" "set ?a1 = set a" using same_butD [OF b(2) less.prems(2)] by auto
    then have piv: "pivot_at rk ?a1 lo k up" using b less.prems(2) by (auto simp: pivot_at_def)
    have sort: "\<exists>c'. sort_elts cmp c l u = Inr c' \<and> same_but l u c c' \<and> sorted_part rk c' l u \<and> length c' = length a \<and> set c' = set a"
      if "u - l < up - lo" "length c = length a" "set c = set a" "u \<le> up" for c l u
    proof -
      have c: "set c \<subseteq> S" "u < length c" using that less.prems by auto
      from IH [OF that(1) c] obtain c' where c': "sort_elts cmp c l u = Inr c'" "same_but l u c c'" "sorted_part rk c' l u" by blast
      with same_butD [OF c'(2) c(2)] that show ?thesis by auto
    qed
    show ?thesis
    proof (cases "k - lo < up - k")
      case small: True
      have "\<exists>a2. (if lo + 1 < k then sort_elts cmp ?a1 lo (k - 1) else Inr ?a1) = Inr a2 \<and> length a2 = length a \<and> set a2 = set a \<and>
          (lo < k \<longrightarrow> same_but lo (k - 1) ?a1 a2 \<and> sorted_part rk a2 lo (k - 1)) \<and> (\<not> lo < k \<longrightarrow> a2 = ?a1)"
      proof (cases "lo + 1 < k")
        case True
        then have "k - 1 - lo < up - lo" "k - 1 \<le> up" using b(4) by linarith+
        from sort [OF this(1) a1 this(2)] True show ?thesis by auto
      qed (use a1 in \<open>auto simp: sorted_part_short\<close>)
      then obtain a2 where a2: "(if lo + 1 < k then sort_elts cmp ?a1 lo (k - 1) else Inr ?a1) = Inr a2" "length a2 = length a" "set a2 = set a"
        "lo < k \<longrightarrow> same_but lo (k - 1) ?a1 a2 \<and> sorted_part rk a2 lo (k - 1)" "\<not> lo < k \<longrightarrow> a2 = ?a1" by blast
      have "up - (k + 1) < up - lo" using True b(3) by linarith
      from sort [OF this a2(2,3) order_refl] obtain a3 where a3: "sort_elts cmp a2 (k + 1) up = Inr a3" "same_but (k + 1) up a2 a3 \<and> sorted_part rk a3 (k + 1) up" by blast
      have "sort_elts cmp a lo up = Inr a3"
        by (subst sort_elts.simps) (use True less.prems b(1) small a2(1) a3(1) in \<open>simp add: not_le Let_def\<close>)
      with sort_left_right [OF piv a2(4,5) a3(2)] same_but_trans [OF b(2)] show ?thesis by blast
    next
      case big: False
      have lk: "lo < k" using big True b(3) by linarith
      have "\<exists>a2. (if k + 1 < up then sort_elts cmp ?a1 (k + 1) up else Inr ?a1) = Inr a2 \<and> length a2 = length a \<and> set a2 = set a \<and>
          same_but (k + 1) up ?a1 a2 \<and> sorted_part rk a2 (k + 1) up"
      proof (cases "k + 1 < up")
        case True
        then have "up - (k + 1) < up - lo" using b(3) by linarith
        from sort [OF this a1 order_refl] True show ?thesis by auto
      qed (use a1 in \<open>auto simp: sorted_part_short\<close>)
      then obtain a2 where a2: "(if k + 1 < up then sort_elts cmp ?a1 (k + 1) up else Inr ?a1) = Inr a2" "length a2 = length a" "set a2 = set a"
        "same_but (k + 1) up ?a1 a2 \<and> sorted_part rk a2 (k + 1) up" by blast
      have "k - 1 - lo < up - lo" "k - 1 \<le> up" using lk b(4) by linarith+
      from sort [OF this(1) a2(2,3) this(2)] obtain a3 where a3: "sort_elts cmp a2 lo (k - 1) = Inr a3" "same_but lo (k - 1) a2 a3 \<and> sorted_part rk a3 lo (k - 1)" by blast
      have "sort_elts cmp a lo up = Inr a3"
        by (subst sort_elts.simps) (use True less.prems b(1) big a2(1) a3(1) in \<open>simp add: not_le Let_def\<close>)
      with sort_right_left [OF piv a2(4) a3(2) lk] same_but_trans [OF b(2)] show ?thesis by blast
    qed
  qed
qed

lemma sorted_part_sorted: "sorted_part rk a 0 (length a - 1) \<Longrightarrow> sorted (map rk a)"
  by (auto simp: sorted_part_def sorted_iff_nth_mono_less)

lemma sortRun_rank:
  assumes "ranks cmp rk (set a)" "a \<noteq> []"
  shows "\<exists>b. sortRun cmp a = Inr b \<and> mset b = mset a \<and> sorted (map rk b)"
proof -
  from sort_elts_rank [OF assms(1) order_refl, of "length a - 1" 0] assms(2) obtain b
    where b: "sort_elts cmp a 0 (length a - 1) = Inr b" "mset b = mset a" "sorted_part rk b 0 (length a - 1)"
    by (auto simp: same_but_def)
  have "length b = length a" using b(2) by (rule mset_eq_length)
  with b assms(2) sorted_part_sorted [of rk b] show ?thesis by (auto simp: sortRun_def)
qed

end
