(* ===== verification/PatrieSearch.thy ===== *)
theory PatrieSearch
  imports PatrieState PatrieSort
begin

section \<open>Patricia trie: searching the paged file\<close>

text \<open>
  Models \<open>archie/lib/patrie/search.c\<close>.  A search holds one page of the paged file in memory.  A node of
  the trie is known by its page, its place there and its place on its level
  (\<open>patrie_node\<close>); from that the place of a child is computed, on the same page or, through the
  t-counts, on a page below.  A search follows the bits of the key to the node below which all
  strings with these bits are, takes the first start there and compares its text with the
  key: as a Patricia trie skips bits, either all strings below the node begin with the key or
  none does.

  The paged file and a page are lists of 32-bit cells; positions in a page are bit offsets, as
  in the code.  A loop over a file that somebody else has written need not end, so the
  traversals have fuel.  Memory is never exhausted; debugging output is left out.
\<close>

subsection \<open>Pages\<close>

record trie_page =
  pg_bCount :: int
  pg_nTCounts :: int
  pg_firstChild :: int          \<comment> \<open>\<open>firstChildPage\<close>\<close>
  pg_tCount :: "int list"       \<comment> \<open>what has been written of \<open>tCount\<close>\<close>
  pg_nodeBitOff :: int
  pg_bits :: "int list"
  pg_num :: "int option"        \<comment> \<open>\<open>pageNum\<close>, \<open>None\<close> before it is set\<close>

record search_cf =
  sc_file :: "int list"         \<comment> \<open>\<open>pagedTrieFP\<close>\<close>
  sc_size :: nat                \<comment> \<open>\<open>pagedPageSize\<close>, in cells\<close>
  sc_lpp :: nat                 \<comment> \<open>\<open>levelsPerPage\<close>\<close>
  sc_build :: int               \<comment> \<open>\<open>buildCaseAccentSens\<close>\<close>
  sc_text :: cstr               \<comment> \<open>\<open>textFP\<close>\<close>
  sc_page :: "trie_page option" \<comment> \<open>\<open>triePage\<close>\<close>

definition initPageBuffer :: "search_cf \<Rightarrow> search_cf" where
  \<comment> \<open>no field of the page is set\<close>
  "initPageBuffer cf = cf\<lparr>sc_page := Some \<lparr>pg_bCount = 0, pg_nTCounts = 0, pg_firstChild = 0, pg_tCount = [],
     pg_nodeBitOff = 0, pg_bits = replicate (sc_size cf) 0, pg_num = None\<rparr>\<rparr>"

definition getNodeAt :: "int \<Rightarrow> int list \<Rightarrow> (bool \<times> int) res" where
  \<comment> \<open>whether a skip, and the value; a node lies on a cell\<close>
  "getNodeAt off src =
     (if off < 0 \<or> off mod 32 \<noteq> 0 \<or> length src \<le> nat (off div 32) then Inl Undefined
      else let v = (src ! nat (off div 32)) mod 4294967296
           in Inr (v div 2147483648 = 0, v mod 2147483648))"

definition loadPage :: "int \<Rightarrow> search_cf \<Rightarrow> search_cf res" where
  "loadPage pageNum cf =
     (case sc_page cf of
        None \<Rightarrow> Inl Undefined
      | Some page \<Rightarrow>
          let got = take (sc_size cf) (drop (nat pageNum * sc_size cf) (sc_file cf));
              bits = got @ drop (length got) (pg_bits page)
          in if pageNum < 0 \<or> got = [] then Inl Aborted
             else if length bits < 3 then Inl Undefined
             else let n = nat (bits ! 2)
                  in if sc_size cf < n \<or> length bits < 3 + n then Inl Undefined
                     else Inr (cf\<lparr>sc_page := Some
                       \<lparr>pg_bCount = bits ! 0, pg_nTCounts = bits ! 2, pg_firstChild = bits ! 1,
                        pg_tCount = take n (drop 3 bits) @ drop n (pg_tCount page),
                        pg_nodeBitOff = 32 * int (3 + n), pg_bits = bits, pg_num = Some pageNum\<rparr>\<rparr>))"

subsection \<open>Children\<close>

datatype child = LEFT | RIGHT

definition place_node :: "int list \<Rightarrow> patrie_node \<Rightarrow> patrie_node res" where
  \<comment> \<open>\<open>getNodeAt\<close> at the node's position, and the count of the node on its level\<close>
  "place_node bits node =
     res_bind (getNodeAt (pn_pos node) bits) (\<lambda>(skip, v).
       Inr (if skip then node\<lparr>pn_is_skip := 1, pn_val := v, pn_inode := pn_inode node + 1\<rparr>
            else node\<lparr>pn_is_skip := 0, pn_val := v, pn_enode := pn_enode node + 1\<rparr>))"

text \<open>
  The loops move forward in the page, so they make at most as many turns as it has cells before
  they find the child or read behind the page.
\<close>

fun walk_levels :: "nat \<Rightarrow> int list \<Rightarrow> int \<Rightarrow> int \<Rightarrow> int \<Rightarrow> patrie_node \<Rightarrow> (int \<times> patrie_node) res" where
  \<comment> \<open>the loop of \<open>getTrieChild\<close>, with its variable \<open>height\<close>\<close>
  "walk_levels 0 bits childLevel childPosition height node = Inl OutOfFuel"
| "walk_levels (Suc fuel) bits childLevel childPosition height node =
     (if pn_lev node = childLevel \<and> pn_inode node + pn_enode node = childPosition then Inr (height, node)
      else
        let at_end = (pn_inode node + pn_enode node = pn_tnode node);
            node1 = (if at_end then node\<lparr>pn_lev := pn_lev node + 1, pn_tnode := 2 * pn_inode node,
                       pn_height := pn_height node + 1, pn_inode := 0, pn_enode := 0\<rparr> else node);
            height1 = (if at_end then height + 1 else height)
        in res_bind (place_node bits (node1\<lparr>pn_pos := pn_pos node1 + 32\<rparr>)) (\<lambda>node2.
             walk_levels fuel bits childLevel childPosition height1 node2))"

definition getTrieChild :: "trie_page \<Rightarrow> child \<Rightarrow> patrie_node \<Rightarrow> patrie_node res" where
  "getTrieChild page child node =
     (let childPosition = 2 * pn_inode node - (if child = LEFT then 1 else 0) in
      res_bind (walk_levels (length (pg_bits page) + 2) (pg_bits page) (pn_lev node + 1) childPosition (pn_height node) node) (\<lambda>(height, node1).
        Inr (if pn_is_skip node1 \<noteq> 0 then node1\<lparr>pn_height := height + pn_val node1\<rparr> else node1)))"

fun walk_row :: "nat \<Rightarrow> int list \<Rightarrow> int \<Rightarrow> patrie_node \<Rightarrow> patrie_node res" where
  \<comment> \<open>the second loop of \<open>getPagedTrieChild\<close>\<close>
  "walk_row 0 bits childPosition node = Inl OutOfFuel"
| "walk_row (Suc fuel) bits childPosition node =
     (if \<not> pn_enode node + pn_inode node < childPosition then Inr node
      else res_bind (place_node bits (node\<lparr>pn_pos := pn_pos node + 32\<rparr>)) (walk_row fuel bits childPosition))"

fun find_tCount :: "int \<Rightarrow> int list \<Rightarrow> nat res" where
  \<comment> \<open>how many entries are less than the position\<close>
  "find_tCount pos [] = Inl Undefined"
| "find_tCount pos (t # ts) = (if t < pos then res_bind (find_tCount pos ts) (\<lambda>n. Inr (Suc n)) else Inr 0)"

definition getPagedTrieChild :: "child \<Rightarrow> patrie_node \<Rightarrow> search_cf \<Rightarrow> (patrie_node \<times> search_cf) res" where
  "getPagedTrieChild child node cf =
     (case sc_page cf of
        None \<Rightarrow> Inl Undefined
      | Some page0 \<Rightarrow>
     (case pg_num page0 of
        None \<Rightarrow> Inl Undefined
      | Some num \<Rightarrow>
     res_bind (if pn_pageNum node \<noteq> num then loadPage (pn_pageNum node) cf else Inr cf) (\<lambda>cf1.
     case sc_page cf1 of
       None \<Rightarrow> Inl Undefined
     | Some page \<Rightarrow>
         if sc_lpp cf1 = 0 then Inl Undefined
         else if pn_lev node mod int (sc_lpp cf1) \<noteq> 0 then
           res_bind (getTrieChild page child node) (\<lambda>node1. Inr (node1, cf1))
         else
           let childPosition = pn_inode node * 2 + pg_bCount page - (if child = LEFT then 1 else 0) in
           res_bind (find_tCount childPosition (drop 1 (pg_tCount page))) (\<lambda>k.
           let i = Suc k; t1 = pg_tCount page ! i; t0 = pg_tCount page ! (i - 1) in
           res_bind (loadPage (pg_firstChild page + int i - 1) cf1) (\<lambda>cf2.
           case sc_page cf2 of
             None \<Rightarrow> Inl Undefined
           | Some page2 \<Rightarrow>
               res_bind (place_node (pg_bits page2)
                   (node\<lparr>pn_lev := pn_lev node + 1, pn_tnode := t1 - t0, pn_height := pn_height node + 1,
                         pn_inode := 0, pn_enode := 0, pn_pos := pg_nodeBitOff page2\<rparr>)) (\<lambda>node1.
               res_bind (walk_row (length (pg_bits page2) + 2) (pg_bits page2) (childPosition - t0)
                   (node1\<lparr>pn_pageNum := the (pg_num page2)\<rparr>)) (\<lambda>node2.
                 Inr (if pn_is_skip node2 \<noteq> 0 then node2\<lparr>pn_height := pn_height node2 + pn_val node2\<rparr> else node2, cf2))))))))"

definition getTrieRoot :: "search_cf \<Rightarrow> (patrie_node \<times> search_cf) res" where
  "getTrieRoot cf =
     (if sc_size cf = 0 then Inl Undefined
      else res_bind (loadPage (int (length (sc_file cf) div sc_size cf) - 1) cf) (\<lambda>cf1.
        case sc_page cf1 of
          None \<Rightarrow> Inl Undefined
        | Some page \<Rightarrow>
            res_bind (getNodeAt (pg_nodeBitOff page) (pg_bits page)) (\<lambda>(skip, v).
              Inr (\<lparr>pn_val = v, pn_is_skip = (if skip then 1 else 0), pn_lev = 1, pn_height = v - 1, pn_pos = pg_nodeBitOff page,
                    pn_inode = (if skip then 1 else 0), pn_enode = (if skip then 0 else 1), pn_tnode = 1,
                    pn_pageNum = the (pg_num page)\<rparr>, cf1))))"

subsection \<open>Comparing the text with the key\<close>

fun key_at :: "(char \<Rightarrow> char) \<Rightarrow> cstr \<Rightarrow> cstr \<Rightarrow> bool" where
  \<comment> \<open>the loop over \<open>getc\<close>; an empty text is the end of the file\<close>
  "key_at f key [] = (key = [])"
| "key_at f [] (c # cs) = True"
| "key_at f (k # ks) (c # cs) = (f k = f c \<and> key_at f ks cs)"

definition key_matches :: "(char \<Rightarrow> char) \<Rightarrow> search_cf \<Rightarrow> cstr \<Rightarrow> int \<Rightarrow> bool res" where
  "key_matches f cf key off = (if off < 0 then Inl Aborted else Inr (key_at f key (drop (nat off) (sc_text cf))))"

definition keyMatches :: "search_cf \<Rightarrow> cstr \<Rightarrow> int \<Rightarrow> bool res" where
  "keyMatches = key_matches (\<lambda>c. c)"

definition keyMatchesCase :: "search_cf \<Rightarrow> cstr \<Rightarrow> int \<Rightarrow> bool res" where
  "keyMatchesCase = key_matches TOLOWER"

definition keyMatchesAccent :: "search_cf \<Rightarrow> cstr \<Rightarrow> int \<Rightarrow> bool res" where
  "keyMatchesAccent = key_matches NoAccent"

definition keyMatchesCiAi :: "search_cf \<Rightarrow> cstr \<Rightarrow> int \<Rightarrow> bool res" where
  "keyMatchesCiAi = key_matches (\<lambda>c. TOLOWER (NoAccent c))"

definition CMP_CSAS :: int where "CMP_CSAS = 3"
definition CMP_NULL :: int where "CMP_NULL = - 1"

definition keyTypeMatch :: "search_cf \<Rightarrow> cstr \<Rightarrow> int \<Rightarrow> int \<Rightarrow> bool res" where
  "keyTypeMatch cf key off type =
     (if type = CMP_CIAI then keyMatchesCiAi cf key off
      else if type = CMP_CIAS then keyMatchesCase cf key off
      else if type = CMP_CSAI then keyMatchesAccent cf key off
      else if type = CMP_CSAS then keyMatches cf key off
      else Inr False)"

definition keyMatchesIdxType :: "search_cf \<Rightarrow> cstr \<Rightarrow> int \<Rightarrow> bool res" where
  "keyMatchesIdxType cf key off = keyTypeMatch cf key off (sc_build cf)"

definition MATCHMAP_SZ :: int where "MATCHMAP_SZ = 4"

definition MatchMap :: "int list list" where
  "MatchMap =
     [[CMP_CIAI, CMP_NULL, CMP_NULL, CMP_NULL],
      [CMP_CIAS, CMP_CIAS, CMP_NULL, CMP_NULL],
      [CMP_CSAI, CMP_NULL, CMP_CSAI, CMP_NULL],
      [CMP_CSAS, CMP_CSAI, CMP_CIAS, CMP_CSAS]]"

definition keyMatchesIdxSearchType :: "search_cf \<Rightarrow> int \<Rightarrow> int \<Rightarrow> cstr \<Rightarrow> int \<Rightarrow> bool res" where
  "keyMatchesIdxSearchType cf stype ptype key off =
     (if MATCHMAP_SZ < stype \<or> MATCHMAP_SZ < ptype then keyTypeMatch cf key off CMP_NULL
      else if stype < 0 \<or> MATCHMAP_SZ \<le> stype \<or> ptype < 0 \<or> MATCHMAP_SZ \<le> ptype then Inl Undefined
      else keyTypeMatch cf key off (MatchMap ! nat stype ! nat ptype))"

subsection \<open>Loading starts\<close>

text \<open>
  \<open>load_all_starts\<close> and \<open>load_matching_starts\<close> are one loop with two tests.  The node at hand is
  popped from the stack; below a skip the right child is pushed and the left one is next.  The
  loops have the function that moves to a child as an argument; the code has
  \<open>getPagedTrieChild\<close> there.
\<close>

type_synonym 's child_fun = "child \<Rightarrow> patrie_node \<Rightarrow> 's \<Rightarrow> (patrie_node \<times> 's) res"

fun starts_loop :: "nat \<Rightarrow> 's child_fun \<Rightarrow> (int \<Rightarrow> bool res) \<Rightarrow> nat \<Rightarrow> patrie_node \<Rightarrow> int list \<Rightarrow> 's \<Rightarrow> patrie_state \<Rightarrow>
    (int list \<times> 's \<times> patrie_state) res" where
  "starts_loop 0 getChild accept maxhits node start cf st = Inl OutOfFuel"
| "starts_loop (Suc fuel) getChild accept maxhits node start cf st =
     (if pn_is_skip node \<noteq> 0 then
        res_bind (getChild RIGHT node cf) (\<lambda>(right, cf1).
        res_bind (patrieStatePush right st) (\<lambda>st1.
        res_bind (getChild LEFT node cf1) (\<lambda>(left, cf2).
          starts_loop fuel getChild accept maxhits left start cf2 st1)))
      else
        res_bind (accept (pn_val node - 1)) (\<lambda>ok.
        let start1 = (if ok then start @ [pn_val node - 1] else start) in
        if maxhits \<le> length start1 \<or> patrieStateEmpty st then Inr (start1, cf, st)
        else res_bind (patrieStatePop st) (\<lambda>(node1, st1). starts_loop fuel getChild accept maxhits node1 start1 cf st1)))"

definition load_starts :: "nat \<Rightarrow> 's child_fun \<Rightarrow> (int \<Rightarrow> bool res) \<Rightarrow> nat \<Rightarrow> 's \<Rightarrow> patrie_state \<Rightarrow>
    (int list \<times> 's \<times> patrie_state) res" where
  "load_starts fuel getChild accept maxhits cf st =
     (if maxhits = 0 \<or> patrieStateEmpty st then Inr ([], cf, st)
      else res_bind (patrieStatePop st) (\<lambda>(node, st1). starts_loop fuel getChild accept maxhits node [] cf st1))"

type_synonym loaded = "int list \<times> search_cf \<times> patrie_state"

definition load_all_starts :: "nat \<Rightarrow> nat \<Rightarrow> search_cf \<Rightarrow> patrie_state \<Rightarrow> loaded res" where
  "load_all_starts fuel maxhits cf st = load_starts fuel getPagedTrieChild (\<lambda>_. Inr True) maxhits cf st"

definition load_matching_starts :: "nat \<Rightarrow> cstr \<Rightarrow> nat \<Rightarrow> search_cf \<Rightarrow> patrie_state \<Rightarrow> loaded res" where
  "load_matching_starts fuel key maxhits cf st =
     load_starts fuel getPagedTrieChild (keyMatchesIdxSearchType cf (ps_match st) (sc_build cf) key) maxhits cf st"

subsection \<open>The search\<close>

definition key_bit :: "int \<Rightarrow> cstr \<Rightarrow> bool res" where
  \<comment> \<open>\<open>bit(n, src)\<close>\<close>
  "key_bit n src =
     (if n < 0 \<or> length src \<le> nat n div 8 then Inl Undefined
      else Inr (bit (ord (src ! (nat n div 8))) (7 - nat n mod 8)))"

fun descend :: "nat \<Rightarrow> 's child_fun \<Rightarrow> cstr \<Rightarrow> patrie_node \<Rightarrow> 's \<Rightarrow> (patrie_node \<times> 's) res" where
  \<comment> \<open>the loop of \<open>search\<close>\<close>
  "descend 0 getChild key node cf = Inl OutOfFuel"
| "descend (Suc fuel) getChild key node cf =
     (if pn_is_skip node = 0 \<or> int (length key * 8) \<le> pn_height node then Inr (node, cf)
      else res_bind (key_bit (pn_height node) key) (\<lambda>b.
           res_bind (getChild (if b then RIGHT else LEFT) node cf) (\<lambda>(node1, cf1).
             descend fuel getChild key node1 cf1)))"

definition trie_search :: "nat \<Rightarrow> cstr \<Rightarrow> search_cf \<Rightarrow> (patrie_node \<times> search_cf) res" where
  \<comment> \<open>\<open>search\<close>\<close>
  "trie_search fuel key cf = res_bind (getTrieRoot cf) (\<lambda>(node, cf1). descend fuel getPagedTrieChild key node cf1)"

record found =
  fd_nhits :: "nat option"      \<comment> \<open>\<open>*nhits\<close>, \<open>None\<close> when it is not set\<close>
  fd_start :: "int list"        \<comment> \<open>what has been written of \<open>start\<close>\<close>
  fd_state :: patrie_state
  fd_cf :: search_cf

definition with_page :: "search_cf \<Rightarrow> search_cf" where
  "with_page cf = (if sc_page cf = None then initPageBuffer cf else cf)"

definition patrieGetMoreStarts :: "nat \<Rightarrow> nat \<Rightarrow> patrie_state \<Rightarrow> search_cf \<Rightarrow> found res" where
  "patrieGetMoreStarts fuel maxhits st cf =
     (if maxhits = 0 \<or> patrieStateEmpty st then Inr \<lparr>fd_nhits = Some 0, fd_start = [], fd_state = st, fd_cf = cf\<rparr>
      else
        let cf1 = with_page cf in
        res_bind
          (if ps_match st = sc_build cf then
             if ps_first st \<noteq> 0 then load_all_starts fuel maxhits cf1 st else Inr ([], cf1, st)
           else
             case ps_key st of
               None \<Rightarrow> Inl Undefined
             | Some key \<Rightarrow> load_matching_starts fuel key maxhits cf1 st)
          (\<lambda>(start, cf2, st1). Inr \<lparr>fd_nhits = Some (length start), fd_start = start, fd_state = st1, fd_cf = cf2\<rparr>))"

definition fold_search_key :: "int \<Rightarrow> cstr \<Rightarrow> cstr" where
  \<comment> \<open>the loop over \<open>k\<close>\<close>
  "fold_search_key sens key =
     takeWhile (\<lambda>c. c \<noteq> NUL) (map (\<lambda>c. if sens = CMP_CIAI then NoAccent (TOLOWER c)
       else if sens = CMP_CIAS then TOLOWER c else if sens = CMP_CSAI then NoAccent c else c) key)"

definition patrieSearchSub :: "nat \<Rightarrow> cstr \<Rightarrow> int \<Rightarrow> nat \<Rightarrow> search_cf \<Rightarrow> found res" where
  \<comment> \<open>the state is the one returned through \<open>search_state\<close>, or freed\<close>
  "patrieSearchSub fuel key matchSens maxhits cf =
     (if matchSens = 0 \<and> sc_build cf \<noteq> 0 then Inl Rejected
      else if maxhits = 0 then Inr \<lparr>fd_nhits = None, fd_start = [], fd_state = patrieAllocState, fd_cf = cf\<rparr>
      else
        let st = patrieAllocState\<lparr>ps_key := Some key, ps_match := matchSens\<rparr>;
            k = (if sc_build cf \<noteq> CMP_CSAS then fold_search_key (sc_build cf) key else key)
        in res_bind (trie_search fuel k (with_page cf)) (\<lambda>(node, cf1).
           res_bind (patrieStatePush node st) (\<lambda>st1.
           res_bind (load_all_starts fuel 1 cf1 st1) (\<lambda>(start, cf2, st2).
           if start = [] then Inl Undefined
           else res_bind (keyMatchesIdxType cf2 key (hd start)) (\<lambda>ok.
           if \<not> ok then Inr \<lparr>fd_nhits = Some 0, fd_start = start, fd_state = st2\<lparr>ps_first := 0\<rparr>, fd_cf = cf2\<rparr>
           else
             let st3 = st2\<lparr>ps_first := 1\<rparr> in
             if matchSens = sc_build cf then
               res_bind (load_all_starts fuel (maxhits - 1) cf2 st3) (\<lambda>(more, cf3, st4).
                 Inr \<lparr>fd_nhits = Some (length more + 1), fd_start = start @ more, fd_state = st4, fd_cf = cf3\<rparr>)
             else
               res_bind (patrieStatePush node (patrieStateResetStack st3)) (\<lambda>st4.
               res_bind (load_matching_starts fuel key maxhits cf2 st4) (\<lambda>(matching, cf3, st5).
                 Inr \<lparr>fd_nhits = Some (length matching), fd_start = matching @ drop (length matching) start, fd_state = st5, fd_cf = cf3\<rparr>)))))))"

end
