(* ===== verification/PatrieNavigate.thy ===== *)
theory PatrieNavigate
  imports PatriePagedFile PatrieSearch
begin

section \<open>Patricia trie: moving about in the paged file\<close>

text \<open>
  \<open>getPagedTrieChild\<close> moves from the node of a subtrie to the nodes of its children.  \<open>placed\<close>
  says that a node has the position and the counts of number \<open>q\<close> of row \<open>i\<close> of its page, and
  \<open>node_at\<close> that it is the node of a given subtrie somewhere in a file as \<open>laid_out\<close> describes it.
  On its own page a child is reached by walking to the next level; otherwise the t-counts lead to
  the page and to the place on it.
\<close>

subsection \<open>Nodes on a page\<close>

fun is_fork :: "trie \<Rightarrow> bool" where
  "is_fork (Start s) = False"
| "is_fork (Fork h l r) = True"

definition forks :: "forest \<Rightarrow> nat" where
  "forks F = length (filter (\<lambda>x. is_fork (snd x)) F)"

lemma forks_simps [simp]: "forks [] = 0" "forks (x # F) = (if is_fork (snd x) then 1 else 0) + forks F" "forks (F @ G) = forks F + forks G"
  by (simp_all add: forks_def)

lemma length_kids: "length (concat (map kids F)) = 2 * forks F"
proof (induction F)
  case (Cons x F)
  then show ?case by (cases x rule: kids.cases) auto
qed simp

lemma forks_le: "forks F \<le> length F"
  by (simp add: forks_def)

definition forest_ok :: "forest \<Rightarrow> bool" where
  "forest_ok F = (\<forall>(p, t)\<in>set F. - 1 \<le> p \<and> above p t \<and> trie_ok t)"

lemma forest_ok_kids: "forest_ok F \<Longrightarrow> forest_ok (concat (map kids F))"
proof -
  assume F: "forest_ok F"
  have "- 1 \<le> p \<and> above p t \<and> trie_ok t" if "x \<in> set F" "(p, t) \<in> set (kids x)" for x p t
  proof (cases x rule: kids.cases)
    case (2 p' h l r)
    with F that show ?thesis by (fastforce simp: forest_ok_def)
  qed (use that in simp)
  then show ?thesis by (auto simp: forest_ok_def)
qed

lemma forest_ok_row: "forest_ok F \<Longrightarrow> forest_ok (row i F)"
  by (induction i arbitrary: F) (auto intro: forest_ok_kids)

definition skip_and_value :: "int \<times> trie \<Rightarrow> bool \<times> int" where
  "skip_and_value x = (is_fork (snd x), nd_value (node_of x))"

lemma getNodeAt_cell:
  assumes "forest_ok F" "x \<in> set F" "c < length bits" "bits ! c = paged_cell (node_of x)"
  shows "getNodeAt (32 * int c) bits = Inr (skip_and_value x)"
proof -
  obtain p t where x: "x = (p, t)" by (cases x)
  then have ok: "- 1 \<le> p" "above p t" "trie_ok t" using assms(1,2) by (auto simp: forest_ok_def)
  then have v: "0 \<le> nd_value (node_of x)" "nd_value (node_of x) < 1073741824"
    using child_node_plain [of t p] x by (simp_all add: plain_def node_ok_def node_of_def)
  have "nd_type (node_of x) = (if is_fork t then SKIP_NODE else START_NODE)" by (cases t) (simp_all add: x node_of_def)
  moreover have "(nd_value (node_of x) + 2147483648) div 2147483648 = 1"
    using v by (simp only: div_add_self2 div_pos_pos_trivial)
  ultimately show ?thesis using v assms(3,4) x by (simp add: getNodeAt_def paged_cell_def skip_and_value_def)
qed

text \<open>The place of a node: it is number \<open>q\<close> of row \<open>i\<close>, and \<open>base\<close> cells are in front of the rows.\<close>

definition cell_of :: "nat \<Rightarrow> forest \<Rightarrow> nat \<Rightarrow> nat \<Rightarrow> nat" where
  "cell_of base S i q = base + cells i S + q"

definition on_bits :: "int list \<Rightarrow> nat \<Rightarrow> forest \<Rightarrow> nat \<Rightarrow> bool" where
  \<comment> \<open>the cells hold \<open>L\<close> rows\<close>
  "on_bits bits base S L = (\<forall>i<L. \<forall>q<length (row i S).
     cell_of base S i q < length bits \<and> bits ! cell_of base S i q = paged_cell (node_of (row i S ! q)))"

definition placed :: "nat \<Rightarrow> forest \<Rightarrow> nat \<Rightarrow> nat \<Rightarrow> patrie_node \<Rightarrow> bool" where
  "placed base S i q nd = (q < length (row i S) \<and> pn_pos nd = 32 * int (cell_of base S i q) \<and>
     pn_inode nd = int (forks (take (Suc q) (row i S))) \<and> pn_enode nd = int (Suc q) - pn_inode nd \<and>
     pn_tnode nd = int (length (row i S)) \<and>
     (pn_is_skip nd \<noteq> 0 \<longleftrightarrow> is_fork (snd (row i S ! q))) \<and> pn_val nd = nd_value (node_of (row i S ! q)))"

lemma place_node_at:
  assumes bits: "on_bits bits base S L" "forest_ok S" and i: "i < L" "q < length (row i S)"
    and nd: "pn_pos nd = 32 * int (cell_of base S i q)" "pn_inode nd = int (forks (take q (row i S)))" "pn_enode nd = int q - pn_inode nd"
      "pn_tnode nd = int (length (row i S))"
  obtains nd' where "place_node bits nd = Inr nd'" "placed base S i q nd'" "pn_lev nd' = pn_lev nd" "pn_height nd' = pn_height nd" "pn_pageNum nd' = pn_pageNum nd"
proof -
  let ?x = "row i S ! q"
  have g: "getNodeAt (pn_pos nd) bits = Inr (is_fork (snd ?x), nd_value (node_of ?x))"
    using getNodeAt_cell [OF forest_ok_row [OF bits(2), of i], of ?x "cell_of base S i q" bits] bits(1) i
    by (simp add: nd(1) on_bits_def skip_and_value_def)
  have f: "forks (take (Suc q) (row i S)) = forks (take q (row i S)) + (if is_fork (snd ?x) then 1 else 0)"
    using i(2) by (simp add: take_Suc_conv_app_nth)
  let ?nd = "if is_fork (snd ?x) then nd\<lparr>pn_is_skip := 1, pn_val := nd_value (node_of ?x), pn_inode := pn_inode nd + 1\<rparr>
     else nd\<lparr>pn_is_skip := 0, pn_val := nd_value (node_of ?x), pn_enode := pn_enode nd + 1\<rparr>"
  show ?thesis
    by (rule that [of ?nd]) (use g f nd i in \<open>auto simp: place_node_def placed_def\<close>)
qed

text \<open>Along a row.\<close>

lemma cell_of_Suc: "cell_of base S i (Suc q) = Suc (cell_of base S i q)"
  by (simp add: cell_of_def)

lemma placed_count: "placed base S i q nd \<Longrightarrow> pn_inode nd + pn_enode nd = int q + 1"
  by (simp add: placed_def)

lemma next_on_row:
  assumes bits: "on_bits bits base S L" "forest_ok S" "i < L" and nd: "placed base S i q nd" "Suc q < length (row i S)"
  obtains nd' where "place_node bits (nd\<lparr>pn_pos := pn_pos nd + 32\<rparr>) = Inr nd'" "placed base S i (Suc q) nd'"
    "pn_lev nd' = pn_lev nd" "pn_height nd' = pn_height nd" "pn_pageNum nd' = pn_pageNum nd"
proof -
  have "\<exists>nd'. place_node bits (nd\<lparr>pn_pos := pn_pos nd + 32\<rparr>) = Inr nd' \<and> placed base S i (Suc q) nd' \<and>
    pn_lev nd' = pn_lev nd \<and> pn_height nd' = pn_height nd \<and> pn_pageNum nd' = pn_pageNum nd"
    by (rule place_node_at [OF bits(1,2,3) nd(2), of "nd\<lparr>pn_pos := pn_pos nd + 32\<rparr>"])
      (use nd in \<open>auto simp: placed_def cell_of_Suc\<close>)
  then show ?thesis using that by blast
qed

lemma walk_row_to:
  assumes bits: "on_bits bits base S L" "forest_ok S" "i < L" and c: "c < length (row i S)"
  shows "placed base S i q nd \<Longrightarrow> q \<le> c \<Longrightarrow> c - q < fuel \<Longrightarrow>
    \<exists>nd'. walk_row fuel bits (int c + 1) nd = Inr nd' \<and> placed base S i c nd' \<and>
      pn_lev nd' = pn_lev nd \<and> pn_height nd' = pn_height nd \<and> pn_pageNum nd' = pn_pageNum nd"
proof (induction fuel arbitrary: q nd)
  case (Suc fuel)
  note cnt = placed_count [OF Suc.prems(1)]
  show ?case
  proof (cases "q = c")
    case True
    with Suc.prems(1) cnt show ?thesis by (intro exI [of _ nd]) simp
  next
    case False
    then have lt: "Suc q < length (row i S)" using Suc.prems(2) c by simp
    obtain nd1 where n1: "place_node bits (nd\<lparr>pn_pos := pn_pos nd + 32\<rparr>) = Inr nd1" "placed base S i (Suc q) nd1"
      "pn_lev nd1 = pn_lev nd" "pn_height nd1 = pn_height nd" "pn_pageNum nd1 = pn_pageNum nd"
      using next_on_row [OF bits Suc.prems(1) lt] .
    have "walk_row (Suc fuel) bits (int c + 1) nd = walk_row fuel bits (int c + 1) nd1"
      using cnt False Suc.prems(2) n1(1) by simp
    with Suc.IH [OF n1(2)] n1(3-5) False Suc.prems(2,3) show ?thesis by simp
  qed
qed simp

lemma walk_levels_row:
  assumes bits: "on_bits bits base S L" "forest_ok S" "i < L" and c: "c < length (row i S)"
  shows "placed base S i q nd \<Longrightarrow> q \<le> c \<Longrightarrow> c - q < fuel \<Longrightarrow> pn_lev nd = lv \<Longrightarrow>
    \<exists>nd'. walk_levels fuel bits lv (int c + 1) height nd = Inr (height, nd') \<and> placed base S i c nd' \<and>
      pn_lev nd' = lv \<and> pn_height nd' = pn_height nd \<and> pn_pageNum nd' = pn_pageNum nd"
proof (induction fuel arbitrary: q nd)
  case (Suc fuel)
  note cnt = placed_count [OF Suc.prems(1)]
  show ?case
  proof (cases "q = c")
    case True
    with Suc.prems cnt show ?thesis by (intro exI [of _ nd]) simp
  next
    case False
    then have lt: "Suc q < length (row i S)" using Suc.prems(2) c by simp
    obtain nd1 where n1: "place_node bits (nd\<lparr>pn_pos := pn_pos nd + 32\<rparr>) = Inr nd1" "placed base S i (Suc q) nd1"
      "pn_lev nd1 = pn_lev nd" "pn_height nd1 = pn_height nd" "pn_pageNum nd1 = pn_pageNum nd"
      using next_on_row [OF bits Suc.prems(1) lt] .
    have "pn_tnode nd = int (length (row i S))" using Suc.prems(1) by (simp add: placed_def)
    then have "walk_levels (Suc fuel) bits lv (int c + 1) height nd = walk_levels fuel bits lv (int c + 1) height nd1"
      using cnt False Suc.prems(4) n1(1) lt by (simp add: Let_def)
    with Suc.IH [OF n1(2)] n1(3-5) False Suc.prems(2-4) show ?thesis by simp
  qed
qed simp

text \<open>From a row to the next.\<close>

lemma walk_levels_child:
  assumes bits: "on_bits bits base S L" "forest_ok S" "Suc i < L" and c: "c < length (row (Suc i) S)"
  shows "placed base S i q nd \<Longrightarrow> length (row i S) - q + c < fuel \<Longrightarrow> pn_lev nd = lv \<Longrightarrow>
    \<exists>nd'. walk_levels fuel bits (lv + 1) (int c + 1) height nd = Inr (height + 1, nd') \<and> placed base S (Suc i) c nd' \<and>
      pn_lev nd' = lv + 1 \<and> pn_height nd' = pn_height nd + 1 \<and> pn_pageNum nd' = pn_pageNum nd"
proof (induction fuel arbitrary: q nd)
  case (Suc fuel)
  note cnt = placed_count [OF Suc.prems(1)]
  have q: "q < length (row i S)" and tn: "pn_tnode nd = int (length (row i S))" using Suc.prems(1) by (simp_all add: placed_def)
  show ?case
  proof (cases "Suc q < length (row i S)")
    case True
    have i: "i < L" using bits(3) by simp
    obtain nd1 where n1: "place_node bits (nd\<lparr>pn_pos := pn_pos nd + 32\<rparr>) = Inr nd1" "placed base S i (Suc q) nd1"
      "pn_lev nd1 = pn_lev nd" "pn_height nd1 = pn_height nd" "pn_pageNum nd1 = pn_pageNum nd"
      using next_on_row [OF bits(1,2) i Suc.prems(1) True] .
    have "walk_levels (Suc fuel) bits (lv + 1) (int c + 1) height nd = walk_levels fuel bits (lv + 1) (int c + 1) height nd1"
      using cnt True Suc.prems(3) n1(1) tn by (simp add: Let_def)
    with Suc.IH [OF n1(2)] n1(3-5) True Suc.prems(2,3) show ?thesis by simp
  next
    case False
    then have last: "Suc q = length (row i S)" using q by simp
    let ?nd = "nd\<lparr>pn_lev := pn_lev nd + 1, pn_tnode := 2 * pn_inode nd, pn_height := pn_height nd + 1, pn_inode := 0, pn_enode := 0, pn_pos := pn_pos nd + 32\<rparr>"
    have all: "take (Suc q) (row i S) = row i S" using last by simp
    have tn1: "2 * pn_inode nd = int (length (row (Suc i) S))"
      using Suc.prems(1) unfolding placed_def all by (simp add: row_Suc length_kids del: row.simps)
    have pos: "pn_pos nd + 32 = 32 * int (cell_of base S (Suc i) 0)"
      using Suc.prems(1) last by (simp add: placed_def cell_of_def cells_def del: row.simps)
    have "\<exists>nd'. place_node bits ?nd = Inr nd' \<and> placed base S (Suc i) 0 nd' \<and> pn_lev nd' = pn_lev ?nd \<and>
      pn_height nd' = pn_height ?nd \<and> pn_pageNum nd' = pn_pageNum ?nd"
      by (rule place_node_at [OF bits, of 0 ?nd]) (use c pos tn1 in \<open>auto simp del: row.simps\<close>)
    then obtain nd1 where n1: "place_node bits ?nd = Inr nd1" "placed base S (Suc i) 0 nd1" "pn_lev nd1 = pn_lev nd + 1"
      "pn_height nd1 = pn_height nd + 1" "pn_pageNum nd1 = pn_pageNum nd"
      by auto
    have "walk_levels (Suc fuel) bits (lv + 1) (int c + 1) height nd = walk_levels fuel bits (lv + 1) (int c + 1) (height + 1) nd1"
      using cnt last Suc.prems(3) n1(1) tn by (simp add: Let_def)
    moreover have "c - 0 < fuel" "pn_lev nd1 = lv + 1" using Suc.prems(2,3) q n1(3) by simp_all
    ultimately show ?thesis using walk_levels_row [OF bits c n1(2), of fuel "lv + 1" "height + 1"] n1(4,5) by simp
  qed
qed simp

subsection \<open>Pages of the file\<close>

definition page_holds :: "nat \<Rightarrow> nat \<Rightarrow> int list \<Rightarrow> nat \<Rightarrow> int list \<Rightarrow> int \<Rightarrow> int \<Rightarrow> forest \<Rightarrow> bool" where
  "page_holds sz L f n left first b S = (page_at sz f n (page_of sz L left first b S) \<and> ends_max left \<and> 0 \<le> b \<and>
     b + int (length (row L S)) < INT_MAX \<and> (row L S = [] \<or> 1 \<le> idx_le left b))"

lemma nth_rows: "i < L \<Longrightarrow> q < length (row i S) \<Longrightarrow>
    cells i S + q < length (concat (map (\<lambda>i. map g (row i S)) [0..<L])) \<and>
    concat (map (\<lambda>i. map g (row i S)) [0..<L]) ! (cells i S + q) = g (row i S ! q)"
proof (induction L)
  case (Suc L)
  have len: "length (concat (map (\<lambda>i. map g (row i S)) [0..<L])) = cells L S"
    by (induction L) (simp_all add: cells_def)
  show ?case
  proof (cases "i = L")
    case True
    with Suc.prems len show ?thesis by (simp add: nth_append)
  next
    case False
    with Suc show ?thesis by (simp add: nth_append)
  qed
qed simp

lemma page_holds_bits:
  assumes ph: "page_holds sz L f n left first b S"
  defines "bits \<equiv> take sz (drop (n * sz) f)" and "T \<equiv> t_counts left b (length (row L S))"
  shows "length bits = sz" "3 + T \<le> sz" "bits ! 0 = b" "bits ! 2 = int T" "on_bits bits (3 + T) S L"
    "take T (drop 3 bits) = take T (drop (idx_le left b - 1) left)" "0 < T \<Longrightarrow> bits ! 1 = first + int (idx_le left b) - 1"
    "0 < T \<Longrightarrow> idx_le left b - 1 + T \<le> length left"
proof -
  have pa: "page_at sz f n (page_of sz L left first b S)" using ph by (simp add: page_holds_def)
  let ?cells = "concat (map (\<lambda>i. map (paged_cell \<circ> node_of) (row i S)) [0..<L])" and ?tcs = "take T (drop (idx_le left b - 1) left)"
  let ?img = "page_image L left first b S"
  have "n * sz + sz \<le> length f" using pa by (simp add: page_at_def)
  then show len: "length bits = sz" by (simp add: bits_def)
  have b: "bits = ?img @ replicate (sz - length ?img) CELL_MAX" using pa by (simp add: page_at_def bits_def page_of_def Let_def)
  have img: "?img = b # (if T = 0 then CELL_MAX else first + int (idx_le left b) - 1) # int T # ?tcs @ ?cells"
    by (simp add: page_image_def T_def Let_def)
  show fit: "0 < T \<Longrightarrow> idx_le left b - 1 + T \<le> length left"
    using t_counts_fit [of left b "length (row L S)"] ph by (auto simp: page_holds_def T_def t_counts_def split: if_splits)
  then have tl: "length ?tcs = T" by (cases "T = 0") auto
  have "length ?img \<le> sz"
  proof (rule ccontr)
    assume "\<not> length ?img \<le> sz"
    then have "length bits = length ?img" unfolding b by simp
    with len \<open>\<not> length ?img \<le> sz\<close> show False by simp
  qed
  then show "3 + T \<le> sz" unfolding img using tl by simp
  show "bits ! 0 = b" "bits ! 2 = int T" unfolding b img by (simp_all add: numeral_2_eq_2)
  show "0 < T \<Longrightarrow> bits ! 1 = first + int (idx_le left b) - 1" unfolding b img by simp
  show "take T (drop 3 bits) = ?tcs" unfolding b img using tl by (simp add: numeral_3_eq_3)
  show "on_bits bits (3 + T) S L"
    unfolding on_bits_def
  proof (intro allI impI)
    fix i q assume iq: "i < L" "q < length (row i S)"
    note n = nth_rows [OF iq, of "paged_cell \<circ> node_of"]
    have d: "drop (3 + T) bits = ?cells @ replicate (sz - length ?img) CELL_MAX"
      unfolding b img using tl by (simp add: numeral_3_eq_3)
    have "cells i S + q < length (drop (3 + T) bits)" unfolding d using n by simp
    then have lt: "cell_of (3 + T) S i q < length bits" by (simp add: cell_of_def)
    then have "bits ! cell_of (3 + T) S i q = drop (3 + T) bits ! (cells i S + q)" by (simp add: cell_of_def add.assoc)
    also have "\<dots> = paged_cell (node_of (row i S ! q))" unfolding d using n by (simp add: nth_append)
    finally show "cell_of (3 + T) S i q < length bits \<and> bits ! cell_of (3 + T) S i q = paged_cell (node_of (row i S ! q))"
      using lt by blast
  qed
qed

subsection \<open>The page in memory\<close>

definition page_in :: "search_cf \<Rightarrow> nat \<Rightarrow> trie_page \<Rightarrow> bool" where
  \<comment> \<open>\<open>pg\<close> is page \<open>n\<close> of the file\<close>
  "page_in cf n pg =
     (let bits = take (sc_size cf) (drop (n * sc_size cf) (sc_file cf)); T = nat (bits ! 2) in
      pg_num pg = Some (int n) \<and> pg_bits pg = bits \<and> length bits = sc_size cf \<and> pg_bCount pg = bits ! 0 \<and>
      pg_firstChild pg = bits ! 1 \<and> T \<le> length (pg_tCount pg) \<and> take T (pg_tCount pg) = take T (drop 3 bits) \<and>
      pg_nodeBitOff pg = 32 * int (3 + T))"

definition nav_ok :: "search_cf \<Rightarrow> search_cf \<Rightarrow> bool" where
  \<comment> \<open>\<open>cf0\<close> with some page of its file\<close>
  "nav_ok cf0 cf = (\<exists>pg n. cf = cf0\<lparr>sc_page := Some pg\<rparr> \<and> page_in cf0 n pg)"

abbreviation holds :: "search_cf \<Rightarrow> nat \<Rightarrow> int list \<Rightarrow> int \<Rightarrow> int \<Rightarrow> forest \<Rightarrow> bool" where
  "holds cf \<equiv> page_holds (sc_size cf) (sc_lpp cf) (sc_file cf)"

lemma loadPage_full:
  assumes "take (sc_size cf) (drop (n * sc_size cf) (sc_file cf)) = bits" "length bits = sc_size cf" "nat (bits ! 2) = T" "3 + T \<le> sc_size cf"
    and "sc_page cf = Some old" "length (pg_bits old) = sc_size cf"
  shows "loadPage (int n) cf = Inr (cf\<lparr>sc_page := Some \<lparr>pg_bCount = bits ! 0, pg_nTCounts = bits ! 2, pg_firstChild = bits ! 1,
     pg_tCount = take T (drop 3 bits) @ drop T (pg_tCount old), pg_nodeBitOff = 32 * int (3 + T), pg_bits = bits, pg_num = Some (int n)\<rparr>\<rparr>)"
proof -
  have "bits \<noteq> []" using assms(2,4) by auto
  then show ?thesis using assms by (simp add: loadPage_def Let_def)
qed

lemma loadPage_ok:
  assumes ph: "holds cf0 n left first b S" and old: "length (pg_bits old) = sc_size cf0"
  obtains pg where "loadPage (int n) (cf0\<lparr>sc_page := Some old\<rparr>) = Inr (cf0\<lparr>sc_page := Some pg\<rparr>)" "page_in cf0 n pg"
proof -
  let ?bits = "take (sc_size cf0) (drop (n * sc_size cf0) (sc_file cf0))" and ?T = "t_counts left b (length (row (sc_lpp cf0) S))"
  note pb = page_holds_bits [OF ph]
  let ?pg = "\<lparr>pg_bCount = ?bits ! 0, pg_nTCounts = ?bits ! 2, pg_firstChild = ?bits ! 1,
     pg_tCount = take ?T (drop 3 ?bits) @ drop ?T (pg_tCount old), pg_nodeBitOff = 32 * int (3 + ?T), pg_bits = ?bits, pg_num = Some (int n)\<rparr>"
  have n: "nat (?bits ! 2) = ?T" using pb(4) by simp
  have "loadPage (int n) (cf0\<lparr>sc_page := Some old\<rparr>) = Inr (cf0\<lparr>sc_page := Some ?pg\<rparr>)"
    using loadPage_full [of "cf0\<lparr>sc_page := Some old\<rparr>" n ?bits ?T old] pb(1,2) n old by simp
  moreover have "page_in cf0 n ?pg" using pb(1,2) n by (simp add: page_in_def Let_def)
  ultimately show ?thesis by (rule that)
qed

text \<open>When a page is needed that is not the one in memory, it is loaded.\<close>

lemma reload:
  assumes "nav_ok cf0 cf" "holds cf0 n left first b S"
  obtains pg0 num pg where "sc_page cf = Some pg0" "pg_num pg0 = Some num"
    "(if int n \<noteq> num then loadPage (int n) cf else Inr cf) = Inr (cf0\<lparr>sc_page := Some pg\<rparr>)" "page_in cf0 n pg"
proof -
  from assms(1) obtain pg0 m where p: "cf = cf0\<lparr>sc_page := Some pg0\<rparr>" "page_in cf0 m pg0" unfolding nav_ok_def by blast
  then have num: "sc_page cf = Some pg0" "pg_num pg0 = Some (int m)" "length (pg_bits pg0) = sc_size cf0"
    by (simp_all add: page_in_def Let_def)
  obtain pg where "loadPage (int n) cf = Inr (cf0\<lparr>sc_page := Some pg\<rparr>)" "page_in cf0 n pg"
    using loadPage_ok [OF assms(2) num(3)] unfolding p(1) by blast
  then show ?thesis using that [OF num(1,2)] p by (cases "n = m") auto
qed

subsection \<open>Groups\<close>

definition group_ok :: "search_cf \<Rightarrow> nat \<Rightarrow> forest list \<Rightarrow> groups \<Rightarrow> bool" where
  "group_ok cf p Ss gs = (laid_out (sc_size cf) (sc_lpp cf) (sc_file cf) (concat Ss) ((p, Ss) # gs) \<and> forest_ok (concat Ss) \<and>
     (\<forall>m. int (length (row m (concat Ss))) < INT_MAX) \<and> 0 < sc_lpp cf)"

lemma nth_pages_of: "j < length Ss \<Longrightarrow>
    pages_of sz k left first b Ss ! j = page_of sz k left first (b + int (length (row k (concat (take j Ss))))) (Ss ! j)"
proof (induction Ss arbitrary: b j)
  case (Cons S Ss)
  then show ?case by (cases j) (simp_all add: add.assoc)
qed simp

lemma group_below: "group_ok cf p Ss ((p', Ss') # gs) \<Longrightarrow> group_ok cf p' Ss' gs"
proof -
  assume g: "group_ok cf p Ss ((p', Ss') # gs)"
  then have c: "concat Ss' = row (sc_lpp cf) (concat Ss)" by (simp add: group_ok_def)
  have "row m (row (sc_lpp cf) (concat Ss)) = row (m + sc_lpp cf) (concat Ss)" for m by (simp add: row_add)
  with g c show ?thesis by (auto simp: group_ok_def forest_ok_row)
qed

lemma group_links: "group_ok cf p Ss gs \<Longrightarrow> ends_max (left_of gs)"
proof (cases gs)
  case (Cons a gs')
  obtain p' Ss' where a: "a = (p', Ss')" by (cases a)
  assume "group_ok cf p Ss gs"
  then have g: "group_ok cf p' Ss' gs'" using Cons a group_below by blast
  then have "int (length (row 0 (concat Ss'))) < INT_MAX" unfolding group_ok_def by blast
  moreover have "[] \<notin> set Ss'" using g by (simp add: group_ok_def)
  ultimately show ?thesis using links_of_max Cons a by simp
qed (simp add: ends_max_def)

lemma group_holds:
  assumes g: "group_ok cf p Ss gs" and j: "j < length Ss"
  shows "holds cf (p + j) (left_of gs) (first_of gs) (int (length (row (sc_lpp cf) (concat (take j Ss))))) (Ss ! j)"
proof -
  let ?L = "sc_lpp cf" and ?b = "int (length (row (sc_lpp cf) (concat (take j Ss))))"
  have "concat Ss = concat (take j Ss) @ Ss ! j @ concat (drop (Suc j) Ss)"
    using id_take_nth_drop [OF j] by (metis concat.simps(2) concat_append)
  then have rows: "row ?L (concat Ss) = row ?L (concat (take j Ss)) @ row ?L (Ss ! j) @ row ?L (concat (drop (Suc j) Ss))" by simp
  have pa: "page_at (sc_size cf) (sc_file cf) (p + j) (page_of (sc_size cf) ?L (left_of gs) (first_of gs) ?b (Ss ! j))"
    using g j by (simp add: group_ok_def nth_pages_of)
  have "int (length (row ?L (concat Ss))) < INT_MAX" using g unfolding group_ok_def by blast
  then have lim: "?b + int (length (row ?L (Ss ! j))) < INT_MAX" unfolding rows by simp
  have "row ?L (Ss ! j) = [] \<or> 1 \<le> idx_le (left_of gs) ?b"
  proof (cases gs)
    case Nil
    then have "row ?L (concat Ss) = []" using g by (simp add: group_ok_def)
    then show ?thesis unfolding rows by simp
  next
    case (Cons a gs')
    obtain p' Ss' where a: "a = (p', Ss')" by (cases a)
    then have c: "concat Ss' = row ?L (concat Ss)" using g Cons by (simp add: group_ok_def)
    show ?thesis
    proof (cases "concat Ss' = []")
      case True
      then show ?thesis using rows unfolding c [symmetric] by simp
    next
      case False
      have "idx_le (links_of Ss') 0 \<le> idx_le (links_of Ss') ?b" by (intro idx_le_mono) simp
      with links_of_start [OF False] have "1 \<le> idx_le (links_of Ss') ?b" by (rule order_trans)
      then show ?thesis using Cons a by simp
    qed
  qed
  then show ?thesis unfolding page_holds_def using pa group_links [OF g] lim by simp
qed

subsection \<open>Nodes of the file\<close>

definition node_at :: "search_cf \<Rightarrow> patrie_node \<Rightarrow> int \<times> trie \<Rightarrow> bool" where
  "node_at cf nd x = (\<exists>p Ss gs j i q. group_ok cf p Ss gs \<and> j < length Ss \<and> i < sc_lpp cf \<and>
     placed (3 + t_counts (left_of gs) (int (length (row (sc_lpp cf) (concat (take j Ss))))) (length (row (sc_lpp cf) (Ss ! j)))) (Ss ! j) i q nd \<and>
     row i (Ss ! j) ! q = x \<and> pn_pageNum nd = int (p + j) \<and> (pn_lev nd - 1) mod int (sc_lpp cf) = int i \<and>
     (case snd x of Start s \<Rightarrow> True | Fork h l r \<Rightarrow> pn_height nd = h - 1))"

definition side :: "child \<Rightarrow> 'a \<Rightarrow> 'a \<Rightarrow> 'a" where
  "side c l r = (if c = LEFT then l else r)"

definition child_index :: "child \<Rightarrow> forest \<Rightarrow> nat \<Rightarrow> nat" where
  "child_index c F q = 2 * forks (take q F) + side c 0 1"

lemma child_at: "q < length F \<Longrightarrow> F ! q = (p, Fork h l r) \<Longrightarrow>
    child_index c F q < length (concat (map kids F)) \<and> concat (map kids F) ! child_index c F q = (h, side c l r)"
proof -
  assume q: "q < length F" "F ! q = (p, Fork h l r)"
  then have "F = take q F @ (p, Fork h l r) # drop (Suc q) F" using id_take_nth_drop [of q F] by simp
  then have "concat (map kids F) = concat (map kids (take q F)) @ [(h, l), (h, r)] @ concat (map kids (drop (Suc q) F))"
    by (metis append_Cons append_Nil concat.simps(2) concat_append kids.simps(2) list.simps(9) map_append)
  moreover have "length (concat (map kids (take q F))) = 2 * forks (take q F)" by (rule length_kids)
  ultimately show ?thesis by (simp add: child_index_def side_def nth_append)
qed

lemma child_position:
  assumes "placed base S i q nd" "row i S ! q = (p, Fork h l r)"
  shows "2 * pn_inode nd - (if c = LEFT then 1 else 0) = int (child_index c (row i S) q) + 1"
proof -
  have "q < length (row i S)" using assms(1) by (simp add: placed_def)
  then have "forks (take (Suc q) (row i S)) = forks (take q (row i S)) + 1" using assms(2) by (simp add: take_Suc_conv_app_nth)
  then show ?thesis using assms(1) by (simp add: placed_def child_index_def side_def)
qed

lemma child_height:
  assumes "forest_ok F" "(h, t) \<in> set F" "- 1 \<le> h"
  shows "case t of Start s \<Rightarrow> True | Fork h' l r \<Rightarrow> h + nd_value (node_of (h, t)) = h' - 1"
  using assms by (cases t) (simp_all add: node_of_def)

subsection \<open>A child on the same page\<close>

lemma node_height_side:
  assumes F: "forest_ok F" and x: "c < length F" "F ! c = (h, t)" and nd: "pn_is_skip nd \<noteq> 0 \<longleftrightarrow> is_fork t" "pn_val nd = nd_value (node_of (h, t))"
  shows "case t of Start s \<Rightarrow> True | Fork h' l r \<Rightarrow> pn_is_skip nd \<noteq> 0 \<and> h + pn_val nd = h' - 1"
proof -
  have "(h, t) \<in> set F" using x by (metis nth_mem)
  with F have "- 1 \<le> h" by (auto simp: forest_ok_def)
  with child_height [OF F \<open>(h, t) \<in> set F\<close>] nd show ?thesis by (cases t) simp_all
qed

lemma child_same_page:
  assumes g: "group_ok cf0 p Ss gs" and j: "j < length Ss" and i: "Suc i < sc_lpp cf0"
    and nd: "placed (3 + t_counts (left_of gs) (int (length (row (sc_lpp cf0) (concat (take j Ss))))) (length (row (sc_lpp cf0) (Ss ! j)))) (Ss ! j) i q nd"
      "row i (Ss ! j) ! q = (h0, Fork h l r)" "pn_pageNum nd = int (p + j)" "(pn_lev nd - 1) mod int (sc_lpp cf0) = int i" "pn_height nd = h - 1"
    and cf: "nav_ok cf0 cf"
  shows "\<exists>nd' cf'. getPagedTrieChild c nd cf = Inr (nd', cf') \<and> nav_ok cf0 cf' \<and> node_at cf0 nd' (h, side c l r)"
proof -
  let ?L = "sc_lpp cf0" and ?S = "Ss ! j" and ?b = "int (length (row (sc_lpp cf0) (concat (take j Ss))))"
  let ?T = "t_counts (left_of gs) ?b (length (row ?L ?S))"
  note ph = group_holds [OF g j]
  from reload [OF cf ph] obtain pg0 num pg where re: "sc_page cf = Some pg0" "pg_num pg0 = Some num"
    "(if int (p + j) \<noteq> num then loadPage (int (p + j)) cf else Inr cf) = Inr (cf0\<lparr>sc_page := Some pg\<rparr>)" "page_in cf0 (p + j) pg" .
  note pb = page_holds_bits [OF ph]
  have bits: "pg_bits pg = take (sc_size cf0) (drop ((p + j) * sc_size cf0) (sc_file cf0))" using re(4) by (simp add: page_in_def Let_def)
  have onb: "on_bits (pg_bits pg) (3 + ?T) ?S ?L" using pb(5) unfolding bits .
  have fS: "forest_ok ?S" using g j by (fastforce simp: group_ok_def forest_ok_def)
  let ?c = "child_index c (row i ?S) q"
  have q: "q < length (row i ?S)" using nd(1) by (simp add: placed_def)
  have c: "?c < length (row (Suc i) ?S)" "row (Suc i) ?S ! ?c = (h, side c l r)"
    using child_at [OF q nd(2), of c] unfolding row_Suc by blast+
  have lev: "pn_lev nd mod int ?L \<noteq> 0" and lev': "(pn_lev nd + 1 - 1) mod int ?L = int (Suc i)"
  proof -
    have "pn_lev nd mod int ?L = ((pn_lev nd - 1) mod int ?L + 1) mod int ?L" by (simp add: mod_add_left_eq)
    also have "\<dots> = (int i + 1) mod int ?L" using nd(4) by simp
    also have "\<dots> = int i + 1" using i by (intro mod_pos_pos_trivial) simp_all
    finally show "pn_lev nd mod int ?L \<noteq> 0" "(pn_lev nd + 1 - 1) mod int ?L = int (Suc i)" by simp_all
  qed
  have len: "length (pg_bits pg) = sc_size cf0" using pb(1) unfolding bits .
  have "cell_of (3 + ?T) ?S (Suc i) ?c < length (pg_bits pg)" using onb i c(1) unfolding on_bits_def by blast
  moreover have "length (row i ?S) \<le> cells (Suc i) ?S" using row_le_cells [of i "Suc i" ?S] by simp
  ultimately have fuel: "length (row i ?S) - q + ?c < length (pg_bits pg) + 2" by (simp add: cell_of_def)
  obtain nd1 where w: "walk_levels (length (pg_bits pg) + 2) (pg_bits pg) (pn_lev nd + 1) (int ?c + 1) (pn_height nd) nd = Inr (pn_height nd + 1, nd1)"
    "placed (3 + ?T) ?S (Suc i) ?c nd1" "pn_lev nd1 = pn_lev nd + 1" "pn_height nd1 = pn_height nd + 1" "pn_pageNum nd1 = pn_pageNum nd"
    using walk_levels_child [OF onb fS i c(1) nd(1) fuel refl, of "pn_height nd"] by blast
  let ?nd = "if pn_is_skip nd1 \<noteq> 0 then nd1\<lparr>pn_height := pn_height nd + 1 + pn_val nd1\<rparr> else nd1"
  have "getTrieChild pg c nd = Inr ?nd"
    using w(1) by (simp add: getTrieChild_def child_position [OF nd(1,2)])
  then have run: "getPagedTrieChild c nd cf = Inr (?nd, cf0\<lparr>sc_page := Some pg\<rparr>)"
    using re(3) g lev unfolding getPagedTrieChild_def re(1,2) option.case nd(3)
    by (simp add: group_ok_def)
  have pl: "placed (3 + ?T) ?S (Suc i) ?c ?nd" using w(2) by (simp add: placed_def)
  have "case side c l r of Start s \<Rightarrow> True | Fork h' l' r' \<Rightarrow> pn_is_skip nd1 \<noteq> 0 \<and> h + pn_val nd1 = h' - 1"
    using w(2) c by (intro node_height_side [OF forest_ok_row [OF fS] c]) (simp_all add: placed_def)
  then have ht: "case side c l r of Start s \<Rightarrow> True | Fork h' l' r' \<Rightarrow> pn_height ?nd = h' - 1"
    using nd(5) by (cases "side c l r") simp_all
  have "node_at cf0 ?nd (h, side c l r)"
    unfolding node_at_def
  proof (intro exI conjI)
    show "pn_pageNum ?nd = int (p + j)" using w(5) nd(3) by simp
    show "(pn_lev ?nd - 1) mod int ?L = int (Suc i)" using lev' w(3) by simp
    show "case snd (h, side c l r) of Start s \<Rightarrow> True | Fork h' l' r' \<Rightarrow> pn_height ?nd = h' - 1" using ht by simp
  qed (fact g j i pl c(2))+
  moreover have "nav_ok cf0 (cf0\<lparr>sc_page := Some pg\<rparr>)" using re(4) unfolding nav_ok_def by blast
  ultimately show ?thesis using run by blast
qed

subsection \<open>A child on another page\<close>

lemma idx_less_nth: "sorted_wrt (<) left \<Longrightarrow> i < length left \<Longrightarrow> left ! i < c \<longleftrightarrow> i < idx_less left c"
proof (induction left arbitrary: i)
  case (Cons x left)
  show ?case
  proof (cases i)
    case 0
    have "idx_less left c = 0" if "\<not> x < c" using Cons.prems(1) that by (auto simp: idx_less_def filter_empty_conv)
    then show ?thesis using 0 by (auto simp: idx_less_def)
  next
    case (Suc m)
    show ?thesis
    proof (cases "x < c")
      case True
      then show ?thesis using Cons Suc by (simp add: idx_less_def)
    next
      case False
      then have "\<forall>y\<in>set left. \<not> y < c" using Cons.prems(1) by auto
      then have "idx_less (x # left) c = 0" using False by (auto simp: idx_less_def filter_empty_conv)
      moreover have "\<not> left ! m < c" using \<open>\<forall>y\<in>set left. \<not> y < c\<close> Cons.prems(2) Suc by simp
      ultimately show ?thesis using Suc by simp
    qed
  qed
qed (simp add: idx_less_def)

lemma find_tCount_nth: "k < length xs \<Longrightarrow> (\<And>i. i < k \<Longrightarrow> xs ! i < pos) \<Longrightarrow> \<not> xs ! k < pos \<Longrightarrow> find_tCount pos xs = Inr k"
proof (induction xs arbitrary: k)
  case (Cons x xs)
  show ?case
  proof (cases k)
    case (Suc m)
    have "find_tCount pos xs = Inr m" using Cons.IH [of m] Cons.prems(1,3) Cons.prems(2) [of "Suc _"] Suc by force
    moreover have "x < pos" using Cons.prems(2) [of 0] Suc by simp
    ultimately show ?thesis using Suc by simp
  qed (use Cons.prems in simp)
qed simp

lemma nth_links_of:
  assumes "J \<le> length Ss"
  shows "links_of Ss ! J = int (length (concat (take J Ss)))"
proof -
  have "starts n Ss ! J = n + int (length (concat (take J Ss)))" if "J < length Ss" for n
    using that
  proof (induction Ss arbitrary: n J)
    case (Cons S Ss)
    then show ?case by (cases J) simp_all
  qed simp
  then show ?thesis using assms by (cases "J < length Ss") (simp_all add: links_of_def nth_append)
qed

text \<open>The page that holds number \<open>g\<close> of the links that enter a group, and its number there.\<close>

lemma link_page:
  assumes "[] \<notin> set Ss" "int (length (concat Ss)) < INT_MAX" "g < length (concat Ss)"
  defines "J \<equiv> idx_less (links_of Ss) (int g + 1) - 1"
  shows "idx_less (links_of Ss) (int g + 1) = Suc J" "J < length Ss" "length (concat (take J Ss)) \<le> g"
    "g - length (concat (take J Ss)) < length (Ss ! J)" "Ss ! J ! (g - length (concat (take J Ss))) = concat Ss ! g"
proof -
  let ?left = "links_of Ss" and ?n = "idx_less (links_of Ss) (int g + 1)"
  have s: "sorted_wrt (<) ?left" using links_of_max [OF assms(1,2)] by (simp add: ends_max_def)
  have len: "length ?left = length Ss + 2" by (simp add: links_of_def)
  note iff = idx_less_nth [OF s, of _ "int g + 1"]
  have "?left ! 0 = 0" using nth_links_of [of 0 Ss] by simp
  then have "0 < ?n" using iff [of 0] len by simp
  then show n: "?n = Suc J" by (simp add: J_def)
  have "\<not> ?left ! length Ss < int g + 1" using assms(3) nth_links_of [of "length Ss" Ss] by simp
  then have "?n \<le> length Ss" using iff [of "length Ss"] len by simp
  then show J: "J < length Ss" using n by simp
  have "?left ! J < int g + 1" using iff [of J] len n J by simp
  then show lo: "length (concat (take J Ss)) \<le> g" using nth_links_of [of J Ss] J by simp
  have "\<not> ?left ! Suc J < int g + 1" using iff [of "Suc J"] len n J by simp
  moreover have "concat (take (Suc J) Ss) = concat (take J Ss) @ Ss ! J" using J by (simp add: take_Suc_conv_app_nth)
  ultimately have hi: "g < length (concat (take J Ss)) + length (Ss ! J)" using nth_links_of [of "Suc J" Ss] J by simp
  then show "g - length (concat (take J Ss)) < length (Ss ! J)" using lo by simp
  obtain xs ys where xy: "concat Ss = xs @ Ss ! J @ ys" "xs = concat (take J Ss)"
    using id_take_nth_drop [OF J] by (metis concat.simps(2) concat_append)
  then show "Ss ! J ! (g - length (concat (take J Ss))) = concat Ss ! g"
    using lo hi unfolding xy(2) [symmetric] xy(1) by (simp add: nth_append less_diff_conv2)
qed

lemma find_child_page:
  assumes tcs: "take T tc = take T (drop (idx_le left b - 1) left)" "T \<le> length tc" "idx_le left b - 1 + T \<le> length left"
    and left: "sorted_wrt (<) left" "1 \<le> idx_le left b" and n: "T = t_counts left b n" "c < n"
  defines "m \<equiv> idx_less left (b + int c + 1)"
  shows "idx_le left b \<le> m" "find_tCount (b + int c + 1) (drop 1 tc) = Inr (m - idx_le left b)"
    "tc ! Suc (m - idx_le left b) = left ! m" "tc ! (m - idx_le left b) = left ! (m - 1)"
proof -
  let ?a = "idx_le left b"
  show am: "?a \<le> m" unfolding m_def using idx_le_less [of b "b + int c + 1" left] by simp
  have "m \<le> idx_less left (b + int n)" unfolding m_def using n(2) by (intro idx_less_mono) simp
  then have lt: "Suc (m - ?a) < T" using n am by (simp add: t_counts_def)
  have tc: "tc ! i = left ! (?a - 1 + i)" if "i < T" for i
  proof -
    have "tc ! i = take T tc ! i" using that by simp
    also have "\<dots> = left ! (?a - 1 + i)" unfolding tcs(1) using that tcs(3) by simp
    finally show ?thesis .
  qed
  show "tc ! Suc (m - ?a) = left ! m" "tc ! (m - ?a) = left ! (m - 1)"
    using tc [of "Suc (m - ?a)"] tc [of "m - ?a"] lt am left(2) by simp_all
  show "find_tCount (b + int c + 1) (drop 1 tc) = Inr (m - ?a)"
  proof (rule find_tCount_nth)
    show "m - ?a < length (drop 1 tc)" using lt tcs(2) by simp
    show "drop 1 tc ! i < b + int c + 1" if i: "i < m - ?a" for i
    proof -
      have "drop 1 tc ! i = left ! (?a + i)" using tc [of "Suc i"] i lt tcs(2) left(2) by simp
      moreover have "?a + i < m" "?a + i < length left" using i lt tcs(3) left(2) by simp_all
      ultimately show ?thesis using idx_less_nth [OF left(1), of "?a + i" "b + int c + 1"] by (simp add: m_def)
    qed
    have "drop 1 tc ! (m - ?a) = left ! m" using tc [of "Suc (m - ?a)"] lt tcs(2) am left(2) by simp
    moreover have "m < length left" using lt tcs(3) am left(2) by simp
    ultimately show "\<not> drop 1 tc ! (m - ?a) < b + int c + 1"
      using idx_less_nth [OF left(1), of m "b + int c + 1"] by (simp add: m_def)
  qed
qed

lemma getPagedTrieChild_other:
  assumes "sc_page cf = Some pg0" "pg_num pg0 = Some num"
    and "(if pn_pageNum nd \<noteq> num then loadPage (pn_pageNum nd) cf else Inr cf) = Inr cf1" "sc_page cf1 = Some pg"
    and "0 < sc_lpp cf1" "pn_lev nd mod int (sc_lpp cf1) = 0"
    and "pn_inode nd * 2 + pg_bCount pg - (if c = LEFT then 1 else 0) = pos" "find_tCount pos (drop 1 (pg_tCount pg)) = Inr k"
    and "pg_firstChild pg + int (Suc k) - 1 = n" "loadPage n cf1 = Inr cf2" "sc_page cf2 = Some pg2"
    and "place_node (pg_bits pg2) (nd\<lparr>pn_lev := pn_lev nd + 1, pn_tnode := pg_tCount pg ! Suc k - pg_tCount pg ! k,
       pn_height := pn_height nd + 1, pn_inode := 0, pn_enode := 0, pn_pos := pg_nodeBitOff pg2\<rparr>) = Inr nd1"
    and "walk_row (length (pg_bits pg2) + 2) (pg_bits pg2) (pos - pg_tCount pg ! k) (nd1\<lparr>pn_pageNum := the (pg_num pg2)\<rparr>) = Inr nd2"
  shows "getPagedTrieChild c nd cf = Inr (if pn_is_skip nd2 \<noteq> 0 then nd2\<lparr>pn_height := pn_height nd2 + pn_val nd2\<rparr> else nd2, cf2)"
proof -
  have L: "\<not> sc_lpp cf1 = 0" "\<not> pn_lev nd mod int (sc_lpp cf1) \<noteq> 0" using assms(5,6) by simp_all
  show ?thesis
    unfolding getPagedTrieChild_def Let_def assms(1-4) option.case res_bind_simps if_not_P [OF L(1)] if_not_P [OF L(2)]
      assms(7,8,9) diff_Suc_1 assms(10-13) ..
qed

lemma child_other_page:
  assumes g: "group_ok cf0 p Ss gs" and j: "j < length Ss" and i: "Suc i = sc_lpp cf0"
    and nd: "placed (3 + t_counts (left_of gs) (int (length (row (sc_lpp cf0) (concat (take j Ss))))) (length (row (sc_lpp cf0) (Ss ! j)))) (Ss ! j) i q nd"
      "row i (Ss ! j) ! q = (h0, Fork h l r)" "pn_pageNum nd = int (p + j)" "(pn_lev nd - 1) mod int (sc_lpp cf0) = int i" "pn_height nd = h - 1"
    and cf: "nav_ok cf0 cf"
  shows "\<exists>nd' cf'. getPagedTrieChild c nd cf = Inr (nd', cf') \<and> nav_ok cf0 cf' \<and> node_at cf0 nd' (h, side c l r)"
proof -
  let ?L = "sc_lpp cf0" and ?S = "Ss ! j"
  let ?n = "length (row ?L ?S)"
  define b where "b = length (row ?L (concat (take j Ss)))"
  let ?left = "left_of gs" and ?c = "child_index c (row i ?S) q"
  let ?T = "t_counts ?left (int b) ?n"
  note ph = group_holds [OF g j, folded b_def]
  from reload [OF cf ph] obtain pg0 num pg where re: "sc_page cf = Some pg0" "pg_num pg0 = Some num"
    "(if int (p + j) \<noteq> num then loadPage (int (p + j)) cf else Inr cf) = Inr (cf0\<lparr>sc_page := Some pg\<rparr>)" "page_in cf0 (p + j) pg" .
  note pb = page_holds_bits [OF ph]
  have q: "q < length (row i ?S)" using nd(1) by (simp add: placed_def)
  have c: "?c < ?n" "row ?L ?S ! ?c = (h, side c l r)"
    using child_at [OF q nd(2), of c] unfolding i [symmetric] row_Suc by blast+
  \<comment> \<open>the group below, and the child among the links that enter it\<close>
  have rowL: "row ?L (concat Ss) = row ?L (concat (take j Ss)) @ row ?L ?S @ row ?L (concat (drop (Suc j) Ss))"
    using id_take_nth_drop [OF j] by (metis concat.simps(2) concat_append row_append)
  have "row ?L (concat Ss) \<noteq> []" using c(1) unfolding rowL by auto
  then obtain p' Ss' gs' where gs: "gs = (p', Ss') # gs'" using g by (cases gs) (auto simp: group_ok_def)
  have g': "group_ok cf0 p' Ss' gs'" using g group_below unfolding gs by blast
  have cc: "concat Ss' = row ?L (concat Ss)" using g by (simp add: group_ok_def gs)
  have glob: "b + ?c < length (concat Ss')" "concat Ss' ! (b + ?c) = (h, side c l r)"
    using c unfolding cc rowL b_def by (simp_all add: nth_append)
  have ne: "[] \<notin> set Ss'" using g' by (simp add: group_ok_def)
  have "int (length (row 0 (concat Ss'))) < INT_MAX" using g' unfolding group_ok_def by blast
  then have small: "int (length (concat Ss')) < INT_MAX" by simp
  note lp = link_page [OF ne small glob(1)]
  let ?m = "idx_less ?left (int (b + ?c) + 1)"
  define J where "J = ?m - 1"
  have m: "?m = Suc J" and J: "J < length Ss'" and loc: "length (concat (take J Ss')) \<le> b + ?c"
    using lp(1-3) by (simp_all add: J_def gs)
  define q' where "q' = b + ?c - length (concat (take J Ss'))"
  have q': "q' < length (Ss' ! J)" "Ss' ! J ! q' = (h, side c l r)"
    using lp(4,5) glob(2) by (simp_all add: q'_def J_def gs)
  \<comment> \<open>the t-counts find that page\<close>
  have leftl: "?left = links_of Ss'" by (simp add: gs)
  have sorted: "sorted_wrt (<) ?left" using group_links [OF g] by (simp add: ends_max_def)
  have T0: "0 < ?T" and one: "1 \<le> idx_le ?left (int b)"
  proof -
    show "1 \<le> idx_le ?left (int b)" using ph c(1) by (auto simp: page_holds_def)
    have "idx_le ?left (int b) \<le> idx_less ?left (int b + int ?n)" using c(1) by (intro idx_le_less) auto
    then show "0 < ?T" using c(1) by (auto simp: t_counts_def)
  qed
  have pgT: "nat (take (sc_size cf0) (drop ((p + j) * sc_size cf0) (sc_file cf0)) ! 2) = ?T" using pb(4) by simp
  have tcs: "take ?T (pg_tCount pg) = take ?T (drop (idx_le ?left (int b) - 1) ?left)" "?T \<le> length (pg_tCount pg)"
    using re(4) pb(6) pgT by (simp_all add: page_in_def Let_def)
  note fc = find_child_page [OF tcs pb(8) [OF T0] sorted one refl c(1)]
  define k where "k = Suc J - idx_le ?left (int b)"
  have assoc: "int b + int ?c + 1 = int (b + ?c) + 1" by simp
  have k: "idx_le ?left (int b) \<le> Suc J" "find_tCount (int b + int ?c + 1) (drop 1 (pg_tCount pg)) = Inr k"
    "pg_tCount pg ! Suc k = ?left ! Suc J" "pg_tCount pg ! k = ?left ! J"
    using fc m unfolding assoc k_def by simp_all
  have t01: "pg_tCount pg ! Suc k - pg_tCount pg ! k = int (length (Ss' ! J))"
    "int b + int ?c + 1 - pg_tCount pg ! k = int q' + 1"
  proof -
    have "concat (take (Suc J) Ss') = concat (take J Ss') @ Ss' ! J" using J by (simp add: take_Suc_conv_app_nth)
    then show "pg_tCount pg ! Suc k - pg_tCount pg ! k = int (length (Ss' ! J))"
      unfolding k(3,4) leftl using nth_links_of [of J Ss'] nth_links_of [of "Suc J" Ss'] J by simp
    show "int b + int ?c + 1 - pg_tCount pg ! k = int q' + 1"
      unfolding k(4) leftl q'_def using nth_links_of [of J Ss'] J loc by simp
  qed
  have fcp: "pg_firstChild pg + int (Suc k) - 1 = int (p' + J)"
  proof -
    have "pg_firstChild pg = int p' + int (idx_le ?left (int b)) - 1" using re(4) pb(7) [OF T0] by (simp add: page_in_def Let_def gs)
    then show ?thesis using k(1) by (simp add: k_def)
  qed
  \<comment> \<open>the child page\<close>
  define b' where "b' = length (row ?L (concat (take J Ss')))"
  let ?T' = "t_counts (left_of gs') (int b') (length (row ?L (Ss' ! J)))"
  note ph' = group_holds [OF g' J, folded b'_def]
  note pb' = page_holds_bits [OF ph']
  have len: "length (pg_bits pg) = sc_size cf0" using re(4) by (simp add: page_in_def Let_def)
  obtain pg2 where pg2: "loadPage (int (p' + J)) (cf0\<lparr>sc_page := Some pg\<rparr>) = Inr (cf0\<lparr>sc_page := Some pg2\<rparr>)" "page_in cf0 (p' + J) pg2"
    using loadPage_ok [OF ph' len] .
  have bits2: "pg_bits pg2 = take (sc_size cf0) (drop ((p' + J) * sc_size cf0) (sc_file cf0))" "pg_num pg2 = Some (int (p' + J))"
    "pg_nodeBitOff pg2 = 32 * int (3 + ?T')" using pg2(2) pb'(4) by (simp_all add: page_in_def Let_def)
  have onb: "on_bits (pg_bits pg2) (3 + ?T') (Ss' ! J) ?L" using pb'(5) unfolding bits2(1) .
  have fS: "forest_ok (Ss' ! J)" using g' J by (fastforce simp: group_ok_def forest_ok_def)
  have L0: "0 < ?L" using i by simp
  let ?nd0 = "nd\<lparr>pn_lev := pn_lev nd + 1, pn_tnode := pg_tCount pg ! Suc k - pg_tCount pg ! k, pn_height := pn_height nd + 1,
     pn_inode := 0, pn_enode := 0, pn_pos := pg_nodeBitOff pg2\<rparr>"
  have "\<exists>nd1. place_node (pg_bits pg2) ?nd0 = Inr nd1 \<and> placed (3 + ?T') (Ss' ! J) 0 0 nd1 \<and> pn_lev nd1 = pn_lev ?nd0 \<and> pn_height nd1 = pn_height ?nd0"
    by (rule place_node_at [OF onb fS L0, of 0 ?nd0])
      (use q'(1) bits2(3) t01(1) in \<open>auto simp: cell_of_def cells_def\<close>)
  then obtain nd1 where nd1: "place_node (pg_bits pg2) ?nd0 = Inr nd1" "placed (3 + ?T') (Ss' ! J) 0 0 nd1" "pn_lev nd1 = pn_lev nd + 1" "pn_height nd1 = h"
    using nd(5) by auto
  let ?nd1 = "nd1\<lparr>pn_pageNum := int (p' + J)\<rparr>"
  have pl1: "placed (3 + ?T') (Ss' ! J) 0 0 ?nd1" using nd1(2) by (simp add: placed_def)
  have "cell_of (3 + ?T') (Ss' ! J) 0 q' < length (pg_bits pg2)" using onb L0 q'(1) by (simp add: on_bits_def)
  then have fuel: "q' - 0 < length (pg_bits pg2) + 2" by (simp add: cell_of_def)
  have q0: "q' < length (row 0 (Ss' ! J))" using q'(1) by simp
  obtain nd2 where w: "walk_row (length (pg_bits pg2) + 2) (pg_bits pg2) (int q' + 1) ?nd1 = Inr nd2" "placed (3 + ?T') (Ss' ! J) 0 q' nd2"
    "pn_lev nd2 = pn_lev nd + 1" "pn_height nd2 = h" "pn_pageNum nd2 = int (p' + J)"
    using walk_row_to [OF onb fS L0 q0 pl1 le0 fuel] nd1(3,4) by auto
  let ?nd = "if pn_is_skip nd2 \<noteq> 0 then nd2\<lparr>pn_height := pn_height nd2 + pn_val nd2\<rparr> else nd2"
  have lev: "pn_lev nd mod int ?L = 0" "(pn_lev nd + 1 - 1) mod int ?L = int 0"
  proof -
    have "pn_lev nd mod int ?L = ((pn_lev nd - 1) mod int ?L + 1) mod int ?L" by (simp add: mod_add_left_eq)
    also have "\<dots> = int (Suc i) mod int ?L" using nd(4) by (simp add: add.commute)
    finally show "pn_lev nd mod int ?L = 0" "(pn_lev nd + 1 - 1) mod int ?L = int 0" unfolding i by simp_all
  qed
  have bc: "pg_bCount pg = int b" using re(4) pb(3) by (simp add: page_in_def Let_def)
  have pos: "pn_inode nd * 2 + pg_bCount pg - (if c = LEFT then 1 else 0) = int b + int ?c + 1"
    using child_position [OF nd(1,2), of c] bc by simp
  have re3: "(if pn_pageNum nd \<noteq> num then loadPage (pn_pageNum nd) cf else Inr cf) = Inr (cf0\<lparr>sc_page := Some pg\<rparr>)"
    using re(3) unfolding nd(3) .
  have w1: "walk_row (length (pg_bits pg2) + 2) (pg_bits pg2) (int b + int ?c + 1 - pg_tCount pg ! k) (nd1\<lparr>pn_pageNum := the (pg_num pg2)\<rparr>) = Inr nd2"
    using w(1) unfolding t01(2) bits2(2) by simp
  have run: "getPagedTrieChild c nd cf = Inr (?nd, cf0\<lparr>sc_page := Some pg2\<rparr>)"
    by (rule getPagedTrieChild_other [OF re(1,2) re3 _ _ _ pos k(2) fcp pg2(1) _ nd1(1) w1]) (use L0 lev(1) in simp_all)
  have pl: "placed (3 + ?T') (Ss' ! J) 0 q' ?nd" using w(2) by (simp add: placed_def)
  have "case side c l r of Start s \<Rightarrow> True | Fork h' l' r' \<Rightarrow> pn_is_skip nd2 \<noteq> 0 \<and> h + pn_val nd2 = h' - 1"
    using w(2) q' by (intro node_height_side [OF fS q']) (simp_all add: placed_def)
  then have ht: "case side c l r of Start s \<Rightarrow> True | Fork h' l' r' \<Rightarrow> pn_height ?nd = h' - 1"
    using w(4) by (cases "side c l r") simp_all
  have "node_at cf0 ?nd (h, side c l r)"
    unfolding node_at_def
  proof (intro exI conjI)
    show "group_ok cf0 p' Ss' gs'" "J < length Ss'" "0 < sc_lpp cf0" by (fact g' J L0)+
    show "placed (3 + t_counts (left_of gs') (int (length (row ?L (concat (take J Ss'))))) (length (row ?L (Ss' ! J)))) (Ss' ! J) 0 q' ?nd"
      using pl unfolding b'_def .
    show "row 0 (Ss' ! J) ! q' = (h, side c l r)" using q'(2) by simp
    show "pn_pageNum ?nd = int (p' + J)" using w(5) by simp
    show "(pn_lev ?nd - 1) mod int ?L = int 0" using lev(2) w(3) by simp
    show "case snd (h, side c l r) of Start s \<Rightarrow> True | Fork h' l' r' \<Rightarrow> pn_height ?nd = h' - 1" using ht by simp
  qed
  moreover have "nav_ok cf0 (cf0\<lparr>sc_page := Some pg2\<rparr>)" using pg2(2) unfolding nav_ok_def by blast
  ultimately show ?thesis using run by blast
qed

end
