(* ===== verification/PatrieFind.thy ===== *)
theory PatrieFind
  imports PatrieNavigate
begin

section \<open>Patricia trie: traversals\<close>

text \<open>
  What the descent along the bits of a key and the enumeration of the starts below a node need of
  the function that moves to a child is the interface \<open>trie_nav\<close>: a relation of nodes to
  subtries, kept by moving to either child.  Inside it the loops of \<open>search.c\<close> are shown to
  compute \<open>follow\<close> and a prefix of \<open>offsets\<close>.  The paged file provides the interface
  (interpretation \<open>paged\<close>), whichever pages have to be loaded on the way.
\<close>

subsection \<open>What a search needs of the file\<close>

locale trie_nav =
  fixes kid :: "'s child_fun" and ok :: "'s \<Rightarrow> bool" and at :: "patrie_node \<Rightarrow> trie \<Rightarrow> bool"
  assumes kid_law: "ok s \<Longrightarrow> at nd (Fork h l r) \<Longrightarrow> \<exists>nd' s'. kid c nd s = Inr (nd', s') \<and> ok s' \<and> at nd' (side c l r)"
    and skip_law: "at nd t \<Longrightarrow> pn_is_skip nd \<noteq> 0 \<longleftrightarrow> is_fork t"
    and start_law: "at nd (Start v) \<Longrightarrow> pn_val nd = v"
    and height_law: "at nd (Fork h l r) \<Longrightarrow> pn_height nd = h - 1"

fun leaves :: "trie \<Rightarrow> int list" where
  "leaves (Start v) = [v]"
| "leaves (Fork h l r) = leaves l @ leaves r"

definition offsets :: "trie list \<Rightarrow> int list" where
  \<comment> \<open>the positions in the text below these nodes\<close>
  "offsets ts = map (\<lambda>v. v - 1) (concat (map leaves ts))"

fun follow :: "cstr \<Rightarrow> trie \<Rightarrow> trie" where
  \<comment> \<open>the subtrie where the bits of the key end\<close>
  "follow k (Start v) = Start v"
| "follow k (Fork h l r) =
     (if int (length k * 8) \<le> h - 1 then Fork h l r
      else if str_bit (\<lambda>c. c) k (nat h) then follow k r else follow k l)"

lemma offsets_simps [simp]: "offsets [] = []" "offsets (Start v # ts) = (v - 1) # offsets ts"
  "offsets (Fork h l r # ts) = offsets (l # r # ts)"
  by (simp_all add: offsets_def)

lemma key_bit_str_bit: "0 < h \<Longrightarrow> h - 1 < int (length k * 8) \<Longrightarrow> key_bit (h - 1) k = Inr (str_bit (\<lambda>c. c) k (nat h))"
proof -
  assume h: "0 < h" "h - 1 < int (length k * 8)"
  obtain n where n: "h = int (Suc n)" using h(1) by (metis Suc_diff_1 zero_less_imp_eq_int)
  then have "n div 8 < length k" using h(2) by (simp add: less_mult_imp_div_less)
  moreover have "h - 1 = int n" "nat h = Suc n" using n by simp_all
  ultimately show ?thesis by (simp add: key_bit_def str_bit_def rd_less)
qed

context trie_nav
begin

lemma descend_ok:
  "ok s \<Longrightarrow> at nd t \<Longrightarrow> trie_ok t \<Longrightarrow> depth t \<le> fuel \<Longrightarrow>
   \<exists>nd' s'. descend fuel kid k nd s = Inr (nd', s') \<and> ok s' \<and> at nd' (follow k t)"
proof (induction fuel arbitrary: s nd t)
  case 0
  then show ?case by (cases t) simp_all
next
  case (Suc fuel)
  show ?case
  proof (cases t)
    case (Start v)
    then show ?thesis using Suc.prems skip_law [OF Suc.prems(2)] by simp
  next
    case (Fork h l r)
    have ht: "pn_height nd = h - 1" and sk: "pn_is_skip nd \<noteq> 0" using Suc.prems(2) height_law skip_law [OF Suc.prems(2)] Fork by auto
    show ?thesis
    proof (cases "int (length k * 8) \<le> h - 1")
      case True
      then show ?thesis using Suc.prems ht sk Fork by simp
    next
      case False
      let ?b = "str_bit (\<lambda>c. c) k (nat h)"
      have b: "key_bit (h - 1) k = Inr ?b" using Suc.prems(3) Fork False by (intro key_bit_str_bit) auto
      let ?c = "if ?b then RIGHT else LEFT"
      obtain nd1 s1 where kid: "kid ?c nd s = Inr (nd1, s1)" "ok s1" "at nd1 (side ?c l r)"
        using kid_law [OF Suc.prems(1), of nd h l r ?c] Suc.prems(2) Fork by blast
      have sub: "trie_ok (side ?c l r)" "depth (side ?c l r) \<le> fuel" using Suc.prems(3,4) Fork by (auto simp: side_def)
      obtain nd' s' where "descend fuel kid k nd1 s1 = Inr (nd', s')" "ok s'" "at nd' (follow k (side ?c l r))"
        using Suc.IH [OF kid(2,3) sub] by blast
      then show ?thesis using False ht sk b kid(1) Fork by (intro exI [of _ nd'] exI [of _ s']) (auto simp: side_def)
    qed
  qed
qed

text \<open>
  The loop visits the subtries on the stack from left to right.  When it stops, what it has passed
  is a prefix \<open>pre\<close> of all starts, and the stack holds the rest.
\<close>

definition holds_tries :: "patrie_state \<Rightarrow> trie list \<Rightarrow> bool" where
  "holds_tries st ts = (state_inv st \<and> list_all2 at (state_stack st) ts)"

definition same_search :: "patrie_state \<Rightarrow> patrie_state \<Rightarrow> bool" where
  "same_search st st' = (ps_key st' = ps_key st \<and> ps_match st' = ps_match st \<and> ps_first st' = ps_first st)"

lemma push_trie:
  assumes "holds_tries st ts" "at nd t"
  obtains st' where "patrieStatePush nd st = Inr st'" "holds_tries st' (t # ts)" "same_search st st'"
proof -
  obtain st' where "patrieStatePush nd st = Inr st'" "state_inv st'" "state_stack st' = nd # state_stack st"
    "ps_key st' = ps_key st" "ps_match st' = ps_match st" "ps_first st' = ps_first st"
    using patrieStatePush_stack [of st nd] assms(1) unfolding holds_tries_def by blast
  then show ?thesis using that [of st'] assms by (simp add: holds_tries_def same_search_def)
qed

lemma pop_trie:
  assumes "holds_tries st (t # ts)"
  obtains nd st' where "patrieStatePop st = Inr (nd, st')" "at nd t" "holds_tries st' ts" "same_search st st'"
proof -
  obtain nd ns where s: "state_stack st = nd # ns" "at nd t" "list_all2 at ns ts" "state_inv st"
    using assms by (auto simp: holds_tries_def list_all2_Cons2)
  obtain st' where "patrieStatePop st = Inr (nd, st')" "state_inv st'" "state_stack st' = ns"
    "ps_key st' = ps_key st" "ps_match st' = ps_match st" "ps_first st' = ps_first st"
    using patrieStatePop_stack [OF s(4,1)] by blast
  then show ?thesis using that [of nd st'] s by (simp add: holds_tries_def same_search_def)
qed

lemma empty_tries: "holds_tries st ts \<Longrightarrow> patrieStateEmpty st \<longleftrightarrow> ts = []"
  using state_stack_empty [of st] by (auto simp: holds_tries_def)

lemma starts_loop_ok:
  "ok s \<Longrightarrow> at nd t \<Longrightarrow> holds_tries st ts \<Longrightarrow> \<forall>v\<in>set (offsets (t # ts)). accept v = Inr (P v) \<Longrightarrow>
   length start < maxhits \<Longrightarrow> (\<Sum>t\<leftarrow>t # ts. nodes t) \<le> fuel \<Longrightarrow>
   \<exists>xs s' st' pre ts'. starts_loop fuel kid accept maxhits nd start s st = Inr (xs, s', st') \<and> ok s' \<and> holds_tries st' ts' \<and>
     same_search st st' \<and> offsets (t # ts) = pre @ offsets ts' \<and> xs = start @ filter P pre \<and> length xs \<le> maxhits \<and>
     (length xs = maxhits \<or> ts' = []) \<and> (\<Sum>t\<leftarrow>ts'. nodes t) < (\<Sum>t\<leftarrow>t # ts. nodes t)"
proof (induction fuel arbitrary: s nd t st ts start)
  case 0
  then show ?case by (cases t) simp_all
next
  case (Suc fuel)
  show ?case
  proof (cases t)
    case (Fork h l r)
    then have nd: "at nd (Fork h l r)" "pn_is_skip nd \<noteq> 0" using Suc.prems(2) skip_law [OF Suc.prems(2)] by simp_all
    obtain right s1 where r: "kid RIGHT nd s = Inr (right, s1)" "ok s1" "at right r"
      using kid_law [OF Suc.prems(1) nd(1), of RIGHT] by (auto simp: side_def)
    obtain st1 where p: "patrieStatePush right st = Inr st1" "holds_tries st1 (r # ts)" "same_search st st1"
      using push_trie [OF Suc.prems(3) r(3)] .
    obtain left s2 where l: "kid LEFT nd s1 = Inr (left, s2)" "ok s2" "at left l"
      using kid_law [OF r(2) nd(1), of LEFT] by (auto simp: side_def)
    have acc: "\<forall>v\<in>set (offsets (l # r # ts)). accept v = Inr (P v)" using Suc.prems(4) Fork by simp
    have fuel: "(\<Sum>t\<leftarrow>l # r # ts. nodes t) \<le> fuel" using Suc.prems(6) Fork by simp
    obtain xs s' st' pre ts' where IH: "starts_loop fuel kid accept maxhits left start s2 st1 = Inr (xs, s', st')" "ok s'" "holds_tries st' ts'"
      "same_search st1 st'" "offsets (l # r # ts) = pre @ offsets ts'" "xs = start @ filter P pre" "length xs \<le> maxhits"
      "length xs = maxhits \<or> ts' = []" "(\<Sum>t\<leftarrow>ts'. nodes t) < (\<Sum>t\<leftarrow>l # r # ts. nodes t)"
      using Suc.IH [OF l(2,3) p(2) acc Suc.prems(5) fuel] by (elim exE conjE) (rule that)
    have "starts_loop (Suc fuel) kid accept maxhits nd start s st = Inr (xs, s', st')"
      using nd(2) r(1) p(1) l(1) IH(1) by simp
    moreover have "same_search st st'" using p(3) IH(4) by (simp add: same_search_def)
    moreover have "(\<Sum>t\<leftarrow>ts'. nodes t) < (\<Sum>t\<leftarrow>t # ts. nodes t)" using IH(9) Fork by simp
    ultimately show ?thesis using IH Fork
      by (intro exI [of _ xs] exI [of _ s'] exI [of _ st'] exI [of _ pre] exI [of _ ts']) simp
  next
    case (Start v)
    then have nd: "pn_is_skip nd = 0" "pn_val nd = v" using Suc.prems(2) skip_law [OF Suc.prems(2)] start_law by auto
    let ?start = "if P (v - 1) then start @ [v - 1] else start"
    have acc: "accept (v - 1) = Inr (P (v - 1))" using Suc.prems(4) Start by simp
    have start: "?start = start @ filter P [v - 1]" "length ?start \<le> maxhits" using Suc.prems(5) by auto
    show ?thesis
    proof (cases "maxhits \<le> length ?start \<or> ts = []")
      case True
      have "starts_loop (Suc fuel) kid accept maxhits nd start s st = Inr (?start, s, st)"
        using nd acc True empty_tries [OF Suc.prems(3)] by (auto simp: Let_def)
      moreover have "length ?start = maxhits \<or> ts = []" using True start(2) by (meson le_antisym)
      moreover have "(\<Sum>t\<leftarrow>ts. nodes t) < (\<Sum>t\<leftarrow>t # ts. nodes t)" by (cases t) simp_all
      ultimately show ?thesis using Suc.prems(1,3) start Start
        by (intro exI [of _ ?start] exI [of _ s] exI [of _ st] exI [of _ "[v - 1]"] exI [of _ ts]) (simp add: same_search_def)
    next
      case False
      then obtain t1 ts1 where ts: "ts = t1 # ts1" by (cases ts) auto
      obtain nd1 st1 where p: "patrieStatePop st = Inr (nd1, st1)" "at nd1 t1" "holds_tries st1 ts1" "same_search st st1"
        using pop_trie [OF Suc.prems(3) [unfolded ts]] .
      have acc1: "\<forall>v\<in>set (offsets (t1 # ts1)). accept v = Inr (P v)" using Suc.prems(4) Start ts by simp
      have fuel: "(\<Sum>t\<leftarrow>t1 # ts1. nodes t) \<le> fuel" using Suc.prems(6) Start ts by simp
      have less: "length ?start < maxhits" using False by simp
      obtain xs s' st' pre ts' where IH: "starts_loop fuel kid accept maxhits nd1 ?start s st1 = Inr (xs, s', st')" "ok s'" "holds_tries st' ts'"
        "same_search st1 st'" "offsets (t1 # ts1) = pre @ offsets ts'" "xs = ?start @ filter P pre" "length xs \<le> maxhits"
        "length xs = maxhits \<or> ts' = []" "(\<Sum>t\<leftarrow>ts'. nodes t) < (\<Sum>t\<leftarrow>t1 # ts1. nodes t)"
        using Suc.IH [OF Suc.prems(1) p(2,3) acc1 less fuel] by (elim exE conjE) (rule that)
      have "starts_loop (Suc fuel) kid accept maxhits nd start s st = Inr (xs, s', st')"
        using nd acc False empty_tries [OF Suc.prems(3)] p(1) IH(1) by (auto simp: Let_def)
      moreover have "same_search st st'" using p(4) IH(4) by (simp add: same_search_def)
      moreover have "offsets (t # ts) = ((v - 1) # pre) @ offsets ts'" using IH(5) Start ts by simp
      moreover have "xs = start @ filter P ((v - 1) # pre)" using IH(6) by simp
      moreover have "(\<Sum>t\<leftarrow>ts'. nodes t) < (\<Sum>t\<leftarrow>t # ts. nodes t)" using IH(9) Start ts by simp
      ultimately show ?thesis using IH(2,3,7,8) by blast
    qed
  qed
qed

lemma load_starts_ok:
  assumes "ok s" "holds_tries st ts" "\<forall>v\<in>set (offsets ts). accept v = Inr (P v)" "(\<Sum>t\<leftarrow>ts. nodes t) \<le> fuel"
  obtains xs s' st' pre ts' where "load_starts fuel kid accept maxhits s st = Inr (xs, s', st')" "ok s'" "holds_tries st' ts'"
    "same_search st st'" "offsets ts = pre @ offsets ts'" "xs = filter P pre" "xs = take maxhits (filter P (offsets ts))"
    "(\<Sum>t\<leftarrow>ts'. nodes t) \<le> (\<Sum>t\<leftarrow>ts. nodes t)" "length xs = maxhits \<or> ts' = []"
proof (cases "maxhits = 0 \<or> ts = []")
  case True
  have "load_starts fuel kid accept maxhits s st = Inr ([], s, st)"
    using True empty_tries [OF assms(2)] by (auto simp: load_starts_def)
  from that [OF this assms(1,2), of "[]"] True show ?thesis by (auto simp: same_search_def)
next
  case False
  then obtain t ts1 where ts: "ts = t # ts1" by (cases ts) auto
  obtain nd st1 where p: "patrieStatePop st = Inr (nd, st1)" "at nd t" "holds_tries st1 ts1" "same_search st st1"
    using pop_trie [OF assms(2) [unfolded ts]] .
  have acc: "\<forall>v\<in>set (offsets (t # ts1)). accept v = Inr (P v)" using assms(3) ts by simp
  have m: "length ([] :: int list) < maxhits" "(\<Sum>t\<leftarrow>t # ts1. nodes t) \<le> fuel" using False assms(4) ts by simp_all
  obtain xs s' st' pre ts' where l: "starts_loop fuel kid accept maxhits nd [] s st1 = Inr (xs, s', st')" "ok s'" "holds_tries st' ts'"
    "same_search st1 st'" "offsets (t # ts1) = pre @ offsets ts'" "xs = [] @ filter P pre" "length xs \<le> maxhits"
    "length xs = maxhits \<or> ts' = []" "(\<Sum>t\<leftarrow>ts'. nodes t) < (\<Sum>t\<leftarrow>t # ts1. nodes t)"
    using starts_loop_ok [OF assms(1) p(2,3) acc m] by (elim exE conjE) (rule that)
  have "load_starts fuel kid accept maxhits s st = Inr (xs, s', st')"
    using False empty_tries [OF assms(2)] p(1) l(1) by (simp add: load_starts_def)
  moreover have "same_search st st'" using p(4) l(4) by (simp add: same_search_def)
  moreover have "xs = take maxhits (filter P (offsets ts))" using l(5-8) ts by auto
  ultimately show ?thesis using that l ts by simp
qed

end

subsection \<open>The file as a trie\<close>

text \<open>A start of the trie is the node of some subtrie with some parent.\<close>

definition trie_at :: "search_cf \<Rightarrow> patrie_node \<Rightarrow> trie \<Rightarrow> bool" where
  "trie_at cf nd t = (\<exists>h. node_at cf nd (h, t))"

interpretation paged: trie_nav getPagedTrieChild "nav_ok cf0" "trie_at cf0" for cf0
proof
  fix s nd h l r c
  assume s: "nav_ok cf0 s" and n: "trie_at cf0 nd (Fork h l r)"
  then obtain h0 p Ss gs j i q where g: "group_ok cf0 p Ss gs" "j < length Ss" "i < sc_lpp cf0"
    "placed (3 + t_counts (left_of gs) (int (length (row (sc_lpp cf0) (concat (take j Ss))))) (length (row (sc_lpp cf0) (Ss ! j)))) (Ss ! j) i q nd"
    "row i (Ss ! j) ! q = (h0, Fork h l r)" "pn_pageNum nd = int (p + j)" "(pn_lev nd - 1) mod int (sc_lpp cf0) = int i" "pn_height nd = h - 1"
    unfolding trie_at_def node_at_def by auto
  show "\<exists>nd' s'. getPagedTrieChild c nd s = Inr (nd', s') \<and> nav_ok cf0 s' \<and> trie_at cf0 nd' (side c l r)"
    using child_same_page [OF g(1,2) _ g(4-8) s, of c] child_other_page [OF g(1,2) _ g(4-8) s, of c] g(3)
    unfolding trie_at_def by (metis Suc_lessI)
next
  fix nd t
  assume "trie_at cf0 nd t"
  then show "pn_is_skip nd \<noteq> 0 \<longleftrightarrow> is_fork t" by (auto simp: trie_at_def node_at_def placed_def)
next
  fix nd v
  assume "trie_at cf0 nd (Start v)"
  then show "pn_val nd = v" by (auto simp: trie_at_def node_at_def placed_def node_of_def)
next
  fix nd h l r
  assume "trie_at cf0 nd (Fork h l r)"
  then show "pn_height nd = h - 1" by (auto simp: trie_at_def node_at_def)
qed

text \<open>A file that holds a trie has its root on the last page.\<close>

definition file_of :: "search_cf \<Rightarrow> trie \<Rightarrow> bool" where
  "file_of cf t = (0 < sc_size cf \<and> trie_ok t \<and>
     (\<exists>p gs. group_ok cf p [[(- 1, t)]] gs \<and> length (sc_file cf) = Suc p * sc_size cf))"

definition page_buffer :: "search_cf \<Rightarrow> bool" where
  "page_buffer cf = (\<exists>pg. sc_page cf = Some pg \<and> length (pg_bits pg) = sc_size cf)"

lemma getTrieRoot_ok:
  assumes f: "file_of cf t" and b: "page_buffer cf"
  obtains nd cf' where "getTrieRoot cf = Inr (nd, cf')" "nav_ok cf cf'" "trie_at cf nd t"
proof -
  obtain p gs where g: "group_ok cf p [[(- 1, t)]] gs" "length (sc_file cf) = Suc p * sc_size cf" and sz: "0 < sc_size cf" and t: "trie_ok t"
    using f by (auto simp: file_of_def)
  obtain old where old: "cf = cf\<lparr>sc_page := Some old\<rparr>" "length (pg_bits old) = sc_size cf"
    using b unfolding page_buffer_def by (cases cf) auto
  let ?S = "[(- 1, t)] :: forest" and ?L = "sc_lpp cf"
  let ?T = "t_counts (left_of gs) 0 (length (row ?L ?S))"
  have ph: "holds cf p (left_of gs) (first_of gs) 0 ?S" using group_holds [OF g(1), of 0] by simp
  obtain pg where pg: "loadPage (int p) cf = Inr (cf\<lparr>sc_page := Some pg\<rparr>)" "page_in cf p pg"
    using loadPage_ok [OF ph old(2)] old(1) by metis
  note pb = page_holds_bits [OF ph]
  have bits: "pg_bits pg = take (sc_size cf) (drop (p * sc_size cf) (sc_file cf))" "pg_nodeBitOff pg = 32 * int (3 + ?T)" "pg_num pg = Some (int p)"
    using pg(2) pb(4) by (simp_all add: page_in_def Let_def)
  have onb: "on_bits (pg_bits pg) (3 + ?T) ?S ?L" using pb(5) unfolding bits(1) .
  have L: "0 < ?L" and fS: "forest_ok ?S" using g(1) by (simp_all add: group_ok_def)
  have c: "3 + ?T < length (pg_bits pg)" "pg_bits pg ! (3 + ?T) = paged_cell (node_of (- 1, t))"
    using onb L unfolding on_bits_def by (force simp: cell_of_def cells_def)+
  have g1: "getNodeAt (pg_nodeBitOff pg) (pg_bits pg) = Inr (is_fork t, nd_value (node_of (- 1, t)))"
    using getNodeAt_cell [OF fS _ c(1), of "(- 1, t)"] c(2) unfolding bits(2) by (simp add: skip_and_value_def)
  let ?v = "nd_value (node_of (- 1, t))"
  let ?nd = "\<lparr>pn_val = ?v, pn_is_skip = (if is_fork t then 1 else 0), pn_lev = 1, pn_height = ?v - 1, pn_pos = pg_nodeBitOff pg,
     pn_inode = (if is_fork t then 1 else 0), pn_enode = (if is_fork t then 0 else 1), pn_tnode = 1, pn_pageNum = int p\<rparr>"
  have num: "int (length (sc_file cf) div sc_size cf) - 1 = int p" using sz unfolding g(2) by simp
  have "getTrieRoot cf = Inr (?nd, cf\<lparr>sc_page := Some pg\<rparr>)"
    using sz g1 bits(3) unfolding getTrieRoot_def num pg(1) by simp
  moreover have "nav_ok cf (cf\<lparr>sc_page := Some pg\<rparr>)" using pg(2) unfolding nav_ok_def by blast
  moreover have "node_at cf ?nd (- 1, t)"
    unfolding node_at_def
  proof (intro exI conjI)
    show "group_ok cf p [[(- 1, t)]] gs" by (rule g(1))
    show "0 < length [[(- 1, t)] :: forest]" "0 < ?L" using L by simp_all
    show "row 0 ([[(- 1, t)]] ! 0) ! 0 = (- 1, t)" by simp
    show "placed (3 + t_counts (left_of gs) (int (length (row ?L (concat (take 0 [[(- 1, t)]]))))) (length (row ?L ([[(- 1, t)]] ! 0)))) ([[(- 1, t)]] ! 0) 0 0 ?nd"
      by (simp add: placed_def bits(2) cell_of_def cells_def)
    show "case snd (- 1, t) of Start s \<Rightarrow> True | Fork h l r \<Rightarrow> pn_height ?nd = h - 1" by (cases t) (simp_all add: node_of_def)
  qed simp_all
  ultimately show ?thesis using that by (auto simp: trie_at_def)
qed

lemma laid_out_file:
  assumes "laid_out (sc_size cf) (sc_lpp cf) (sc_file cf) [(- 1, t)] gs" "length (sc_file cf) = (fst (hd gs) + length (snd (hd gs))) * sc_size cf"
    and "trie_ok t" "int (nodes t) < INT_MAX" "0 < sc_lpp cf" "0 < sc_size cf"
  shows "file_of cf t"
proof -
  obtain p Ss gs' where gs: "gs = (p, Ss) # gs'" using assms(1) by (cases gs) auto
  then have c: "concat Ss = [(- 1, t)]" "[] \<notin> set Ss" using assms(1) by simp_all
  then obtain S Ss' where S: "Ss = S # Ss'" by (cases Ss) auto
  moreover have "S \<noteq> []" using c(2) S by auto
  ultimately have Ss: "S = [(- 1, t)]" "concat Ss' = []" using c(1) by (cases S; auto)+
  have "Ss' = []" using Ss(2) c(2) S by (cases Ss') auto
  then have Ss: "Ss = [[(- 1, t)]]" using S Ss(1) by simp
  have rows: "int (length (row m [(- 1, t)])) < INT_MAX" for m
  proof (cases "m < depth t")
    case True
    then have "levels t ! m \<in> set (levels t)" by (simp add: length_levels)
    then show ?thesis using length_level [of "levels t ! m" t] levels_row [OF True] assms(4) by simp
  qed (simp add: row_depth INT_MAX_def)
  have "forest_ok [(- 1, t)]" using assms(3) trie_ok_above [of t] above_mono [of 0 t "- 1"] by (simp add: forest_ok_def)
  then have "group_ok cf p [[(- 1, t)]] gs'" using assms(1,5) rows by (simp add: group_ok_def gs Ss)
  moreover have "length (sc_file cf) = Suc p * sc_size cf" using assms(2) by (simp add: gs Ss)
  ultimately show ?thesis using assms(3,6) unfolding file_of_def by blast
qed

end
