(* ===== verification/PatrieRuns.thy ===== *)
theory PatrieRuns
  imports PatrieSort
begin

section \<open>Patricia trie: merging one run into another\<close>

text \<open>
  Proofs about \<open>generateRun\<close> and the heights of a sorted chunk (\<open>PatrieSort\<close>).  Positions of the
  text are ranked by \<open>K\<close>, and \<open>H\<close> is the height between two of them.  The three loops of
  \<open>generateRun\<close>, which walk over both runs at once, do the same as putting every element of the
  earlier run into its gap of the current one (\<open>generateRun_put\<close>); \<open>run_ok\<close> says what a run
  element has recorded when all earlier runs have been put.
\<close>

subsection \<open>Where an earlier element falls\<close>

text \<open>
  \<open>K\<close> ranks the positions of the text, \<open>H\<close> is the height between two positions.  \<open>gap K ps x\<close> is
  the number of positions of \<open>ps\<close> (sorted) that come before \<open>x\<close>.
\<close>

definition gap :: "('p \<Rightarrow> 'k::linorder) \<Rightarrow> 'p list \<Rightarrow> 'p \<Rightarrow> nat" where
  "gap K ps x = length (takeWhile (\<lambda>y. K y < K x) ps)"

definition increasing :: "('p \<Rightarrow> 'k::linorder) \<Rightarrow> 'p list \<Rightarrow> bool" where
  "increasing K ps = sorted_wrt (\<lambda>x y. K x < K y) ps"

lemma increasing_nth: "increasing K ps \<Longrightarrow> i < j \<Longrightarrow> j < length ps \<Longrightarrow> K (ps ! i) < K (ps ! j)"
  by (simp add: increasing_def sorted_wrt_iff_nth_less)

lemma increasing_nth_iff: "increasing K ps \<Longrightarrow> i < length ps \<Longrightarrow> j < length ps \<Longrightarrow> K (ps ! i) < K (ps ! j) \<longleftrightarrow> i < j"
  by (metis increasing_nth linorder_neqE_nat less_asym less_irrefl)

lemma gap_le: "gap K ps x \<le> length ps"
  by (simp add: gap_def length_takeWhile_le)

lemma gap_before: "i < gap K ps x \<Longrightarrow> K (ps ! i) < K x"
proof -
  assume i: "i < gap K ps x"
  then have "takeWhile (\<lambda>y. K y < K x) ps ! i \<in> set (takeWhile (\<lambda>y. K y < K x) ps)" by (simp add: gap_def)
  with i show ?thesis by (metis gap_def set_takeWhileD takeWhile_nth)
qed

lemma gap_after: "increasing K ps \<Longrightarrow> gap K ps x \<le> i \<Longrightarrow> i < length ps \<Longrightarrow> K x \<le> K (ps ! i)"
proof -
  assume a: "increasing K ps" "gap K ps x \<le> i" "i < length ps"
  then have "\<not> K (ps ! gap K ps x) < K x"
    using nth_length_takeWhile [of "\<lambda>y. K y < K x" ps] by (simp add: gap_def)
  moreover have "K (ps ! gap K ps x) \<le> K (ps ! i)"
    using increasing_nth [OF a(1), of "gap K ps x" i] a by (cases "gap K ps x = i") auto
  ultimately show ?thesis by simp
qed

lemma gap_eqI:
  assumes "increasing K ps" "g \<le> length ps" "0 < g \<longrightarrow> K (ps ! (g - 1)) < K x" "g < length ps \<longrightarrow> K x \<le> K (ps ! g)"
  shows "gap K ps x = g"
proof (rule antisym)
  show "gap K ps x \<le> g"
    using gap_before [of g K ps x] assms(4) gap_le [of K ps x] by (meson linorder_not_le order_less_le_trans)
  show "g \<le> gap K ps x"
  proof (rule ccontr)
    assume n: "\<not> g \<le> gap K ps x"
    with gap_after [OF assms(1), of x "g - 1"] assms(2) have "K x \<le> K (ps ! (g - 1))" by simp
    with assms(3) n show False by auto
  qed
qed

lemma gap_mono: "increasing K ps \<Longrightarrow> K x \<le> K y \<Longrightarrow> gap K ps x \<le> gap K ps y"
proof (rule ccontr)
  assume a: "increasing K ps" "K x \<le> K y" "\<not> gap K ps x \<le> gap K ps y"
  then have "K (ps ! gap K ps y) < K x" using gap_before [of "gap K ps y" K ps x] by simp
  moreover have "K y \<le> K (ps ! gap K ps y)" using gap_after [OF a(1), of y "gap K ps y"] gap_le [of K ps x] a(3) by simp
  ultimately show False using a(2) by simp
qed

subsection \<open>Merging one run into another\<close>

text \<open>The effect of one element of an earlier run: \<open>d\<close> is its height with each element of the current run.\<close>

definition put_at :: "nat \<Rightarrow> (nat \<Rightarrow> nat) \<Rightarrow> RunElement list \<Rightarrow> RunElement list" where
  "put_at g d r =
     (let ra = (if g < length r then r[g := max_lh (d g) (incr_c (r ! g))] else r)
      in if 0 < g then ra[g - 1 := max_rh (d (g - 1)) (ra ! (g - 1))] else ra)"

lemma max_s [simp]: "re_s (max_lh d e) = re_s e" "re_s (max_rh d e) = re_s e" "re_s (incr_c e) = re_s e"
  by (simp_all add: max_lh_def max_rh_def incr_c_def)

lemma map_s_update: "re_s e = re_s (r ! i) \<Longrightarrow> map re_s (r[i := e]) = map re_s r"
  by (metis list_update_id map_update list_update_beyond nth_map not_le)

lemma put_at_s [simp]: "map re_s (put_at g d r) = map re_s r"
  by (simp add: put_at_def Let_def map_s_update nth_list_update)

lemma put_at_length [simp]: "length (put_at g d r) = length r"
  by (simp add: put_at_def Let_def)

text \<open>
  The comparison and the differing bit of two buffers agree with \<open>K\<close> and \<open>H\<close> on the positions
  \<open>at1 s\<close> and \<open>at2 u\<close>.
\<close>

definition agree :: "'arg sort_cf \<Rightarrow> cstr \<Rightarrow> cstr \<Rightarrow> ('p \<Rightarrow> 'k::linorder) \<Rightarrow> ('p \<Rightarrow> 'p \<Rightarrow> nat) \<Rightarrow> (nat \<Rightarrow> 'p) \<Rightarrow> (nat \<Rightarrow> 'p) \<Rightarrow> nat set \<Rightarrow> nat set \<Rightarrow> bool" where
  "agree cf t1 t2 K H at1 at2 S1 S2 =
     (\<forall>s\<in>S1. \<forall>u\<in>S2. K (at1 s) \<noteq> K (at2 u) \<and>
        (\<exists>v. cf_strcomp cf (str_at t1 s) (str_at t2 u) = Some v \<and> (v < 0 \<longleftrightarrow> K (at1 s) < K (at2 u)) \<and> (0 < v \<longleftrightarrow> K (at2 u) < K (at1 s))) \<and>
        (K (at1 s) < K (at2 u) \<longrightarrow> cf_diffbit cf (str_at t1 s) (str_at t2 u) = Some (H (at1 s) (at2 u))) \<and>
        (K (at2 u) < K (at1 s) \<longrightarrow> cf_diffbit cf (str_at t2 u) (str_at t1 s) = Some (H (at1 s) (at2 u))))"

lemma agree_cmp:
  assumes "agree cf t1 t2 K H at1 at2 S1 S2" "re_s x \<in> S1" "re_s y \<in> S2"
  obtains v where "cmp_at (cf_strcomp cf) t1 x t2 y = Inr v" "v < 0 \<longleftrightarrow> K (at1 (re_s x)) < K (at2 (re_s y))"
    "0 < v \<longleftrightarrow> K (at2 (re_s y)) < K (at1 (re_s x))" "v \<noteq> 0"
proof -
  from assms have "K (at1 (re_s x)) \<noteq> K (at2 (re_s y))" and "\<exists>v. cf_strcomp cf (str_at t1 (re_s x)) (str_at t2 (re_s y)) = Some v \<and>
      (v < 0 \<longleftrightarrow> K (at1 (re_s x)) < K (at2 (re_s y))) \<and> (0 < v \<longleftrightarrow> K (at2 (re_s y)) < K (at1 (re_s x)))"
    unfolding agree_def by blast+
  then obtain v where v: "cf_strcomp cf (str_at t1 (re_s x)) (str_at t2 (re_s y)) = Some v"
    "v < 0 \<longleftrightarrow> K (at1 (re_s x)) < K (at2 (re_s y))" "0 < v \<longleftrightarrow> K (at2 (re_s y)) < K (at1 (re_s x))" by blast
  with \<open>K (at1 (re_s x)) \<noteq> K (at2 (re_s y))\<close> have "v \<noteq> 0" by auto
  with v that show ?thesis by (simp add: cmp_at_def)
qed

lemma agree_diff:
  assumes "agree cf t1 t2 K H at1 at2 S1 S2" "re_s x \<in> S1" "re_s y \<in> S2"
  shows "K (at1 (re_s x)) < K (at2 (re_s y)) \<Longrightarrow> diff_at (cf_diffbit cf) t1 x t2 y = Inr (H (at1 (re_s x)) (at2 (re_s y)))"
    and "K (at2 (re_s y)) < K (at1 (re_s x)) \<Longrightarrow> diff_at (cf_diffbit cf) t2 y t1 x = Inr (H (at1 (re_s x)) (at2 (re_s y)))"
  using assms unfolding agree_def by (auto simp: diff_at_def)

lemma map_s_nth: "map re_s r = us \<Longrightarrow> i < length us \<Longrightarrow> re_s (r ! i) = us ! i"
  by (metis length_map nth_map)

text \<open>The specification of \<open>generateRun\<close>: every element of the earlier run on its own.\<close>

definition put_all :: "('p \<Rightarrow> 'k::linorder) \<Rightarrow> ('p \<Rightarrow> 'p \<Rightarrow> nat) \<Rightarrow> 'p list \<Rightarrow> 'p list \<Rightarrow> RunElement list \<Rightarrow> RunElement list" where
  "put_all K H xs ps r = fold (\<lambda>x. put_at (gap K ps x) (\<lambda>i. H x (ps ! i))) xs r"

lemma put_all_simps [simp]:
  "put_all K H [] ps r = r"
  "put_all K H (x # xs) ps r = put_all K H xs ps (put_at (gap K ps x) (\<lambda>i. H x (ps ! i)) r)"
  by (simp_all add: put_all_def)

lemma put_all_s: "map re_s (put_all K H xs ps r) = map re_s r"
  by (induction xs arbitrary: r) simp_all

lemma generate_first_put:
  assumes "agree cf t1 t2 K H at1 at2 S1 (set us)" "us \<noteq> []"
  shows "set (map re_s r1) \<subseteq> S1 \<Longrightarrow> map re_s r2 = us \<Longrightarrow>
    \<exists>xs ys. r1 = xs @ ys \<and> (ys \<noteq> [] \<longrightarrow> K (at2 (hd us)) < K (at1 (re_s (hd ys)))) \<and>
      generate_first cf t1 t2 r1 r2 = Inr (ys, put_all K H (map (at1 \<circ> re_s) xs) (map at2 us) r2)"
proof (induction r1 arbitrary: r2)
  case Nil
  show ?case by (intro exI [of _ "[]"]) simp
next
  case (Cons x r1)
  then obtain y ys where r2: "r2 = y # ys" "us = re_s y # map re_s ys" using assms(2) by (cases r2) auto
  have in_S: "re_s x \<in> S1" "re_s y \<in> set us" using Cons.prems r2 by auto
  obtain v where v: "cmp_at (cf_strcomp cf) t1 x t2 y = Inr v" "v < 0 \<longleftrightarrow> K (at1 (re_s x)) < K (at2 (re_s y))"
    "0 < v \<longleftrightarrow> K (at2 (re_s y)) < K (at1 (re_s x))" "v \<noteq> 0" by (rule agree_cmp [OF assms(1) in_S])
  show ?case
  proof (cases "v < 0")
    case True
    let ?r2 = "max_lh (H (at1 (re_s x)) (at2 (re_s y))) (incr_c y) # ys"
    have g: "gap K (map at2 us) (at1 (re_s x)) = 0" using True v(2) r2 by (simp add: gap_def)
    have p: "put_at 0 (\<lambda>i. H (at1 (re_s x)) (map at2 us ! i)) r2 = ?r2" using r2 by (simp add: put_at_def)
    have pr: "set (map re_s r1) \<subseteq> S1" "map re_s ?r2 = us" using Cons.prems r2 by auto
    from Cons.IH [OF pr] obtain xs zs where xs: "r1 = xs @ zs" "zs \<noteq> [] \<longrightarrow> K (at2 (hd us)) < K (at1 (re_s (hd zs)))"
      "generate_first cf t1 t2 r1 ?r2 = Inr (zs, put_all K H (map (at1 \<circ> re_s) xs) (map at2 us) ?r2)" by (elim exE conjE) (rule that)
    have "generate_first cf t1 t2 (x # r1) r2 = generate_first cf t1 t2 r1 ?r2"
      using True v(1,2) agree_diff(1) [OF assms(1) in_S] r2(1) by simp
    moreover have "put_all K H (map (at1 \<circ> re_s) (x # xs)) (map at2 us) r2 = put_all K H (map (at1 \<circ> re_s) xs) (map at2 us) ?r2"
      by (simp only: list.map put_all_simps comp_apply g p)
    ultimately have "generate_first cf t1 t2 (x # r1) r2 = Inr (zs, put_all K H (map (at1 \<circ> re_s) (x # xs)) (map at2 us) r2)"
      using xs(3) by (simp only:)
    moreover have "x # r1 = (x # xs) @ zs" using xs(1) by simp
    ultimately show ?thesis using xs(2) by blast
  next
    case False
    with v r2 show ?thesis by (intro exI [of _ "[]"] exI [of _ "x # r1"]) simp
  qed
qed

lemma at_nth: "map re_s r2 = us \<Longrightarrow> j < length us \<Longrightarrow> map at2 us ! j = at2 (re_s (r2 ! j)) \<and> re_s (r2 ! j) \<in> set us"
  by (auto simp: map_s_nth)

lemma gap_greater: "increasing K ps \<Longrightarrow> j < length ps \<Longrightarrow> K (ps ! j) < K x \<Longrightarrow> j < gap K ps x"
  using gap_after [of K ps x j] by (meson leD not_le)

lemma gap_not_greater: "K x < K (ps ! j) \<Longrightarrow> gap K ps x \<le> j"
  using gap_before [of j K ps x] by (meson leI less_asym)

lemma generate_second_put:
  assumes ag: "agree cf t1 t2 K H at1 at2 S1 (set us)" and inc: "increasing K (map at2 us)"
  shows "set (map re_s r1) \<subseteq> S1 \<Longrightarrow> map re_s r2 = us \<Longrightarrow> increasing K (map (at1 \<circ> re_s) r1) \<Longrightarrow>
    (r1 \<noteq> [] \<longrightarrow> max 1 j \<le> gap K (map at2 us) (at1 (re_s (hd r1)))) \<Longrightarrow>
    \<exists>xs ys j'. r1 = xs @ ys \<and> (ys \<noteq> [] \<longrightarrow> j' = length us \<and> gap K (map at2 us) (at1 (re_s (hd ys))) = j') \<and>
      generate_second cf t1 t2 r1 j r2 = Inr (ys, j', put_all K H (map (at1 \<circ> re_s) xs) (map at2 us) r2)"
proof (induction "length r1 + (length us - j)" arbitrary: r1 r2 j rule: less_induct)
  case less
  note IH = less.hyps and prems = less.prems
  have len: "length r2 = length us" using prems(2) by auto
  show ?case
  proof (cases r1)
    case Nil
    then show ?thesis by (intro exI [of _ "[]"]) (simp add: generate_second.simps)
  next
    case r1: (Cons x r1')
    let ?g = "gap K (map at2 us) (at1 (re_s x))"
    have g: "max 1 j \<le> ?g" "?g \<le> length us" using prems(4) r1 gap_le [of K "map at2 us"] by auto
    show ?thesis
    proof (cases "j < length us")
      case False
      then have "generate_second cf t1 t2 r1 j r2 = Inr (r1, j, r2)" by (subst generate_second.simps) (simp add: r1 len)
      with False g r1 show ?thesis by (intro exI [of _ "[]"] exI [of _ r1] exI [of _ j]) simp
    next
      case True
      have in_S: "re_s x \<in> S1" "re_s (r2 ! j) \<in> set us" using prems(1,2) r1 True at_nth [of r2 us j] by auto
      obtain v where v: "cmp_at (cf_strcomp cf) t1 x t2 (r2 ! j) = Inr v" "v < 0 \<longleftrightarrow> K (at1 (re_s x)) < K (at2 (re_s (r2 ! j)))"
        "0 < v \<longleftrightarrow> K (at2 (re_s (r2 ! j))) < K (at1 (re_s x))" "v \<noteq> 0" by (rule agree_cmp [OF ag in_S])
      have nth: "map at2 us ! j = at2 (re_s (r2 ! j))" using at_nth [OF prems(2) True] by blast
      show ?thesis
      proof (cases "0 \<le> v")
        case pos: True
        then have "j < ?g" using gap_greater [OF inc, of j "at1 (re_s x)"] v(3,4) True nth by simp
        then have "r1 \<noteq> [] \<longrightarrow> max 1 (Suc j) \<le> gap K (map at2 us) (at1 (re_s (hd r1)))" using g(1) r1 by simp
        from IH [OF _ prems(1-3) this] obtain xs ys j' where "r1 = xs @ ys"
          "ys \<noteq> [] \<longrightarrow> j' = length us \<and> gap K (map at2 us) (at1 (re_s (hd ys))) = j'"
          "generate_second cf t1 t2 r1 (Suc j) r2 = Inr (ys, j', put_all K H (map (at1 \<circ> re_s) xs) (map at2 us) r2)"
          using True by (metis (no_types, lifting) add_less_cancel_left diff_less_mono2 lessI)
        moreover have "generate_second cf t1 t2 r1 j r2 = generate_second cf t1 t2 r1 (Suc j) r2"
          by (subst generate_second.simps) (use r1 True v(1) pos len in simp)
        ultimately show ?thesis by (metis (no_types, lifting))
      next
        case neg: False
        then have "?g \<le> j" using gap_not_greater [of K "at1 (re_s x)" "map at2 us" j] v(2) nth by simp
        with g have gj: "?g = j" "0 < j" by auto
        let ?d = "\<lambda>i. H (at1 (re_s x)) (map at2 us ! i)" and ?r2 = "put_at j (\<lambda>i. H (at1 (re_s x)) (map at2 us ! i)) r2"
        let ?r2a = "r2[j := max_lh (?d j) (incr_c (r2 ! j))]"
        have s: "re_s (?r2a ! (j - 1)) \<in> set us" "at2 (re_s (?r2a ! (j - 1))) = map at2 us ! (j - 1)"
          using at_nth [OF prems(2), of "j - 1" at2] True gj by auto
        have "K (map at2 us ! (j - 1)) < K (at1 (re_s x))" using gap_before [of "j - 1" K "map at2 us" "at1 (re_s x)"] gj by simp
        with agree_diff(2) [OF ag in_S(1) s(1)] s(2) have d2: "diff_at (cf_diffbit cf) t2 (?r2a ! (j - 1)) t1 x = Inr (?d (j - 1))" by simp
        have d1: "diff_at (cf_diffbit cf) t1 x t2 (r2 ! j) = Inr (?d j)" using agree_diff(1) [OF ag in_S] v(2) neg nth by simp
        have e: "generate_second cf t1 t2 r1 j r2 = generate_second cf t1 t2 r1' j ?r2"
          by (subst generate_second.simps) (use r1 True v(1) neg len gj d1 d2 in \<open>simp add: put_at_def Let_def\<close>)
        have "r1' \<noteq> [] \<longrightarrow> max 1 j \<le> gap K (map at2 us) (at1 (re_s (hd r1')))"
          using prems(3) r1 g(1) gap_mono [OF inc, of "at1 (re_s x)" "at1 (re_s (hd r1'))"]
          by (cases r1') (auto simp: increasing_def intro: order_trans less_imp_le)
        moreover have "set (map re_s r1') \<subseteq> S1" "map re_s ?r2 = us" "increasing K (map (at1 \<circ> re_s) r1')" "length r1' + (length us - j) < length r1 + (length us - j)"
          using prems(1-3) r1 by (auto simp: increasing_def)
        ultimately obtain xs ys j' where xs: "r1' = xs @ ys"
          "ys \<noteq> [] \<longrightarrow> j' = length us \<and> gap K (map at2 us) (at1 (re_s (hd ys))) = j'"
          "generate_second cf t1 t2 r1' j ?r2 = Inr (ys, j', put_all K H (map (at1 \<circ> re_s) xs) (map at2 us) ?r2)"
          using IH [of r1' j ?r2] by blast
        have "put_all K H (map (at1 \<circ> re_s) (x # xs)) (map at2 us) r2 = put_all K H (map (at1 \<circ> re_s) xs) (map at2 us) ?r2"
          by (simp only: list.map put_all_simps comp_apply gj(1))
        with xs e r1 show ?thesis by (metis (no_types, lifting) append_Cons)
      qed
    qed
  qed
qed

lemma generate_third_put:
  assumes ag: "agree cf t1 t2 K H at1 at2 S1 (set us)" and inc: "increasing K (map at2 us)" and "us \<noteq> []"
  shows "set (map re_s r1) \<subseteq> S1 \<Longrightarrow> map re_s r2 = us \<Longrightarrow> (\<forall>x\<in>set r1. gap K (map at2 us) (at1 (re_s x)) = length us) \<Longrightarrow>
    generate_third cf t1 t2 r1 (length us - 1) r2 = Inr (put_all K H (map (at1 \<circ> re_s) r1) (map at2 us) r2)"
proof (induction r1 arbitrary: r2)
  case (Cons x r1)
  let ?j = "length us - 1"
  have j: "?j < length us" using assms(3) by simp
  have len: "length r2 = length us" using Cons.prems(2) by auto
  have in_S: "re_s x \<in> S1" "re_s (r2 ! ?j) \<in> set us" using Cons.prems(1,2) at_nth [of r2 us ?j] j by auto
  have nth: "map at2 us ! ?j = at2 (re_s (r2 ! ?j))" using at_nth [OF Cons.prems(2) j] by blast
  have g: "gap K (map at2 us) (at1 (re_s x)) = length us" using Cons.prems(3) by simp
  then have less: "K (at2 (re_s (r2 ! ?j))) < K (at1 (re_s x))" using gap_before [of ?j K "map at2 us" "at1 (re_s x)"] j nth by simp
  obtain v where v: "cmp_at (cf_strcomp cf) t1 x t2 (r2 ! ?j) = Inr v" "0 < v \<longleftrightarrow> K (at2 (re_s (r2 ! ?j))) < K (at1 (re_s x))"
    by (rule agree_cmp [OF ag in_S])
  let ?r2 = "put_at (length us) (\<lambda>i. H (at1 (re_s x)) (map at2 us ! i)) r2"
  have "?r2 = r2[?j := max_rh (H (at1 (re_s x)) (at2 (re_s (r2 ! ?j)))) (r2 ! ?j)]" using assms(3) len nth by (simp add: put_at_def)
  then have "generate_third cf t1 t2 (x # r1) ?j r2 = generate_third cf t1 t2 r1 ?j ?r2"
    using v less j len agree_diff(2) [OF ag in_S less] by simp
  also have "\<dots> = Inr (put_all K H (map (at1 \<circ> re_s) r1) (map at2 us) ?r2)" by (rule Cons.IH) (use Cons.prems in auto)
  finally show ?case by (simp add: g comp_def)
qed simp

lemma generateRun_put:
  assumes "agree cf t1 t2 K H at1 at2 (set (map re_s r1)) (set (map re_s r2))" "r2 \<noteq> []"
    and "increasing K (map (at1 \<circ> re_s) r1)" "increasing K (map (at2 \<circ> re_s) r2)"
  shows "generateRun cf r1 t1 r2 t2 = Inr (put_all K H (map (at1 \<circ> re_s) r1) (map (at2 \<circ> re_s) r2) r2)"
proof -
  define us where "us = map re_s r2"
  have us: "us \<noteq> []" "map (at2 \<circ> re_s) r2 = map at2 us" "map re_s r2 = us" using assms(2) by (simp_all add: us_def)
  have ag: "agree cf t1 t2 K H at1 at2 (set (map re_s r1)) (set us)" using assms(1) by (simp add: us_def)
  have inc: "increasing K (map at2 us)" using assms(4) us by simp
  let ?put = "\<lambda>xs. put_all K H (map (at1 \<circ> re_s) xs) (map at2 us)"
  from generate_first_put [OF ag us(1) order_refl us(3)] obtain xs ys where f: "r1 = xs @ ys"
    "ys \<noteq> [] \<longrightarrow> K (at2 (hd us)) < K (at1 (re_s (hd ys)))" "generate_first cf t1 t2 r1 r2 = Inr (ys, ?put xs r2)"
    by (elim exE conjE) (rule that)
  have p1: "set (map re_s ys) \<subseteq> set (map re_s r1)" "map re_s (?put xs r2) = us" "increasing K (map (at1 \<circ> re_s) ys)"
    using f(1) us(3) assms(3) by (auto simp: put_all_s increasing_def sorted_wrt_append)
  have "ys \<noteq> [] \<longrightarrow> max 1 0 \<le> gap K (map at2 us) (at1 (re_s (hd ys)))"
    using f(2) us(1) by (cases us) (auto simp: gap_def)
  from generate_second_put [OF ag inc p1 this] obtain xs2 ys2 j where s: "ys = xs2 @ ys2"
    "ys2 \<noteq> [] \<longrightarrow> j = length us \<and> gap K (map at2 us) (at1 (re_s (hd ys2))) = j"
    "generate_second cf t1 t2 ys 0 (?put xs r2) = Inr (ys2, j, ?put xs2 (?put xs r2))"
    by (elim exE conjE) (rule that)
  let ?r = "?put xs2 (?put xs r2)"
  have len: "length ?r = length us" by (metis length_map p1(2) put_all_s)
  have "generate_third cf t1 t2 ys2 (if j = length ?r then j - 1 else j) ?r = Inr (?put ys2 ?r)"
  proof (cases "ys2 = []")
    case False
    then have gaps: "\<forall>x\<in>set ys2. gap K (map at2 us) (at1 (re_s x)) = length us"
    proof (intro ballI antisym)
      fix x assume x: "x \<in> set ys2"
      show "gap K (map at2 us) (at1 (re_s x)) \<le> length us" using gap_le [of K "map at2 us"] by simp
      have "K (at1 (re_s (hd ys2))) \<le> K (at1 (re_s x))"
        using p1(3) s(1) x by (cases ys2) (auto simp: increasing_def sorted_wrt_append)
      then show "length us \<le> gap K (map at2 us) (at1 (re_s x))"
        using gap_mono [OF inc, of "at1 (re_s (hd ys2))" "at1 (re_s x)"] s(2) False by simp
    qed
    have sub: "set (map re_s ys2) \<subseteq> set (map re_s r1)" "map re_s ?r = us" using f(1) s(1) us(3) by (auto simp: put_all_s)
    have "(if j = length ?r then j - 1 else j) = length us - 1" using s(2) len False by simp
    then show ?thesis using generate_third_put [OF ag inc us(1) sub gaps] by (simp only:)
  qed simp
  moreover have "?put ys2 ?r = ?put r1 r2" using f(1) s(1) by (simp add: put_all_def)
  ultimately show ?thesis using f(3) s(3) us(2) by (simp add: generateRun_def)
qed

subsection \<open>What a run element records\<close>

definition lefts :: "('p \<Rightarrow> 'k::linorder) \<Rightarrow> ('p \<Rightarrow> 'p \<Rightarrow> nat) \<Rightarrow> 'p list \<Rightarrow> 'p list \<Rightarrow> nat \<Rightarrow> nat set" where
  "lefts K H prev ps i = (\<lambda>x. H x (ps ! i)) ` {x \<in> set prev. gap K ps x = i} \<union> (if 0 < i then {H (ps ! (i - 1)) (ps ! i)} else {})"

definition rights :: "('p \<Rightarrow> 'k::linorder) \<Rightarrow> ('p \<Rightarrow> 'p \<Rightarrow> nat) \<Rightarrow> 'p list \<Rightarrow> 'p list \<Rightarrow> nat \<Rightarrow> nat set" where
  "rights K H prev ps i = (\<lambda>x. H x (ps ! i)) ` {x \<in> set prev. gap K ps x = Suc i} \<union> (if Suc i < length ps then {H (ps ! i) (ps ! Suc i)} else {})"

definition max0 :: "nat set \<Rightarrow> nat" where
  "max0 S = Max (insert 0 S)"

definition elt_ok :: "('p \<Rightarrow> 'k::linorder) \<Rightarrow> ('p \<Rightarrow> 'p \<Rightarrow> nat) \<Rightarrow> 'p list \<Rightarrow> 'p list \<Rightarrow> nat \<Rightarrow> RunElement \<Rightarrow> bool" where
  "elt_ok K H prev ps i e = (re_c e = length (filter (\<lambda>x. gap K ps x = i) prev) \<and>
     unat (re_lh e) = max0 (lefts K H prev ps i) \<and> unat (re_rh e) = max0 (rights K H prev ps i))"

definition run_ok :: "('p \<Rightarrow> 'k::linorder) \<Rightarrow> ('p \<Rightarrow> 'p \<Rightarrow> nat) \<Rightarrow> (nat \<Rightarrow> 'p) \<Rightarrow> 'p list \<Rightarrow> 'p list \<Rightarrow> RunElement list \<Rightarrow> bool" where
  "run_ok K H at prev ps r = (map (at \<circ> re_s) r = ps \<and> (\<forall>i<length ps. elt_ok K H prev ps i (r ! i)))"

lemma finite_lefts [simp]: "finite (lefts K H prev ps i)" "finite (rights K H prev ps i)"
  by (simp_all add: lefts_def rights_def)

lemma lefts_snoc: "lefts K H (prev @ [x]) ps i = (if gap K ps x = i then insert (H x (ps ! i)) (lefts K H prev ps i) else lefts K H prev ps i)"
  by (auto simp: lefts_def)

lemma rights_snoc: "rights K H (prev @ [x]) ps i = (if gap K ps x = Suc i then insert (H x (ps ! i)) (rights K H prev ps i) else rights K H prev ps i)"
  by (auto simp: rights_def)

lemma unat_max16: "d < 65536 \<Longrightarrow> unat (of_nat (max (unat (w :: 16 word)) d) :: 16 word) = max (unat w) d"
proof -
  assume "d < 65536"
  moreover have "unat w < 65536" using unsigned_less [of w, where 'a = nat] by simp
  ultimately show ?thesis by (simp add: unat_of_nat)
qed

lemma max0_simps [simp]: "max0 {} = 0" "finite S \<Longrightarrow> max0 (insert d S) = max (max0 S) d"
  by (simp_all add: max0_def insert_commute [of 0] max.commute)

lemma max_fields [simp]:
  "re_c (max_lh d e) = re_c e" "re_c (max_rh d e) = re_c e" "re_c (incr_c e) = Suc (re_c e)"
  "re_rh (max_lh d e) = re_rh e" "re_lh (max_rh d e) = re_lh e" "re_lh (incr_c e) = re_lh e" "re_rh (incr_c e) = re_rh e"
  "d < 65536 \<Longrightarrow> unat (re_lh (max_lh d e)) = max (unat (re_lh e)) d"
  "d < 65536 \<Longrightarrow> unat (re_rh (max_rh d e)) = max (unat (re_rh e)) d"
  by (simp_all add: max_lh_def max_rh_def incr_c_def unat_max16)

lemma put_at_nth: "i < length r \<Longrightarrow> put_at g d r ! i =
   (if i = g then max_lh (d i) (incr_c (r ! i)) else if Suc i = g then max_rh (d i) (r ! i) else r ! i)"
  by (auto simp: put_at_def Let_def nth_list_update)

lemma put_ok:
  assumes "run_ok K H at prev ps r" "\<forall>i<length ps. H x (ps ! i) < 65536"
  shows "run_ok K H at (prev @ [x]) ps (put_at (gap K ps x) (\<lambda>i. H x (ps ! i)) r)"
proof -
  have len: "length r = length ps" and s: "map (at \<circ> re_s) r = ps" using assms(1) by (auto simp: run_ok_def)
  have "elt_ok K H (prev @ [x]) ps i (put_at (gap K ps x) (\<lambda>i. H x (ps ! i)) r ! i)" if i: "i < length ps" for i
  proof -
    have e: "elt_ok K H prev ps i (r ! i)" using assms(1) i by (simp add: run_ok_def)
    have d: "H x (ps ! i) < 65536" using assms(2) i by simp
    show ?thesis
      using e i len max_fields(8) [OF d, of "incr_c (r ! i)"] max_fields(9) [OF d, of "r ! i"]
      by (auto simp: put_at_nth elt_ok_def lefts_snoc rights_snoc)
  qed
  moreover have "map (at \<circ> re_s) (put_at (gap K ps x) (\<lambda>i. H x (ps ! i)) r) = ps"
    by (metis list.map_comp put_at_s s)
  ultimately show ?thesis by (simp add: run_ok_def)
qed

lemma put_all_ok:
  assumes "run_ok K H at prev ps r" "\<forall>x\<in>set xs. \<forall>i<length ps. H x (ps ! i) < 65536"
  shows "run_ok K H at (prev @ xs) ps (put_all K H xs ps r)"
  using assms
proof (induction xs arbitrary: prev r)
  case (Cons x xs)
  then have "run_ok K H at (prev @ [x]) ps (put_at (gap K ps x) (\<lambda>i. H x (ps ! i)) r)" by (intro put_ok) auto
  from Cons.IH [OF this] Cons.prems show ?case by simp
qed simp

text \<open>The heights between neighbours, before any merging.\<close>

lemma set_heights_nth:
  assumes "\<forall>i. Suc i < length es \<longrightarrow> cf_diffbit cf (str_at buf (re_s (es ! i))) (str_at buf (re_s (es ! Suc i))) = Some (d i)"
  shows "\<exists>r. set_heights cf buf es = Inr r \<and> length r = length es \<and>
    (\<forall>i<length es. r ! i = (es ! i)\<lparr>re_c := (if Suc i < length es then 0 else re_c (es ! i)),
       re_lh := (if i = 0 then re_lh (es ! i) else of_nat (d (i - 1))), re_rh := (if Suc i < length es then of_nat (d i) else re_rh (es ! i))\<rparr>)"
  using assms
proof (induction cf buf es arbitrary: d rule: set_heights.induct)
  case (1 cf buf x y es)
  define x1 where "x1 = x\<lparr>re_c := 0, re_rh := of_nat (d 0)\<rparr>"
  let ?y = "y\<lparr>re_lh := re_rh x1\<rparr>" and ?e = "\<lambda>es d i. (es ! i)\<lparr>re_c := (if Suc i < length es then 0 else re_c (es ! i)),
       re_lh := (if i = 0 then re_lh (es ! i) else of_nat (d (i - 1))), re_rh := (if Suc i < length es then of_nat (d i) else re_rh (es ! i))\<rparr>"
  have d0: "diff_at (cf_diffbit cf) buf x buf y = Inr (d 0)"
    using "1.prems" [rule_format, of 0] by (simp add: diff_at_def)
  have "\<forall>i. Suc i < length (?y # es) \<longrightarrow> cf_diffbit cf (str_at buf (re_s ((?y # es) ! i))) (str_at buf (re_s ((?y # es) ! Suc i))) = Some ((d \<circ> Suc) i)"
  proof (intro allI impI)
    fix i assume "Suc i < length (?y # es)"
    with "1.prems" [rule_format, of "Suc i"]
    show "cf_diffbit cf (str_at buf (re_s ((?y # es) ! i))) (str_at buf (re_s ((?y # es) ! Suc i))) = Some ((d \<circ> Suc) i)" by (cases i) auto
  qed
  from "1.IH" [OF d0 x1_def this] obtain r where r: "set_heights cf buf (?y # es) = Inr r" "length r = length (?y # es)"
    "\<forall>i<length (?y # es). r ! i = ?e (?y # es) (d \<circ> Suc) i" by (elim exE conjE) (rule that)
  have "(x1 # r) ! i = ?e (x # y # es) d i" if i: "i < length (x # y # es)" for i
  proof (cases i)
    case 0
    then show ?thesis by (simp add: x1_def)
  next
    case (Suc j)
    with i r(3) have "r ! j = ?e (?y # es) (d \<circ> Suc) j" by simp
    with Suc show ?thesis by (cases j) (auto simp: x1_def)
  qed
  moreover have "set_heights cf buf (x # y # es) = Inr (x1 # r)" using d0 r(1) by (simp add: x1_def Let_def)
  ultimately show ?case using r(2) by (intro exI [of _ "x1 # r"]) auto
qed auto

lemma run_ok_start:
  assumes "map (at \<circ> re_s) es = ps" "\<forall>e\<in>set es. re_c e = 0 \<and> re_lh e = 0 \<and> re_rh e = 0"
    and "\<forall>i. Suc i < length es \<longrightarrow> cf_diffbit cf (str_at buf (re_s (es ! i))) (str_at buf (re_s (es ! Suc i))) = Some (H (ps ! i) (ps ! Suc i))"
    and "\<forall>i. Suc i < length es \<longrightarrow> H (ps ! i) (ps ! Suc i) < 65536"
  shows "\<exists>r. set_heights cf buf es = Inr r \<and> run_ok K H at [] ps r"
proof -
  from set_heights_nth [OF assms(3)] obtain r where r: "set_heights cf buf es = Inr r" "length r = length es"
    "\<forall>i<length es. r ! i = (es ! i)\<lparr>re_c := (if Suc i < length es then 0 else re_c (es ! i)),
       re_lh := (if i = 0 then re_lh (es ! i) else of_nat (H (ps ! (i - 1)) (ps ! Suc (i - 1)))),
       re_rh := (if Suc i < length es then of_nat (H (ps ! i) (ps ! Suc i)) else re_rh (es ! i))\<rparr>"
    by (elim exE conjE) (rule that)
  have len: "length ps = length es" using assms(1) by auto
  have "elt_ok K H [] ps i (r ! i)" if i: "i < length ps" for i
  proof -
    have z: "re_c (es ! i) = 0" "re_lh (es ! i) = 0" "re_rh (es ! i) = 0" using assms(2) i len by auto
    have u: "Suc j < length es \<Longrightarrow> unat (of_nat (H (ps ! j) (ps ! Suc j)) :: 16 word) = H (ps ! j) (ps ! Suc j)" for j
      using assms(4) by (simp add: unat_of_nat)
    show ?thesis using r(3) i len z u [of i] u [of "i - 1"] by (cases i) (auto simp: elt_ok_def lefts_def rights_def)
  qed
  moreover have "map (at \<circ> re_s) r = ps" using r(2,3) assms(1) by (auto simp: list_eq_iff_nth_eq)
  ultimately show ?thesis using r(1) by (auto simp: run_ok_def)
qed

end
