(* ===== verification/PatrieMerge.thy ===== *)
theory PatrieMerge
  imports PatrieRuns
begin

section \<open>Patricia trie: reading all runs in order\<close>

text \<open>
  Proofs about \<open>cmerge\<close>.  After \<open>n\<close> positions have been written, in order, the counter of a run is
  the number of positions of earlier runs written since its own last one.  The count of its next
  element says how many of them there will be, so the last run whose count has been reached holds
  the next position; and the greater of the two heights next to each other in the output is the
  height between their positions.
\<close>

subsection \<open>All runs and their merged order\<close>

definition covers :: "('p \<Rightarrow> 'k::linorder) \<Rightarrow> 'p list list \<Rightarrow> 'p list \<Rightarrow> bool" where
  "covers K pss G = (increasing K G \<and> (\<forall>ps\<in>set pss. increasing K ps) \<and> set G = \<Union> (set ` set pss) \<and> distinct (concat pss))"

lemma increasing_distinct: "increasing K xs \<Longrightarrow> distinct xs"
  by (induction xs) (auto simp: increasing_def)

lemma increasing_inj: "increasing K xs \<Longrightarrow> inj_on K (set xs)"
  by (induction xs) (auto simp: increasing_def)

lemma increasing_drop_le: "increasing K G \<Longrightarrow> n < length G \<Longrightarrow> y \<in> set (drop n G) \<Longrightarrow> y = G ! n \<or> K (G ! n) < K y"
  using in_set_conv_nth [of y "drop n G"] increasing_nth [of K G n] by (auto simp: in_set_conv_nth) (metis add_0_right add_less_cancel_left gr0I less_diff_conv add.commute)

lemma increasing_unique:
  assumes "increasing K xs" "increasing K ys" "set xs = set ys"
  shows "xs = ys"
proof -
  have s: "sorted_wrt (<) (map K zs)" if "increasing K zs" for zs using that by (simp add: increasing_def sorted_wrt_map)
  have "map K xs = map K ys"
    by (rule strict_sorted_equal) (use s [OF assms(1)] s [OF assms(2)] assms(3) in auto)
  then show ?thesis by (rule map_inj_on) (use increasing_inj [OF assms(2)] assms(3) in simp)
qed

definition cnt :: "'p list \<Rightarrow> 'p list \<Rightarrow> nat" where
  "cnt ps T = length (filter (\<lambda>x. x \<in> set ps) T)"

lemma covers_filter: "covers K pss G \<Longrightarrow> k < length pss \<Longrightarrow> filter (\<lambda>x. x \<in> set (pss ! k)) G = pss ! k"
  by (rule increasing_unique [of K]) (auto simp: covers_def increasing_def sorted_wrt_filter)

lemma covers_split:
  assumes "covers K pss G" "k < length pss"
  shows "filter (\<lambda>x. x \<in> set (pss ! k)) (take n G) = take (cnt (pss ! k) (take n G)) (pss ! k)"
    and "filter (\<lambda>x. x \<in> set (pss ! k)) (drop n G) = drop (cnt (pss ! k) (take n G)) (pss ! k)"
proof -
  let ?f = "filter (\<lambda>x. x \<in> set (pss ! k))"
  have "?f (take n G) @ ?f (drop n G) = pss ! k"
    using covers_filter [OF assms] by (simp flip: filter_append)
  then show "?f (take n G) = take (cnt (pss ! k) (take n G)) (pss ! k)" "?f (drop n G) = drop (cnt (pss ! k) (take n G)) (pss ! k)"
    unfolding cnt_def by (metis append_eq_conv_conj)+
qed

lemma cnt_le: "covers K pss G \<Longrightarrow> k < length pss \<Longrightarrow> cnt (pss ! k) (take n G) \<le> length (pss ! k)"
  using covers_split(1) [of K pss G k n] unfolding cnt_def by (metis length_take min.absorb_iff2 min.bounded_iff nat_le_linear)

lemma cnt_before: "covers K pss G \<Longrightarrow> k < length pss \<Longrightarrow> i < cnt (pss ! k) (take n G) \<Longrightarrow> pss ! k ! i \<in> set (take n G)"
proof -
  assume a: "covers K pss G" "k < length pss" "i < cnt (pss ! k) (take n G)"
  then have "pss ! k ! i = filter (\<lambda>x. x \<in> set (pss ! k)) (take n G) ! i" using covers_split(1) [OF a(1,2), of n] by simp
  moreover have "i < length (filter (\<lambda>x. x \<in> set (pss ! k)) (take n G))" using a(3) by (simp add: cnt_def)
  ultimately have "pss ! k ! i \<in> set (filter (\<lambda>x. x \<in> set (pss ! k)) (take n G))" by (metis nth_mem)
  then show ?thesis by simp
qed

lemma cnt_after: "covers K pss G \<Longrightarrow> k < length pss \<Longrightarrow> cnt (pss ! k) (take n G) \<le> i \<Longrightarrow> i < length (pss ! k) \<Longrightarrow> pss ! k ! i \<in> set (drop n G)"
proof -
  assume a: "covers K pss G" "k < length pss" "cnt (pss ! k) (take n G) \<le> i" "i < length (pss ! k)"
  then have "pss ! k ! i \<in> set (drop (cnt (pss ! k) (take n G)) (pss ! k))"
    by (auto simp: in_set_conv_nth intro!: exI [of _ "i - cnt (pss ! k) (take n G)"])
  then have "pss ! k ! i \<in> set (filter (\<lambda>x. x \<in> set (pss ! k)) (drop n G))" using covers_split(2) [OF a(1,2), of n] by simp
  then show ?thesis by simp
qed

lemma cnt_Suc: "n < length G \<Longrightarrow> cnt ps (take (Suc n) G) = cnt ps (take n G) + (if G ! n \<in> set ps then 1 else 0)"
  by (simp add: cnt_def take_Suc_conv_app_nth)

lemma cnt_nth:
  assumes "covers K pss G" "k < length pss" "n < length G" "G ! n \<in> set (pss ! k)"
  shows "cnt (pss ! k) (take n G) < length (pss ! k)" "pss ! k ! cnt (pss ! k) (take n G) = G ! n"
proof -
  let ?c = "cnt (pss ! k) (take n G)"
  have "drop ?c (pss ! k) = G ! n # filter (\<lambda>x. x \<in> set (pss ! k)) (drop (Suc n) G)"
    using covers_split(2) [OF assms(1,2), of n] assms(3,4) by (simp flip: Cons_nth_drop_Suc)
  then show "?c < length (pss ! k)" "pss ! k ! ?c = G ! n"
    by (metis drop_all list.distinct(1) not_le) (metis \<open>drop ?c (pss ! k) = _\<close> drop_all hd_drop_conv_nth list.distinct(1) list.sel(1) not_le)
qed

lemma in_take_less: "increasing K G \<Longrightarrow> x \<in> set (take n G) \<Longrightarrow> y \<in> set (drop n G) \<Longrightarrow> K x < K y"
  using sorted_wrt_append [of "\<lambda>x y. K x < K y" "take n G" "drop n G"] by (auto simp: increasing_def)

lemma gap_cnt:
  assumes "covers K pss G" "k < length pss" "n < length G"
  shows "gap K (pss ! k) (G ! n) = cnt (pss ! k) (take n G)"
proof (rule gap_eqI)
  let ?c = "cnt (pss ! k) (take n G)"
  have inc: "increasing K G" using assms(1) by (simp add: covers_def)
  show "increasing K (pss ! k)" using assms by (auto simp: covers_def)
  show "?c \<le> length (pss ! k)" by (rule cnt_le [OF assms(1,2)])
  have d: "drop n G = G ! n # drop (Suc n) G" using assms(3) by (simp add: Cons_nth_drop_Suc)
  show "0 < ?c \<longrightarrow> K (pss ! k ! (?c - 1)) < K (G ! n)"
    using cnt_before [OF assms(1,2), of "?c - 1" n] in_take_less [OF inc, of _ n "G ! n"] d by auto
  show "?c < length (pss ! k) \<longrightarrow> K (G ! n) \<le> K (pss ! k ! ?c)"
    using increasing_drop_le [OF inc assms(3)] cnt_after [OF assms(1,2) order_refl, of n] by (metis less_imp_le order_refl)
qed

text \<open>The run of a position is unique.\<close>

lemma concat_take_nth: "x \<in> set (concat (take k pss)) \<longleftrightarrow> (\<exists>j<min k (length pss). x \<in> set (pss ! j))"
proof -
  have "x \<in> set (concat (take k pss)) \<longleftrightarrow> (\<exists>j<length (take k pss). x \<in> set (take k pss ! j))"
    by (metis (no_types, lifting) UN_iff in_set_conv_nth set_concat)
  then show ?thesis by (auto simp: min.commute)
qed

lemma covers_run: "covers K pss G \<Longrightarrow> x \<in> set G \<Longrightarrow> \<exists>k<length pss. x \<in> set (pss ! k)"
  unfolding covers_def by (metis UN_E in_set_conv_nth)

lemma distinct_concat_nth: "distinct (concat pss) \<Longrightarrow> j < length pss \<Longrightarrow> k < length pss \<Longrightarrow> x \<in> set (pss ! j) \<Longrightarrow> x \<in> set (pss ! k) \<Longrightarrow> j = k"
proof (induction pss arbitrary: j k)
  case (Cons ps pss)
  then show ?case
    by (cases j; cases k) (auto, (meson disjoint_iff nth_mem UN_I)+)
qed simp

lemma covers_run_unique: "covers K pss G \<Longrightarrow> j < length pss \<Longrightarrow> k < length pss \<Longrightarrow> x \<in> set (pss ! j) \<Longrightarrow> x \<in> set (pss ! k) \<Longrightarrow> j = k"
  using distinct_concat_nth by (auto simp: covers_def)

definition prevs :: "'p list list \<Rightarrow> nat \<Rightarrow> 'p list" where
  "prevs pss k = concat (take k pss)"

lemma prevs_in: "k \<le> length pss \<Longrightarrow> x \<in> set (prevs pss k) \<longleftrightarrow> (\<exists>j<k. x \<in> set (pss ! j))"
  unfolding prevs_def concat_take_nth by (simp add: min_def)

lemma prevs_distinct: "covers K pss G \<Longrightarrow> distinct (prevs pss k)"
  unfolding covers_def prevs_def by (metis append_take_drop_id concat_append distinct_append)

lemma prevs_G: "covers K pss G \<Longrightarrow> k \<le> length pss \<Longrightarrow> x \<in> set (prevs pss k) \<Longrightarrow> x \<in> set G"
  by (auto simp: prevs_in covers_def)

subsection \<open>The counts select the next position\<close>

definition before :: "('p \<Rightarrow> 'k::linorder) \<Rightarrow> 'p list list \<Rightarrow> 'p list \<Rightarrow> nat \<Rightarrow> nat \<Rightarrow> 'p set" where
  \<comment> \<open>positions of earlier runs among the first \<open>n\<close>, after the last of run \<open>k\<close>\<close>
  "before K pss G n k = {x \<in> set (take n G). x \<in> set (prevs pss k) \<and> gap K (pss ! k) x = cnt (pss ! k) (take n G)}"

lemma finite_before [simp]: "finite (before K pss G n k)"
  by (simp add: before_def)

lemma length_filter_card: "distinct xs \<Longrightarrow> length (filter P xs) = card {x \<in> set xs. P x}"
  by (metis distinct_card distinct_filter set_filter)

lemma count_selected:
  assumes "covers K pss G" "k < length pss" "n < length G" "G ! n \<in> set (pss ! k)"
  shows "card (before K pss G n k) = length (filter (\<lambda>x. gap K (pss ! k) x = cnt (pss ! k) (take n G)) (prevs pss k))"
proof -
  let ?c = "cnt (pss ! k) (take n G)"
  have inc: "increasing K G" using assms(1) by (simp add: covers_def)
  have "x \<in> set (take n G)" if x: "x \<in> set (prevs pss k)" "gap K (pss ! k) x = ?c" for x
  proof (rule ccontr)
    assume nt: "x \<notin> set (take n G)"
    have "x \<in> set G" by (rule prevs_G [OF assms(1) _ x(1)]) (use assms(2) in simp)
    with nt have "x \<in> set (drop n G)" by (metis Un_iff append_take_drop_id set_append)
    then have "G ! n = x \<or> K (G ! n) < K x" using increasing_drop_le [OF inc assms(3)] by blast
    moreover have "G ! n \<noteq> x" using assms x covers_run_unique [OF assms(1)] prevs_in [of k pss x] by (metis less_imp_le_nat less_trans nat_neq_iff)
    ultimately have "K (pss ! k ! ?c) < K x" using cnt_nth(2) [OF assms] by simp
    with gap_greater [of K "pss ! k" ?c x] cnt_nth(1) [OF assms] assms(1,2) x(2) show False by (auto simp: covers_def)
  qed
  then have "before K pss G n k = {x \<in> set (prevs pss k). gap K (pss ! k) x = ?c}" by (auto simp: before_def)
  then show ?thesis using length_filter_card [OF prevs_distinct [OF assms(1)]] by simp
qed

lemma count_not_yet:
  assumes "covers K pss G" "k < length pss" "n < length G" "G ! n \<in> set (pss ! k)" "k < l" "l < length pss"
  shows "card (before K pss G n l) < length (filter (\<lambda>x. gap K (pss ! l) x = cnt (pss ! l) (take n G)) (prevs pss l))"
proof -
  let ?S = "{x \<in> set (prevs pss l). gap K (pss ! l) x = cnt (pss ! l) (take n G)}"
  have "G ! n \<in> ?S" using gap_cnt [OF assms(1,6,3)] assms prevs_in [of l pss "G ! n"] by auto
  moreover have "G ! n \<notin> before K pss G n l"
  proof -
    have "distinct G" using assms(1) increasing_distinct by (auto simp: covers_def)
    then show ?thesis using assms(3) by (auto simp: before_def in_set_conv_nth nth_eq_iff_index_eq)
  qed
  ultimately have "before K pss G n l \<subset> ?S" by (auto simp: before_def)
  then have "card (before K pss G n l) < card ?S" by (intro psubset_card_mono) auto
  then show ?thesis using length_filter_card [OF prevs_distinct [OF assms(1)]] by simp
qed

lemma before_step:
  assumes "covers K pss G" "k < length pss" "n < length G" "G ! n \<in> set (pss ! k)" "l < length pss"
  shows "card (before K pss G (Suc n) l) = (if l = k then 0 else if k < l then Suc (card (before K pss G n l)) else card (before K pss G n l))"
proof -
  have inc: "increasing K G" using assms(1) by (simp add: covers_def)
  have t: "take (Suc n) G = take n G @ [G ! n]" using assms(3) by (simp add: take_Suc_conv_app_nth)
  have in_l: "G ! n \<in> set (pss ! l) \<longleftrightarrow> l = k" using covers_run_unique [OF assms(1)] assms by blast
  have prev: "G ! n \<in> set (prevs pss l) \<longleftrightarrow> k < l"
    using prevs_in [of l pss "G ! n"] covers_run_unique [OF assms(1)] assms by (metis less_imp_le_nat less_trans)
  have nin: "G ! n \<notin> set (take n G)" using increasing_distinct [OF inc] assms(3) by (auto simp: in_set_conv_nth nth_eq_iff_index_eq)
  show ?thesis
  proof (cases "l = k")
    case True
    have "gap K (pss ! k) x \<le> cnt (pss ! k) (take n G)" if "x \<in> set (take n G)" for x
    proof -
      have "K x < K (G ! n)" using in_take_less [OF inc that, of "G ! n"] assms(3) by (simp flip: Cons_nth_drop_Suc)
      then have "gap K (pss ! k) x \<le> gap K (pss ! k) (G ! n)" using assms(1,2) by (intro gap_mono) (auto simp: covers_def)
      then show ?thesis using gap_cnt [OF assms(1-3)] by simp
    qed
    then have "before K pss G (Suc n) l = {}" using True t prev cnt_Suc [OF assms(3), of "pss ! k"] assms(4)
      by (force simp: before_def)
    then show ?thesis using True by simp
  next
    case False
    then have c: "cnt (pss ! l) (take (Suc n) G) = cnt (pss ! l) (take n G)" using in_l cnt_Suc [OF assms(3)] by simp
    show ?thesis
    proof (cases "k < l")
      case True
      then have "before K pss G (Suc n) l = insert (G ! n) (before K pss G n l)"
        using c t prev gap_cnt [OF assms(1,5,3)] by (auto simp: before_def)
      moreover have "G ! n \<notin> before K pss G n l" using nin by (simp add: before_def)
      ultimately show ?thesis using True False by simp
    next
      case nk: False
      then have "before K pss G (Suc n) l = before K pss G n l" using c t prev by (auto simp: before_def)
      then show ?thesis using nk False by simp
    qed
  qed
qed

subsection \<open>Heights of neighbours\<close>

text \<open>A height is symmetric and shrinks when one end moves away.\<close>

definition height_law :: "('p \<Rightarrow> 'k::linorder) \<Rightarrow> ('p \<Rightarrow> 'p \<Rightarrow> nat) \<Rightarrow> 'p set \<Rightarrow> bool" where
  "height_law K H S = ((\<forall>x\<in>S. \<forall>y\<in>S. H x y = H y x \<and> H x y < 65536) \<and>
     (\<forall>x\<in>S. \<forall>y\<in>S. \<forall>z\<in>S. K x < K y \<longrightarrow> K y < K z \<longrightarrow> H x z \<le> H x y \<and> H x z \<le> H y z))"

lemma height_sym: "height_law K H S \<Longrightarrow> x \<in> S \<Longrightarrow> y \<in> S \<Longrightarrow> H x y = H y x"
  by (simp add: height_law_def)

lemma height_shrinks:
  assumes "height_law K H S" "x \<in> S" "y \<in> S" "z \<in> S" "K x \<le> K y" "K y \<le> K z" "inj_on K S"
  shows "x \<noteq> y \<Longrightarrow> H x z \<le> H x y \<or> y = z" "y \<noteq> z \<Longrightarrow> H x z \<le> H y z"
proof -
  have "K x < K y" if "x \<noteq> y" using assms(2,3,5,7) that by (metis inj_onD order_le_imp_less_or_eq)
  moreover have "K y < K z" if "y \<noteq> z" using assms(3,4,6,7) that by (metis inj_onD order_le_imp_less_or_eq)
  ultimately show "x \<noteq> y \<Longrightarrow> H x z \<le> H x y \<or> y = z" "y \<noteq> z \<Longrightarrow> H x z \<le> H y z"
    using assms(1-4) by (auto simp: height_law_def) (metis order_refl)
qed

lemma max0_le: "finite S \<Longrightarrow> (\<And>x. x \<in> S \<Longrightarrow> x \<le> m) \<Longrightarrow> max0 S \<le> m"
  by (simp add: max0_def)

lemma max0_ge: "finite S \<Longrightarrow> x \<in> S \<Longrightarrow> x \<le> max0 S"
  by (simp add: max0_def)

lemma neighbour_height:
  assumes cov: "covers K pss G" and law: "height_law K H (set G)" and n: "Suc n < length G"
    and a: "a < length pss" "i < length (pss ! a)" "pss ! a ! i = G ! n"
    and b: "b < length pss" "j < length (pss ! b)" "pss ! b ! j = G ! Suc n"
  shows "max (max0 (rights K H (prevs pss a) (pss ! a) i)) (max0 (lefts K H (prevs pss b) (pss ! b) j)) = H (G ! n) (G ! Suc n)"
proof -
  let ?p = "G ! n" and ?q = "G ! Suc n"
  have inc: "increasing K G" and inca: "increasing K (pss ! a)" and incb: "increasing K (pss ! b)"
    using cov a(1) b(1) by (auto simp: covers_def)
  have G: "?p \<in> set G" "?q \<in> set G" using n by auto
  have inj: "inj_on K (set G)" by (rule increasing_inj [OF inc])
  have pq: "K ?p < K ?q" by (rule increasing_nth [OF inc _ n]) simp
  have sub: "x \<in> set G" if "x \<in> set (pss ! k)" "k < length pss" for x k using cov that by (auto simp: covers_def)
  have sides: "K x \<le> K ?p \<or> K ?q \<le> K x" if "x \<in> set G" for x
  proof -
    from that obtain m where m: "m < length G" "x = G ! m" by (auto simp: in_set_conv_nth)
    then consider "m \<le> n" | "Suc n \<le> m" by linarith
    then show ?thesis using increasing_nth [OF inc, of m n] increasing_nth [OF inc, of "Suc n" m] m n
      by cases (auto simp: le_less)
  qed
  have left: "K x \<le> K ?p" if "x \<in> set G" "K x < K ?q" for x using sides [OF that(1)] that(2) by auto
  have right: "K ?q \<le> K x" if "x \<in> set G" "K ?p < K x" for x using sides [OF that(1)] that(2) by auto
  have ne: "?p \<noteq> ?q" using pq by auto
  have hl: "H x ?q \<le> H ?p ?q" if "x \<in> set G" "K x \<le> K ?p" for x
    using height_shrinks(2) [OF law that(1) G that(2) less_imp_le [OF pq] inj ne] .
  have hr: "H x ?p \<le> H ?p ?q" if "x \<in> set G" "K ?q \<le> K x" for x
    using height_shrinks(1) [OF law G that(1) less_imp_le [OF pq] that(2) inj ne] height_sym [OF law that(1) G(1)] by auto
  have prev: "x \<in> set G" if "x \<in> set (prevs pss k)" "k < length pss" for x k
    by (rule prevs_G [OF cov _ that(1)]) (use that(2) in simp)
  have "max0 (lefts K H (prevs pss b) (pss ! b) j) \<le> H ?p ?q"
  proof (rule max0_le)
    fix h assume "h \<in> lefts K H (prevs pss b) (pss ! b) j"
    then consider x where "x \<in> set (prevs pss b)" "gap K (pss ! b) x = j" "h = H x ?q" | "0 < j" "h = H (pss ! b ! (j - 1)) ?q"
      using b(3) by (auto simp: lefts_def split: if_splits)
    then show "h \<le> H ?p ?q"
    proof cases
      case 1
      have "K x \<le> K ?q" using gap_after [OF incb, of x j] 1(2) b by simp
      moreover have "x \<noteq> ?q" using 1(1) prevs_in [of b pss x] covers_run_unique [OF cov, of _ b x] b
        by (metis less_imp_le_nat less_trans nat_neq_iff nth_mem)
      ultimately have "K x < K ?q" using inj G(2) prev [OF 1(1) b(1)] by (metis inj_onD order_le_imp_less_or_eq)
      with 1(3) hl left prev [OF 1(1) b(1)] show ?thesis by blast
    next
      case 2
      have x: "pss ! b ! (j - 1) \<in> set G" using b 2 by (intro sub [OF _ b(1)]) simp
      moreover have "K (pss ! b ! (j - 1)) < K ?q" using increasing_nth [OF incb, of "j - 1" j] 2 b by simp
      ultimately show ?thesis using 2(2) hl left by blast
    qed
  qed simp
  moreover have "max0 (rights K H (prevs pss a) (pss ! a) i) \<le> H ?p ?q"
  proof (rule max0_le)
    fix h assume "h \<in> rights K H (prevs pss a) (pss ! a) i"
    then consider x where "x \<in> set (prevs pss a)" "gap K (pss ! a) x = Suc i" "h = H x ?p" | "Suc i < length (pss ! a)" "h = H ?p (pss ! a ! Suc i)"
      using a(3) by (auto simp: rights_def split: if_splits)
    then show "h \<le> H ?p ?q"
    proof cases
      case 1
      have "K ?p < K x" using gap_before [of i K "pss ! a" x] 1(2) a(3) by simp
      with 1(3) hr right prev [OF 1(1) a(1)] show ?thesis by blast
    next
      case 2
      have x: "pss ! a ! Suc i \<in> set G" using 2 by (intro sub [OF _ a(1)]) simp
      moreover have "K ?p < K (pss ! a ! Suc i)" using increasing_nth [OF inca, of i "Suc i"] 2 a(3) by simp
      ultimately show ?thesis using 2(2) hr right height_sym [OF law G(1) x] by metis
    qed
  qed simp
  moreover have "H ?p ?q \<le> max0 (rights K H (prevs pss a) (pss ! a) i) \<or> H ?p ?q \<le> max0 (lefts K H (prevs pss b) (pss ! b) j)"
  proof -
    have ni: "n < length G" using n by simp
    have ca: "cnt (pss ! a) (take n G) = i"
      using cnt_nth(2) [OF cov a(1) ni] cnt_nth(1) [OF cov a(1) ni] a inca
      by (metis increasing_nth less_irrefl nat_neq_iff nth_mem)
    have cb: "cnt (pss ! b) (take (Suc n) G) = j"
      using cnt_nth(2) [OF cov b(1) n] cnt_nth(1) [OF cov b(1) n] b incb
      by (metis increasing_nth less_irrefl nat_neq_iff nth_mem)
    consider "a < b" | "b < a" | "a = b" by linarith
    then show ?thesis
    proof cases
      case 1
      have "?p \<notin> set (pss ! b)" using covers_run_unique [OF cov a(1) b(1), of ?p] a 1 by (metis nat_neq_iff nth_mem)
      then have "gap K (pss ! b) ?p = j" using gap_cnt [OF cov b(1) ni] cb cnt_Suc [OF ni, of "pss ! b"] by simp
      moreover have "?p \<in> set (prevs pss b)" using 1 b(1) prevs_in [of b pss ?p] a by (metis less_imp_le_nat nth_mem)
      ultimately have "H ?p ?q \<in> lefts K H (prevs pss b) (pss ! b) j" using b(3) by (auto simp: lefts_def)
      then show ?thesis by (simp add: max0_ge)
    next
      case 2
      have "gap K (pss ! a) ?q = Suc i" using gap_cnt [OF cov a(1) n] ca cnt_Suc [OF ni, of "pss ! a"] a by (metis Suc_eq_plus1 nth_mem)
      moreover have "?q \<in> set (prevs pss a)" using 2 a(1) prevs_in [of a pss ?q] b by (metis less_imp_le_nat nth_mem)
      ultimately have "H ?q ?p \<in> rights K H (prevs pss a) (pss ! a) i" using a(3) by (auto simp: rights_def)
      then show ?thesis using height_sym [OF law G] by (simp add: max0_ge)
    next
      case 3
      then have "j = Suc i" using ca cb cnt_Suc [OF ni, of "pss ! a"] a by (metis Suc_eq_plus1 nth_mem)
      then have "H ?p ?q \<in> lefts K H (prevs pss b) (pss ! b) j" using 3 a(3) b(3) by (auto simp: lefts_def)
      then show ?thesis by (simp add: max0_ge)
    qed
  qed
  ultimately show ?thesis by linarith
qed

subsection \<open>The merge\<close>

fun tail_cells :: "(nat \<Rightarrow> nat \<Rightarrow> nat) \<Rightarrow> nat \<Rightarrow> nat list \<Rightarrow> int list" where
  "tail_cells H p [] = []"
| "tail_cells H p (q # qs) = int (H p q) # - (int q + 1) # tail_cells H q qs"

fun infix_cells :: "(nat \<Rightarrow> nat \<Rightarrow> nat) \<Rightarrow> nat list \<Rightarrow> int list" where
  "infix_cells H [] = []"
| "infix_cells H (p # ps) = - (int p + 1) # tail_cells H p ps"

definition stored_runs :: "(nat \<Rightarrow> 'k::linorder) \<Rightarrow> (nat \<Rightarrow> nat \<Rightarrow> nat) \<Rightarrow> nat \<Rightarrow> nat list list \<Rightarrow> RunElement list list \<Rightarrow> bool" where
  "stored_runs K H tbs pss rs = (length rs = length pss \<and>
     (\<forall>k<length pss. pss ! k \<noteq> [] \<and> run_ok K H (\<lambda>s. k * tbs + s) (prevs pss k) (pss ! k) (rs ! k)))"

lemma stored_length: "stored_runs K H tbs pss rs \<Longrightarrow> k < length pss \<Longrightarrow> length (rs ! k) = length (pss ! k)"
  by (auto simp: stored_runs_def run_ok_def) (metis length_map)

lemma concat_nth_take: "k < length rs \<Longrightarrow> i < length (rs ! k) \<Longrightarrow> concat rs ! (length (concat (take k rs)) + i) = rs ! k ! i \<and>
    length (concat (take k rs)) + i < length (concat rs)"
proof -
  assume a: "k < length rs" "i < length (rs ! k)"
  then have "concat rs = concat (take k rs) @ rs ! k @ concat (drop (Suc k) rs)"
    by (metis concat.simps(2) concat_append id_take_nth_drop)
  with a show ?thesis by (simp add: nth_append)
qed

text \<open>The state of run \<open>k\<close> after \<open>n\<close> positions have been written.\<close>

definition run_at :: "(nat \<Rightarrow> 'k::linorder) \<Rightarrow> nat list list \<Rightarrow> nat list \<Rightarrow> RunElement list list \<Rightarrow> nat \<Rightarrow> nat \<Rightarrow> Run \<Rightarrow> bool" where
  "run_at K pss G rs n k r =
     (let c = cnt (pss ! k) (take n G) in
      rn_nitems r = length (pss ! k) \<and> rn_offset r = length (concat (take k rs)) \<and> rn_outsofar r = card (before K pss G n k) \<and>
      (if c < length (pss ! k) then rn_outposi r = int c \<and> rn_curr r < length (rn_elt r) \<and> rn_curr r \<le> c \<and>
         rn_elt r = take (length (rn_elt r)) (drop (rn_offset r + c - rn_curr r) (concat rs))
       else rn_outposi r = - 1))"

lemma take_drop_nth: "xs = take (length xs) (drop m f) \<Longrightarrow> i < length xs \<Longrightarrow> xs ! i = f ! (m + i)"
proof -
  assume a: "xs = take (length xs) (drop m f)" "i < length xs"
  then have "m \<le> length f" by (metis drop_all length_0_conv less_nat_zero_code nat_le_linear take_Nil)
  moreover have "xs ! i = drop m f ! i" using a by (metis nth_take)
  ultimately show "xs ! i = f ! (m + i)" by simp
qed

lemma take_all_min: "take (min (length ys - a) m) (drop a ys) = take m (drop a ys)"
  by (cases "m \<le> length ys - a") (auto simp: min_def)

lemma run_at_current:
  assumes "stored_runs K H tbs pss rs" "run_at K pss G rs n k r" "k < length pss" "cnt (pss ! k) (take n G) < length (pss ! k)"
  shows "rn_outposi r = int (cnt (pss ! k) (take n G))" "rn_curr r < length (rn_elt r)"
    "rn_elt r ! rn_curr r = rs ! k ! cnt (pss ! k) (take n G)"
proof -
  let ?c = "cnt (pss ! k) (take n G)"
  from assms(2,4) have r: "rn_outposi r = int ?c" "rn_curr r < length (rn_elt r)" "rn_curr r \<le> ?c"
    "rn_elt r = take (length (rn_elt r)) (drop (rn_offset r + ?c - rn_curr r) (concat rs))" "rn_offset r = length (concat (take k rs))"
    by (auto simp: run_at_def Let_def)
  then show "rn_outposi r = int ?c" "rn_curr r < length (rn_elt r)" by auto
  have "rn_elt r ! rn_curr r = concat rs ! (rn_offset r + ?c)" using take_drop_nth [OF r(4,2)] r(3) by simp
  then show "rn_elt r ! rn_curr r = rs ! k ! ?c"
    using concat_nth_take [of k rs ?c] assms(1,3,4) stored_length [OF assms(1,3)] r(5) by (auto simp: stored_runs_def)
qed

lemma stored_elt:
  assumes "stored_runs K H tbs pss rs" "k < length pss" "i < length (pss ! k)"
  shows "elt_ok K H (prevs pss k) (pss ! k) i (rs ! k ! i)" "k * tbs + re_s (rs ! k ! i) = pss ! k ! i"
proof -
  have "run_ok K H (\<lambda>s. k * tbs + s) (prevs pss k) (pss ! k) (rs ! k)" using assms(1,2) by (simp add: stored_runs_def)
  then have r: "map ((\<lambda>s. k * tbs + s) \<circ> re_s) (rs ! k) = pss ! k" "\<forall>i<length (pss ! k). elt_ok K H (prevs pss k) (pss ! k) i (rs ! k ! i)"
    by (simp_all add: run_ok_def)
  then show "elt_ok K H (prevs pss k) (pss ! k) i (rs ! k ! i)" using assms(3) by blast
  have "map ((\<lambda>s. k * tbs + s) \<circ> re_s) (rs ! k) ! i = pss ! k ! i" using r(1) by simp
  then show "k * tbs + re_s (rs ! k ! i) = pss ! k ! i" using assms stored_length [OF assms(1,2)] by simp
qed

lemma select_run_next:
  assumes cov: "covers K pss G" and st: "stored_runs K H tbs pss rs" and len: "length run = length pss"
    and inv: "\<forall>l<length pss. run_at K pss G rs n l (run ! l)" and n: "n < length G" and k: "k < length pss" "G ! n \<in> set (pss ! k)"
  shows "select_run run (length run) = Inr (Some k)"
proof -
  have "select_run run l = Inr (Some k)" if "k < l" "l \<le> length pss" for l
    using that
  proof (induction l)
    case (Suc l)
    let ?r = "run ! l" and ?c = "cnt (pss ! l) (take n G)"
    have l: "l < length pss" using Suc.prems by simp
    have r: "run_at K pss G rs n l ?r" using inv l by simp
    have out: "rn_outsofar ?r = card (before K pss G n l)" using r by (simp add: run_at_def Let_def)
    show ?case
    proof (cases "l = k")
      case True
      note c = cnt_nth [OF cov k(1) n k(2)]
      note cur = run_at_current [OF st r l, unfolded True, OF c(1)]
      have "re_c (rs ! k ! cnt (pss ! k) (take n G)) = card (before K pss G n k)"
        using stored_elt(1) [OF st k(1) c(1)] count_selected [OF cov k(1) n k(2)] by (simp add: elt_ok_def)
      with cur out True show ?thesis by simp
    next
      case False
      then have kl: "k < l" using Suc.prems by simp
      show ?thesis
      proof (cases "?c < length (pss ! l)")
        case True
        note cur = run_at_current [OF st r l True]
        have "re_c (rs ! l ! ?c) \<noteq> card (before K pss G n l)"
          using stored_elt(1) [OF st l True] count_not_yet [OF cov k(1) n k(2) kl l] by (simp add: elt_ok_def)
        with cur out Suc.IH [OF kl] l show ?thesis by simp
      next
        case False
        then have "rn_outposi ?r = - 1" using r by (simp add: run_at_def Let_def)
        with Suc.IH [OF kl] l show ?thesis by simp
      qed
    qed
  qed simp
  from this [of "length pss"] k(1) len show ?thesis by simp
qed

lemma select_run_none: "\<forall>l<m. rn_outposi (run ! l) = - 1 \<Longrightarrow> select_run run m = Inr None"
  by (induction m) auto

lemma length_count_out [simp]: "length (count_out i run) = length run"
  by (simp add: count_out_def)

lemma count_out_nth: "l < length run \<Longrightarrow> count_out i run ! l =
   (if l = i then (run ! l)\<lparr>rn_outsofar := 0\<rparr> else if i < l then (run ! l)\<lparr>rn_outsofar := Suc (rn_outsofar (run ! l))\<rparr> else run ! l)"
  by (simp add: count_out_def nth_enumerate_eq)

lemma run_at_step:
  assumes cov: "covers K pss G" and st: "stored_runs K H tbs pss rs" and len: "length run = length pss"
    and inv: "\<forall>l<length pss. run_at K pss G rs n l (run ! l)" and n: "n < length G" and k: "k < length pss" "G ! n \<in> set (pss ! k)"
    and l: "l < length pss"
  shows "run_at K pss G rs (Suc n) l ((count_out k run)[k := next_item (concat rs) (count_out k run ! k)] ! l)"
proof -
  have r: "run_at K pss G rs n l (run ! l)" using inv l by simp
  note bs = before_step [OF cov k(1) n k(2) l]
  have in_l: "G ! n \<in> set (pss ! l) \<longleftrightarrow> l = k" using covers_run_unique [OF cov] k l by blast
  show ?thesis
  proof (cases "l = k")
    case False
    then have "cnt (pss ! l) (take (Suc n) G) = cnt (pss ! l) (take n G)" using in_l cnt_Suc [OF n] by simp
    then show ?thesis using r bs False len l by (auto simp: run_at_def Let_def count_out_nth)
  next
    case True
    let ?c = "cnt (pss ! k) (take n G)" and ?r = "(run ! k)\<lparr>rn_outsofar := 0\<rparr>"
    have c: "?c < length (pss ! k)" by (rule cnt_nth(1) [OF cov k(1) n k(2)])
    have c1: "cnt (pss ! k) (take (Suc n) G) = Suc ?c" using cnt_Suc [OF n, of "pss ! k"] k(2) by simp
    have f: "rn_nitems (run ! k) = length (pss ! k)" "rn_offset (run ! k) = length (concat (take k rs))" "rn_outposi (run ! k) = int ?c"
      "rn_curr (run ! k) < length (rn_elt (run ! k))" "rn_curr (run ! k) \<le> ?c"
      "rn_elt (run ! k) = take (length (rn_elt (run ! k))) (drop (rn_offset (run ! k) + ?c - rn_curr (run ! k)) (concat rs))"
      using r True c by (auto simp: run_at_def Let_def)
    have e: "(count_out k run)[k := next_item (concat rs) (count_out k run ! k)] ! l = next_item (concat rs) ?r"
      using True len k(1) by (simp add: count_out_nth)
    have b0: "card (before K pss G (Suc n) k) = 0" using bs True by simp
    show ?thesis
    proof (cases "Suc ?c < length (pss ! k)")
      case False
      then have "next_item (concat rs) ?r = ?r\<lparr>rn_outposi := - 1\<rparr>" using f by (simp add: next_item_def Let_def)
      then show ?thesis unfolding e using False True f(1,2) b0 c1 by (simp add: run_at_def Let_def)
    next
      case more: True
      let ?r1 = "?r\<lparr>rn_outposi := int (Suc ?c), rn_curr := Suc (rn_curr (run ! k))\<rparr>"
      have nx: "next_item (concat rs) ?r = (if Suc (rn_curr (run ! k)) = length (rn_elt (run ! k)) then moreFromRun (concat rs) ?r1 else ?r1)"
        using more f by (simp add: next_item_def Let_def add.commute)
      show ?thesis
      proof (cases "Suc (rn_curr (run ! k)) = length (rn_elt (run ! k))")
        case False
        then have "next_item (concat rs) ?r = ?r1" using nx by simp
        then show ?thesis unfolding e using more True f b0 c1 False by (simp add: run_at_def Let_def)
      next
        case reload: True
        let ?elt = "take (length (rn_elt (run ! k))) (drop (rn_offset (run ! k) + Suc ?c) (concat rs))"
        have "rn_offset (run ! k) + Suc ?c < length (concat rs)"
          using concat_nth_take [of k rs "Suc ?c"] more k(1) st f(2) stored_length [OF st k(1)] by (auto simp: stored_runs_def)
        then have ne: "?elt \<noteq> []" using f(4) by auto
        then have "next_item (concat rs) ?r = ?r1\<lparr>rn_elt := ?elt, rn_curr := 0\<rparr>"
          using nx reload by (simp add: moreFromRun_def Let_def nat_add_distrib)
        then show ?thesis unfolding e using more True f(1,2) b0 c1 ne by (simp add: run_at_def Let_def take_all_min)
      qed
    qed
  qed
qed

definition last_height :: "(nat \<Rightarrow> 'k::linorder) \<Rightarrow> (nat \<Rightarrow> nat \<Rightarrow> nat) \<Rightarrow> nat list list \<Rightarrow> nat list \<Rightarrow> nat \<Rightarrow> nat option \<Rightarrow> bool" where
  "last_height K H pss G n lasth =
     (case n of 0 \<Rightarrow> lasth = None
      | Suc m \<Rightarrow> \<exists>a i. a < length pss \<and> i < length (pss ! a) \<and> pss ! a ! i = G ! m \<and> lasth = Some (max0 (rights K H (prevs pss a) (pss ! a) i)))"

definition cells_from :: "(nat \<Rightarrow> nat \<Rightarrow> nat) \<Rightarrow> nat list \<Rightarrow> nat \<Rightarrow> int list" where
  "cells_from H G n = (case n of 0 \<Rightarrow> infix_cells H G | Suc m \<Rightarrow> tail_cells H (G ! m) (drop n G))"

lemma cells_from_end: "cells_from H G (length G) = []"
  by (cases G) (auto simp: cells_from_def)

lemma cells_from_step: "n < length G \<Longrightarrow> cells_from H G n =
    (case n of 0 \<Rightarrow> [] | Suc m \<Rightarrow> [int (H (G ! m) (G ! n))]) @ - (int (G ! n) + 1) # cells_from H G (Suc n)"
proof -
  assume n: "n < length G"
  then have "drop n G = G ! n # drop (Suc n) G" by (simp add: Cons_nth_drop_Suc)
  then show ?thesis using n by (cases n; cases G) (auto simp: cells_from_def)
qed

lemma cmerge_loop_cells:
  assumes cov: "covers K pss G" and st: "stored_runs K H tbs pss rs" and law: "height_law K H (set G)"
  shows "length G - n < fuel \<Longrightarrow> n \<le> length G \<Longrightarrow> length run = length pss \<Longrightarrow> \<forall>l<length pss. run_at K pss G rs n l (run ! l) \<Longrightarrow>
    last_height K H pss G n lasth \<Longrightarrow> cmerge_loop fuel tbs (concat rs) run lasth acc = Inr (acc @ cells_from H G n)"
proof (induction fuel arbitrary: n run lasth acc)
  case (Suc fuel)
  note prems = Suc.prems
  show ?case
  proof (cases "n < length G")
    case False
    then have n: "n = length G" using prems(2) by simp
    have "rn_outposi (run ! l) = - 1" if l: "l < length pss" for l
    proof -
      have "cnt (pss ! l) (take n G) = length (pss ! l)"
        using covers_filter [OF cov l] n by (simp add: cnt_def)
      then show ?thesis using prems(4) l by (auto simp: run_at_def Let_def)
    qed
    then have "select_run run (length run) = Inr None" using prems(3) by (intro select_run_none) simp
    then show ?thesis using cells_from_end n by simp
  next
    case True
    have "G ! n \<in> set G" using True by simp
    then obtain k where k: "k < length pss" "G ! n \<in> set (pss ! k)" using covers_run [OF cov] by blast
    let ?c = "cnt (pss ! k) (take n G)" and ?e = "rs ! k ! cnt (pss ! k) (take n G)"
    let ?run1 = "(count_out k run)[k := next_item (concat rs) (count_out k run ! k)]"
    have c: "?c < length (pss ! k)" "pss ! k ! ?c = G ! n" using cnt_nth [OF cov k(1) True k(2)] by auto
    have rk: "run_at K pss G rs n k (run ! k)" using prems(4) k(1) by simp
    have cur: "rn_elt (count_out k run ! k) ! rn_curr (count_out k run ! k) = ?e"
      using run_at_current(3) [OF st rk k(1) c(1)] k(1) prems(3) by (simp add: count_out_nth)
    have ok: "elt_ok K H (prevs pss k) (pss ! k) ?c ?e" "k * tbs + re_s ?e = G ! n"
      using stored_elt [OF st k(1) c(1)] c(2) by auto
    have h: "(case lasth of None \<Rightarrow> [] | Some lh \<Rightarrow> [int (max lh (unat (re_lh ?e)))]) = (case n of 0 \<Rightarrow> [] | Suc m \<Rightarrow> [int (H (G ! m) (G ! n))])"
    proof (cases n)
      case 0
      then show ?thesis using prems(5) by (simp add: last_height_def)
    next
      case (Suc m)
      with prems(5) obtain a i where ai: "a < length pss" "i < length (pss ! a)" "pss ! a ! i = G ! m"
        "lasth = Some (max0 (rights K H (prevs pss a) (pss ! a) i))" by (auto simp: last_height_def)
      have "max (max0 (rights K H (prevs pss a) (pss ! a) i)) (max0 (lefts K H (prevs pss k) (pss ! k) ?c)) = H (G ! m) (G ! Suc m)"
        using neighbour_height [OF cov law _ ai(1-3) k(1) c(1)] c(2) True Suc by simp
      then show ?thesis using Suc ai(4) ok(1) by (simp add: elt_ok_def)
    qed
    have "last_height K H pss G (Suc n) (Some (unat (re_rh ?e)))"
      using k(1) c ok(1) unfolding last_height_def elt_ok_def by auto
    moreover have "\<forall>l<length pss. run_at K pss G rs (Suc n) l (?run1 ! l)"
      using run_at_step [OF cov st prems(3,4) True k] by blast
    ultimately have "cmerge_loop fuel tbs (concat rs) ?run1 (Some (unat (re_rh ?e))) acc' = Inr (acc' @ cells_from H G (Suc n))" for acc'
      using prems(1-3) True by (intro Suc.IH) auto
    moreover have "cmerge_loop (Suc fuel) tbs (concat rs) run lasth acc = cmerge_loop fuel tbs (concat rs) ?run1 (Some (unat (re_rh ?e)))
        (acc @ (case lasth of None \<Rightarrow> [] | Some lh \<Rightarrow> [int (max lh (unat (re_lh ?e)))]) @ [- (int (k * tbs + re_s ?e) + 1)])"
      using select_run_next [OF cov st prems(3,4) True k] by (cases lasth) (simp_all add: Let_def cur)
    ultimately show ?thesis using cells_from_step [OF True, of H] h ok(2) by simp
  qed
qed simp

end
