(* ===== verification/PatrieInfix.thy ===== *)
theory PatrieInfix
  imports PatrieMerge
begin

section \<open>Patricia trie: the infix file of a text\<close>

text \<open>
  Proofs about \<open>csort\<close> and \<open>_patrieInfixBuild\<close>: chunk by chunk the runs come out as \<open>PatrieMerge\<close>
  needs them, whatever the size of the chunks.
\<close>

lemma map_res_all: "\<forall>x\<in>set xs. f x = Inr (g x) \<Longrightarrow> map_res f xs = Inr (map g xs)"
  by (induction xs) auto

definition described :: "nat list list \<Rightarrow> RunElement list list \<Rightarrow> Run list \<Rightarrow> bool" where
  "described pss rs run = (length run = length pss \<and>
     (\<forall>k<length pss. rn_nitems (run ! k) = length (pss ! k) \<and> rn_offset (run ! k) = length (concat (take k rs))))"

lemma covers_length: "covers K pss G \<Longrightarrow> length G = length (concat pss)"
proof -
  assume c: "covers K pss G"
  then have "distinct G" "distinct (concat pss)" "set G = set (concat pss)" using increasing_distinct by (auto simp: covers_def)
  then show ?thesis by (metis distinct_card)
qed

lemma initRuns_ok:
  assumes "stored_runs K H tbs pss rs" "described pss rs run" "pss \<noteq> []" "length pss * sizeof_RunElement \<le> memsz"
  shows "\<exists>run1. initRuns memsz (concat rs) run = Inr run1 \<and> length run1 = length pss \<and>
    (\<forall>k<length pss. rn_nitems (run1 ! k) = length (pss ! k) \<and> run_at K pss G rs 0 k (run1 ! k))"
proof -
  let ?n = "memsz div (length run * sizeof_RunElement)"
  let ?g = "\<lambda>r. r\<lparr>rn_elt := take ?n (drop (rn_offset r) (concat rs)), rn_curr := 0, rn_outsofar := 0, rn_outposi := 0\<rparr>"
  have len: "length run = length pss" using assms(2) by (simp add: described_def)
  have "1 * (length run * sizeof_RunElement) \<le> memsz" using assms(4) len by simp
  then have n: "0 < ?n" using assms(3) len by (simp add: div_greater_zero_iff sizeof_RunElement_def)
  have ne: "take ?n (drop (rn_offset (run ! k)) (concat rs)) \<noteq> []" if k: "k < length pss" for k
  proof -
    have "0 < length (rs ! k)" using stored_length [OF assms(1) k] assms(1) k by (simp add: stored_runs_def)
    then have "rn_offset (run ! k) < length (concat rs)"
      using concat_nth_take [of k rs 0] assms(1,2) k by (auto simp: stored_runs_def described_def)
    with n show ?thesis by simp
  qed
  have "\<forall>r\<in>set run. initRun ?n (concat rs) r = Inr (?g r)"
  proof
    fix r assume "r \<in> set run"
    then obtain k where "k < length pss" "r = run ! k" using len by (metis in_set_conv_nth)
    with ne show "initRun ?n (concat rs) r = Inr (?g r)" by (simp add: initRun_def Let_def)
  qed
  then have i: "initRuns memsz (concat rs) run = Inr (map ?g run)" using assms(3) len by (auto simp: initRuns_def map_res_all)
  have "run_at K pss G rs 0 k (?g (run ! k))" if k: "k < length pss" for k
  proof -
    have "pss ! k \<noteq> []" using assms(1) k by (simp add: stored_runs_def)
    then show ?thesis using ne [OF k] assms(2) k by (auto simp: run_at_def Let_def cnt_def before_def described_def take_all_min)
  qed
  then show ?thesis using i len assms(2) by (auto simp: described_def)
qed

lemma cmerge_cells:
  assumes "covers K pss G" "stored_runs K H tbs pss rs" "height_law K H (set G)" "described pss rs run" "pss \<noteq> []"
    and "length pss * sizeof_RunElement \<le> memsz"
  shows "cmerge memsz tbs run (concat rs) = Inr (0 # infix_cells H G @ [0])"
proof -
  from initRuns_ok [OF assms(2,4,5,6), of G] obtain run1 where r: "initRuns memsz (concat rs) run = Inr run1" "length run1 = length pss"
    "\<forall>k<length pss. rn_nitems (run1 ! k) = length (pss ! k) \<and> run_at K pss G rs 0 k (run1 ! k)" by blast
  have "map rn_nitems run1 = map length pss" using r(2,3) by (auto simp: list_eq_iff_nth_eq)
  then have "length G \<le> (\<Sum>r\<leftarrow>run1. max 1 (rn_nitems r))"
  proof -
    have "length G = sum_list (map rn_nitems run1)" using covers_length [OF assms(1)] \<open>map rn_nitems run1 = map length pss\<close> by (simp add: length_concat)
    also have "\<dots> \<le> (\<Sum>r\<leftarrow>run1. max 1 (rn_nitems r))" by (intro sum_list_mono) simp
    finally show ?thesis .
  qed
  then have "cmerge_loop (Suc (\<Sum>r\<leftarrow>run1. max 1 (rn_nitems r))) tbs (concat rs) run1 None [0] = Inr ([0] @ cells_from H G 0)"
    using r(2,3) by (intro cmerge_loop_cells [OF assms(1-3)]) (auto simp: last_height_def)
  then show ?thesis using r(1) by (simp add: cmerge_def cells_from_def)
qed

subsection \<open>The runs of a text\<close>

fun chunk_points :: "'arg sort_cf \<Rightarrow> 'arg \<Rightarrow> nat \<Rightarrow> nat \<Rightarrow> nat list list" where
  \<comment> \<open>the index points of \<open>n\<close> chunks from the \<open>k\<close>-th on\<close>
  "chunk_points cf arg k 0 = []"
| "chunk_points cf arg k (Suc n) =
     (let buf = read_text cf (k * text_buffer_size cf);
          (points, arg1) = cf_setIndexPoints cf (min (length buf) (text_buffer_size cf)) buf arg
      in points # chunk_points cf arg1 (Suc k) n)"

definition chunk_count :: "'arg sort_cf \<Rightarrow> nat" where
  "chunk_count cf = (length (cf_text cf) + text_buffer_size cf - 1) div text_buffer_size cf"

text \<open>The buffers order index points as \<open>K\<close> and \<open>H\<close> do.\<close>

definition seen :: "'arg sort_cf \<Rightarrow> nat \<Rightarrow> nat \<Rightarrow> cstr" where
  "seen cf k s = str_at (read_text cf (k * text_buffer_size cf)) s"

definition buffers_agree :: "'arg sort_cf \<Rightarrow> (nat \<Rightarrow> 'k::linorder) \<Rightarrow> (nat \<Rightarrow> nat \<Rightarrow> nat) \<Rightarrow> nat list list \<Rightarrow> bool" where
  "buffers_agree cf K H pts =
     (\<forall>j<length pts. \<forall>k<length pts. \<forall>s\<in>set (pts ! j). \<forall>u\<in>set (pts ! k).
        let p = j * text_buffer_size cf + s; q = k * text_buffer_size cf + u in
        p \<noteq> q \<longrightarrow> K p \<noteq> K q \<and> H p q = H q p \<and> H p q < 65536 \<and>
          (\<exists>v. cf_strcomp cf (seen cf j s) (seen cf k u) = Some v \<and> (v < 0 \<longleftrightarrow> K p < K q) \<and> (0 < v \<longleftrightarrow> K q < K p)) \<and>
          (K p < K q \<longrightarrow> cf_diffbit cf (seen cf j s) (seen cf k u) = Some (H p q)))"

lemma buffers_agreeD:
  assumes "buffers_agree cf K H pts" "j < length pts" "k < length pts" "s \<in> set (pts ! j)" "u \<in> set (pts ! k)"
    and "p = j * text_buffer_size cf + s" "q = k * text_buffer_size cf + u" "p \<noteq> q"
  shows "K p \<noteq> K q \<and> H p q = H q p \<and> H p q < 65536"
    and "\<exists>v. cf_strcomp cf (seen cf j s) (seen cf k u) = Some v \<and> (v < 0 \<longleftrightarrow> K p < K q) \<and> (0 < v \<longleftrightarrow> K q < K p)"
    and "K p < K q \<Longrightarrow> cf_diffbit cf (seen cf j s) (seen cf k u) = Some (H p q)"
  using assms unfolding buffers_agree_def Let_def by blast+

lemma buffers_ranks:
  assumes "buffers_agree cf K H pts" "k < length pts"
  shows "ranks (cmpRunElt (cf_strcomp cf) (read_text cf (k * text_buffer_size cf))) (\<lambda>e. K (k * text_buffer_size cf + re_s e)) {e. re_s e \<in> set (pts ! k)}"
  unfolding ranks_def
proof (intro ballI)
  fix x y :: RunElement assume xy: "x \<in> {e. re_s e \<in> set (pts ! k)}" "y \<in> {e. re_s e \<in> set (pts ! k)}"
  let ?K = "\<lambda>e :: RunElement. K (k * text_buffer_size cf + re_s e)"
  show "\<exists>v. cmpRunElt (cf_strcomp cf) (read_text cf (k * text_buffer_size cf)) x y = Inr v \<and> (0 < v \<longleftrightarrow> ?K y < ?K x) \<and> (v < 0 \<longleftrightarrow> ?K x < ?K y)"
  proof (cases "re_s x = re_s y")
    case False
    from xy False buffers_agreeD(2) [OF assms(1,2,2), of "re_s x" "re_s y", OF _ _ refl refl]
    obtain v where "cf_strcomp cf (seen cf k (re_s x)) (seen cf k (re_s y)) = Some v" "v < 0 \<longleftrightarrow> ?K x < ?K y" "0 < v \<longleftrightarrow> ?K y < ?K x"
      by auto
    with False show ?thesis by (simp add: cmpRunElt_def seen_def)
  qed (simp add: cmpRunElt_def)
qed

lemma chunks_apart:
  assumes "j < k" "s < z"
  shows "j * z + s \<noteq> k * z + (u :: nat)"
proof -
  have "j * z + s < Suc j * z" using assms(2) by simp
  also have "\<dots> \<le> k * z" using assms(1) by (intro mult_le_mono1) simp
  finally show ?thesis by simp
qed

lemma buffers_agree_pair:
  assumes "buffers_agree cf K H pts" "j < k" "k < length pts" "\<forall>s\<in>set (pts ! j). s < text_buffer_size cf"
  shows "agree cf (read_text cf (j * text_buffer_size cf)) (read_text cf (k * text_buffer_size cf)) K H
    (\<lambda>s. j * text_buffer_size cf + s) (\<lambda>s. k * text_buffer_size cf + s) (set (pts ! j)) (set (pts ! k))"
  unfolding agree_def
proof (intro ballI)
  fix s u assume su: "s \<in> set (pts ! j)" "u \<in> set (pts ! k)"
  let ?z = "text_buffer_size cf"
  have j: "j < length pts" using assms(2,3) by simp
  have ne: "j * ?z + s \<noteq> k * ?z + u" using assms(2,4) su by (intro chunks_apart) auto
  note d = buffers_agreeD [OF assms(1) j assms(3) su refl refl ne]
    and e = buffers_agreeD [OF assms(1,3) j su(2,1) refl refl ne [symmetric]]
  show "K (j * ?z + s) \<noteq> K (k * ?z + u) \<and>
    (\<exists>v. cf_strcomp cf (str_at (read_text cf (j * ?z)) s) (str_at (read_text cf (k * ?z)) u) = Some v \<and>
       (v < 0 \<longleftrightarrow> K (j * ?z + s) < K (k * ?z + u)) \<and> (0 < v \<longleftrightarrow> K (k * ?z + u) < K (j * ?z + s))) \<and>
    (K (j * ?z + s) < K (k * ?z + u) \<longrightarrow>
       cf_diffbit cf (str_at (read_text cf (j * ?z)) s) (str_at (read_text cf (k * ?z)) u) = Some (H (j * ?z + s) (k * ?z + u))) \<and>
    (K (k * ?z + u) < K (j * ?z + s) \<longrightarrow>
       cf_diffbit cf (str_at (read_text cf (k * ?z)) u) (str_at (read_text cf (j * ?z)) s) = Some (H (j * ?z + s) (k * ?z + u)))"
    using d(1,2,3) e(3) unfolding seen_def by simp
qed

lemma increasing_sorted: "sorted (map K xs) \<Longrightarrow> distinct xs \<Longrightarrow> (\<And>x y. x \<in> set xs \<Longrightarrow> y \<in> set xs \<Longrightarrow> x \<noteq> y \<Longrightarrow> K x \<noteq> K y) \<Longrightarrow> increasing K xs"
  by (induction xs) (auto simp: increasing_def order_le_less)


lemma first_run:
  assumes ag: "buffers_agree cf K H pts" and k: "k < length pts" and pts: "distinct (pts ! k)" "pts ! k \<noteq> []"
  defines "z \<equiv> text_buffer_size cf"
  shows "\<exists>es ps r. sortRun (cmpRunElt (cf_strcomp cf) (read_text cf (k * z))) (map new_elt (pts ! k)) = Inr es \<and>
    set_heights cf (read_text cf (k * z)) es = Inr r \<and> increasing K ps \<and> set ps = (\<lambda>s. k * z + s) ` set (pts ! k) \<and>
    run_ok K H (\<lambda>s. k * z + s) [] ps r"
proof -
  let ?at = "\<lambda>s. k * z + s" and ?buf = "read_text cf (k * z)"
  have "set (map new_elt (pts ! k)) \<subseteq> {e. re_s e \<in> set (pts ! k)}" by auto
  then have "ranks (cmpRunElt (cf_strcomp cf) ?buf) (\<lambda>e. K (?at (re_s e))) (set (map new_elt (pts ! k)))"
    using buffers_ranks [OF ag k] unfolding ranks_def z_def by blast
  from sortRun_rank [OF this] pts(2) obtain es where es: "sortRun (cmpRunElt (cf_strcomp cf) ?buf) (map new_elt (pts ! k)) = Inr es"
    "mset es = mset (map new_elt (pts ! k))" "sorted (map (\<lambda>e. K (?at (re_s e))) es)" by auto
  let ?ps = "map (?at \<circ> re_s) es"
  have ms: "mset (map re_s es) = mset (pts ! k)"
  proof -
    have "mset (map re_s es) = image_mset re_s (mset es)" by simp
    also have "\<dots> = image_mset re_s (mset (map new_elt (pts ! k)))" unfolding es(2) ..
    finally show ?thesis by (simp add: image_mset.compositionality comp_def)
  qed
  then have s: "set (map re_s es) = set (pts ! k)" "distinct (map re_s es)"
    using pts(1) by (metis mset_eq_setD, metis mset_eq_imp_distinct_iff)
  have K: "K p \<noteq> K q" "H p q < 65536" if "p \<in> set ?ps" "q \<in> set ?ps" "p \<noteq> q" for p q
  proof -
    from that s(1) obtain s u where su: "s \<in> set (pts ! k)" "u \<in> set (pts ! k)" "p = ?at s" "q = ?at u" by auto
    from buffers_agreeD(1) [OF ag k k su(1,2) su(3,4) [unfolded z_def] that(3)] show "K p \<noteq> K q" "H p q < 65536" by auto
  qed
  have dp: "distinct ?ps" using s(2) by (auto simp: distinct_map inj_on_def)
  have inc: "increasing K ?ps"
    by (rule increasing_sorted [OF _ dp K(1)]) (use es(3) in \<open>auto simp: comp_def\<close>)
  have z0: "\<forall>e\<in>set es. re_c e = 0 \<and> re_lh e = 0 \<and> re_rh e = 0"
  proof -
    have "set es = set (map new_elt (pts ! k))" using es(2) by (rule mset_eq_setD)
    then show ?thesis by auto
  qed
  have nb: "cf_diffbit cf (str_at ?buf (re_s (es ! i))) (str_at ?buf (re_s (es ! Suc i))) = Some (H (?ps ! i) (?ps ! Suc i)) \<and>
      H (?ps ! i) (?ps ! Suc i) < 65536" if i: "Suc i < length es" for i
  proof -
    have l: "K (?ps ! i) < K (?ps ! Suc i)" by (rule increasing_nth [OF inc]) (use i in auto)
    then have ne: "?ps ! i \<noteq> ?ps ! Suc i" by auto
    have m: "re_s (es ! i) \<in> set (pts ! k)" "re_s (es ! Suc i) \<in> set (pts ! k)" using s(1) i by auto
    have e: "?ps ! i = k * text_buffer_size cf + re_s (es ! i)" "?ps ! Suc i = k * text_buffer_size cf + re_s (es ! Suc i)"
      using i by (simp_all add: z_def)
    show ?thesis
      using buffers_agreeD(3) [OF ag k k m e ne l] buffers_agreeD(1) [OF ag k k m e ne] by (simp add: seen_def z_def)
  qed
  have "map (?at \<circ> re_s) es = ?ps" ..
  from run_ok_start [OF this z0, where H = H and K = K and cf = cf and buf = ?buf] nb obtain r
    where "set_heights cf ?buf es = Inr r" "run_ok K H ?at [] ?ps r" by blast
  moreover have "set ?ps = ?at ` set (pts ! k)" by (metis list.set_map list.map_comp s(1))
  ultimately show ?thesis using es(1) inc by blast
qed

lemma merge_earlier_ok:
  assumes ag: "buffers_agree cf K H pts" and k: "k < length pts" and z: "z = text_buffer_size cf"
    and st: "stored_runs K H z pss rs" and de: "described pss rs run" and lp: "length pss = k"
    and pss: "\<forall>j<k. set (pss ! j) = (\<lambda>s. j * z + s) ` set (pts ! j) \<and> increasing K (pss ! j)"
    and small: "\<forall>j\<le>k. \<forall>s\<in>set (pts ! j). s < z" and tx: "\<forall>j<k. read_text cf (j * z) \<noteq> []"
    and ps: "set ps = (\<lambda>s. k * z + s) ` set (pts ! k)" "increasing K ps" "ps \<noteq> []"
  shows "j \<le> k \<Longrightarrow> run_ok K H (\<lambda>s. k * z + s) (prevs pss j) ps r \<Longrightarrow>
    \<exists>r'. merge_earlier cf j (drop j run) (concat rs) (read_text cf (k * z)) r = Inr r' \<and> run_ok K H (\<lambda>s. k * z + s) (prevs pss k) ps r'"
proof (induction "k - j" arbitrary: j r)
  case 0
  then have "j = k" "drop j run = []" using de lp by (auto simp: described_def)
  with 0 show ?case by simp
next
  case (Suc d)
  let ?at = "\<lambda>j s. j * z + s"
  have j: "j < k" "j < length pss" "j < length run" using Suc.hyps(2) de lp by (auto simp: described_def)
  have lt: "\<forall>s\<in>set (pts ! j). s < text_buffer_size cf" using small [rule_format, OF less_imp_le [OF j(1)]] z by blast
  have prev: "take (rn_nitems (run ! j)) (drop (rn_offset (run ! j)) (concat rs)) = rs ! j"
  proof -
    have "concat rs = concat (take j rs) @ rs ! j @ concat (drop (Suc j) rs)"
      using st j by (metis concat.simps(2) concat_append id_take_nth_drop stored_runs_def)
    then show ?thesis using de j stored_length [OF st j(2)] by (simp add: described_def)
  qed
  have sj: "run_ok K H (?at j) (prevs pss j) (pss ! j) (rs ! j)" "pss ! j \<noteq> []" using st j by (auto simp: stored_runs_def)
  then have mj: "map (?at j \<circ> re_s) (rs ! j) = pss ! j" by (simp add: run_ok_def)
  have mr: "map (?at k \<circ> re_s) r = ps" using Suc.prems(2) by (simp add: run_ok_def)
  have inj: "inj (?at i)" for i by (simp add: inj_def)
  have s1: "set (map re_s (rs ! j)) = set (pts ! j)"
    using pss j(1) mj by (metis inj inj_image_eq_iff list.map_comp list.set_map)
  have s2: "set (map re_s r) = set (pts ! k)"
    using ps(1) mr by (metis inj inj_image_eq_iff list.map_comp list.set_map)
  have ne: "rs ! j \<noteq> []" "r \<noteq> []" using mj sj(2) ps(3) mr by auto
  have "agree cf (read_text cf (j * z)) (read_text cf (k * z)) K H (?at j) (?at k) (set (map re_s (rs ! j))) (set (map re_s r))"
    unfolding s1 s2 z by (rule buffers_agree_pair [OF ag j(1) k]) (use lt in auto)
  from generateRun_put [OF this ne(2)] have g: "generateRun cf (rs ! j) (read_text cf (j * z)) r (read_text cf (k * z)) = Inr (put_all K H (pss ! j) ps r)"
    using pss j(1) ps(2) unfolding mj mr by auto
  have hs: "\<forall>x\<in>set (pss ! j). \<forall>i<length ps. H x (ps ! i) < 65536"
  proof (intro ballI allI impI)
    fix x i assume x: "x \<in> set (pss ! j)" and i: "i < length ps"
    from x pss j(1) obtain s where s: "s \<in> set (pts ! j)" "x = j * text_buffer_size cf + s" by (auto simp: z)
    from i ps(1) nth_mem [OF i] obtain u where u: "u \<in> set (pts ! k)" "ps ! i = k * text_buffer_size cf + u" by (auto simp: z)
    have "x \<noteq> ps ! i" unfolding s(2) u(2) using lt j(1) s(1) by (intro chunks_apart) auto
    with buffers_agreeD(1) [OF ag _ k s(1) u(1) s(2) u(2)] j(1) k show "H x (ps ! i) < 65536" by auto
  qed
  have "run_ok K H (?at k) (prevs pss (Suc j)) ps (put_all K H (pss ! j) ps r)"
    using put_all_ok [OF Suc.prems(2) hs] j(2) by (simp add: prevs_def take_Suc_conv_app_nth)
  moreover have "d = k - Suc j" "Suc j \<le> k" using Suc.hyps(2) j(1) by auto
  ultimately obtain r' where r': "merge_earlier cf (Suc j) (drop (Suc j) run) (concat rs) (read_text cf (k * z)) (put_all K H (pss ! j) ps r) = Inr r'"
    "run_ok K H (?at k) (prevs pss k) ps r'" using Suc.hyps(1) by blast
  have "drop j run = run ! j # drop (Suc j) run" using j(3) by (simp add: Cons_nth_drop_Suc)
  then have "merge_earlier cf j (drop j run) (concat rs) (read_text cf (k * z)) r = merge_earlier cf (Suc j) (drop (Suc j) run) (concat rs) (read_text cf (k * z)) (put_all K H (pss ! j) ps r)"
    using prev ne(1) tx j(1) g by (simp add: Let_def z)
  with r' show ?case by auto
qed


text \<open>The state after \<open>k\<close> chunks.\<close>

definition sorted_chunks :: "'arg sort_cf \<Rightarrow> (nat \<Rightarrow> 'k::linorder) \<Rightarrow> (nat \<Rightarrow> nat \<Rightarrow> nat) \<Rightarrow> nat list list \<Rightarrow> nat \<Rightarrow> nat list list \<Rightarrow> RunElement list list \<Rightarrow> Run list \<Rightarrow> bool" where
  "sorted_chunks cf K H pts k pss rs run = (length pss = k \<and> stored_runs K H (text_buffer_size cf) pss rs \<and> described pss rs run \<and>
     (\<forall>j<k. set (pss ! j) = (\<lambda>s. j * text_buffer_size cf + s) ` set (pts ! j) \<and> increasing K (pss ! j)))"

definition points_ok :: "'arg sort_cf \<Rightarrow> nat list list \<Rightarrow> bool" where
  \<comment> \<open>every chunk has index points, at most one per character and none behind the chunk\<close>
  "points_ok cf pts = (\<forall>k<length pts. pts ! k \<noteq> [] \<and> distinct (pts ! k) \<and> (\<forall>s\<in>set (pts ! k). s < text_buffer_size cf) \<and>
     (\<forall>s\<in>set (pts ! k). s < length (read_text cf (k * text_buffer_size cf))))"

lemma points_okD:
  assumes "points_ok cf pts" "k < length pts"
  shows "pts ! k \<noteq> []" "distinct (pts ! k)" "s \<in> set (pts ! k) \<Longrightarrow> s < text_buffer_size cf"
    "s \<in> set (pts ! k) \<Longrightarrow> s < length (read_text cf (k * text_buffer_size cf))"
  using assms unfolding points_ok_def by blast+

lemma stored_snoc:
  assumes "stored_runs K H z pss rs" "ps \<noteq> []" "run_ok K H (\<lambda>s. length pss * z + s) (concat pss) ps r"
  shows "stored_runs K H z (pss @ [ps]) (rs @ [r])"
  using assms by (auto simp: stored_runs_def nth_append prevs_def less_Suc_eq)

lemma described_snoc:
  assumes "described pss rs run" "length rs = length pss" "rn_nitems x = length ps" "rn_offset x = length (concat rs)"
  shows "described (pss @ [ps]) (rs @ [r]) (run @ [x])"
  using assms by (auto simp: described_def nth_append less_Suc_eq)

lemma sort_chunk_ok:
  assumes ag: "buffers_agree cf K H pts" and pts: "points_ok cf pts" and k: "k < length pts"
    and sc: "sorted_chunks cf K H pts k pss rs run"
    and points: "cf_setIndexPoints cf (min (length (read_text cf (k * text_buffer_size cf))) (text_buffer_size cf)) (read_text cf (k * text_buffer_size cf)) arg = (pts ! k, arg1)"
  shows "\<exists>ps r run1. sort_chunk cf (read_text cf (k * text_buffer_size cf)) arg run (concat rs) = Inr (arg1, run1, concat (rs @ [r])) \<and>
    sorted_chunks cf K H pts (Suc k) (pss @ [ps]) (rs @ [r]) run1"
proof -
  let ?z = "text_buffer_size cf"
  let ?buf = "read_text cf (k * ?z)"
  have pk: "pts ! k \<noteq> []" "distinct (pts ! k)" "\<forall>s\<in>set (pts ! k). s < ?z" "\<forall>s\<in>set (pts ! k). s < length ?buf"
    using points_okD [OF pts k] by blast+
  have s: "length pss = k" "stored_runs K H ?z pss rs" "described pss rs run"
    "\<forall>j<k. set (pss ! j) = (\<lambda>s. j * ?z + s) ` set (pts ! j) \<and> increasing K (pss ! j)"
    using sc by (simp_all add: sorted_chunks_def)
  from first_run [OF ag k pk(2,1)] obtain es ps r where f: "sortRun (cmpRunElt (cf_strcomp cf) ?buf) (map new_elt (pts ! k)) = Inr es"
    "set_heights cf ?buf es = Inr r" "increasing K ps" "set ps = (\<lambda>s. k * ?z + s) ` set (pts ! k)" "run_ok K H (\<lambda>s. k * ?z + s) [] ps r" by blast
  have small: "\<forall>j\<le>k. \<forall>s\<in>set (pts ! j). s < ?z" using points_okD(3) [OF pts] k by (meson le_less_trans)
  have ne: "\<forall>j<k. read_text cf (j * ?z) \<noteq> []"
  proof (intro allI impI)
    fix j assume "j < k"
    then have "pts ! j \<noteq> []" "hd (pts ! j) \<in> set (pts ! j) \<Longrightarrow> hd (pts ! j) < length (read_text cf (j * ?z))"
      using points_okD(1,4) [OF pts, of j] k by auto
    then show "read_text cf (j * ?z) \<noteq> []" by auto
  qed
  have psne: "ps \<noteq> []" using f(4) pk(1) by auto
  have "run_ok K H (\<lambda>s. k * ?z + s) (prevs pss 0) ps r" using f(5) by (simp add: prevs_def)
  from merge_earlier_ok [OF ag k refl s(2,3,1,4) small ne f(4,3) psne le0 this]
  obtain r' where r': "merge_earlier cf 0 run (concat rs) ?buf r = Inr r'" "run_ok K H (\<lambda>s. k * ?z + s) (prevs pss k) ps r'" by auto
  have lp: "length ps = length (pts ! k)"
    by (metis distinct_card f(3,4) card_image increasing_distinct inj_on_def add_left_cancel pk(2))
  have "length (pts ! k) \<le> ?z"
    using card_mono [of "{..<?z}" "set (pts ! k)"] pk(2,3) by (auto simp: distinct_card)
  then have chk: "\<not> (?z < length (pts ! k) \<or> \<not> list_all (\<lambda>s. s < length ?buf) (pts ! k))" using pk(4) by (simp add: list_all_iff)
  let ?x = "\<lparr>rn_elt = [], rn_curr = 0, rn_offset = length (concat rs), rn_nitems = length (pts ! k), rn_outposi = 0, rn_outsofar = 0\<rparr>"
  have "sort_chunk cf ?buf arg run (concat rs) = Inr (arg1, run @ [?x], concat (rs @ [r']))"
    using chk by (simp add: sort_chunk_def points f(1,2) r'(1))
  moreover have "sorted_chunks cf K H pts (Suc k) (pss @ [ps]) (rs @ [r']) (run @ [?x])"
    unfolding sorted_chunks_def
  proof (intro conjI)
    show "stored_runs K H ?z (pss @ [ps]) (rs @ [r'])"
      by (rule stored_snoc [OF s(2) psne]) (use r'(2) s(1) in \<open>simp add: prevs_def\<close>)
    show "described (pss @ [ps]) (rs @ [r']) (run @ [?x])"
      by (rule described_snoc [OF s(3)]) (use s(2) lp in \<open>auto simp: stored_runs_def\<close>)
    show "\<forall>j<Suc k. set ((pss @ [ps]) ! j) = (\<lambda>s. j * ?z + s) ` set (pts ! j) \<and> increasing K ((pss @ [ps]) ! j)"
      using s(1,4) f(3,4) by (auto simp: nth_append less_Suc_eq)
  qed (use s(1) in simp)
  ultimately show ?thesis by blast
qed

lemma read_text_length: "length (read_text cf pos) = min (text_buffer_size cf + cf_sortPadLen cf) (length (cf_text cf) - pos)"
  by (simp add: read_text_def)

lemma chunk_count_iff: "0 < text_buffer_size cf \<Longrightarrow> k < chunk_count cf \<longleftrightarrow> k * text_buffer_size cf < length (cf_text cf)"
proof -
  assume z: "0 < text_buffer_size cf"
  have "k < chunk_count cf \<longleftrightarrow> Suc k \<le> chunk_count cf" by auto
  also have "\<dots> \<longleftrightarrow> Suc k * text_buffer_size cf \<le> length (cf_text cf) + text_buffer_size cf - 1"
    unfolding chunk_count_def by (rule less_eq_div_iff_mult_less_eq [OF z])
  also have "\<dots> \<longleftrightarrow> k * text_buffer_size cf < length (cf_text cf)" using z by auto
  finally show ?thesis .
qed

lemma csort_loop_ok:
  assumes ag: "buffers_agree cf K H pts" and ok: "points_ok cf pts" and z: "0 < text_buffer_size cf" and N: "length pts = chunk_count cf"
  shows "length pts - k < fuel \<Longrightarrow> k \<le> length pts \<Longrightarrow> sorted_chunks cf K H pts k pss rs run \<Longrightarrow> chunk_points cf arg k (length pts - k) = drop k pts \<Longrightarrow>
    (if k < length pts then pos = k * text_buffer_size cf else length (cf_text cf) \<le> pos) \<Longrightarrow>
    \<exists>pss' rs' run'. csort_loop fuel cf pos arg run (concat rs) = Inr (run', concat rs') \<and> sorted_chunks cf K H pts (length pts) pss' rs' run'"
proof (induction fuel arbitrary: k pss rs run arg pos)
  case (Suc fuel)
  let ?z = "text_buffer_size cf"
  show ?case
  proof (cases "k < length pts")
    case False
    then have "read_text cf pos = []" "k = length pts" using Suc.prems by (auto simp: read_text_def)
    with Suc.prems show ?thesis by auto
  next
    case True
    then have pos: "pos = k * ?z" using Suc.prems(5) by simp
    let ?buf = "read_text cf (k * ?z)"
    have lt: "k * ?z < length (cf_text cf)" using True N chunk_count_iff [OF z] by simp
    obtain d where d: "length pts - k = Suc d" "d = length pts - Suc k" using True by (metis Suc_diff_Suc)
    obtain ptsk arg1 where p: "cf_setIndexPoints cf (min (length ?buf) ?z) ?buf arg = (ptsk, arg1)" by fastforce
    have "drop k pts = pts ! k # drop (Suc k) pts" using True by (simp add: Cons_nth_drop_Suc)
    then have pk: "ptsk = pts ! k" "chunk_points cf arg1 (Suc k) (length pts - Suc k) = drop (Suc k) pts"
      using Suc.prems(4) p d by (auto simp: Let_def)
    from sort_chunk_ok [OF ag ok True Suc.prems(3) p [unfolded pk(1)]] obtain ps r run1
      where s: "sort_chunk cf ?buf arg run (concat rs) = Inr (arg1, run1, concat (rs @ [r]))" "sorted_chunks cf K H pts (Suc k) (pss @ [ps]) (rs @ [r]) run1" by blast
    let ?pos = "pos + length ?buf - (if ?z < length ?buf then length ?buf - ?z else 0)"
    have len: "length ?buf = min (?z + cf_sortPadLen cf) (length (cf_text cf) - k * ?z)" by (rule read_text_length)
    have "if Suc k < length pts then ?pos = Suc k * ?z else length (cf_text cf) \<le> ?pos"
      using len lt pos z chunk_count_iff [OF z, of "Suc k"] N by (auto simp: min_def split: if_splits)
    moreover have "length pts - Suc k < fuel" "Suc k \<le> length pts" using Suc.prems(1) True by auto
    ultimately obtain pss' rs' run' where "csort_loop fuel cf ?pos arg1 run1 (concat (rs @ [r])) = Inr (run', concat rs')" "sorted_chunks cf K H pts (length pts) pss' rs' run'"
      using Suc.IH [OF _ _ s(2) pk(2)] by blast
    moreover have "csort_loop (Suc fuel) cf pos arg run (concat rs) = csort_loop fuel cf ?pos arg1 run1 (concat (rs @ [r]))"
      using len lt z s(1) unfolding pos by (auto simp: Let_def)
    ultimately show ?thesis by metis
  qed
qed simp

text \<open>The index points of a text, and the theorem about the sort.\<close>

definition index_points :: "'arg sort_cf \<Rightarrow> nat list list \<Rightarrow> nat list" where
  "index_points cf pts = concat (map (\<lambda>k. map (\<lambda>s. k * text_buffer_size cf + s) (pts ! k)) [0..<length pts])"

lemma set_index_points: "set (index_points cf pts) = (\<Union>k<length pts. (\<lambda>s. k * text_buffer_size cf + s) ` set (pts ! k))"
  by (auto simp: index_points_def)

lemma set_concat_nth: "set (concat xss) = (\<Union>k<length xss. set (xss ! k))"
proof -
  have "set xss = (!) xss ` {..<length xss}" by (auto simp: in_set_conv_nth)
  then show ?thesis by simp
qed

lemma distinct_concatI: "\<forall>k<length xss. distinct (xss ! k) \<Longrightarrow> \<forall>k<length xss. \<forall>j<k. set (xss ! j) \<inter> set (xss ! k) = {} \<Longrightarrow> distinct (concat xss)"
proof (induction xss rule: rev_induct)
  case (snoc xs xss)
  have "\<forall>k<length xss. distinct (xss ! k)" "\<forall>k<length xss. \<forall>j<k. set (xss ! j) \<inter> set (xss ! k) = {}"
    using snoc.prems by (auto simp: nth_append less_Suc_eq)
  then have "distinct (concat xss)" by (rule snoc.IH)
  moreover have "distinct xs" using snoc.prems(1) [rule_format, of "length xss"] by simp
  moreover have "set (concat xss) \<inter> set xs = {}"
    using snoc.prems(2) [rule_format, of "length xss"] unfolding set_concat_nth by (auto simp: nth_append)
  ultimately show ?case by auto
qed simp

lemma infix_build_abstract:
  assumes ag: "buffers_agree cf K H pts" and ok: "points_ok cf pts" and z: "0 < text_buffer_size cf" and fit: "buffers_fit cf"
    and pts: "pts = chunk_points cf (cf_indexArg cf) 0 (chunk_count cf)" and ne: "cf_text cf \<noteq> []"
    and mem: "chunk_count cf * sizeof_RunElement \<le> cf_sortMaxMem cf"
    and law: "height_law K H (set (index_points cf pts))"
  shows "\<exists>G. increasing K G \<and> set G = set (index_points cf pts) \<and> patrieInfixBuild cf = Inr (0 # infix_cells H G @ [0])"
proof -
  have chunks: "length (chunk_points cf arg k n) = n" for arg k n by (induction n arbitrary: arg k) (auto simp: Let_def split: prod.splits)
  have N: "length pts = chunk_count cf" using pts chunks by simp
  have "0 < chunk_count cf" using chunk_count_iff [OF z, of 0] ne by simp
  then have N0: "0 < length pts" using N by simp
  have "chunk_count cf \<le> length (cf_text cf)"
    using chunk_count_iff [OF z, of "length (cf_text cf)"] z by (metis leI mult.commute nat_mult_1 not_less_iff_gr_or_eq mult_le_mono1 Suc_leI One_nat_def le_less_trans less_irrefl)
  then have fuel: "length pts - 0 < Suc (length (cf_text cf))" using N by simp
  have start: "sorted_chunks cf K H pts 0 [] [] []" by (simp add: sorted_chunks_def stored_runs_def described_def)
  have "chunk_points cf (cf_indexArg cf) 0 (length pts - 0) = drop 0 pts" using pts N by simp
  from csort_loop_ok [OF ag ok z N fuel le0 start this, of 0] N0 obtain pss rs run
    where c: "csort cf = Inr (run, concat rs)" "sorted_chunks cf K H pts (length pts) pss rs run" using fit by (auto simp: csort_def)
  then have s: "length pss = length pts" "stored_runs K H (text_buffer_size cf) pss rs" "described pss rs run"
    "\<forall>j<length pts. set (pss ! j) = (\<lambda>s. j * text_buffer_size cf + s) ` set (pts ! j) \<and> increasing K (pss ! j)"
    by (simp_all add: sorted_chunks_def)
  let ?G = "sort_key K (concat pss)"
  have sG: "set (concat pss) = set (index_points cf pts)"
    unfolding set_concat_nth set_index_points using s(1,4) by simp
  have small: "s < text_buffer_size cf" if "k < length pts" "s \<in> set (pts ! k)" for k s
    using points_okD(3) [OF ok that] .
  have inj: "K p \<noteq> K q" if "p \<in> set (index_points cf pts)" "q \<in> set (index_points cf pts)" "p \<noteq> q" for p q
  proof -
    from that obtain j s k u where "j < length pts" "k < length pts" "s \<in> set (pts ! j)" "u \<in> set (pts ! k)"
      "p = j * text_buffer_size cf + s" "q = k * text_buffer_size cf + u" by (auto simp: set_index_points)
    with buffers_agreeD(1) [OF ag] that(3) show ?thesis by blast
  qed
  have "distinct (concat pss)"
  proof (rule distinct_concatI, intro allI impI)
    fix k assume "k < length pss"
    with s(1,4) have "increasing K (pss ! k)" by simp
    then show "distinct (pss ! k)" by (rule increasing_distinct)
  next
    show "\<forall>k<length pss. \<forall>j<k. set (pss ! j) \<inter> set (pss ! k) = {}"
    proof (intro allI impI equals0I)
      fix k j p assume kj: "k < length pss" "j < k" "p \<in> set (pss ! j) \<inter> set (pss ! k)"
      then obtain a b where ab: "a \<in> set (pts ! j)" "p = j * text_buffer_size cf + a" "p = k * text_buffer_size cf + b" using s(1,4) by auto
      have "a < text_buffer_size cf" by (rule small [OF _ ab(1)]) (use kj s(1) in simp)
      from chunks_apart [OF kj(2) this, of b] ab show False by simp
    qed
  qed
  then have inc: "increasing K ?G" by (intro increasing_sorted) (use inj sG in auto)
  have cov: "covers K pss ?G"
    unfolding covers_def
  proof (intro conjI ballI inc \<open>distinct (concat pss)\<close>)
    fix ps assume "ps \<in> set pss"
    with s(1,4) show "increasing K ps" by (metis in_set_conv_nth)
  qed simp
  have "pss \<noteq> []" using N0 s(1) by auto
  moreover have "height_law K H (set ?G)" using law sG by simp
  moreover have "length pss * sizeof_RunElement \<le> cf_sortMaxMem cf" using mem N s(1) by simp
  ultimately have "patrieInfixBuild cf = Inr (0 # infix_cells H ?G @ [0])"
    unfolding patrieInfixBuild_def c(1) using cmerge_cells [OF cov s(2) _ s(3)] by simp
  with inc sG show ?thesis by (intro exI [of _ ?G]) auto
qed

end
