(* ===== verification/PatrieOrder.thy ===== *)
theory PatrieOrder
  imports PatrieInfix "HOL-Library.List_Lexorder"
begin

section \<open>Patricia trie: the order of sistrings\<close>

text \<open>
  The sort takes its comparison and its differing bit function from the configuration.  What it
  needs of them is the interface \<open>sistring_order\<close>: the comparison orders strings by a key, the
  differing bit of three strings in order is that of the closer pair, and both depend only on the
  characters up to the first difference.  \<open>patrieSetCaseSensitive\<close> installs one of four pairs,
  and all of them provide the interface, with the folded string as the key.
\<close>

subsection \<open>The interface: a comparison and its differing bit\<close>

locale sistring_order =
  fixes cmp :: "cstr \<Rightarrow> cstr \<Rightarrow> int option"
    and db :: "cstr \<Rightarrow> cstr \<Rightarrow> nat option"
    and key :: "cstr \<Rightarrow> nat list"
  assumes cmp_key: "is_cstr s \<Longrightarrow> is_cstr t \<Longrightarrow> s \<noteq> t \<Longrightarrow>
      \<exists>v. cmp s t = Some v \<and> (v < 0 \<longleftrightarrow> key s < key t) \<and> (0 < v \<longleftrightarrow> key t < key s)"
    and key_take: "key (take i s) = take i (key s)"
    and db_bound: "is_cstr s \<Longrightarrow> is_cstr t \<Longrightarrow> take m (key s) \<noteq> take m (key t) \<Longrightarrow> \<exists>n. db s t = Some n \<and> 0 < n \<and> n \<le> 8 * m"
    and db_take: "is_cstr s \<Longrightarrow> is_cstr t \<Longrightarrow> take m (key s) \<noteq> take m (key t) \<Longrightarrow> m \<le> i \<Longrightarrow> m \<le> j \<Longrightarrow>
      db (take i s) (take j t) = db s t"
    and db_between: "is_cstr a \<Longrightarrow> is_cstr b \<Longrightarrow> is_cstr c \<Longrightarrow> key a < key b \<Longrightarrow> key b < key c \<Longrightarrow>
      db a b = Some m \<Longrightarrow> db b c = Some n \<Longrightarrow> m \<noteq> n \<and> db a c = Some (min m n)"

subsection \<open>The comparisons of the trie\<close>

definition fold_of :: "int \<Rightarrow> char \<Rightarrow> char" where
  "fold_of sens = (if sens = CMP_CIAI then (\<lambda>c. TOLOWER (NoAccent c)) else if sens = CMP_CIAS then TOLOWER
     else if sens = CMP_CSAI then NoAccent else (\<lambda>c. c))"

definition fold_key :: "(char \<Rightarrow> char) \<Rightarrow> cstr \<Rightarrow> nat list" where
  "fold_key f s = map (\<lambda>c. ord (f c)) s"

definition keeps_nul :: "(char \<Rightarrow> char) \<Rightarrow> bool" where
  "keeps_nul f = (\<forall>c. f c = NUL \<longleftrightarrow> c = NUL)"

lemma TOLOWER_nul: "keeps_nul TOLOWER"
proof -
  have "\<forall>i\<in>set [0..<256]. (patrieChLowerCase ! i = NUL) = (i = 0)" by code_simp
  then have "patrieChLowerCase ! ord c = NUL \<longleftrightarrow> ord c = 0" for c using ord_less [of c] by simp
  then show ?thesis by (simp add: keeps_nul_def TOLOWER_def ord_0_iff)
qed

lemma NoAccent_only_nul: "keeps_nul NoAccent"
proof -
  have "\<forall>i\<in>set [0..<256]. (patrieChNoAccent ! i = NUL) = (i = 0)" by code_simp
  then have "patrieChNoAccent ! ord c = NUL \<longleftrightarrow> ord c = 0" for c using ord_less [of c] by simp
  then show ?thesis by (simp add: keeps_nul_def NoAccent_def ord_0_iff)
qed

lemma fold_of_nul: "keeps_nul (fold_of sens)"
  using TOLOWER_nul NoAccent_only_nul by (auto simp: fold_of_def keeps_nul_def)

lemma fold_key_simps [simp]: "fold_key f [] = []" "fold_key f (c # s) = ord (f c) # fold_key f s"
  by (simp_all add: fold_key_def)

lemma fold_cmp_key:
  "keeps_nul f \<Longrightarrow> is_cstr s \<Longrightarrow> is_cstr t \<Longrightarrow>
   (ustr_fold_cmp f s t < 0 \<longleftrightarrow> fold_key f s < fold_key f t) \<and> (0 < ustr_fold_cmp f s t \<longleftrightarrow> fold_key f t < fold_key f s)"
proof (induction f s t rule: ustr_fold_cmp.induct)
  case (2 f a s)
  then have "f NUL = NUL" "f a \<noteq> NUL" by (auto simp: keeps_nul_def)
  then show ?case by (simp add: ord_0_iff neq0_conv [symmetric] del: neq0_conv)
next
  case (3 f b t)
  then have "f NUL = NUL" "f b \<noteq> NUL" by (auto simp: keeps_nul_def)
  then show ?case by (simp add: ord_0_iff neq0_conv [symmetric] del: neq0_conv)
next
  case (4 f a s b t)
  then show ?case by (cases "f a = f b") (auto simp: not_less order.order_iff_strict)
qed simp

lemma patrieUStrCmp_fold: "is_cstr s \<Longrightarrow> is_cstr t \<Longrightarrow> s \<noteq> t \<Longrightarrow> patrieUStrCmp s t = Some (ustr_fold_cmp (\<lambda>c. c) s t)"
  by (induction s t rule: patrieUStrCmp.induct) auto

lemma diff_bit_bound:
  "keeps_nul f \<Longrightarrow> is_cstr s \<Longrightarrow> is_cstr t \<Longrightarrow> take m (fold_key f s) \<noteq> take m (fold_key f t) \<Longrightarrow>
   \<exists>n. diff_bit_loop f i s t = Some n \<and> 0 < n \<and> n \<le> 8 * (i + m)"
proof (induction f i s t arbitrary: m rule: diff_bit_loop.induct)
  case (2 f i a s)
  then obtain k where "m = Suc k" by (cases m) auto
  moreover have "f NUL = NUL" "f a \<noteq> NUL" using 2 by (auto simp: keeps_nul_def)
  moreover from this have "diffTab (xor_chars (f a) (f NUL)) \<le> 7" by (intro byte_diff(1)) simp
  ultimately show ?case by simp
next
  case (3 f i b t)
  then obtain k where "m = Suc k" by (cases m) auto
  moreover have "f NUL = NUL" "f b \<noteq> NUL" using 3 by (auto simp: keeps_nul_def)
  moreover from this have "diffTab (xor_chars (f NUL) (f b)) \<le> 7" by (intro byte_diff(1)) simp
  ultimately show ?case by simp
next
  case (4 f i a s b t)
  then obtain k where k: "m = Suc k" by (cases m) auto
  show ?case
  proof (cases "f a = f b")
    case True
    with 4 k have "take k (fold_key f s) \<noteq> take k (fold_key f t)" by simp
    with "4.IH" [of k] 4 True k show ?thesis by auto
  next
    case False
    then have "diffTab (xor_chars (f a) (f b)) \<le> 7" by (intro byte_diff(1))
    with False k show ?thesis by auto
  qed
qed simp

lemma diff_bit_take:
  "keeps_nul f \<Longrightarrow> take m (fold_key f s) \<noteq> take m (fold_key f t) \<Longrightarrow> m \<le> i \<Longrightarrow> m \<le> j \<Longrightarrow>
   diff_bit_loop f l (take i s) (take j t) = diff_bit_loop f l s t"
proof (induction f l s t arbitrary: m i j rule: diff_bit_loop.induct)
  case (2 f l a s)
  then show ?case by (cases m; cases i) auto
next
  case (3 f l b t)
  then show ?case by (cases m; cases j) auto
next
  case (4 f l a s b t)
  then obtain k i' j' where k: "m = Suc k" "i = Suc i'" "j = Suc j'" by (cases m; cases i; cases j) auto
  show ?case
  proof (cases "f a = f b")
    case True
    with 4 k have "take k (fold_key f s) \<noteq> take k (fold_key f t)" by simp
    with "4.IH" [of k i' j'] 4 True k show ?thesis by simp
  qed (use k in auto)
qed simp

lemma diff_bit_between:
  assumes nul: "keeps_nul f" and cs: "is_cstr a" "is_cstr b" "is_cstr c"
    and lt: "fold_key f a < fold_key f b" "fold_key f b < fold_key f c"
    and db: "diff_bit_loop f 0 a b = Some m" "diff_bit_loop f 0 b c = Some n"
  shows "m \<noteq> n \<and> diff_bit_loop f 0 a c = Some (min m n)"
proof -
  have neg: "ustr_fold_cmp f a b < 0" "ustr_fold_cmp f b c < 0" "ustr_fold_cmp f a c < 0"
    using fold_cmp_key [OF nul cs(1,2)] fold_cmp_key [OF nul cs(2,3)] fold_cmp_key [OF nul cs(1,3)] lt by auto
  have bits: "1 \<le> k \<and> (\<forall>i. 1 \<le> i \<longrightarrow> i < k \<longrightarrow> str_bit f s i = str_bit f t i) \<and> \<not> str_bit f s k \<and> str_bit f t k"
    if "diff_bit_loop f 0 s t = Some k" "ustr_fold_cmp f s t < 0" for s t k
    using diff_bit_splits [OF that(1)] that(2) by (auto simp: splits_at_def split: if_splits)
  obtain k where k: "diff_bit_loop f 0 a c = Some k" using neg(3) diff_bit_None_iff [of f 0 a c] by fastforce
  note bab = bits [OF db(1) neg(1)] and bbc = bits [OF db(2) neg(2)] and bac = bits [OF k neg(3)]
  have mn: "m \<noteq> n" using bab bbc by auto
  have "\<not> str_bit f a (min m n) \<and> str_bit f c (min m n)" using bab bbc mn by (cases "m < n") (auto simp: min_def)
  moreover have "\<forall>i. 1 \<le> i \<longrightarrow> i < min m n \<longrightarrow> str_bit f a i = str_bit f c i" using bab bbc by auto
  moreover have "1 \<le> min m n" using bab bbc by simp
  ultimately have "k = min m n" using bac by (metis linorder_neqE_nat)
  with mn k show ?thesis by simp
qed

lemma case_sensitive_fields:
  "is_cstr s \<Longrightarrow> is_cstr t \<Longrightarrow> s \<noteq> t \<Longrightarrow> cf_strcomp (patrieSetCaseSensitive sens cf) s t = Some (ustr_fold_cmp (fold_of sens) s t)"
  "cf_diffbit (patrieSetCaseSensitive sens cf) = diff_bit_loop (fold_of sens) 0"
  by (auto simp: fun_eq_iff patrieSetCaseSensitive_def fold_of_def CMP_CIAI_def CMP_CIAS_def CMP_CSAI_def patrieUStrCiAiCmp_def patrieUStrCiAsCmp_def patrieUStrCaseCmp_def
    patrieUStrCsAiCmp_def patrieUStrAccCmp_def patrieUStrCsAsCmp_def patrieUStrCmp_fold
    patrieDiffBitCiAi_def patrieDiffBitCiAs_def patrieDiffBitCase_def patrieDiffBitCsAi_def patrieDiffBitAccent_def
    patrieDiffBitCsAs_def patrieDiffBit_def)

interpretation configured: sistring_order "cf_strcomp (patrieSetCaseSensitive sens cf)" "cf_diffbit (patrieSetCaseSensitive sens cf)"
  "fold_key (fold_of sens)" for sens and cf :: "'arg sort_cf"
proof (unfold_locales, goal_cases)
  case (1 s t)
  then show ?case using fold_cmp_key [OF fold_of_nul 1(1,2)] by (auto simp: case_sensitive_fields)
next
  case (2 i s)
  show ?case by (simp add: fold_key_def take_map)
next
  case (3 s t m)
  then show ?case using diff_bit_bound [OF fold_of_nul 3, of 0] by (simp add: case_sensitive_fields)
next
  case (4 s t m i j)
  then show ?case using diff_bit_take [OF fold_of_nul 4(3-5), of 0] by (simp add: case_sensitive_fields)
next
  case (5 a b c m n)
  then show ?case using diff_bit_between [OF fold_of_nul 5(1-5)] by (simp add: case_sensitive_fields)
qed

subsection \<open>What the buffers show of a sistring\<close>

definition height_of :: "(cstr \<Rightarrow> cstr \<Rightarrow> nat option) \<Rightarrow> (cstr \<Rightarrow> nat list) \<Rightarrow> cstr \<Rightarrow> nat \<Rightarrow> nat \<Rightarrow> nat" where
  "height_of db key txt p q =
     (let s = drop p txt; t = drop q txt; d = (if key s < key t then db s t else if key t < key s then db t s else None)
      in case d of None \<Rightarrow> 0 | Some n \<Rightarrow> n)"

definition told_apart :: "(cstr \<Rightarrow> nat list) \<Rightarrow> cstr \<Rightarrow> nat \<Rightarrow> nat list \<Rightarrow> bool" where
  \<comment> \<open>any two of the positions start strings that differ within \<open>m\<close> characters\<close>
  "told_apart key txt m ps = (\<forall>p\<in>set ps. \<forall>q\<in>set ps. p \<noteq> q \<longrightarrow> take m (key (drop p txt)) \<noteq> take m (key (drop q txt)))"

lemma take_less_iff:
  "take m xs \<noteq> take m ys \<Longrightarrow> m \<le> i \<Longrightarrow> m \<le> j \<Longrightarrow> take i xs < take j ys \<longleftrightarrow> xs < (ys :: nat list)"
proof (induction m arbitrary: xs ys i j)
  case (Suc m)
  then obtain i' j' where "i = Suc i'" "j = Suc j'" by (cases i; cases j) auto
  with Suc show ?case by (cases xs; cases ys) auto
qed simp

lemma is_cstr_take [simp]: "is_cstr s \<Longrightarrow> is_cstr (take n s)" "is_cstr s \<Longrightarrow> is_cstr (drop n s)"
  by (auto simp: is_cstr_def dest: in_set_takeD in_set_dropD)

lemma seen_take: "is_cstr (cf_text cf) \<Longrightarrow> s < text_buffer_size cf \<Longrightarrow>
    seen cf k s = take (text_buffer_size cf + cf_sortPadLen cf - s) (drop (k * text_buffer_size cf + s) (cf_text cf))"
proof -
  assume c: "is_cstr (cf_text cf)" and s: "s < text_buffer_size cf"
  let ?d = "drop s (read_text cf (k * text_buffer_size cf))"
  have "is_cstr ?d" using c by (simp add: read_text_def)
  then have "takeWhile (\<lambda>c. c \<noteq> NUL) ?d = ?d" by (auto simp: is_cstr_def takeWhile_eq_all_conv)
  with s show ?thesis by (simp add: seen_def str_at_def read_text_def drop_take add.commute)
qed

context sistring_order
begin

lemma key_ne: "take m (key s) \<noteq> take m (key t) \<Longrightarrow> key s < key t \<or> key t < key s"
  by (metis linorder_neqE)

lemma height_ordered:
  assumes "is_cstr txt" "key (drop p txt) < key (drop q txt)" "take m (key (drop p txt)) \<noteq> take m (key (drop q txt))"
  shows "db (drop p txt) (drop q txt) = Some (height_of db key txt p q)" "0 < height_of db key txt p q" "height_of db key txt p q \<le> 8 * m"
    "height_of db key txt q p = height_of db key txt p q"
proof -
  from db_bound [OF is_cstr_take(2) is_cstr_take(2) assms(3)] assms(1) obtain n where n: "db (drop p txt) (drop q txt) = Some n" "0 < n" "n \<le> 8 * m"
    by blast
  have "\<not> key (drop q txt) < key (drop p txt)" using assms(2) by (rule less_not_sym)
  with n assms(2) show "db (drop p txt) (drop q txt) = Some (height_of db key txt p q)" "0 < height_of db key txt p q" "height_of db key txt p q \<le> 8 * m"
    "height_of db key txt q p = height_of db key txt p q" by (simp_all add: height_of_def Let_def)
qed

lemma height_between:
  assumes "is_cstr txt" "told_apart key txt m ps" "p \<in> set ps" "q \<in> set ps" "r \<in> set ps"
    and "key (drop p txt) < key (drop q txt)" "key (drop q txt) < key (drop r txt)"
  shows "height_of db key txt p q \<noteq> height_of db key txt q r \<and>
    height_of db key txt p r = min (height_of db key txt p q) (height_of db key txt q r)"
proof -
  have pr: "key (drop p txt) < key (drop r txt)" using assms(6,7) by (rule less_trans)
  have "take m (key (drop p txt)) \<noteq> take m (key (drop q txt))" "take m (key (drop q txt)) \<noteq> take m (key (drop r txt))"
    "take m (key (drop p txt)) \<noteq> take m (key (drop r txt))" using assms(2-7) pr by (auto simp: told_apart_def)
  note h = height_ordered(1) [OF assms(1,6) this(1)] height_ordered(1) [OF assms(1,7) this(2)] height_ordered(1) [OF assms(1) pr this(3)]
  from db_between [OF _ _ _ assms(6,7) h(1,2)] h(3) assms(1) show ?thesis by simp
qed

lemma height_law_apart:
  assumes "is_cstr txt" "told_apart key txt m ps" "m \<le> 8191"
  shows "height_law (\<lambda>p. key (drop p txt)) (height_of db key txt) (set ps)"
  unfolding height_law_def
proof (intro conjI ballI impI)
  fix x y assume xy: "x \<in> set ps" "y \<in> set ps"
  show "height_of db key txt x y = height_of db key txt y x"
    by (cases "key (drop x txt) < key (drop y txt)"; cases "key (drop y txt) < key (drop x txt)") (auto simp: height_of_def Let_def)
  show "height_of db key txt x y < 65536"
  proof (cases "x = y")
    case False
    then have ne: "take m (key (drop x txt)) \<noteq> take m (key (drop y txt))" using assms(2) xy by (auto simp: told_apart_def)
    then show ?thesis
      using key_ne [OF ne] height_ordered(3) [OF assms(1) _ ne] height_ordered(3,4) [OF assms(1) _ ne [symmetric]] assms(3) by fastforce
  qed (simp add: height_of_def)
next
  fix x y z assume a: "x \<in> set ps" "y \<in> set ps" "z \<in> set ps" "key (drop x txt) < key (drop y txt)" "key (drop y txt) < key (drop z txt)"
  from height_between [OF assms(1,2) a] show "height_of db key txt x z \<le> height_of db key txt x y" "height_of db key txt x z \<le> height_of db key txt y z"
    by auto
qed

lemma apart_agree:
  assumes tx: "is_cstr (cf_text cf)" and fields: "cf_strcomp cf = cmp" "cf_diffbit cf = db"
    and apart: "told_apart key (cf_text cf) m (index_points cf pts)" "m \<le> Suc (cf_sortPadLen cf)" "m \<le> 8191"
    and small: "\<And>k s. k < length pts \<Longrightarrow> s \<in> set (pts ! k) \<Longrightarrow> s < text_buffer_size cf"
  shows "buffers_agree cf (\<lambda>p. key (drop p (cf_text cf))) (height_of db key (cf_text cf)) pts"
  unfolding buffers_agree_def Let_def
proof (intro allI ballI impI, goal_cases)
  case (1 j k s u)
  let ?z = "text_buffer_size cf" and ?T = "cf_text cf"
  let ?p = "j * ?z + s" and ?q = "k * ?z + u" and ?i = "?z + cf_sortPadLen cf - s" and ?j = "?z + cf_sortPadLen cf - u"
  have lt: "s < ?z" "u < ?z" using small 1 by auto
  then have mi: "m \<le> ?i" "m \<le> ?j" using apart(2) by auto
  have seen: "seen cf j s = take ?i (drop ?p ?T)" "seen cf k u = take ?j (drop ?q ?T)" using seen_take [OF tx] lt by auto
  have "?p \<in> set (index_points cf pts)" "?q \<in> set (index_points cf pts)" using 1 by (auto simp: set_index_points)
  then have ne: "take m (key (drop ?p ?T)) \<noteq> take m (key (drop ?q ?T))" using apart(1) 1(5) by (auto simp: told_apart_def)
  have tne: "take ?i (drop ?p ?T) \<noteq> take ?j (drop ?q ?T)"
  proof
    assume "take ?i (drop ?p ?T) = take ?j (drop ?q ?T)"
    then have "take m (take ?i (key (drop ?p ?T))) = take m (take ?j (key (drop ?q ?T)))" by (simp flip: key_take)
    with ne mi show False by (simp add: min_absorb1)
  qed
  have c: "is_cstr (drop ?p ?T)" "is_cstr (drop ?q ?T)" "is_cstr (take ?i (drop ?p ?T))" "is_cstr (take ?j (drop ?q ?T))" using tx by auto
  have K: "key (take ?i (drop ?p ?T)) < key (take ?j (drop ?q ?T)) \<longleftrightarrow> key (drop ?p ?T) < key (drop ?q ?T)"
    "key (take ?j (drop ?q ?T)) < key (take ?i (drop ?p ?T)) \<longleftrightarrow> key (drop ?q ?T) < key (drop ?p ?T)"
    unfolding key_take using take_less_iff [OF ne mi] take_less_iff [OF ne [symmetric] mi(2,1)] by auto
  have law: "height_of db key ?T ?p ?q = height_of db key ?T ?q ?p \<and> height_of db key ?T ?p ?q < 65536"
    using height_law_apart [OF tx apart(1,3)] \<open>?p \<in> _\<close> \<open>?q \<in> _\<close> by (simp add: height_law_def)
  have "key (drop ?p ?T) \<noteq> key (drop ?q ?T)" using ne by auto
  moreover have "\<exists>v. cf_strcomp cf (seen cf j s) (seen cf k u) = Some v \<and> (v < 0 \<longleftrightarrow> key (drop ?p ?T) < key (drop ?q ?T)) \<and>
      (0 < v \<longleftrightarrow> key (drop ?q ?T) < key (drop ?p ?T))"
    using cmp_key [OF c(3,4) tne] unfolding seen fields K by blast
  moreover have "key (drop ?p ?T) < key (drop ?q ?T) \<Longrightarrow> cf_diffbit cf (seen cf j s) (seen cf k u) = Some (height_of db key ?T ?p ?q)"
    unfolding seen fields db_take [OF c(1,2) ne mi] by (rule height_ordered(1) [OF tx _ ne])
  ultimately show ?case using law by blast
qed

lemma infix_build_order:
  assumes "is_cstr (cf_text cf)" "cf_text cf \<noteq> []" "cf_strcomp cf = cmp" "cf_diffbit cf = db"
    and "buffers_fit cf" "0 < text_buffer_size cf" "chunk_count cf * sizeof_RunElement \<le> cf_sortMaxMem cf"
    and "pts = chunk_points cf (cf_indexArg cf) 0 (chunk_count cf)" "points_ok cf pts"
    and "told_apart key (cf_text cf) m (index_points cf pts)" "m \<le> Suc (cf_sortPadLen cf)" "m \<le> 8191"
  shows "\<exists>G. increasing (\<lambda>p. key (drop p (cf_text cf))) G \<and> set G = set (index_points cf pts) \<and>
    patrieInfixBuild cf = Inr (0 # infix_cells (height_of db key (cf_text cf)) G @ [0])"
proof -
  have "buffers_agree cf (\<lambda>p. key (drop p (cf_text cf))) (height_of db key (cf_text cf)) pts"
    by (rule apart_agree [OF assms(1,3,4,10-12)]) (rule points_okD(3) [OF assms(9)])
  from infix_build_abstract [OF this assms(9,6,5,8,2,7) height_law_apart [OF assms(1,10,12)]] show ?thesis .
qed

end

subsection \<open>The infix file\<close>


definition sample_text :: "cstr \<Rightarrow> nat \<Rightarrow> unit sort_cf" where
  "sample_text txt mem = \<lparr>cf_text = txt, cf_strcomp = patrieUStrCmp, cf_diffbit = patrieDiffBit,
     cf_setIndexPoints = patrieSetIndexPoints, cf_indexArg = (), cf_sortMaxMem = mem, cf_sortPadLen = 4\<rparr>"


text \<open>
  A text without characters gives no runs, and dividing the memory among them is a division
  by zero; where the memory does not hold one element of every run, the build is refused.
\<close>

theorem infix_build_no_room:
  "(cf_text cf = [] \<longrightarrow> buffers_fit cf \<longrightarrow> patrieInfixBuild cf = Inl Undefined) \<and>
   (csort cf = Inr (run, runFP) \<longrightarrow> cf_sortMaxMem cf < length run * sizeof_RunElement \<longrightarrow> patrieInfixBuild cf = Inl Rejected)"
proof (intro conjI impI)
  assume e: "cf_text cf = []" and fit: "buffers_fit cf"
  have "read_text cf 0 = []" by (simp add: read_text_def e)
  then have "csort cf = Inr ([], [])" using fit by (simp add: csort_def e)
  then show "patrieInfixBuild cf = Inl Undefined" by (simp add: patrieInfixBuild_def cmerge_def initRuns_def)
next
  assume c: "csort cf = Inr (run, runFP)" and m: "cf_sortMaxMem cf < length run * sizeof_RunElement"
  then obtain r rs where r: "run = r # rs" by (cases run) auto
  have "cf_sortMaxMem cf div (length run * sizeof_RunElement) = 0" using m by simp
  then have "initRuns (cf_sortMaxMem cf) runFP run = Inl Rejected" using r by (simp add: initRuns_def initRun_def)
  then show "patrieInfixBuild cf = Inl Rejected" using c by (simp add: patrieInfixBuild_def cmerge_def)
qed

theorem infix_build_no_room_witness:
  "patrieInfixBuild (patrieSetCaseSensitive 3 (sample_text [] 100)) = Inl Undefined \<and>
   patrieInfixBuild (patrieSetCaseSensitive 3 (sample_text ''abcabc'' 40)) = Inl Rejected"
proof
  let ?cf = "patrieSetCaseSensitive 3 (sample_text [] 100)"
  have "cf_text ?cf = []" "buffers_fit ?cf" by code_simp+
  then show "patrieInfixBuild ?cf = Inl Undefined" using infix_build_no_room [of ?cf] by blast
next
  let ?cf = "patrieSetCaseSensitive 3 (sample_text ''abcabc'' 40)"
  have "case csort ?cf of Inr (run, runFP) \<Rightarrow> cf_sortMaxMem ?cf < length run * sizeof_RunElement | Inl _ \<Rightarrow> False" by code_simp
  then obtain run runFP where "csort ?cf = Inr (run, runFP)" "cf_sortMaxMem ?cf < length run * sizeof_RunElement"
    by (auto split: sum.splits prod.splits)
  then show "patrieInfixBuild ?cf = Inl Rejected" using infix_build_no_room [of ?cf run runFP] by blast
qed

lemma diff_bit_skip: "diff_bit_loop f i (replicate n c @ s) (replicate n c @ t) = diff_bit_loop f (i + n) s t"
  by (induction n arbitrary: i) auto

text \<open>
  C37.  Heights count from 1 and are kept in 16 bits: two strings that agree in \<open>n\<close> characters and
  then differ in the lowest bit have height \<open>8 * (n + 1)\<close>, which for 8191 characters is stored
  as 0.  The default padding of 8192 characters, "64K bits; amt. held by height vars", lets the
  sort meet such a pair.
\<close>

theorem long_match_height_lost:
  assumes "buf = replicate n c @ CHR ''b'' # replicate n c @ [CHR ''c'']" "c \<noteq> NUL" "cf_diffbit cf = patrieDiffBit"
  shows "\<exists>x y. set_heights cf buf [new_elt 0, new_elt (Suc n)] = Inr [x, y] \<and>
    unat (re_rh x) = 8 * Suc n mod 65536 \<and> unat (re_lh y) = 8 * Suc n mod 65536"
proof -
  let ?t = "replicate n c @ [CHR ''c'']"
  have "drop (Suc n) buf = ?t" using assms(1) by simp
  then have s: "str_at buf 0 = buf" "str_at buf (Suc n) = ?t"
    using assms(1,2) by (auto simp: str_at_def takeWhile_eq_all_conv)
  have "xor_chars (CHR ''b'') (CHR ''c'') = 1" by code_simp
  then have "patrieDiffBit buf ?t = Some (8 * Suc n)"
    unfolding patrieDiffBit_def assms(1) diff_bit_skip by (simp add: diffTab_def)
  moreover define d where "d = 8 * Suc n"
  moreover have "unat (of_nat d :: 16 word) = d mod 65536" by (simp add: unat_of_nat)
  ultimately show ?thesis using assms(3) by (simp add: diff_at_def s Let_def)
qed

theorem long_match_height_lost_witness:
  "\<exists>buf x y. set_heights (sample_text [] 0) buf [new_elt 0, new_elt 8192] = Inr [x, y] \<and> unat (re_rh x) = 0 \<and> unat (re_lh y) = 0"
proof -
  have d: "cf_diffbit (sample_text [] 0) = patrieDiffBit" by (simp add: sample_text_def)
  have e: "Suc 8191 = 8192" "8 * 8192 mod 65536 = (0 :: nat)" by simp_all
  have "CHR ''a'' \<noteq> NUL" by simp
  from long_match_height_lost [OF refl this d, where n = 8191, unfolded e] show ?thesis by blast
qed

end
