(* ===== verification/PatrieMatch.thy ===== *)
theory PatrieMatch
  imports PatrieFind PatrieOrder
begin

section \<open>Patricia trie: why one comparison is enough\<close>

text \<open>
  A Patricia trie keeps of the bits of its strings only the positions where two of them part.
  \<open>patricia\<close> states the invariant: the strings below a fork agree, under the folding of the
  index, in all bits before the fork's, and those on its left have 0 there and those on its right
  1.  It makes the descent along the bits of a key end at a subtrie that has all occurrences of
  the key (\<open>follow_hits\<close>), and either all or none of its strings begin with the key
  (\<open>follow_same\<close>).
\<close>

subsection \<open>Bits and characters\<close>

lemma key_at_iff: "key_at f key s \<longleftrightarrow> length key \<le> length s \<and> (\<forall>i<length key. f (key ! i) = f (s ! i))"
proof (induction f key s rule: key_at.induct)
  case (3 f k ks c cs)
  then show ?case by (auto simp: less_Suc_eq_0_disj)
qed auto

lemma str_bit_char:
  assumes "i < length key" "n < 8"
  shows "str_bit f s (8 * i + (8 - n)) = bit (ord (f (rd s i))) n"
proof -
  have "8 * i + (8 - n) - 1 = 7 - n + 8 * i" using assms(2) by simp
  moreover have "(7 - n + 8 * i) div 8 = i" "(7 - n + 8 * i) mod 8 = 7 - n" by simp_all
  moreover have "7 - (7 - n) = n" using assms(2) by simp
  ultimately show ?thesis unfolding str_bit_def by simp
qed

lemma char_of_bits:
  assumes "\<And>n. n < 8 \<Longrightarrow> bit (ord c) n = bit (ord d) n"
  shows "c = (d :: char)"
proof -
  have "ord c = ord d"
  proof (rule bit_eqI)
    fix n
    show "bit (ord c) n = bit (ord d) n"
      using assms [of n] byte_no_high_bit [OF ord_less, of n c] byte_no_high_bit [OF ord_less, of n d] by (cases "n < 8") auto
  qed
  then show ?thesis by simp
qed

definition same_bits :: "(char \<Rightarrow> char) \<Rightarrow> nat \<Rightarrow> cstr \<Rightarrow> cstr \<Rightarrow> bool" where
  \<comment> \<open>the folded strings agree in their first \<open>n\<close> bits\<close>
  "same_bits f n s t = (\<forall>i. 1 \<le> i \<longrightarrow> i \<le> n \<longrightarrow> str_bit f s i = str_bit f t i)"

lemma same_bits_char:
  assumes "same_bits f (8 * m) s t" "i < m"
  shows "f (rd s i) = f (rd t i)"
proof (rule char_of_bits)
  fix n :: nat assume n: "n < 8"
  then have "1 \<le> 8 * i + (8 - n)" "8 * i + (8 - n) \<le> 8 * m" using assms(2) by simp_all
  then have "str_bit f s (8 * i + (8 - n)) = str_bit f t (8 * i + (8 - n))" using assms(1) unfolding same_bits_def by blast
  then show "bit (ord (f (rd s i))) n = bit (ord (f (rd t i))) n" using str_bit_char [of i "replicate m c" n f] assms(2) n by simp
qed

lemma key_at_bits: "key_at f key s \<Longrightarrow> 1 \<le> i \<Longrightarrow> i \<le> 8 * length key \<Longrightarrow> str_bit f s i = str_bit (\<lambda>c. c) (map f key) i"
proof -
  assume k: "key_at f key s" and i: "1 \<le> i" "i \<le> 8 * length key"
  then have "(i - 1) div 8 < length key" by (simp add: less_mult_imp_div_less)
  then show ?thesis using k by (simp add: str_bit_def rd_def key_at_iff)
qed

lemma key_at_same_bits:
  assumes "key_at f key s" "same_bits f (8 * length key) s t" "keeps_nul f" "is_cstr key"
  shows "key_at f key t"
proof -
  have "i < length t \<and> f (key ! i) = f (t ! i)" if i: "i < length key" for i
  proof -
    have eq: "f (rd t i) = f (key ! i)" using same_bits_char [OF assms(2) i] assms(1) i by (simp add: key_at_iff rd_def)
    have "f (key ! i) \<noteq> NUL" using assms(3,4) i by (simp add: keeps_nul_def is_cstr_nth)
    then have "f (rd t i) \<noteq> NUL" unfolding eq .
    then have "rd t i \<noteq> NUL" using assms(3) unfolding keeps_nul_def by blast
    then have "i < length t" by (simp add: rd_def split: if_splits)
    then show ?thesis using eq by (simp add: rd_def)
  qed
  note at = this
  have "length key \<le> length t" using at [of "length t"] by (cases "length t < length key") auto
  then show ?thesis using at unfolding key_at_iff by blast
qed

subsection \<open>Patricia tries\<close>

definition text_from :: "cstr \<Rightarrow> int \<Rightarrow> cstr" where
  "text_from txt off = drop (nat off) txt"

definition occurs :: "(char \<Rightarrow> char) \<Rightarrow> cstr \<Rightarrow> cstr \<Rightarrow> int \<Rightarrow> bool" where
  \<comment> \<open>up to the folding, the key is in the text at this position\<close>
  "occurs f key txt off = key_at f key (text_from txt off)"

fun patricia :: "(char \<Rightarrow> char) \<Rightarrow> cstr \<Rightarrow> trie \<Rightarrow> bool" where
  \<comment> \<open>strings under a fork agree before its bit; those on the left have 0 there, those on the right 1\<close>
  "patricia f txt (Start v) = True"
| "patricia f txt (Fork h l r) = (patricia f txt l \<and> patricia f txt r \<and>
     (\<forall>u\<in>set (offsets [Fork h l r]). \<forall>v\<in>set (offsets [Fork h l r]). same_bits f (nat h - 1) (text_from txt u) (text_from txt v)) \<and>
     (\<forall>u\<in>set (offsets [l]). \<not> str_bit f (text_from txt u) (nat h)) \<and> (\<forall>v\<in>set (offsets [r]). str_bit f (text_from txt v) (nat h)))"

lemma offsets_append: "offsets (ts @ us) = offsets ts @ offsets us"
  by (simp add: offsets_def)

lemma offsets_Fork: "offsets [Fork h l r] = offsets [l] @ offsets [r]"
  by (simp add: offsets_def)

lemma follow_hits:
  assumes "patricia f txt t" "trie_ok t"
  shows "filter (occurs f key txt) (offsets [follow (map f key) t]) = filter (occurs f key txt) (offsets [t])"
  using assms
proof (induction t)
  case (Fork h l r)
  show ?case
  proof (cases "int (length key * 8) \<le> h - 1")
    case False
    then have h: "0 < h" "h \<le> 8 * int (length key)" using Fork.prems(2) by auto
    have pat: "patricia f txt (Fork h l r)" using Fork.prems(1) .
    let ?b = "str_bit (\<lambda>c. c) (map f key) (nat h)"
    have side: "str_bit f (text_from txt off) (nat h) = ?b" if "occurs f key txt off" for off
      using h by (intro key_at_bits [OF that [unfolded occurs_def]]) auto
    have e: "filter (occurs f key txt) (offsets [if ?b then l else r]) = []"
      using pat side by (auto simp: filter_empty_conv)
    have f: "follow (map f key) (Fork h l r) = follow (map f key) (if ?b then r else l)" using False by simp
    have IH: "filter (occurs f key txt) (offsets [follow (map f key) (if ?b then r else l)]) = filter (occurs f key txt) (offsets [if ?b then r else l])"
      using Fork by (auto simp del: follow.simps)
    show ?thesis using e IH unfolding f offsets_Fork by (cases ?b) simp_all
  qed simp
qed simp

lemma follow_same:
  assumes "patricia f txt t" "trie_ok t" "keeps_nul f" "is_cstr key"
    and "u \<in> set (offsets [follow (map f key) t])" "v \<in> set (offsets [follow (map f key) t])" "occurs f key txt u"
  shows "occurs f key txt v"
  using assms(1,2,5,6)
proof (induction t)
  case (Start x)
  then show ?case using assms(7) by simp
next
  case (Fork h l r)
  show ?case
  proof (cases "int (length key * 8) \<le> h - 1")
    case False
    let ?b = "str_bit (\<lambda>c. c) (map f key) (nat h)"
    have f: "follow (map f key) (Fork h l r) = follow (map f key) (if ?b then r else l)" using False by simp
    have sub: "patricia f txt l" "patricia f txt r" "trie_ok l" "trie_ok r" using Fork.prems(1,2) by simp_all
    show ?thesis using Fork.IH sub Fork.prems(3,4) unfolding f by (cases ?b) simp_all
  next
    case True
    then have "follow (map f key) (Fork h l r) = Fork h l r" by simp
    then have "same_bits f (nat h - 1) (text_from txt u) (text_from txt v)" using Fork.prems by simp
    then have "same_bits f (8 * length key) (text_from txt u) (text_from txt v)" using True unfolding same_bits_def by auto
    from key_at_same_bits [OF _ this assms(3,4)] show ?thesis using assms(7) by (simp add: occurs_def)
  qed
qed

text \<open>
  What a search needs of the trie and the text: the descent along the key leads to all occurrences of
  it and, if to one, to nothing else.
\<close>

definition findable :: "(char \<Rightarrow> char) \<Rightarrow> cstr \<Rightarrow> trie \<Rightarrow> cstr \<Rightarrow> bool" where
  "findable f txt t key = (let below = offsets [follow (map f key) t] in
     filter (occurs f key txt) below = filter (occurs f key txt) (offsets [t]) \<and>
     (\<forall>u\<in>set below. \<forall>v\<in>set below. occurs f key txt u \<longrightarrow> occurs f key txt v))"

lemma patricia_findable:
  "patricia f txt t \<Longrightarrow> trie_ok t \<Longrightarrow> keeps_nul f \<Longrightarrow> is_cstr key \<Longrightarrow> findable f txt t key"
  unfolding findable_def Let_def using follow_hits follow_same by blast

lemma offsets_pos: "trie_ok t \<Longrightarrow> off \<in> set (offsets [t]) \<Longrightarrow> 0 \<le> off"
proof (induction t)
  case (Fork h l r)
  then show ?case unfolding offsets_Fork by auto
qed simp

lemma offsets_ne: "offsets [t] \<noteq> []"
  by (induction t) (simp_all add: offsets_Fork del: offsets_simps(3))

lemma follow_sub: "set (offsets [follow k t]) \<subseteq> set (offsets [t])" "nodes (follow k t) \<le> nodes t"
  by (induction t) (auto simp: offsets_Fork simp del: offsets_simps(3))

lemma findable_text:
  \<comment> \<open>the text may be replaced by one in which the key stands at the same starts\<close>
  assumes "findable f txt t key" "\<forall>off\<in>set (offsets [t]). occurs f key txt' off = occurs f key txt off"
  shows "findable f txt' t key"
proof -
  have "occurs f key txt' off = occurs f key txt off" if "off \<in> set (offsets [follow (map f key) t])" for off
    using that assms(2) follow_sub(1) by blast
  then show ?thesis using assms unfolding findable_def Let_def by (auto cong: filter_cong)
qed

lemma depth_nodes: "depth t \<le> nodes t"
  by (induction t) auto

end
