(* ===== verification/PatrieFound.thy ===== *)
theory PatrieFound
  imports PatrieMatch
begin

section \<open>Patricia trie: what a search finds\<close>

text \<open>
  \<open>hits\<close> is what a search is to find in the index, and \<open>search_at\<close> what the state of a search
  still has to give.  \<open>search_sub_ok\<close> and \<open>more_starts_ok\<close> follow \<open>patrieSearchSub\<close> and
  \<open>patrieGetMoreStarts\<close> over a file that holds a Patricia trie, for every pair of the type of the
  search and that of the index.
\<close>

subsection \<open>The file does not change\<close>

definition readable :: "search_cf \<Rightarrow> trie \<Rightarrow> bool" where
  \<comment> \<open>the paged file holds the trie, and a page in memory is as large as those of the file\<close>
  "readable cf t = (file_of cf t \<and> (case sc_page cf of None \<Rightarrow> True | Some pg \<Rightarrow> length (pg_bits pg) = sc_size cf))"

lemma group_ok_page: "group_ok (cf\<lparr>sc_page := x\<rparr>) p Ss gs = group_ok cf p Ss gs"
  by (simp add: group_ok_def)

lemma file_of_page: "file_of (cf\<lparr>sc_page := x\<rparr>) t = file_of cf t"
  by (simp add: file_of_def group_ok_page)

lemma trie_at_page: "trie_at (cf\<lparr>sc_page := x\<rparr>) = trie_at cf"
  by (simp add: fun_eq_iff trie_at_def node_at_def group_ok_page)

lemma nav_ok_page: "nav_ok (cf\<lparr>sc_page := x\<rparr>) = nav_ok cf"
  by (simp add: fun_eq_iff nav_ok_def page_in_def)

lemma with_page_is: "\<exists>x. with_page cf = cf\<lparr>sc_page := x\<rparr>"
  by (cases cf) (auto simp: with_page_def initPageBuffer_def)

lemma with_page_fields: "trie_at (with_page cf) = trie_at cf" "nav_ok (with_page cf) = nav_ok cf" "file_of (with_page cf) t = file_of cf t"
  "sc_text (with_page cf) = sc_text cf" "sc_build (with_page cf) = sc_build cf"
  using with_page_is [of cf] by (auto simp: trie_at_page nav_ok_page file_of_page)

lemma nav_ok_fields:
  assumes "nav_ok cf cf'"
  shows "sc_text cf' = sc_text cf" "sc_build cf' = sc_build cf" "with_page cf' = cf'"
  using assms by (auto simp: nav_ok_def with_page_def)

lemma readable_buffer: "readable cf t \<Longrightarrow> file_of (with_page cf) t \<and> page_buffer (with_page cf)"
  unfolding readable_def with_page_fields
  by (auto simp: page_buffer_def with_page_def initPageBuffer_def split: option.splits)

lemma nav_ok_readable: "nav_ok cf cf' \<Longrightarrow> readable cf t \<Longrightarrow> readable cf' t"
  by (auto simp: nav_ok_def readable_def file_of_page page_in_def Let_def)

subsection \<open>The tests of a start\<close>

definition sens_ok :: "int \<Rightarrow> bool" where
  "sens_ok s = (s \<in> {CMP_CIAI, CMP_CIAS, CMP_CSAI, CMP_CSAS})"

lemmas cmp_codes = CMP_CIAI_def CMP_CIAS_def CMP_CSAI_def CMP_CSAS_def CMP_NULL_def

definition filter_type :: "int \<Rightarrow> int \<Rightarrow> int" where
  \<comment> \<open>the comparison that filters the starts of an index of type \<open>b\<close> for a search of type \<open>s\<close>\<close>
  "filter_type s b = MatchMap ! nat s ! nat b"

definition passes :: "int \<Rightarrow> cstr \<Rightarrow> cstr \<Rightarrow> int \<Rightarrow> bool" where
  "passes type key txt off = (type \<noteq> CMP_NULL \<and> occurs (fold_of type) key txt off)"

lemma key_matches_occurs: "0 \<le> off \<Longrightarrow> key_matches f cf key off = Inr (occurs f key (sc_text cf) off)"
  by (simp add: key_matches_def occurs_def text_from_def)

lemma keyTypeMatch_occurs:
  assumes "0 \<le> off" "sens_ok type \<or> type = CMP_NULL"
  shows "keyTypeMatch cf key off type = Inr (passes type key (sc_text cf) off)"
  using assms by (auto simp: keyTypeMatch_def keyMatchesCiAi_def keyMatchesCase_def keyMatchesAccent_def keyMatches_def key_matches_occurs
    passes_def fold_of_def sens_ok_def cmp_codes)

lemma sens_ok_less: "sens_ok s \<Longrightarrow> s \<in> {0, 1, 2, 3}"
  by (auto simp: sens_ok_def cmp_codes)

lemma filter_type_ok: "sens_ok s \<Longrightarrow> sens_ok b \<Longrightarrow> sens_ok (filter_type s b) \<or> filter_type s b = CMP_NULL"
  using sens_ok_less [of s] sens_ok_less [of b] by (auto simp: filter_type_def MatchMap_def sens_ok_def cmp_codes)

lemma filter_type_refl: "sens_ok s \<Longrightarrow> filter_type s s = s"
  using sens_ok_less [of s] by (auto simp: filter_type_def MatchMap_def cmp_codes)

lemma filter_type_CIAI: "sens_ok s \<Longrightarrow> filter_type s CMP_CIAI = s"
  using sens_ok_less [of s] by (auto simp: filter_type_def MatchMap_def cmp_codes)

lemma keyMatchesIdxType_occurs:
  "0 \<le> off \<Longrightarrow> sens_ok (sc_build cf) \<Longrightarrow> keyMatchesIdxType cf key off = Inr (occurs (fold_of (sc_build cf)) key (sc_text cf) off)"
  by (simp add: keyMatchesIdxType_def keyTypeMatch_occurs passes_def) (auto simp: sens_ok_def cmp_codes)

lemma keyMatchesIdxSearchType_passes:
  assumes "0 \<le> off" "sens_ok s" "sens_ok b"
  shows "keyMatchesIdxSearchType cf s b key off = Inr (passes (filter_type s b) key (sc_text cf) off)"
proof -
  have r: "s \<in> {0, 1, 2, 3}" "b \<in> {0, 1, 2, 3}" by (rule sens_ok_less [OF assms(2)], rule sens_ok_less [OF assms(3)])
  then have "\<not> (MATCHMAP_SZ < s \<or> MATCHMAP_SZ < b)" "\<not> (s < 0 \<or> MATCHMAP_SZ \<le> s \<or> b < 0 \<or> MATCHMAP_SZ \<le> b)"
    by (auto simp: MATCHMAP_SZ_def)
  then have "keyMatchesIdxSearchType cf s b key off = keyTypeMatch cf key off (filter_type s b)"
    by (simp add: keyMatchesIdxSearchType_def filter_type_def)
  then show ?thesis using keyTypeMatch_occurs [OF assms(1) filter_type_ok [OF assms(2,3)]] by simp
qed

subsection \<open>Folding the key\<close>

lemma table_nth: "map (\<lambda>c. T ! ord c) U = V \<Longrightarrow> length U = 256 \<Longrightarrow> T ! ord (U ! ord c) = V ! ord (c :: char)"
  using ord_less [of c] by auto

lemma tables_length: "length patrieChNoAccent = 256" "length patrieChLowerCase = 256"
  by (simp_all add: patrieChNoAccent_def patrieChLowerCase_def)

lemma tables_commute: "map (\<lambda>c. patrieChNoAccent ! ord c) patrieChLowerCase = map (\<lambda>c. patrieChLowerCase ! ord c) patrieChNoAccent"
  by code_simp

lemma tables_idem: "map (\<lambda>c. patrieChNoAccent ! ord c) patrieChNoAccent = patrieChNoAccent"
    "map (\<lambda>c. patrieChLowerCase ! ord c) patrieChLowerCase = patrieChLowerCase"
  by code_simp+

lemma fold_commutes: "NoAccent (TOLOWER c) = TOLOWER (NoAccent c)"
  using table_nth [OF tables_commute, of c] tables_length ord_less [of c] by (simp add: NoAccent_def TOLOWER_def)

lemma fold_idem [simp]: "NoAccent (NoAccent c) = NoAccent c" "TOLOWER (TOLOWER c) = TOLOWER c"
  using table_nth [OF tables_idem(1), of c] table_nth [OF tables_idem(2), of c] tables_length by (simp_all add: NoAccent_def TOLOWER_def)

lemma fold_search_key_map: "is_cstr key \<Longrightarrow> sens_ok s \<Longrightarrow> fold_search_key s key = map (fold_of s) key"
proof -
  assume c: "is_cstr key" and s: "sens_ok s"
  have g: "(if s = CMP_CIAI then NoAccent (TOLOWER c) else if s = CMP_CIAS then TOLOWER c else if s = CMP_CSAI then NoAccent c else c) = fold_of s c" for c
    by (simp add: fold_of_def fold_commutes)
  have "\<forall>c\<in>set (map (fold_of s) key). c \<noteq> NUL"
    using c fold_of_nul [of s] unfolding keeps_nul_def is_cstr_def by (metis imageE list.set_map)
  then show ?thesis unfolding fold_search_key_def g by (simp add: takeWhile_eq_all_conv)
qed

lemma fold_of_CSAS: "fold_of CMP_CSAS = (\<lambda>c. c)"
  by (simp add: fold_of_def cmp_codes)

lemma fold_idem_occurs:
  "occurs (\<lambda>c. c) key txt off \<Longrightarrow> occurs f key txt off"
  by (simp add: occurs_def key_at_iff)

lemma fold_CIAI_occurs: "occurs (fold_of s) key txt off \<Longrightarrow> sens_ok s \<Longrightarrow> occurs (fold_of CMP_CIAI) key txt off"
proof -
  assume o: "occurs (fold_of s) key txt off" and s: "sens_ok s"
  have "TOLOWER (NoAccent (TOLOWER c)) = TOLOWER (NoAccent c)" for c by (simp flip: fold_commutes)
  then have "fold_of CMP_CIAI c = fold_of CMP_CIAI (fold_of s c)" for c
    by (simp add: fold_of_def)
  then show ?thesis using o unfolding occurs_def key_at_iff by metis
qed

subsection \<open>Searching\<close>

definition hits :: "search_cf \<Rightarrow> trie \<Rightarrow> int \<Rightarrow> cstr \<Rightarrow> int list" where
  \<comment> \<open>what a search of type \<open>s\<close> is to find in the index\<close>
  "hits cf t s key = filter (\<lambda>off. occurs (fold_of (sc_build cf)) key (sc_text cf) off \<and> passes (filter_type s (sc_build cf)) key (sc_text cf) off)
     (offsets [t])"

text \<open>What a state of a search has still to give: the starts below the nodes on its stack.\<close>

definition search_at :: "search_cf \<Rightarrow> trie \<Rightarrow> cstr \<Rightarrow> patrie_state \<Rightarrow> int list \<Rightarrow> bool" where
  "search_at cf t key st hs = (\<exists>ts. paged.holds_tries cf st ts \<and> (\<Sum>t\<leftarrow>ts. nodes t) \<le> nodes t \<and> (\<forall>off\<in>set (offsets ts). 0 \<le> off) \<and>
     ps_key st = Some key \<and> sens_ok (ps_match st) \<and>
     hs = (if ps_match st = sc_build cf then if ps_first st \<noteq> 0 then offsets ts else []
       else filter (passes (filter_type (ps_match st) (sc_build cf)) key (sc_text cf)) (offsets ts)))"

lemma load_all_ok:
  assumes "nav_ok cf cf1" "paged.holds_tries cf st ts" "(\<Sum>t\<leftarrow>ts. nodes t) \<le> fuel"
  obtains xs cf2 st' ts' where "load_all_starts fuel m cf1 st = Inr (xs, cf2, st')" "nav_ok cf cf2" "paged.holds_tries cf st' ts'"
    "paged.same_search st st'" "offsets ts = xs @ offsets ts'" "xs = take m (offsets ts)"
    "(\<Sum>t\<leftarrow>ts'. nodes t) \<le> (\<Sum>t\<leftarrow>ts. nodes t)" "length xs = m \<or> ts' = []"
proof -
  have acc: "\<forall>v\<in>set (offsets ts). (\<lambda>_. Inr True) v = (Inr ((\<lambda>_. True) v) :: bool res)" by simp
  obtain xs cf2 st' pre ts' where l: "load_starts fuel getPagedTrieChild (\<lambda>_. Inr True) m cf1 st = Inr (xs, cf2, st')" "nav_ok cf cf2"
    "paged.holds_tries cf st' ts'" "paged.same_search st st'" "offsets ts = pre @ offsets ts'" "xs = filter (\<lambda>_. True) pre"
    "xs = take m (filter (\<lambda>_. True) (offsets ts))" "(\<Sum>t\<leftarrow>ts'. nodes t) \<le> (\<Sum>t\<leftarrow>ts. nodes t)" "length xs = m \<or> ts' = []"
    using paged.load_starts_ok [OF assms(1,2) acc assms(3)] .
  show ?thesis by (rule that [of xs cf2 st' ts']) (use l in \<open>simp_all add: load_all_starts_def\<close>)
qed

lemma load_matching_ok:
  fixes key :: cstr
  assumes "nav_ok cf cf1" "paged.holds_tries cf st ts" "(\<Sum>t\<leftarrow>ts. nodes t) \<le> fuel" "\<forall>off\<in>set (offsets ts). 0 \<le> off"
    and "sens_ok (ps_match st)" "sens_ok (sc_build cf)"
  defines "P \<equiv> passes (filter_type (ps_match st) (sc_build cf)) key (sc_text cf)"
  obtains xs cf2 st' pre ts' where "load_matching_starts fuel key m cf1 st = Inr (xs, cf2, st')" "nav_ok cf cf2" "paged.holds_tries cf st' ts'"
    "paged.same_search st st'" "offsets ts = pre @ offsets ts'" "xs = filter P pre" "xs = take m (filter P (offsets ts))"
    "(\<Sum>t\<leftarrow>ts'. nodes t) \<le> (\<Sum>t\<leftarrow>ts. nodes t)" "length xs = m \<or> ts' = []"
proof -
  note f = nav_ok_fields [OF assms(1)]
  have acc: "\<forall>v\<in>set (offsets ts). keyMatchesIdxSearchType cf1 (ps_match st) (sc_build cf1) key v = Inr (P v)"
    using assms(4-6) by (simp add: keyMatchesIdxSearchType_passes f P_def)
  obtain xs cf2 st' pre ts' where l: "load_starts fuel getPagedTrieChild (keyMatchesIdxSearchType cf1 (ps_match st) (sc_build cf1) key) m cf1 st = Inr (xs, cf2, st')" "nav_ok cf cf2"
    "paged.holds_tries cf st' ts'" "paged.same_search st st'" "offsets ts = pre @ offsets ts'" "xs = filter P pre"
    "xs = take m (filter P (offsets ts))" "(\<Sum>t\<leftarrow>ts'. nodes t) \<le> (\<Sum>t\<leftarrow>ts. nodes t)" "length xs = m \<or> ts' = []"
    using paged.load_starts_ok [OF assms(1,2) acc assms(3)] .
  show ?thesis by (rule that [of xs cf2 st' ts' pre]) (use l in \<open>simp_all add: load_matching_starts_def\<close>)
qed

text \<open>Going on with a search.\<close>

lemma drop_filter: "xs = filter P pre \<Longrightarrow> length xs = m \<or> rest = [] \<Longrightarrow> length xs \<le> m \<Longrightarrow> drop m (filter P (pre @ rest)) = filter P rest"
  by auto

lemma more_starts_ok:
  assumes cf: "nav_ok cf cf1" "sens_ok (sc_build cf)" and st: "search_at cf t key st hs" and fuel: "nodes t \<le> fuel"
  shows "\<exists>fd. patrieGetMoreStarts fuel m st cf1 = Inr fd \<and> fd_start fd = take m hs \<and> fd_nhits fd = Some (length (take m hs)) \<and>
    search_at cf t key (fd_state fd) (drop m hs) \<and> nav_ok cf (fd_cf fd)"
proof -
  note f = nav_ok_fields [OF cf(1)]
  obtain ts where ts: "paged.holds_tries cf st ts" "(\<Sum>t\<leftarrow>ts. nodes t) \<le> nodes t" "\<forall>off\<in>set (offsets ts). 0 \<le> off"
    "ps_key st = Some key" "sens_ok (ps_match st)" "hs = (if ps_match st = sc_build cf then if ps_first st \<noteq> 0 then offsets ts else []
       else filter (passes (filter_type (ps_match st) (sc_build cf)) key (sc_text cf)) (offsets ts))"
    using st unfolding search_at_def by blast
  have sum: "(\<Sum>t\<leftarrow>ts. nodes t) \<le> fuel" using ts(2) fuel by simp
  consider "m = 0 \<or> ts = []" | "0 < m" "ts \<noteq> []" "ps_match st = sc_build cf" "ps_first st = 0"
    | "0 < m" "ts \<noteq> []" "ps_match st = sc_build cf" "ps_first st \<noteq> 0" | "0 < m" "ts \<noteq> []" "ps_match st \<noteq> sc_build cf"
    by blast
  then show ?thesis
  proof cases
    case 1
    then have "m = 0 \<or> hs = []" using ts(6) by auto
    moreover have "m = 0 \<or> patrieStateEmpty st" using 1 paged.empty_tries [OF ts(1)] by blast
    ultimately show ?thesis using st cf(1) by (auto simp: patrieGetMoreStarts_def)
  next
    case 2
    then have "hs = []" using ts(6) by simp
    with 2 show ?thesis using st cf(1) paged.empty_tries [OF ts(1)] by (simp add: patrieGetMoreStarts_def f)
  next
    case 3
    obtain xs cf2 st' ts' where l: "load_all_starts fuel m cf1 st = Inr (xs, cf2, st')" "nav_ok cf cf2" "paged.holds_tries cf st' ts'"
      "paged.same_search st st'" "offsets ts = xs @ offsets ts'" "xs = take m (offsets ts)"
      "(\<Sum>t\<leftarrow>ts'. nodes t) \<le> (\<Sum>t\<leftarrow>ts. nodes t)" "length xs = m \<or> ts' = []"
      using load_all_ok [OF cf(1) ts(1) sum] .
    have hs: "hs = offsets ts" using 3 ts(6) by simp
    have "drop m hs = offsets ts'"
    proof (cases "ts' = []")
      case False
      then have "length xs = m" using l(8) by blast
      then show ?thesis unfolding hs l(5) by simp
    next
      case True
      then have "offsets ts = xs" using l(5) by simp
      then show ?thesis unfolding hs using l(6) True by (metis append_take_drop_id offsets_simps(1) same_append_eq self_append_conv)
    qed
    then have "search_at cf t key st' (drop m hs)"
      unfolding search_at_def using l(3,4,5,7) ts(2,3,4,5) 3 by (intro exI [of _ ts']) (simp add: paged.same_search_def)
    then show ?thesis using 3 paged.empty_tries [OF ts(1)] l(1,2,6) hs by (simp add: patrieGetMoreStarts_def f)
  next
    case 4
    let ?P = "passes (filter_type (ps_match st) (sc_build cf)) key (sc_text cf)"
    obtain xs cf2 st' pre ts' where l: "load_matching_starts fuel key m cf1 st = Inr (xs, cf2, st')" "nav_ok cf cf2" "paged.holds_tries cf st' ts'"
      "paged.same_search st st'" "offsets ts = pre @ offsets ts'" "xs = filter ?P pre" "xs = take m (filter ?P (offsets ts))"
      "(\<Sum>t\<leftarrow>ts'. nodes t) \<le> (\<Sum>t\<leftarrow>ts. nodes t)" "length xs = m \<or> ts' = []"
      using load_matching_ok [OF cf(1) ts(1) sum ts(3,5) cf(2)] .
    have hs: "hs = filter ?P (offsets ts)" using 4 ts(6) by simp
    have "length xs \<le> m" "length xs = m \<or> offsets ts' = []" using l(7,9) by auto
    from drop_filter [OF l(6) this(2,1)] have "drop m hs = filter ?P (offsets ts')" unfolding hs l(5) .
    then have "search_at cf t key st' (drop m hs)"
      unfolding search_at_def using l(3,4,5,8) ts(2,3,4,5) 4 by (intro exI [of _ ts']) (simp add: paged.same_search_def)
    then show ?thesis using 4 paged.empty_tries [OF ts(1)] l(1,2,7) hs ts(4) by (simp add: patrieGetMoreStarts_def f)
  qed
qed

text \<open>What the descent finds.\<close>

lemma trie_search_ok:
  assumes "readable cf t" "nodes t \<le> fuel"
  obtains nd cf1 where "trie_search fuel k (with_page cf) = Inr (nd, cf1)" "nav_ok cf cf1" "trie_at cf nd (follow k t)"
proof -
  have b: "file_of (with_page cf) t" "page_buffer (with_page cf)" using readable_buffer [OF assms(1)] by simp_all
  obtain nd0 cf0 where r: "getTrieRoot (with_page cf) = Inr (nd0, cf0)" "nav_ok cf cf0" "trie_at cf nd0 t"
    using getTrieRoot_ok [OF b] unfolding with_page_fields by metis
  have t: "trie_ok t" using assms(1) by (simp add: readable_def file_of_def)
  have d: "depth t \<le> fuel" using depth_nodes [of t] assms(2) by simp
  obtain nd cf1 where "descend fuel getPagedTrieChild k nd0 cf0 = Inr (nd, cf1)" "nav_ok cf cf1" "trie_at cf nd (follow k t)"
    using paged.descend_ok [OF r(2,3) t d] by blast
  then show ?thesis using that r(1) by (simp add: trie_search_def)
qed

lemma push_node:
  assumes "state_inv st" "state_stack st = []" "trie_at cf nd t"
  obtains st' where "patrieStatePush nd st = Inr st'" "paged.holds_tries cf st' [t]" "paged.same_search st st'"
proof (rule paged.push_trie [of cf st "[]" nd t])
  show "paged.holds_tries cf st []" using assms(1,2) by (simp add: paged.holds_tries_def)
qed (use assms that in auto)

definition filter_exact :: "search_cf \<Rightarrow> int \<Rightarrow> cstr \<Rightarrow> bool" where
  \<comment> \<open>what passes the filter is also found by the index\<close>
  "filter_exact cf s key = (\<forall>off. passes (filter_type s (sc_build cf)) key (sc_text cf) off \<longrightarrow>
     occurs (fold_of (sc_build cf)) key (sc_text cf) off)"

lemma filter_exact_same: "sens_ok s \<Longrightarrow> s = sc_build cf \<or> sc_build cf = CMP_CIAI \<Longrightarrow> filter_exact cf s key"
  using filter_type_refl [of s] filter_type_CIAI [of s] fold_CIAI_occurs [of s key] by (auto simp: filter_exact_def passes_def)

lemma search_found:
  assumes cf: "readable cf t" "sens_ok (sc_build cf)" "findable (fold_of (sc_build cf)) (sc_text cf) t key"
    and s: "sens_ok s" "s = CMP_CIAI \<Longrightarrow> sc_build cf = CMP_CIAI" and key: "is_cstr key" and m: "0 < m" and fuel: "nodes t \<le> fuel"
  shows "\<exists>fd n. patrieSearchSub fuel key s m cf = Inr fd \<and> fd_nhits fd = Some n \<and> take n (fd_start fd) = take m (hits cf t s key) \<and>
    n = length (take m (hits cf t s key)) \<and> nav_ok cf (fd_cf fd) \<and>
    (filter_exact cf s key \<longrightarrow> search_at cf t key (fd_state fd) (drop m (hits cf t s key)))"
proof -
  let ?b = "sc_build cf" and ?f = "fold_of (sc_build cf)" and ?txt = "sc_text cf"
  let ?P = "passes (filter_type s ?b) key ?txt" and ?k = "map ?f key"
  let ?F = "follow ?k t" and ?st = "patrieAllocState\<lparr>ps_key := Some key, ps_match := s\<rparr>"
  have t: "trie_ok t" using cf(1) by (simp add: readable_def file_of_def)
  have bwp: "sc_build (with_page cf) = ?b" by (rule with_page_fields)
  have k: "(if ?b \<noteq> CMP_CSAS then fold_search_key ?b key else key) = ?k"
    using fold_search_key_map [OF key cf(2)] by (simp add: fold_of_CSAS)
  have rej: "\<not> (s = 0 \<and> ?b \<noteq> 0)" using s(2) by (auto simp: CMP_CIAI_def)
  have pos: "\<forall>off\<in>set (offsets [?F]). 0 \<le> off" using follow_sub(1) [of ?k t] offsets_pos [OF t] by blast
  have all: "hits cf t s key = filter ?P (filter (occurs ?f key ?txt) (offsets [?F]))"
    using cf(3) by (simp add: findable_def Let_def hits_def conj_commute flip: filter_filter)
  obtain nd cf1 where r: "trie_search fuel ?k (with_page cf) = Inr (nd, cf1)" "nav_ok cf cf1" "trie_at cf nd ?F"
    using trie_search_ok [OF cf(1) fuel] .
  have st0: "state_inv ?st" "state_stack ?st = []" by (simp_all add: state_inv_def state_stack_def patrieAllocState_def)
  obtain st1 where p: "patrieStatePush nd ?st = Inr st1" "paged.holds_tries cf st1 [?F]" "paged.same_search ?st st1"
    using push_node [OF st0 r(3)] .
  have sum: "(\<Sum>t\<leftarrow>[?F]. nodes t) \<le> fuel" using follow_sub(2) [of ?k t] fuel by simp
  obtain xs cf2 st2 ts2 where l: "load_all_starts fuel 1 cf1 st1 = Inr (xs, cf2, st2)" "nav_ok cf cf2" "paged.holds_tries cf st2 ts2"
      "paged.same_search st1 st2" "offsets [?F] = xs @ offsets ts2" "xs = take 1 (offsets [?F])"
      "(\<Sum>t\<leftarrow>ts2. nodes t) \<le> (\<Sum>t\<leftarrow>[?F]. nodes t)"
    using load_all_ok [OF r(2) p(2) sum, of 1] .
  obtain off offs where o: "offsets [?F] = off # offs" using offsets_ne [of ?F] by (cases "offsets [?F]") auto
  have xs: "xs = [off]" using l(6) unfolding o by simp
  have ts2: "offsets ts2 = offs" using l(5) unfolding o xs by simp
  note f2 = nav_ok_fields [OF l(2)]
  have km: "keyMatchesIdxType cf2 key off = Inr (occurs ?f key ?txt off)"
    using keyMatchesIdxType_occurs [of off cf2 key] pos o cf(2) by (simp add: f2)
  have st2: "ps_key st2 = Some key" "ps_match st2 = s" using p(3) l(4) by (simp_all add: paged.same_search_def)
  have m0: "m \<noteq> 0" using m by simp
  have run: "patrieSearchSub fuel key s m cf =
     (if \<not> occurs ?f key ?txt off then Inr \<lparr>fd_nhits = Some 0, fd_start = [off], fd_state = st2\<lparr>ps_first := 0\<rparr>, fd_cf = cf2\<rparr>
      else if s = ?b then res_bind (load_all_starts fuel (m - 1) cf2 (st2\<lparr>ps_first := 1\<rparr>)) (\<lambda>(more, cf3, st4).
        Inr \<lparr>fd_nhits = Some (length more + 1), fd_start = [off] @ more, fd_state = st4, fd_cf = cf3\<rparr>)
      else res_bind (patrieStatePush nd (patrieStateResetStack (st2\<lparr>ps_first := 1\<rparr>))) (\<lambda>st4.
        res_bind (load_matching_starts fuel key m cf2 st4) (\<lambda>(matching, cf3, st5).
          Inr \<lparr>fd_nhits = Some (length matching), fd_start = matching @ drop (length matching) [off], fd_state = st5, fd_cf = cf3\<rparr>)))"
    unfolding patrieSearchSub_def if_not_P [OF rej] if_not_P [OF m0] Let_def k r(1) res_bind_simps prod.case p(1) l(1) xs
      list.sel km if_not_P [OF list.distinct(2)] ..
  have sum2: "(\<Sum>t\<leftarrow>ts2. nodes t) \<le> nodes t" using l(7) follow_sub(2) [of ?k t] by simp
  show ?thesis
  proof (cases "occurs ?f key ?txt off")
    case False
    have none: "\<not> occurs ?f key ?txt v" if "v \<in> set (offsets [?F])" for v
      using cf(3) that False o unfolding findable_def Let_def by (metis list.set_intros(1))
    then have hs: "hits cf t s key = []" unfolding all by (auto simp: filter_empty_conv)
    have "search_at cf t key (st2\<lparr>ps_first := 0\<rparr>) []" if ex: "filter_exact cf s key"
    proof -
      have "filter ?P (offsets ts2) = []" using none ex ts2 o by (auto simp: filter_empty_conv filter_exact_def)
      moreover have "paged.holds_tries cf (st2\<lparr>ps_first := 0\<rparr>) ts2"
        using l(3) by (simp add: paged.holds_tries_def state_inv_def state_stack_def)
      ultimately show ?thesis unfolding search_at_def using st2 s(1) sum2 pos ts2 o by (intro exI [of _ ts2]) auto
    qed
    then show ?thesis using False l(2) unfolding run hs by simp
  next
    case True
    have allo: "filter (occurs ?f key ?txt) (offsets [?F]) = offsets [?F]"
      using cf(3) True o unfolding findable_def Let_def filter_id_conv by (metis list.set_intros(1))
    show ?thesis
    proof (cases "s = ?b")
      case same: True
      have "\<forall>v\<in>set (offsets [?F]). ?P v" using allo filter_type_refl [OF s(1)] same s(1)
        by (auto simp: passes_def filter_id_conv sens_ok_def cmp_codes)
      then have hs: "hits cf t s key = offsets [?F]" unfolding all allo by (simp add: filter_id_conv)
      let ?st = "st2\<lparr>ps_first := 1\<rparr>"
      have h: "paged.holds_tries cf ?st ts2" using l(3) by (simp add: paged.holds_tries_def state_inv_def state_stack_def)
      have sum3: "(\<Sum>t\<leftarrow>ts2. nodes t) \<le> fuel" using sum2 fuel by simp
      obtain more cf3 st4 ts4 where g: "load_all_starts fuel (m - 1) cf2 ?st = Inr (more, cf3, st4)" "nav_ok cf cf3" "paged.holds_tries cf st4 ts4"
        "paged.same_search ?st st4" "offsets ts2 = more @ offsets ts4" "more = take (m - 1) (offsets ts2)"
        "(\<Sum>t\<leftarrow>ts4. nodes t) \<le> (\<Sum>t\<leftarrow>ts2. nodes t)" "length more = m - 1 \<or> ts4 = []"
        using load_all_ok [OF l(2) h sum3, of "m - 1"] .
      have tk: "take m (off # offs) = off # more" using g(6) m ts2 by (cases m) auto
      have "drop m (off # offs) = offsets ts4"
      proof (cases "ts4 = []")
        case False
        then have "length more = m - 1" using g(8) by blast
        then show ?thesis using g(5) m ts2 by (cases m) auto
      next
        case True
        then have "offs = more" using g(5) ts2 by simp
        then have "length (off # offs) \<le> m" using tk by (metis length_take min.absorb_iff2 min.commute)
        then show ?thesis using True by simp
      qed
      moreover have "search_at cf t key st4 (offsets ts4)"
        unfolding search_at_def using g(3,4,5,7) st2 s(1) sum2 pos ts2 o same
        by (intro exI [of _ ts4]) (auto simp: paged.same_search_def)
      ultimately show ?thesis using True same g(1,2) tk unfolding run hs o by simp
    next
      case diff: False
      let ?st = "patrieStateResetStack (st2\<lparr>ps_first := 1\<rparr>)"
      have "state_inv ?st" "state_stack ?st = []"
        using l(3) by (auto simp: paged.holds_tries_def state_inv_def state_stack_def patrieStateResetStack_def)
      then obtain st4 where p4: "patrieStatePush nd ?st = Inr st4" "paged.holds_tries cf st4 [?F]" "paged.same_search ?st st4"
        using push_node [OF _ _ r(3)] by blast
      have st4: "ps_key st4 = Some key" "ps_match st4 = s" using p4(3) st2 by (simp_all add: paged.same_search_def patrieStateResetStack_def)
      have sok: "sens_ok (ps_match st4)" using s(1) st4 by simp
      obtain found cf3 st5 pre ts5 where g: "load_matching_starts fuel key m cf2 st4 = Inr (found, cf3, st5)" "nav_ok cf cf3" "paged.holds_tries cf st5 ts5"
        "paged.same_search st4 st5" "offsets [?F] = pre @ offsets ts5" "found = filter (passes (filter_type (ps_match st4) ?b) key ?txt) pre"
        "found = take m (filter (passes (filter_type (ps_match st4) ?b) key ?txt) (offsets [?F]))"
        "(\<Sum>t\<leftarrow>ts5. nodes t) \<le> (\<Sum>t\<leftarrow>[?F]. nodes t)" "length found = m \<or> ts5 = []"
        using load_matching_ok [OF l(2) p4(2) sum pos sok cf(2), of key m] .
      have hs: "hits cf t s key = filter ?P (offsets [?F])" unfolding all allo ..
      have fd: "found = take m (hits cf t s key)" using g(7) unfolding hs st4 .
      have len: "length found \<le> m" "length found = m \<or> offsets ts5 = []" using g(9) fd by auto
      from drop_filter [OF g(6) len(2,1)] have dr: "drop m (hits cf t s key) = filter ?P (offsets ts5)" unfolding hs g(5) st4 .
      have "search_at cf t key st5 (drop m (hits cf t s key))"
        unfolding search_at_def dr using g(3,4,5,8) st4 s(1) pos diff follow_sub(2) [of ?k t]
        by (intro exI [of _ ts5]) (auto simp: paged.same_search_def)
      then show ?thesis using True diff p4(1) g(1,2) fd unfolding run by (simp add: min_def)
    qed
  qed
qed

lemma search_sub_ok:
  assumes cf: "readable cf t" "sens_ok (sc_build cf)" "patricia (fold_of (sc_build cf)) (sc_text cf) t"
    and s: "sens_ok s" "s = CMP_CIAI \<Longrightarrow> sc_build cf = CMP_CIAI" and key: "is_cstr key" and m: "0 < m" and fuel: "nodes t \<le> fuel"
  shows "\<exists>fd n. patrieSearchSub fuel key s m cf = Inr fd \<and> fd_nhits fd = Some n \<and> take n (fd_start fd) = take m (hits cf t s key) \<and>
    n = length (take m (hits cf t s key)) \<and> nav_ok cf (fd_cf fd) \<and>
    (filter_exact cf s key \<longrightarrow> search_at cf t key (fd_state fd) (drop m (hits cf t s key)))"
proof -
  have "trie_ok t" using cf(1) by (simp add: readable_def file_of_def)
  from patricia_findable [OF cf(3) this fold_of_nul key] show ?thesis
    using search_found [OF cf(1,2) _ s key m fuel] by blast
qed

subsection \<open>Calls in a row\<close>

fun more_starts :: "nat \<Rightarrow> nat list \<Rightarrow> patrie_state \<Rightarrow> search_cf \<Rightarrow> int list list res" where
  \<comment> \<open>calls of \<open>patrieGetMoreStarts\<close>, each for so many starts\<close>
  "more_starts fuel [] st cf = Inr []"
| "more_starts fuel (m # ms) st cf =
     res_bind (patrieGetMoreStarts fuel m st cf) (\<lambda>fd.
     res_bind (more_starts fuel ms (fd_state fd) (fd_cf fd)) (\<lambda>xs. Inr (take (the (fd_nhits fd)) (fd_start fd) # xs)))"

fun slices :: "nat list \<Rightarrow> 'a list \<Rightarrow> 'a list list" where
  "slices [] xs = []"
| "slices (m # ms) xs = take m xs # slices ms (drop m xs)"

lemma more_starts_slices:
  assumes "sens_ok (sc_build cf)" "nodes t \<le> fuel"
  shows "nav_ok cf cf1 \<Longrightarrow> search_at cf t key st hs \<Longrightarrow> more_starts fuel ms st cf1 = Inr (slices ms hs)"
proof (induction ms arbitrary: cf1 st hs)
  case (Cons m ms)
  obtain fd where fd: "patrieGetMoreStarts fuel m st cf1 = Inr fd" "fd_start fd = take m hs" "fd_nhits fd = Some (length (take m hs))"
    "search_at cf t key (fd_state fd) (drop m hs)" "nav_ok cf (fd_cf fd)"
    using more_starts_ok [OF Cons.prems(1) assms(1) Cons.prems(2) assms(2)] by blast
  from Cons.IH [OF fd(5,4)] show ?case using fd(1-3) by (simp add: min_def)
qed simp

lemma hits_exact:
  assumes "sens_ok s" "s = sc_build cf \<or> sc_build cf = CMP_CIAI"
  shows "hits cf t s key = filter (occurs (fold_of s) key (sc_text cf)) (offsets [t])"
proof -
  have ne: "s \<noteq> CMP_NULL" using assms(1) by (auto simp: sens_ok_def cmp_codes)
  have ft: "filter_type s (sc_build cf) = s" using assms filter_type_refl filter_type_CIAI by metis
  have "occurs (fold_of (sc_build cf)) key (sc_text cf) off" if "occurs (fold_of s) key (sc_text cf) off" for off
    using assms that fold_CIAI_occurs [OF that assms(1)] by auto
  then show ?thesis unfolding hits_def ft passes_def using ne by (intro filter_cong refl) blast
qed

end
