(* ===== verification/PatrieBuilt.thy ===== *)
theory PatrieBuilt
  imports PatrieMatch
begin

section \<open>Patricia trie: the trie of the sorted starts\<close>

text \<open>
  The infix file of a list of starts, sorted by their strings and with the first differing bit
  between neighbours, is the infix order of a Patricia trie over these starts, whose depth is
  bounded by the number of bits it takes to tell the strings apart.
\<close>

subsection \<open>The trie of a sorted list\<close>

definition first_diff :: "(nat \<Rightarrow> nat \<Rightarrow> bool) \<Rightarrow> (nat \<Rightarrow> nat \<Rightarrow> nat) \<Rightarrow> nat \<Rightarrow> nat \<Rightarrow> bool" where
  \<comment> \<open>bits \<open>B p\<close> and \<open>B q\<close> differ first at \<open>H p q\<close>, and there \<open>p\<close> has 0\<close>
  "first_diff B H p q = (1 \<le> H p q \<and> (\<forall>i. 1 \<le> i \<longrightarrow> i < H p q \<longrightarrow> B p i = B q i) \<and> \<not> B p (H p q) \<and> B q (H p q))"

definition agree_upto :: "(nat \<Rightarrow> nat \<Rightarrow> bool) \<Rightarrow> nat \<Rightarrow> nat list \<Rightarrow> bool" where
  "agree_upto B g G = (\<forall>p\<in>set G. \<forall>q\<in>set G. \<forall>i. 1 \<le> i \<longrightarrow> i \<le> g \<longrightarrow> B p i = B q i)"

fun bits_trie :: "(nat \<Rightarrow> nat \<Rightarrow> bool) \<Rightarrow> trie \<Rightarrow> bool" where
  "bits_trie B (Start v) = True"
| "bits_trie B (Fork h l r) = (bits_trie B l \<and> bits_trie B r \<and> agree_upto B (nat h - 1) (map nat (offsets [Fork h l r])) \<and>
     (\<forall>p\<in>set (offsets [l]). \<not> B (nat p) (nat h)) \<and> (\<forall>p\<in>set (offsets [r]). B (nat p) (nat h)))"

fun heights_upto :: "int \<Rightarrow> trie \<Rightarrow> bool" where
  "heights_upto b (Start v) = True"
| "heights_upto b (Fork h l r) = (h \<le> b \<and> heights_upto b l \<and> heights_upto b r)"

lemma depth_heights: "above g t \<Longrightarrow> heights_upto b t \<Longrightarrow> trie_ok t \<Longrightarrow> g \<le> b \<Longrightarrow> int (depth t) \<le> b - g + 1"
proof (induction t arbitrary: g)
  case (Fork h l r)
  then have "int (depth l) \<le> b - h + 1" "int (depth r) \<le> b - h + 1" by simp_all
  with Fork.prems show ?case by (cases "depth l \<le> depth r") (auto simp: max_def)
qed simp

lemma infix_cells_append: "xs \<noteq> [] \<Longrightarrow> ys \<noteq> [] \<Longrightarrow>
    infix_cells H (xs @ ys) = infix_cells H xs @ int (H (last xs) (hd ys)) # infix_cells H ys"
proof -
  have tail: "tail_cells H p (xs @ y # ys) = tail_cells H p xs @ int (H (last (p # xs)) y) # infix_cells H (y # ys)" for p y xs ys
    by (induction xs arbitrary: p) auto
  assume "xs \<noteq> []" "ys \<noteq> []"
  then obtain x xs' y ys' where "xs = x # xs'" "ys = y # ys'" by (meson neq_Nil_conv)
  then show ?thesis using tail [of x xs' y ys'] by simp
qed

lemma first_diff_agree:
  assumes pq: "first_diff B H p q" and px: "first_diff B H p x" and xq: "first_diff B H x q" and i: "1 \<le> i" "i < H p q"
  shows "B x i = B p i"
proof -
  have "\<not> H p x < H p q"
  proof
    assume lt: "H p x < H p q"
    let ?j = "H p x" and ?k = "H x q"
    have j: "1 \<le> ?j" "\<not> B p ?j" "B x ?j" using px by (simp_all add: first_diff_def)
    have bq: "\<not> B q ?j" using pq j lt unfolding first_diff_def by blast
    have k: "1 \<le> ?k" "\<not> B x ?k" "B q ?k" "\<forall>i. 1 \<le> i \<longrightarrow> i < ?k \<longrightarrow> B x i = B q i" using xq by (simp_all add: first_diff_def)
    have "?k < ?j" using k j bq by (metis linorder_neqE_nat)
    then have "B p ?k = B x ?k" "B p ?k = B q ?k" using px pq k(1) lt unfolding first_diff_def by (meson order_less_trans)+
    then show False using k by blast
  qed
  then show ?thesis using px i unfolding first_diff_def by (metis leI order_less_le_trans)
qed

lemma trie_exists:
  assumes "G \<noteq> []" "sorted_wrt (first_diff B H) G" "\<forall>p\<in>set G. int p + 1 < 1073741824" "\<forall>p\<in>set G. \<forall>q\<in>set G. int (H p q) \<le> b" "b < 1073741824"
  shows "\<exists>t. infix_list t = infix_cells H G \<and> offsets [t] = map int G \<and> trie_ok t \<and> bits_trie B t \<and> heights_upto b t \<and>
    (\<forall>g. agree_upto B g G \<longrightarrow> above (int g) t)"
  using assms
proof (induction "length G" arbitrary: G rule: less_induct)
  case less
  show ?case
  proof (cases "length G = 1")
    case True
    then obtain p where "G = [p]" by (cases G) auto
    then show ?thesis using less.prems by (intro exI [of _ "Start (int p + 1)"]) simp
  next
    case False
    let ?p = "hd G" and ?q = "last G"
    define h where "h = H ?p ?q"
    obtain p G' where G: "G = p # G'" "G' \<noteq> []" using False less.prems(1) by (cases G) auto
    have pq: "first_diff B H ?p ?q" using less.prems(2) G by simp
    then have h1: "1 \<le> h" and bp: "\<not> B ?p h" and bq: "B ?q h" by (simp_all add: first_diff_def h_def)
    have agree: "B x i = B ?p i" if x: "x \<in> set G" and i: "1 \<le> i" "i < h" for x i
    proof (cases "x = ?p \<or> x = ?q")
      case True
      then show ?thesis using pq i by (auto simp: first_diff_def h_def)
    next
      case no: False
      obtain xs ys where xy: "G = xs @ x # ys" using x by (meson split_list)
      have "xs \<noteq> []" "ys \<noteq> []" using no xy by auto
      then have "first_diff B H ?p x" "first_diff B H x ?q" using less.prems(2) unfolding xy by (auto simp: sorted_wrt_append)
      from first_diff_agree [OF pq this] i show ?thesis by (simp add: h_def)
    qed
    let ?G1 = "takeWhile (\<lambda>x. \<not> B x h) G" and ?G2 = "dropWhile (\<lambda>x. \<not> B x h) G"
    have split: "?G1 @ ?G2 = G" by (rule takeWhile_dropWhile_id)
    have ne1: "?G1 \<noteq> []" using bp G by simp
    have ne2: "?G2 \<noteq> []" using bq less.prems(1) last_in_set by (auto simp: dropWhile_eq_Nil_conv)
    have s12: "sorted_wrt (first_diff B H) ?G1" "sorted_wrt (first_diff B H) ?G2" "\<forall>x\<in>set ?G1. \<forall>y\<in>set ?G2. first_diff B H x y"
      using less.prems(2) sorted_wrt_append [of "first_diff B H" ?G1 ?G2] unfolding split by blast+
    have sub: "set ?G1 \<subseteq> set G" "set ?G2 \<subseteq> set G" by (auto dest: set_takeWhileD set_dropWhileD)
    have b1: "\<not> B x h" if "x \<in> set ?G1" for x using set_takeWhileD [OF that] by simp
    have b2: "B x h" if "x \<in> set ?G2" for x
    proof -
      obtain y ys where y: "?G2 = y # ys" using ne2 by (cases ?G2) auto
      have by': "B y h" using hd_dropWhile [OF ne2] y by simp
      show ?thesis
      proof (rule ccontr)
        assume bx: "\<not> B x h"
        then have "x \<in> set ys" using that y by' by auto
        then have yx: "first_diff B H y x" using s12(2) y by simp
        let ?k = "H y x"
        have in_G: "x \<in> set G" "y \<in> set G" using that sub(2) y by auto
        have "\<not> ?k < h" using agree [OF in_G(1)] agree [OF in_G(2)] yx unfolding first_diff_def by blast
        moreover have "?k \<noteq> h" using yx by' unfolding first_diff_def by blast
        moreover have "\<not> h < ?k" using yx by' bx h1 unfolding first_diff_def by blast
        ultimately show False by simp
      qed
    qed
    have mid: "H (last ?G1) (hd ?G2) = h"
    proof -
      let ?x = "last ?G1" and ?y = "hd ?G2"
      have xy: "?x \<in> set ?G1" "?y \<in> set ?G2" using ne1 ne2 by simp_all
      then have fd: "first_diff B H ?x ?y" using s12(3) by blast
      have in_G: "?x \<in> set G" "?y \<in> set G" using xy sub by auto
      have "\<not> H ?x ?y < h" using agree [OF in_G(1)] agree [OF in_G(2)] fd unfolding first_diff_def by blast
      moreover have "\<not> h < H ?x ?y" using fd b1 [OF xy(1)] b2 [OF xy(2)] h1 unfolding first_diff_def by blast
      ultimately show ?thesis by simp
    qed
    have len: "length ?G1 < length G" "length ?G2 < length G"
    proof -
      have "length ?G1 + length ?G2 = length G" using arg_cong [OF split, of length] by (simp only: length_append)
      moreover have "0 < length ?G1" "0 < length ?G2" using ne1 ne2 by (simp_all only: length_greater_0_conv not_False_eq_True)
      ultimately show "length ?G1 < length G" "length ?G2 < length G" by linarith+
    qed
    obtain l where l: "infix_list l = infix_cells H ?G1" "offsets [l] = map int ?G1" "trie_ok l" "bits_trie B l" "heights_upto b l"
      "\<forall>g. agree_upto B g ?G1 \<longrightarrow> above (int g) l"
      using less.hyps [OF len(1) ne1 s12(1)] less.prems(3-5) sub(1) by blast
    obtain r where r: "infix_list r = infix_cells H ?G2" "offsets [r] = map int ?G2" "trie_ok r" "bits_trie B r" "heights_upto b r"
      "\<forall>g. agree_upto B g ?G2 \<longrightarrow> above (int g) r"
      using less.hyps [OF len(2) ne2 s12(2)] less.prems(3-5) sub(2) by blast
    let ?t = "Fork (int h) l r"
    have off: "offsets [?t] = map int G" unfolding offsets_Fork l(2) r(2) by (simp flip: map_append add: split)
    have ag: "agree_upto B h ?G1" "agree_upto B h ?G2"
      unfolding agree_upto_def using agree sub b1 b2 by (metis le_neq_implies_less subsetD)+
    have hb: "int h \<le> b" using less.prems(1,4) by (simp add: h_def)
    have "infix_list ?t = infix_cells H G"
      using infix_cells_append [OF ne1 ne2, of H] unfolding split mid by (simp add: l(1) r(1))
    moreover have "trie_ok ?t" using l(3,6) r(3,6) ag h1 hb less.prems(5) by simp
    moreover have "bits_trie B ?t"
    proof -
      have "agree_upto B (h - 1) G"
        unfolding agree_upto_def
      proof (intro ballI allI impI)
        fix p q i assume pqi: "p \<in> set G" "q \<in> set G" "1 \<le> i" "i \<le> h - 1"
        then have "i < h" using h1 by simp
        then show "B p i = B q i" using agree [OF pqi(1,3)] agree [OF pqi(2,3)] by blast
      qed
      moreover have "map nat (map int G) = G" by (simp add: comp_def)
      moreover have "\<forall>p\<in>set (map int xs). B (nat p) h = c" if "\<forall>x\<in>set xs. B x h = c" for xs c using that by simp
      then have "\<forall>p\<in>set (map int ?G1). \<not> B (nat p) h" "\<forall>p\<in>set (map int ?G2). B (nat p) h"
        using b1 b2 by blast+
      ultimately show ?thesis unfolding bits_trie.simps off l(2) r(2) nat_int by (intro conjI l(4) r(4)) (assumption | simp only:)+
    qed
    moreover have "above (int g) ?t" if g: "agree_upto B g G" for g
    proof -
      have "?p \<in> set G" "?q \<in> set G" using less.prems(1) by simp_all
      then have gh: "g < h" using g bp bq h1 unfolding agree_upto_def by (meson not_le)
      have "agree_upto B g ?G1" "agree_upto B g ?G2" using g sub unfolding agree_upto_def by blast+
      then show ?thesis using l(6) r(6) gh by simp
    qed
    ultimately show ?thesis using off hb l(5) r(5) by (intro exI [of _ ?t]) simp
  qed
qed

lemma patricia_bits: "bits_trie (\<lambda>p. str_bit f (drop p txt)) t \<Longrightarrow> patricia f txt t"
proof (induction t)
  case (Fork h l r)
  have "same_bits f (nat h - 1) (text_from txt u) (text_from txt v)"
    if "u \<in> set (offsets [Fork h l r])" "v \<in> set (offsets [Fork h l r])" for u v
    using Fork.prems that unfolding bits_trie.simps agree_upto_def same_bits_def text_from_def set_map by blast
  then show ?case using Fork unfolding patricia.simps by (simp add: text_from_def)
qed simp

lemma nodes_leaves: "Suc (nodes t) = 2 * length (leaves t)"
  by (induction t) auto

lemma length_offsets: "length (offsets [t]) = length (leaves t)"
  by (simp add: offsets_def)

lemma row_last: "row (depth t - 1) [(p, t)] \<noteq> [] \<and> forks (row (depth t - 1) [(p, t)]) = 0"
proof -
  have "concat (map kids (row (depth t - 1) [(p, t)])) = row (depth t) [(p, t)]"
    using row_Suc [of "depth t - 1" "[(p, t)]"] by (cases t) simp_all
  also have "\<dots> = []" by (simp add: row_depth)
  finally have "length (concat (map kids (row (depth t - 1) [(p, t)]))) = 0" by simp
  moreover have "row (depth t - 1) [(p, t)] \<noteq> []"
  proof (induction t arbitrary: p)
    case (Fork h l r)
    obtain n where n: "depth (Fork h l r) - 1 = Suc n" "n = depth l - 1 \<or> n = depth r - 1"
      by (cases "depth l \<le> depth r"; cases l; cases r) (auto simp: max_def)
    then show ?case using Fork [of h] row_append [of n "[(h, l)]" "[(h, r)]"] by auto
  qed simp
  ultimately show ?thesis by (simp add: length_kids)
qed

fun count_starts :: "forest \<Rightarrow> nat" where
  "count_starts [] = 0"
| "count_starts (x # F) = length (leaves (snd x)) + count_starts F"

lemma count_starts_append [simp]: "count_starts (F @ G) = count_starts F + count_starts G"
  by (induction F) auto

lemma count_starts_kids: "count_starts (concat (map kids F)) \<le> count_starts F"
proof (induction F)
  case (Cons x F)
  then show ?case by (cases x rule: kids.cases) auto
qed simp

lemma length_count: "length F \<le> count_starts F"
proof (induction F)
  case (Cons x F)
  have "0 < length (leaves (snd x))" using nodes_leaves [of "snd x"] by (cases "leaves (snd x)") simp_all
  with Cons show ?case by (cases "leaves (snd x)") simp_all
qed simp

lemma last_level_starts: "length (last (levels t)) \<le> length (leaves t)"
proof -
  have "count_starts (row i [(- 1, t)]) \<le> length (leaves t)" for i
  proof (induction i)
    case (Suc i)
    show ?case unfolding row_Suc using count_starts_kids [of "row i [(- 1, t)]"] Suc by (rule le_trans)
  qed simp
  note count = this
  have "last (levels t) = map node_of (row (depth t - 1) [(- 1, t)])"
  proof -
    have "levels t \<noteq> []" by (simp add: levels_def)
    moreover have "depth t - 1 < depth t" by (cases t) simp_all
    ultimately show ?thesis using levels_row [of "depth t - 1" t] by (simp add: last_conv_nth length_levels)
  qed
  then show ?thesis using le_trans [OF length_count count [of "depth t - 1"]] by simp
qed

lemma first_diff_sorted:
  assumes tx: "is_cstr txt" and apart: "told_apart (fold_key f) txt m ps" and ps: "p \<in> set ps" "q \<in> set ps"
    and lt: "fold_key f (drop p txt) < fold_key f (drop q txt)" and nul: "keeps_nul f"
  defines "H \<equiv> height_of (diff_bit_loop f 0) (fold_key f) txt"
  shows "first_diff (\<lambda>p. str_bit f (drop p txt)) H p q" "H p q \<le> 8 * m"
proof -
  have c: "is_cstr (drop p txt)" "is_cstr (drop q txt)" using tx by simp_all
  have ne: "take m (fold_key f (drop p txt)) \<noteq> take m (fold_key f (drop q txt))" using apart ps lt by (auto simp: told_apart_def)
  obtain n where n: "diff_bit_loop f 0 (drop p txt) (drop q txt) = Some n" "n \<le> 8 * (0 + m)" using diff_bit_bound [OF nul c ne] by blast
  have neg: "ustr_fold_cmp f (drop p txt) (drop q txt) < 0" using fold_cmp_key [OF nul c] lt by blast
  have "H p q = n" using lt n(1) by (simp add: H_def height_of_def Let_def)
  moreover have "splits_at f (drop p txt) (drop q txt) (ustr_fold_cmp f (drop p txt) (drop q txt)) n" by (rule diff_bit_splits [OF n(1)])
  ultimately show "first_diff (\<lambda>p. str_bit f (drop p txt)) H p q" "H p q \<le> 8 * m"
    using neg n(2) by (auto simp: first_diff_def splits_at_def split: if_splits)
qed

lemma patricia_exists:
  assumes tx: "is_cstr txt" and apart: "told_apart (fold_key f) txt m G" and nul: "keeps_nul f" and m: "int m < 134217728"
    and G: "G \<noteq> []" "sorted_wrt (\<lambda>p q. fold_key f (drop p txt) < fold_key f (drop q txt)) G" "\<forall>p\<in>set G. int p + 1 < 1073741824"
  obtains t where "infix_list t = infix_cells (height_of (diff_bit_loop f 0) (fold_key f) txt) G" "offsets [t] = map int G" "trie_ok t"
    "patricia f txt t" "depth t \<le> 8 * m + 1"
proof -
  let ?H = "height_of (diff_bit_loop f 0) (fold_key f) txt" and ?B = "\<lambda>p. str_bit f (drop p txt)"
  have s: "sorted_wrt (first_diff ?B ?H) G"
    by (rule sorted_wrt_mono_rel [OF _ G(2)]) (rule first_diff_sorted(1) [OF tx apart _ _ _ nul])
  have "?H p q \<le> 8 * m" if "p \<in> set G" "q \<in> set G" for p q
  proof -
    consider "fold_key f (drop p txt) < fold_key f (drop q txt)" | "fold_key f (drop q txt) < fold_key f (drop p txt)"
      | "fold_key f (drop q txt) = fold_key f (drop p txt)" by (metis linorder_neqE)
    then show ?thesis
    proof cases
      case 2
      then have "?H p q = ?H q p" by (auto simp: height_of_def Let_def)
      then show ?thesis using first_diff_sorted(2) [OF tx apart that(2,1) 2 nul] by simp
    qed (use first_diff_sorted(2) [OF tx apart that _ nul] in \<open>simp_all add: height_of_def\<close>)
  qed
  then have H: "\<forall>p\<in>set G. \<forall>q\<in>set G. int (?H p q) \<le> int (8 * m)" by (simp only: of_nat_le_iff) blast
  have b: "int (8 * m) < 1073741824" using m by simp
  obtain t where t: "infix_list t = infix_cells ?H G" "offsets [t] = map int G" "trie_ok t" "bits_trie ?B t" "heights_upto (int (8 * m)) t"
    "\<forall>g. agree_upto ?B g G \<longrightarrow> above (int g) t"
    using trie_exists [OF G(1) s G(3) H b] by blast
  have "above (int 0) t" using t(6) by (auto simp: agree_upto_def)
  from depth_heights [OF this t(5,3)] have "depth t \<le> 8 * m + 1" by simp
  with that t(1-3) patricia_bits [OF t(4)] show ?thesis by blast
qed

end
