(* ===== verification/PatrieIndex.thy ===== *)
theory PatrieIndex
  imports PatrieFound PatrieBuilt
begin

section \<open>Patricia trie: from the text to the hits\<close>

text \<open>
  Models \<open>patrieBuild\<close> of \<open>archie/lib/patrie/build.c\<close>, which runs the sort, the levels file and
  the paged file one after the other, and puts the results on its three steps and on the search
  together.
\<close>

subsection \<open>The build\<close>

record 'arg build_cf =
  bc_sort :: "'arg sort_cf"
  bc_levels :: level_cf      \<comment> \<open>with \<open>levelTrieFP\<close>\<close>
  bc_size :: nat             \<comment> \<open>\<open>pagedPageSize\<close>, in cells\<close>
  bc_lpp :: nat              \<comment> \<open>\<open>levelsPerPage\<close>\<close>
  bc_infix :: "int list"     \<comment> \<open>\<open>infixTrieFP\<close>\<close>
  bc_paged :: "int list"     \<comment> \<open>\<open>pagedTrieFP\<close>\<close>
  bc_doInfix :: bool
  bc_doLevels :: bool
  bc_doPaged :: bool

definition patrieBuild :: "nat \<Rightarrow> 'arg build_cf \<Rightarrow> 'arg build_cf res" where
  "patrieBuild fuel cf =
     res_bind (if bc_doInfix cf then res_bind (patrieInfixBuild (bc_sort cf)) (\<lambda>f. Inr (cf\<lparr>bc_infix := f\<rparr>)) else Inr cf) (\<lambda>cf1.
     res_bind (if bc_doLevels cf1 then res_bind (patrieLevelBuild (bc_infix cf1) (bc_levels cf1)) (\<lambda>l. Inr (cf1\<lparr>bc_levels := l\<rparr>)) else Inr cf1) (\<lambda>cf2.
     if bc_doPaged cf2 then
       res_bind (patriePagedBuild fuel \<lparr>pc_levels = bc_levels cf2, pc_size = bc_size cf2, pc_lpp = bc_lpp cf2\<rparr>) (\<lambda>f. Inr (cf2\<lparr>bc_paged := f\<rparr>))
     else Inr cf2))"

definition opened :: "int \<Rightarrow> 'arg build_cf \<Rightarrow> search_cf" where
  \<comment> \<open>the configuration of a search over what was built, no page loaded yet\<close>
  "opened sens bc = \<lparr>sc_file = bc_paged bc, sc_size = bc_size bc, sc_lpp = bc_lpp bc, sc_build = sens, sc_text = cf_text (bc_sort bc), sc_page = None\<rparr>"

definition index_built :: "int \<Rightarrow> nat \<Rightarrow> 'arg build_cf \<Rightarrow> bool" where
  \<comment> \<open>what the build needs; any two sistrings differ within \<open>m\<close> characters\<close>
  "index_built sens m bc = (let cf = bc_sort bc; pts = chunk_points cf (cf_indexArg cf) 0 (chunk_count cf) in
     is_cstr (cf_text cf) \<and> cf_text cf \<noteq> [] \<and> int (length (cf_text cf)) < 1073741824 \<and>
     buffers_fit cf \<and> 0 < text_buffer_size cf \<and> chunk_count cf * sizeof_RunElement \<le> cf_sortMaxMem cf \<and> points_ok cf pts \<and>
     told_apart (fold_key (fold_of sens)) (cf_text cf) m (index_points cf pts) \<and> m \<le> Suc (cf_sortPadLen cf) \<and> m \<le> 1249)"

definition points_of :: "'arg build_cf \<Rightarrow> nat list" where
  \<comment> \<open>the index points of the text\<close>
  "points_of bc = (let cf = bc_sort bc in index_points cf (chunk_points cf (cf_indexArg cf) 0 (chunk_count cf)))"

definition room_to_build :: "'arg build_cf \<Rightarrow> bool" where
  \<comment> \<open>all three steps are to be done, page numbers fit their fields, and a page holds four subtries\<close>
  "room_to_build bc = (bc_doInfix bc \<and> bc_doLevels bc \<and> bc_doPaged bc \<and>
     2 \<le> lc_N (bc_levels bc) \<and> lc_next (bc_levels bc) + 4 * length (points_of bc) \<le> 1073741824 \<and>
     length (lc_file (bc_levels bc)) \<le> lc_next (bc_levels bc) * lc_N (bc_levels bc) \<and>
     \<not> pageTooSmall \<lparr>pc_levels = bc_levels bc, pc_size = bc_size bc, pc_lpp = bc_lpp bc\<rparr> \<and> 4 * 2 ^ bc_lpp bc \<le> bc_size bc)"

lemma points_bound:
  assumes "points_ok cf pts" "p \<in> set (index_points cf pts)"
  shows "p < length (cf_text cf)"
proof -
  obtain k s where ks: "k < length pts" "s \<in> set (pts ! k)" "p = k * text_buffer_size cf + s"
    using assms(2) by (auto simp: set_index_points)
  then have "s < length (read_text cf (k * text_buffer_size cf))" using points_okD(4) [OF assms(1) ks(1)] by blast
  then show ?thesis using ks(3) by (auto simp: read_text_def less_diff_conv add.commute)
qed

lemma chunk_points_length: "length (chunk_points cf arg k n) = n"
  by (induction n arbitrary: arg k) (auto simp: Let_def split: prod.splits)

lemma points_ne:
  assumes "points_ok cf (chunk_points cf arg 0 (chunk_count cf))" "cf_text cf \<noteq> []" "0 < text_buffer_size cf"
  shows "index_points cf (chunk_points cf arg 0 (chunk_count cf)) \<noteq> []"
proof -
  let ?z = "text_buffer_size cf" and ?pts = "chunk_points cf arg 0 (chunk_count cf)"
  have "?z \<le> length (cf_text cf) + ?z - 1" using assms(2) by (cases "cf_text cf") simp_all
  then have "0 < chunk_count cf" using assms(3) by (simp add: chunk_count_def div_greater_zero_iff)
  then have k: "0 < length ?pts" by (simp add: chunk_points_length)
  then have "?pts ! 0 \<noteq> []" using points_okD(1) [OF assms(1) k] by blast
  then have "set (index_points cf ?pts) \<noteq> {}" using k unfolding set_index_points by fastforce
  then show ?thesis by auto
qed

lemma build_ok:
  assumes s: "bc_sort bc = patrieSetCaseSensitive sens conf" and ix: "index_built sens m bc" and room: "room_to_build bc"
    and fuel: "2 * length (points_of bc) < fuel"
  defines "txt \<equiv> cf_text (bc_sort bc)"
  obtains G t where "sorted_wrt (\<lambda>p q. fold_key (fold_of sens) (drop p txt) < fold_key (fold_of sens) (drop q txt)) G" "set G = set (points_of bc)"
    "offsets [t] = map int G" "patricia (fold_of sens) txt t" "nodes t < 2 * length (points_of bc)"
    "length (last (levels t)) < lc_N (bc_levels bc) \<Longrightarrow> \<exists>bc'. patrieBuild fuel bc = Inr bc' \<and> readable (opened sens bc') t \<and> bc_sort bc' = bc_sort bc"
proof -
  let ?cf = "bc_sort bc" and ?key = "fold_key (fold_of sens)" and ?H = "height_of (diff_bit_loop (fold_of sens) 0) (fold_key (fold_of sens)) txt"
  let ?pts = "chunk_points ?cf (cf_indexArg ?cf) 0 (chunk_count ?cf)"
  have I: "is_cstr (cf_text ?cf)" "cf_text ?cf \<noteq> []" "int (length (cf_text ?cf)) < 1073741824" "buffers_fit ?cf" "0 < text_buffer_size ?cf"
    "chunk_count ?cf * sizeof_RunElement \<le> cf_sortMaxMem ?cf" "points_ok ?cf ?pts" "told_apart ?key (cf_text ?cf) m (index_points ?cf ?pts)"
    "m \<le> Suc (cf_sortPadLen ?cf)" "m \<le> 1249"
    using ix by (simp_all add: index_built_def Let_def)
  have m: "m \<le> 8191" "int m < 134217728" using I(10) by simp_all
  have f: "cf_strcomp ?cf = cf_strcomp (patrieSetCaseSensitive sens conf)" "cf_diffbit ?cf = cf_diffbit (patrieSetCaseSensitive sens conf)"
    by (simp_all add: s)
  have pts: "set (index_points ?cf ?pts) = set (points_of bc)" by (simp add: points_of_def Let_def)
  obtain G where G: "increasing (\<lambda>p. ?key (drop p txt)) G" "set G = set (points_of bc)" "patrieInfixBuild ?cf = Inr (0 # infix_cells ?H G @ [0])"
    using configured.infix_build_order [OF I(1,2) f I(4,5,6) refl I(7,8,9) m(1)]
    unfolding pts txt_def case_sensitive_fields by blast
  have srt: "sorted_wrt (\<lambda>p q. ?key (drop p txt) < ?key (drop q txt)) G" using G(1) by (simp add: increasing_def)
  have apart: "told_apart ?key txt m G" using I(8) G(2) unfolding told_apart_def pts txt_def by simp
  have "points_of bc \<noteq> []" using points_ne [OF I(7,2,5)] by (simp add: points_of_def Let_def)
  then have ne: "G \<noteq> []" using G(2) by auto
  have bound: "\<forall>p\<in>set G. int p + 1 < 1073741824"
  proof
    fix p assume "p \<in> set G"
    then have "p < length (cf_text ?cf)" using points_bound [OF I(7)] G(2) pts by blast
    then show "int p + 1 < 1073741824" using I(3) by linarith
  qed
  obtain t where t: "infix_list t = infix_cells ?H G" "offsets [t] = map int G" "trie_ok t" "patricia (fold_of sens) txt t" "depth t \<le> 8 * m + 1"
    using patricia_exists [OF _ apart fold_of_nul m(2) ne srt bound] I(1) unfolding txt_def by blast
  have "distinct G" using G(1) by (induction G) (auto simp: increasing_def)
  then have "length G \<le> length (points_of bc)" using G(2) by (metis card_length distinct_card)
  moreover have "length (leaves t) = length G" using t(2) length_offsets [of t] by simp
  ultimately have n: "nodes t < 2 * length (points_of bc)" using nodes_leaves [of t] ne by (cases "leaves t") simp_all
  have R: "2 \<le> lc_N (bc_levels bc)" "lc_next (bc_levels bc) + 4 * length (points_of bc) \<le> 1073741824"
    "length (lc_file (bc_levels bc)) \<le> lc_next (bc_levels bc) * lc_N (bc_levels bc)"
    "\<not> pageTooSmall \<lparr>pc_levels = bc_levels bc, pc_size = bc_size bc, pc_lpp = bc_lpp bc\<rparr>" "4 * 2 ^ bc_lpp bc \<le> bc_size bc"
    "bc_doInfix bc" "bc_doLevels bc" "bc_doPaged bc"
    using room by (simp_all add: room_to_build_def)
  have dep: "int (depth t + 1) < INT_STACK_SZ" using t(5) I(10) by (simp add: INT_STACK_SZ_def)
  have pg: "lc_next (bc_levels bc) + 2 * nodes t \<le> 1073741824" using R(2) n by linarith
  have "\<exists>bc'. patrieBuild fuel bc = Inr bc' \<and> readable (opened sens bc') t \<and> bc_sort bc' = bc_sort bc" if fits: "length (last (levels t)) < lc_N (bc_levels bc)"
  proof -
    obtain l ls where l: "patrieLevelBuild (0 # infix_list t @ [0]) (bc_levels bc) = Inr l" "open_levels l = Inr ls" "list_all2 (ready l) ls (levels t)"
      using levels_ready [OF t(3) dep R(1) pg R(3) fits] .
    let ?pc = "\<lparr>pc_levels = l, pc_size = bc_size bc, pc_lpp = bc_lpp bc\<rparr>"
    have small: "\<not> pageTooSmall ?pc" using R(4) by (simp add: pageTooSmall_def)
    have o: "open_levels (pc_levels ?pc) = Inr ls" "list_all2 (ready (pc_levels ?pc)) ls (levels t)" "4 * 2 ^ pc_lpp ?pc \<le> pc_size ?pc" using l(2,3) R(5) by simp_all
    have nmax: "int (nodes t) < INT_MAX" "nodes t < fuel" using pg n fuel by (simp_all add: INT_MAX_def)
    obtain f gs where p: "patriePagedBuild fuel ?pc = Inr f" "laid_out (pc_size ?pc) (pc_lpp ?pc) f [(- 1, t)] gs"
      "length f = (fst (hd gs) + length (snd (hd gs))) * pc_size ?pc"
      using paged_build_rep [OF o(1,2) small o(3) nmax] .
    let ?bc = "bc\<lparr>bc_infix := 0 # infix_cells ?H G @ [0], bc_levels := l, bc_paged := f\<rparr>"
    have lpp: "0 < bc_lpp bc" using R(4) by (simp add: pageTooSmall_def Let_def)
    have "(0 :: nat) < 4 * 2 ^ bc_lpp bc" by simp
    then have sz: "0 < bc_size bc" using R(5) by linarith
    have "patrieBuild fuel bc = Inr ?bc" using R(6-8) G(3) l(1) p(1) by (simp add: patrieBuild_def t(1))
    moreover have "file_of (opened sens ?bc) t"
      by (rule laid_out_file [where gs = gs]) (use p(2,3) t(3) nmax(1) lpp sz in \<open>simp_all add: opened_def\<close>)
    then have "readable (opened sens ?bc) t" by (simp add: readable_def opened_def)
    ultimately show ?thesis by (intro exI [of _ ?bc]) simp
  qed
  with that srt G(2) t(2,4) n show ?thesis by blast
qed

subsection \<open>Correctness of the index\<close>

text \<open>
  C2.  Over a file that holds a Patricia trie of a text, a search of the type of the index, or any
  search of an index that folds case and accents, returns the first \<open>n\<close> starts, in the order of
  the index, where the key stands in the text up to the folding of the search, and counts them.
  Every later sequence of calls for more starts goes on exactly where the last call stopped, until
  each of the remaining starts has been returned once.  Fuel above the number of nodes is enough, so
  the search ends.
\<close>

theorem patrieSearchSub_correct:
  assumes "readable cf t" "patricia (fold_of (sc_build cf)) (sc_text cf) t" "is_cstr key" "0 < n" "nodes t \<le> fuel"
    and "sens_ok s" "sens_ok (sc_build cf)" "s = sc_build cf \<or> sc_build cf = CMP_CIAI"
  defines "found \<equiv> filter (occurs (fold_of s) key (sc_text cf)) (offsets [t])"
  shows "\<exists>fd. patrieSearchSub fuel key s n cf = Inr fd \<and> fd_nhits fd = Some (length (take n found)) \<and>
    take (length (take n found)) (fd_start fd) = take n found \<and>
    more_starts fuel ms (fd_state fd) (fd_cf fd) = Inr (slices ms (drop n found))"
proof -
  have ciai: "s = CMP_CIAI \<Longrightarrow> sc_build cf = CMP_CIAI" using assms(8) by auto
  obtain fd k where fd: "patrieSearchSub fuel key s n cf = Inr fd" "fd_nhits fd = Some k" "take k (fd_start fd) = take n (hits cf t s key)"
    "k = length (take n (hits cf t s key))" "nav_ok cf (fd_cf fd)"
    "filter_exact cf s key \<longrightarrow> search_at cf t key (fd_state fd) (drop n (hits cf t s key))"
    using search_sub_ok [OF assms(1,7,2,6) ciai assms(3,4,5)] by blast
  have "search_at cf t key (fd_state fd) (drop n found)" "hits cf t s key = found"
    using fd(6) filter_exact_same [OF assms(6,8)] hits_exact [OF assms(6,8)] by (simp_all add: found_def)
  then show ?thesis using fd(1-4) more_starts_slices [OF assms(7,5) fd(5)] by simp
qed


definition sample_build :: "unit build_cf" where
  "sample_build = \<lparr>bc_sort = patrieSetCaseSensitive 3 (sample_text ''banana'' 100), bc_levels = empty_levels 10, bc_size = 32, bc_lpp = 2,
     bc_infix = [], bc_paged = [], bc_doInfix = True, bc_doLevels = True, bc_doPaged = True\<rparr>"

lemma sample_sort: "bc_sort sample_build = patrieSetCaseSensitive 3 (sample_text ''banana'' 100)"
  by (simp add: sample_build_def)

lemma sample_points: "chunk_points (bc_sort sample_build) (cf_indexArg (bc_sort sample_build)) 0 (chunk_count (bc_sort sample_build)) = [[0, 1, 2], [0, 1, 2]]"
  unfolding sample_sort by code_simp

lemma sample_build_points: "points_of sample_build = [0, 1, 2, 3, 4, 5]"
  unfolding points_of_def Let_def sample_points sample_sort by code_simp

lemma sample_build_text: "cf_text (bc_sort sample_build) = ''banana''" "sens_ok 3"
  by code_simp+

lemma sample_build_ok: "index_built 3 5 sample_build" "room_to_build sample_build"
proof -
  let ?cf = "bc_sort sample_build"
  have "told_apart (fold_key (fold_of 3)) ''banana'' 5 [0, 1, 2, 3, 4, 5]" by code_simp
  moreover have "buffers_fit ?cf" "0 < text_buffer_size ?cf" "chunk_count ?cf * sizeof_RunElement \<le> cf_sortMaxMem ?cf" "5 \<le> Suc (cf_sortPadLen ?cf)"
    unfolding sample_sort by code_simp+
  moreover have "points_ok ?cf [[0, 1, 2], [0, 1, 2]]" unfolding sample_sort by code_simp
  moreover have "index_points ?cf [[0, 1, 2], [0, 1, 2]] = [0, 1, 2, 3, 4, 5]" using sample_build_points unfolding points_of_def Let_def sample_points .
  ultimately show "index_built 3 5 sample_build" unfolding index_built_def Let_def sample_points sample_build_text by simp
  have "pageTooSmall \<lparr>pc_levels = bc_levels sample_build, pc_size = 32, pc_lpp = 2\<rparr> = False" by (simp add: pageTooSmall_def)
  then show "room_to_build sample_build" unfolding room_to_build_def sample_build_points by (simp add: sample_build_def empty_levels_def)
qed

lemma sample_levels_fit:
  assumes "set G = {0, 1, 2, 3, 4, 5 :: nat}" "sorted_wrt (\<lambda>p q. (K p :: nat list) < K q) G" "offsets [t] = map int G"
  shows "length (last (levels t)) < 10" "length G = 6"
proof -
  have "distinct G" using assms(2) by (induction G) auto
  then have "length G = card {0, 1, 2, 3, 4, 5 :: nat}" using assms(1) by (metis distinct_card)
  then show l: "length G = 6" by simp
  then have "length (leaves t) = 6" using assms(3) length_offsets [of t] by simp
  then show "length (last (levels t)) < 10" using last_level_starts [of t] by simp
qed


lemma sample_built:
  obtains G t and bc' :: "unit build_cf" where "sorted_wrt (\<lambda>p q. fold_key (fold_of 3) (drop p ''banana'') < fold_key (fold_of 3) (drop q ''banana'')) G" "set G = {0, 1, 2, 3, 4, 5}"
    "offsets [t] = map int G" "patricia (fold_of 3) ''banana'' t" "nodes t < 12" "readable (opened 3 bc') t" "sc_text (opened 3 bc') = ''banana''"
proof -
  have e: "2 * length (points_of sample_build) = 12" "set (points_of sample_build) = {0, 1, 2, 3, 4, 5}" "lc_N (bc_levels sample_build) = 10"
    by (simp_all only: sample_build_points) (simp_all add: sample_build_def empty_levels_def)
  have fuel: "2 * length (points_of sample_build) < 100" unfolding e by simp
  obtain G t where
    G: "sorted_wrt (\<lambda>p q. fold_key (fold_of 3) (drop p ''banana'') < fold_key (fold_of 3) (drop q ''banana'')) G" "set G = {0, 1, 2, 3, 4, 5}"
      "offsets [t] = map int G" "patricia (fold_of 3) ''banana'' t" "nodes t < 12"
      "length (last (levels t)) < 10 \<Longrightarrow> \<exists>bc'. patrieBuild 100 sample_build = Inr bc' \<and> readable (opened 3 bc') t \<and> bc_sort bc' = bc_sort sample_build"
    using build_ok [OF sample_sort sample_build_ok fuel] unfolding sample_build_text e by metis
  then obtain bc' where bc': "readable (opened 3 bc') t" "bc_sort bc' = bc_sort sample_build" using sample_levels_fit [OF G(2,1,3)] by blast
  then have "sc_text (opened 3 bc') = ''banana''" using sample_build_text(1) by (simp add: opened_def)
  from that [OF G(1-5) bc'(1) this] show ?thesis .
qed

theorem patrieSearchSub_correct_witness:
  "\<exists>cf fd a b c. {a, b, c} = {1, 3, 5} \<and> patrieSearchSub 100 ''a'' 3 1 cf = Inr fd \<and> fd_nhits fd = Some 1 \<and> take 1 (fd_start fd) = [a] \<and>
     more_starts 100 [1, 5, 2] (fd_state fd) (fd_cf fd) = Inr [[b], [c], []]"
proof -
  obtain G t and bc' :: "unit build_cf" where G: "sorted_wrt (\<lambda>p q. fold_key (fold_of 3) (drop p ''banana'') < fold_key (fold_of 3) (drop q ''banana'')) G" "set G = {0, 1, 2, 3, 4, 5}"
    "offsets [t] = map int G" "patricia (fold_of 3) ''banana'' t" "nodes t < 12" and r0: "readable (opened 3 bc') t" "sc_text (opened 3 bc') = ''banana''"
    by (rule sample_built)
  let ?cf = "opened 3 bc'" and ?found = "filter (occurs (fold_of 3) ''a'' ''banana'') (map int G)"
  have f: "sc_build ?cf = 3" "sc_text ?cf = ''banana''" using r0(2) by (simp_all add: opened_def)
  have "distinct G" using G(1) by (induction G) auto
  moreover have "set ?found = {1, 3, 5}"
  proof -
    have "set ?found = set (filter (occurs (fold_of 3) ''a'' ''banana'') [0, 1, 2, 3, 4, 5])" using G(2) by auto
    also have "filter (occurs (fold_of 3) ''a'' ''banana'') [0, 1, 2, 3, 4, 5] = [1, 3, 5]" by code_simp
    finally show ?thesis by simp
  qed
  ultimately have "length ?found = card {1, 3, 5 :: int}" by (metis distinct_card distinct_filter distinct_map inj_on_of_nat)
  moreover have "\<exists>a b c. xs = [a, b, c]" if "length xs = card {1, 3, 5 :: int}" for xs :: "int list"
    using that by (auto simp: length_Suc_conv numeral_3_eq_3)
  ultimately obtain a b c where abc: "?found = [a, b, c]" by blast
  have "is_cstr ''a''" "(0 :: nat) < 1" "nodes t \<le> 100" using G(5) by simp_all
  note r = patrieSearchSub_correct [OF r0(1), unfolded f, OF G(4) this sample_build_text(2) sample_build_text(2), of "[1, 5, 2]"]
  have "{a, b, c} = {1, 3, 5}" using \<open>set ?found = {1, 3, 5}\<close> unfolding abc by simp
  then show ?thesis using r unfolding G(3) abc by (intro exI [of _ ?cf]) auto
qed

end
