(* ===== verification/PatrieLimits.thy ===== *)
theory PatrieLimits
  imports PatrieIndex
begin

section \<open>Patricia trie: limits of the build and of the search\<close>

text \<open>
  When the page builder ends, and where it does not; which kinds of search an index answers only in part, and
  what the entry points of the search do outside the cases \<open>patrieSearchSub_correct\<close> covers.
\<close>

subsection \<open>The page builder ends\<close>

text \<open>More fuel does not change a result.\<close>

lemma write_pages_more:
  "write_pages fuel cf nLevs bCount tCount cur ls g = Inr r \<Longrightarrow> fuel \<le> fuel' \<Longrightarrow> write_pages fuel' cf nLevs bCount tCount cur ls g = Inr r"
proof (induction fuel arbitrary: fuel' bCount tCount cur ls g)
  case (Suc fuel)
  then obtain k where k: "fuel' = Suc k" "fuel \<le> k" by (cases fuel') auto
  show ?case
  proof (cases "nb_used (gs_buf g) = 0")
    case False
    let ?all = "nb_used (gs_buf g) \<le> pc_size cf"
    let ?b = "bCount + int (linksLeavingPage (gs_buf g) ?all nLevs)"
    from Suc.prems(1) False obtain page nb1 ls1 nb2 where s: "fillPage cf ?all nLevs bCount (gs_child g) (gs_buf g) = Inr page"
      "nodeBufferShift cf nLevs ?b (gs_child g) (gs_buf g) = Inr nb1" "nodeBufferLoad cf nLevs ?b (gs_child g) (ls, nb1) = Inr (ls1, nb2)"
      "write_pages fuel cf nLevs ?b (tCount + int (linksEnteringPage (gs_buf g) ?all)) (addTopCount cur tCount) ls1
        (g\<lparr>gs_buf := nb2, gs_out := Suc (gs_out g), gs_file := gs_file g @ page\<rparr>) = Inr r"
      by (auto simp: Let_def res_bind_def split: sum.splits prod.splits)
    from Suc.IH [OF s(4) k(2)] show ?thesis using s(1-3) False unfolding k(1) by (simp add: Let_def)
  qed (use Suc.prems(1) k(1) in simp)
qed simp

lemma write_groups_more:
  "write_groups fuel cf trie i g = Inr r \<Longrightarrow> fuel \<le> fuel' \<Longrightarrow> write_groups fuel' cf trie i g = Inr r"
proof (induction i arbitrary: g)
  case (Suc i)
  then obtain g1 where w: "write_group fuel cf trie i g = Inr g1" "write_groups fuel cf trie i g1 = Inr r"
    by (auto simp: res_bind_def split: sum.splits)
  then have "write_group fuel' cf trie i g = Inr g1"
    unfolding write_group_def Let_def by (auto simp: res_bind_def write_pages_more [OF _ Suc.prems(2)] split: sum.splits prod.splits)
  then show ?case using Suc.IH [OF w(2) Suc.prems(2)] by simp
qed simp

lemma patriePagedBuild_more:
  assumes "patriePagedBuild fuel cf = Inr f" "fuel \<le> fuel'"
  shows "patriePagedBuild fuel' cf = Inr f"
proof -
  have small: "\<not> pageTooSmall cf" using assms(1) by (auto simp: patriePagedBuild_def)
  then obtain trie where o: "open_levels (pc_levels cf) = Inr trie"
    using assms(1) unfolding patriePagedBuild_def by (auto simp: res_bind_Inr simp del: write_groups.simps)
  let ?i = "length trie div pc_lpp cf + (if length trie mod pc_lpp cf \<noteq> 0 then 1 else 0)"
  let ?g = "\<lparr>gs_child = addTopCount (initTopCount (- 1)) INT_MAX, gs_buf = nodeBufferInit cf, gs_out = 0, gs_file = []\<rparr>"
  have run: "patriePagedBuild n cf = res_bind (write_groups n cf trie ?i ?g) (\<lambda>g. Inr (gs_file g))" for n
    unfolding patriePagedBuild_def o Let_def res_bind_simps if_not_P [OF small] ..
  obtain g where g: "write_groups fuel cf trie ?i ?g = Inr g" "f = gs_file g" using assms(1) unfolding run res_bind_Inr by blast
  show ?thesis unfolding run write_groups_more [OF g(1) assms(2)] res_bind_simps g(2) ..
qed

text \<open>
  C6.  For a trie as the levels file holds it, and pages of at least four subtries of full size, the page
  builder ends: more turns of its loops than the trie has nodes make no difference.  The file it
  leaves consists of whole pages and holds the trie with its root on the last page, so that
  every node can be reached from there.
\<close>

theorem paged_build_ends:
  assumes "open_levels (pc_levels cf) = Inr ls" "list_all2 (ready (pc_levels cf)) ls (levels t)" "trie_ok t"
    and "\<not> pageTooSmall cf" "4 * 2 ^ pc_lpp cf \<le> pc_size cf" "int (nodes t) < INT_MAX"
  shows "\<exists>f. (\<forall>fuel>nodes t. patriePagedBuild fuel cf = Inr f) \<and> length f mod pc_size cf = 0 \<and>
    file_of \<lparr>sc_file = f, sc_size = pc_size cf, sc_lpp = pc_lpp cf, sc_build = sens, sc_text = txt, sc_page = None\<rparr> t"
proof -
  obtain f gs where p: "patriePagedBuild (Suc (nodes t)) cf = Inr f" "laid_out (pc_size cf) (pc_lpp cf) f [(- 1, t)] gs"
    "length f = (fst (hd gs) + length (snd (hd gs))) * pc_size cf"
    using paged_build_rep [OF assms(1,2,4,5,6) lessI] .
  have lpp: "0 < pc_lpp cf" using assms(4) by (simp add: pageTooSmall_def Let_def)
  have "(0 :: nat) < 4 * 2 ^ pc_lpp cf" by simp
  then have sz: "0 < pc_size cf" using assms(5) by linarith
  have "patriePagedBuild fuel cf = Inr f" if "nodes t < fuel" for fuel using patriePagedBuild_more [OF p(1)] that by simp
  moreover have "file_of \<lparr>sc_file = f, sc_size = pc_size cf, sc_lpp = pc_lpp cf, sc_build = sens, sc_text = txt, sc_page = None\<rparr> t"
    by (rule laid_out_file [where gs = gs]) (use p(2,3) assms(3,6) lpp sz in simp_all)
  ultimately show ?thesis using p(3) by (intro exI [of _ f]) simp
qed

definition sample_levels :: level_cf where
  "sample_levels = (case patrieLevelBuild (0 # infix_list sample_trie @ [0]) (empty_levels 8) of Inr l \<Rightarrow> l | Inl _ \<Rightarrow> empty_levels 8)"

theorem paged_build_ends_witness:
  "\<exists>f. (\<forall>fuel>9. patriePagedBuild fuel \<lparr>pc_levels = sample_levels, pc_size = 32, pc_lpp = 2\<rparr> = Inr f) \<and> length f mod 32 = 0"
proof -
  have ok: "trie_ok sample_trie" "int (depth sample_trie + 1) < INT_STACK_SZ" "2 \<le> lc_N (empty_levels 8)" "lc_next (empty_levels 8) + 2 * nodes sample_trie \<le> 1073741824"
    "length (lc_file (empty_levels 8)) \<le> lc_next (empty_levels 8) * lc_N (empty_levels 8)" "length (last (levels sample_trie)) < lc_N (empty_levels 8)"
    by (simp_all add: sample_trie_def empty_levels_def INT_STACK_SZ_def levels_def)
  obtain l ls where l: "patrieLevelBuild (0 # infix_list sample_trie @ [0]) (empty_levels 8) = Inr l" "open_levels l = Inr ls" "list_all2 (ready l) ls (levels sample_trie)"
    using levels_ready [OF ok] .
  let ?cf = "\<lparr>pc_levels = sample_levels, pc_size = 32, pc_lpp = 2\<rparr>"
  have s: "sample_levels = l" using l(1) by (simp add: sample_levels_def)
  have "open_levels (pc_levels ?cf) = Inr ls" "list_all2 (ready (pc_levels ?cf)) ls (levels sample_trie)" using l(2,3) s by simp_all
  moreover have "\<not> pageTooSmall ?cf" "4 * 2 ^ pc_lpp ?cf \<le> pc_size ?cf" by (simp_all add: pageTooSmall_def)
  moreover have n: "nodes sample_trie = 9" by (simp add: sample_trie_def)
  moreover have "int (nodes sample_trie) < INT_MAX" using n by (simp add: INT_MAX_def)
  ultimately show ?thesis using paged_build_ends [OF _ _ ok(1), of ?cf ls 0 "[]"] by fastforce
qed

subsection \<open>A subtrie that does not fit into a page\<close>

lemma shift_same:
  assumes "nb_pen nb = replicate nLevs 0" "nb_penT nb = 0" "nb_allT nb = 0" "length (nb_level nb) = nLevs" "0 < nLevs"
    and "nb_cells nb = (\<Sum>i<nLevs. length (nb_level nb ! i))" "count_children (nb_level nb ! (nLevs - 1)) = 0"
    and "nb_used nb = cells_used nb" "pc_size cf < nb_used nb"
  shows "nodeBufferShift cf nLevs bCount tc nb = Inr nb"
proof -
  have "map (\<lambda>i. if i < nLevs then drop (nb_pen nb ! i) (nb_level nb ! i) else nb_level nb ! i) [0..<length (nb_level nb)] = nb_level nb"
    unfolding assms(1) using assms(4) by (intro nth_equalityI) simp_all
  then have "drop_pen nLevs nb = nb\<lparr>nb_level := nb_level nb, nb_pen := replicate nLevs 0, nb_cells := \<Sum>i<nLevs. length (nb_level nb ! i)\<rparr>"
    unfolding drop_pen_def Let_def using assms(1) by simp
  then have "drop_pen nLevs nb = nb" unfolding assms(1) [symmetric] assms(6) [symmetric] by simp
  moreover have "cells_used (nb\<lparr>nb_used := 0, nb_allT := 0, nb_penT := 0\<rparr>) = nb_used nb" using assms(3,8) by (simp add: cells_used_def)
  moreover have "nb\<lparr>nb_used := 0, nb_allT := 0, nb_penT := 0, nb_used := nb_used nb\<rparr> = nb" using assms(2,3) by (cases nb) simp
  ultimately show ?thesis using assms(7,9) by (simp add: nodeBufferShift_def Let_def)
qed

definition stuck :: "page_cf \<Rightarrow> nat \<Rightarrow> node_buffer \<Rightarrow> bool" where
  \<comment> \<open>the buffer holds one subtrie, without links to pages below, and that is too large\<close>
  "stuck cf nLevs nb = (nb_pen nb = replicate nLevs 0 \<and> nb_penT nb = 0 \<and> nb_allT nb = 0 \<and> length (nb_level nb) = nLevs \<and> 0 < nLevs \<and>
     nb_cells nb = (\<Sum>i<nLevs. length (nb_level nb ! i)) \<and> count_children (nb_level nb ! (nLevs - 1)) = 0 \<and>
     nb_used nb = cells_used nb \<and> pc_size cf < nb_used nb)"

lemma write_pages_stuck:
  assumes "3 \<le> pc_size cf" "tc = addTopCount (initTopCount (- 1)) INT_MAX"
  shows "stuck cf nLevs nb \<Longrightarrow> gs_buf g = nb \<Longrightarrow> gs_child g = tc \<Longrightarrow> nb_prev nb = 0 \<Longrightarrow> bCount = 0 \<Longrightarrow>
    write_pages fuel cf nLevs bCount tCount cur ls g = Inl OutOfFuel"
proof (induction fuel arbitrary: tCount cur g)
  case (Suc fuel)
  have st: "nb_pen nb = replicate nLevs 0" "nb_penT nb = 0" "nb_allT nb = 0" "length (nb_level nb) = nLevs" "0 < nLevs"
    "nb_cells nb = (\<Sum>i<nLevs. length (nb_level nb ! i))" "count_children (nb_level nb ! (nLevs - 1)) = 0"
    "nb_used nb = cells_used nb" "pc_size cf < nb_used nb" using Suc.prems(1) by (simp_all add: stuck_def)
  have "map (\<lambda>i. map paged_cell (take (nb_pen nb ! i) (nb_level nb ! i))) [0..<nLevs] = replicate nLevs []"
    unfolding st(1) by (intro nth_equalityI) simp_all
  then have cells: "concat (map (\<lambda>i. map paged_cell (take (nb_pen nb ! i) (nb_level nb ! i))) [0..<nLevs]) = []" by simp
  obtain page where fill: "fillPage cf False nLevs 0 tc nb = Inr page"
    using assms(1) st(2) cells by (simp add: fillPage_def Let_def)
  have leave: "linksLeavingPage nb False nLevs = 0" using st(1,5) by (simp add: linksLeavingPage_def Let_def count_children_def)
  have shift: "nodeBufferShift cf nLevs 0 tc nb = Inr nb" by (rule shift_same) (fact st)+
  have first: "firstTCountIdx tc 0 0 = Inr (- 1)" by (simp add: assms(2) firstTCountIdx_def addTopCount_def initTopCount_def INT_MAX_def)
  have same: "nb\<lparr>nb_used := cells_used nb\<rparr> = nb" using st(8) by (cases nb) (simp add: cells_used_def)
  have load: "nodeBufferLoad cf nLevs 0 tc (ls, nb) = Inr (ls, nb)"
    using st(3,9) first Suc.prems(4) by (simp add: nodeBufferLoad_def same flip: st(8))
  have "\<not> nb_used nb = 0" "\<not> nb_used nb \<le> pc_size cf" using st(9) by simp_all
  then show ?case using fill leave shift load Suc.IH [OF Suc.prems(1), of "g\<lparr>gs_buf := nb, gs_out := Suc (gs_out g), gs_file := gs_file g @ page\<rparr>"] Suc.prems(2-5)
    by (simp add: Let_def)
qed simp

definition two_starts :: page_cf where
  \<comment> \<open>the trie of two starts, and pages of five cells for two levels\<close>
  "two_starts = \<lparr>pc_levels = (case patrieLevelBuild [0, -1, 5, -2, 0] (empty_levels 8) of Inr l \<Rightarrow> l | Inl _ \<Rightarrow> empty_levels 8), pc_size = 5, pc_lpp = 2\<rparr>"

definition two_levels :: "single_level list" where
  "two_levels = (case open_levels (pc_levels two_starts) of Inr ls \<Rightarrow> ls | Inl _ \<Rightarrow> [])"

text \<open>
  C39.  The page builder refuses a page that is too small for its levels, but it assumes a page to hold half
  as many nodes as a full subtrie has, and computes in unsigned arithmetic.  So it accepts a page of 20
  bytes for two levels, and then, for a trie of two starts, writes pages without nodes for ever.
\<close>

theorem paged_build_endless:
  "\<not> pageTooSmall two_starts \<and> open_levels (pc_levels two_starts) = Inr two_levels \<and>
   map (read_level 4 (pc_levels two_starts)) two_levels = map Inr (levels (Fork 5 (Start 1) (Start 2))) \<and>
   (\<forall>fuel. patriePagedBuild fuel two_starts = Inl OutOfFuel)"
proof (intro conjI allI)
  show small: "\<not> pageTooSmall two_starts" by (simp add: two_starts_def pageTooSmall_def)
  have levels: "open_levels (pc_levels two_starts) = Inr two_levels \<and>
    map (read_level 4 (pc_levels two_starts)) two_levels = map Inr (levels (Fork 5 (Start 1) (Start 2)))" by code_simp
  then show "open_levels (pc_levels two_starts) = Inr two_levels" "map (read_level 4 (pc_levels two_starts)) two_levels = map Inr (levels (Fork 5 (Start 1) (Start 2)))"
    by simp_all
  fix fuel
  let ?tc = "addTopCount (initTopCount (- 1)) INT_MAX"
  let ?load = "nodeBufferLoad two_starts 2 0 ?tc (two_levels, nodeBufferInit two_starts)"
  have l: "case ?load of Inr (ls, nb) \<Rightarrow> stuck two_starts 2 nb \<and> nb_prev nb = 0 | Inl _ \<Rightarrow> False" by code_simp
  then obtain ls nb where load: "?load = Inr (ls, nb)" "stuck two_starts 2 nb" "nb_prev nb = 0" by (auto split: sum.splits)
  have n: "length two_levels = 2" "pc_lpp two_starts = 2" "3 \<le> pc_size two_starts" by code_simp+
  let ?g = "\<lparr>gs_child = ?tc, gs_buf = nodeBufferInit two_starts, gs_out = 0, gs_file = []\<rparr>"
  have "write_group fuel two_starts two_levels 0 ?g = Inl OutOfFuel"
    using write_pages_stuck [OF n(3) refl load(2), of "?g\<lparr>gs_buf := nb\<rparr>"] load(1,3) n(1,2) by (simp add: write_group_def Let_def)
  then show "patriePagedBuild fuel two_starts = Inl OutOfFuel"
    using small levels n(1,2) by (simp add: patriePagedBuild_def Let_def)
qed

subsection \<open>Searches of another type than the index\<close>

lemma capitals_folded: "tolower (CHR ''H'') = CHR ''h''" "tolower (CHR ''P'') = CHR ''p''" "tolower (CHR ''X'') = CHR ''x''"
    "TOLOWER (CHR ''h'') = TOLOWER (CHR ''H'')" "TOLOWER (CHR ''p'') = TOLOWER (CHR ''P'')" "TOLOWER (CHR ''x'') = TOLOWER (CHR ''X'')"
    "NoAccent (CHR ''h'') = NoAccent (CHR ''H'')" "NoAccent (CHR ''p'') = NoAccent (CHR ''P'')" "NoAccent (CHR ''x'') = NoAccent (CHR ''X'')"
  by code_simp+

text \<open>
  C38.  An index that folds case or accents answers a search that folds neither with the starts where
  the key matches under both foldings; as the accent table also lowers \<open>H\<close>, \<open>P\<close> and \<open>X\<close>, such a
  search takes these letters and their lower case for the same.  Every other search of another
  type than the index, which is not the index that folds both, returns no hit and no error.
\<close>

theorem mixed_search_hits:
  assumes "readable cf t" "patricia (fold_of (sc_build cf)) (sc_text cf) t" "is_cstr key" "0 < n" "nodes t \<le> fuel"
    and "sens_ok s" "sens_ok (sc_build cf)" "s \<noteq> sc_build cf" "s \<noteq> CMP_CIAI" "sc_build cf \<noteq> CMP_CIAI"
  defines "both \<equiv> (\<lambda>off. occurs TOLOWER key (sc_text cf) off \<and> occurs NoAccent key (sc_text cf) off)"
  shows "(\<exists>fd found. patrieSearchSub fuel key s n cf = Inr fd \<and> fd_nhits fd = Some (length found) \<and> take (length found) (fd_start fd) = found \<and>
      found = take n (if s = CMP_CSAS then filter both (offsets [t]) else [])) \<and>
    (\<forall>c\<in>set ''HPX''. TOLOWER (tolower c) = TOLOWER c \<and> NoAccent (tolower c) = NoAccent c \<and> tolower c \<noteq> c)"
proof
  show "\<forall>c\<in>set ''HPX''. TOLOWER (tolower c) = TOLOWER c \<and> NoAccent (tolower c) = NoAccent c \<and> tolower c \<noteq> c"
    using capitals_folded unfolding list.set ball_simps by simp
  let ?b = "sc_build cf"
  have ciai: "s = CMP_CIAI \<Longrightarrow> ?b = CMP_CIAI" using assms(9) by simp
  have "s \<noteq> 0" "?b \<noteq> 0" using assms(9,10) by (simp_all add: CMP_CIAI_def)
  then have sb: "s \<in> {1, 2, 3}" "?b \<in> {1, 2, 3}" using sens_ok_less [OF assms(6)] sens_ok_less [OF assms(7)] by blast+
  have "hits cf t s key = (if s = CMP_CSAS then filter both (offsets [t]) else [])"
  proof (cases "s = 3")
    case True
    then have "?b = 1 \<or> ?b = 2" using sb(2) assms(8) by auto
    then show ?thesis unfolding hits_def passes_def both_def filter_type_def MatchMap_def True by (auto simp: cmp_codes fold_of_def intro: filter_cong)
  next
    case False
    then have "filter_type s ?b = CMP_NULL" using sb assms(8) by (auto simp: filter_type_def MatchMap_def cmp_codes)
    then show ?thesis using False by (simp add: hits_def passes_def cmp_codes)
  qed
  note hs = this
  obtain fd k where fd: "patrieSearchSub fuel key s n cf = Inr fd" "fd_nhits fd = Some k" "take k (fd_start fd) = take n (hits cf t s key)"
    "k = length (take n (hits cf t s key))"
    using search_sub_ok [OF assms(1,7,2,6) ciai assms(3,4,5)] by blast
  show "\<exists>fd found. patrieSearchSub fuel key s n cf = Inr fd \<and> fd_nhits fd = Some (length found) \<and> take (length found) (fd_start fd) = found \<and>
      found = take n (if s = CMP_CSAS then filter both (offsets [t]) else [])"
    using fd unfolding hs by (intro exI [of _ fd] exI [of _ "take n (if s = CMP_CSAS then filter both (offsets [t]) else [])"]) simp
qed

theorem mixed_search_hits_witness:
  "\<exists>cf fd. patrieSearchSub 100 ''an'' CMP_CIAS 10 cf = Inr fd \<and> fd_nhits fd = Some 0 \<and> sc_build cf = CMP_CSAS \<and> sc_text cf = ''banana''"
proof -
  obtain G t and bc' :: "unit build_cf" where G: "patricia (fold_of 3) ''banana'' t" "nodes t < 12" and r: "readable (opened 3 bc') t" "sc_text (opened 3 bc') = ''banana''"
    by (rule sample_built)
  have b: "sc_build (opened 3 bc') = 3" by (simp add: opened_def)
  have "is_cstr ''an''" "(0 :: nat) < 10" "nodes t \<le> 100" "sens_ok CMP_CIAS" "sens_ok 3" "CMP_CIAS \<noteq> 3" "CMP_CIAS \<noteq> CMP_CIAI" "3 \<noteq> CMP_CIAI" "CMP_CIAS \<noteq> CMP_CSAS"
    using G(2) by (simp_all add: sens_ok_def cmp_codes)
  from mixed_search_hits [OF r(1), unfolded b r(2), OF G(1) this(1-8)] this(9) b r(2) show ?thesis
    by (intro exI [of _ "opened 3 bc'"]) (auto simp: cmp_codes)
qed

definition miss_index :: search_cf where
  \<comment> \<open>the words \<open>eb\<close> and \<open>ea\<close>, compared without regard to case\<close>
  "miss_index = \<lparr>sc_file = [0, CELL_MAX, 0, 15, 2147483648 + 4, 2147483648 + 1], sc_size = 6, sc_lpp = 2, sc_build = CMP_CIAS,
     sc_text = [CHR ''e'', CHR ''b'', CHR 0x0A, CHR ''e'', CHR ''a'', CHR 0x0A], sc_page = None\<rparr>"


text \<open>
  The edges of the interface: a search for no hits leaves the number of hits unset, unless it is
  refused; the guard of the table of comparisons lets a type just behind the table through; and
  going on with a search (from a stored state) over a freshly opened index reads the number of
  a page that was never loaded.
\<close>

theorem search_edges:
  "patrieSearchSub fuel key s 0 cf = (if s = 0 \<and> sc_build cf \<noteq> 0 then Inl Rejected
     else Inr \<lparr>fd_nhits = None, fd_start = [], fd_state = patrieAllocState, fd_cf = cf\<rparr>) \<and>
   keyMatchesIdxSearchType cf 4 type key off = (if 4 < type then Inr False else Inl Undefined) \<and>
   (sc_page cf = None \<longrightarrow> state_inv st \<longrightarrow> state_stack st = nd # nds \<longrightarrow> pn_is_skip nd \<noteq> 0 \<longrightarrow> ps_match st = sc_build cf \<longrightarrow>
     ps_first st \<noteq> 0 \<longrightarrow> patrieGetMoreStarts (Suc fuel) (Suc m) st cf = Inl Undefined)"
proof (intro conjI impI)
  show "patrieSearchSub fuel key s 0 cf = (if s = 0 \<and> sc_build cf \<noteq> 0 then Inl Rejected
     else Inr \<lparr>fd_nhits = None, fd_start = [], fd_state = patrieAllocState, fd_cf = cf\<rparr>)" by (simp add: patrieSearchSub_def)
  show "keyMatchesIdxSearchType cf 4 type key off = (if 4 < type then Inr False else Inl Undefined)"
    by (simp add: keyMatchesIdxSearchType_def MATCHMAP_SZ_def keyTypeMatch_def cmp_codes)
  assume a: "sc_page cf = None" "state_inv st" "state_stack st = nd # nds" "pn_is_skip nd \<noteq> 0" "ps_match st = sc_build cf" "ps_first st \<noteq> 0"
  obtain st' where "patrieStatePop st = Inr (nd, st')" using patrieStatePop_stack [OF a(2,3)] by metis
  moreover have "\<not> patrieStateEmpty st" using state_stack_empty [OF a(2)] a(3) by simp
  ultimately show "patrieGetMoreStarts (Suc fuel) (Suc m) st cf = Inl Undefined"
    using a by (simp add: patrieGetMoreStarts_def with_page_def initPageBuffer_def load_all_starts_def load_starts_def getPagedTrieChild_def)
qed

theorem search_edges_witness:
  "patrieSearchSub 10 ''e'' CMP_CIAS 0 miss_index = Inr \<lparr>fd_nhits = None, fd_start = [], fd_state = patrieAllocState, fd_cf = miss_index\<rparr> \<and>
   patrieGetMoreStarts 10 5 (patrieAllocState\<lparr>ps_top := 0, ps_nelts := 1, ps_nodes := [sample_node\<lparr>pn_is_skip := 1\<rparr>], ps_match := 1, ps_first := 1\<rparr>) miss_index =
     Inl Undefined"
proof -
  let ?nd = "sample_node\<lparr>pn_is_skip := 1\<rparr>"
  let ?st = "patrieAllocState\<lparr>ps_top := 0, ps_nelts := 1, ps_nodes := [?nd], ps_match := 1, ps_first := 1\<rparr>"
  have s: "sc_page miss_index = None" "state_inv ?st" "state_stack ?st = ?nd # []" "pn_is_skip ?nd \<noteq> 0" "ps_match ?st = sc_build miss_index" "ps_first ?st \<noteq> 0"
    by (simp_all add: miss_index_def state_inv_def state_stack_def patrieAllocState_def cmp_codes)
  have n: "Suc 9 = 10" "Suc 4 = 5" by simp_all
  have f: "\<not> (CMP_CIAS = 0 \<and> sc_build miss_index \<noteq> 0)" by (simp add: cmp_codes)
  show ?thesis
    using search_edges [of 10 "''e''" CMP_CIAS miss_index]
      search_edges [where fuel = 9 and m = 4 and st = ?st and cf = miss_index and nd = ?nd and nds = "[]"] s f unfolding n by simp
qed

end
