(* ===== verification/StringTable.thy ===== *)
theory StringTable
  imports PatrieSort
begin

section \<open>String index: the table of new strings\<close>

text \<open>
  Models \<open>archie/lib/archstridx/newstr.c\<close>: the hash table of the strings that were appended to the
  strings file and are not in the index yet.  The strings lie in a buffer one behind the other
  (\<open>str_buf\<close>), an element of the table holds the offset of its string there and the offset in the
  strings file.  Collisions are resolved by double hashing over a prime number of elements;
  a table that is too full is copied into one twice as large.  Integers are the 32-bit ones of the
  systems the program was written for.  Memory is never exhausted, so the DBM file that would stand
  in for a table that cannot be allocated is not used.

  The invariant \<open>table_ok\<close> makes a table a partial map from strings to offsets (\<open>view\<close>): it has an
  empty element, and on the way from the first element a string is hashed to, to its own, no element
  is empty.
\<close>

subsection \<open>The buffer of strings\<close>

record str_buf =
  sb_str :: "char list"   \<comment> \<open>what has been written of \<open>str\<close>; \<open>next\<close> is its length\<close>
  sb_len :: nat           \<comment> \<open>\<open>len\<close>, the bytes allocated\<close>

definition INIT_SBUF_SZ :: nat where "INIT_SBUF_SZ = 1000"

definition INIT_SZ_IDX :: nat where "INIT_SZ_IDX = 9"

definition SIZE_LIMIT :: nat where
  \<comment> \<open>a \<open>size_t\<close> is less than that\<close>
  "SIZE_LIMIT = 4294967296"

definition new_str_buf :: str_buf where
  "new_str_buf = \<lparr>sb_str = [], sb_len = INIT_SBUF_SZ\<rparr>"

fun enlarge :: "nat \<Rightarrow> nat \<Rightarrow> nat \<Rightarrow> nat \<Rightarrow> nat res" where
  \<comment> \<open>the loop of \<open>append_str_buf\<close>: \<open>len\<close> until \<open>l\<close> characters and a nul fit\<close>
  "enlarge 0 l next0 len = Inl OutOfFuel"
| "enlarge (Suc n) l next0 len =
     (if len - next0 \<le> l then (if SIZE_LIMIT \<le> 2 * len then Inl Undefined else enlarge n l next0 (2 * len)) else Inr len)"

definition append_str_buf :: "cstr \<Rightarrow> str_buf \<Rightarrow> (nat \<times> str_buf) res" where
  \<comment> \<open>the offset of the string, and the buffer; a length doubles at most 32 times\<close>
  "append_str_buf s b =
     res_bind (enlarge 33 (length s) (length (sb_str b)) (sb_len b)) (\<lambda>len.
       Inr (length (sb_str b), \<lparr>sb_str = sb_str b @ s @ [NUL], sb_len = len\<rparr>))"

definition string_at :: "str_buf \<Rightarrow> nat \<Rightarrow> char list option" where
  \<comment> \<open>a pointer into the buffer\<close>
  "string_at b off = (if off < sb_len b then Some (drop off (sb_str b)) else None)"

definition read_string :: "char list \<Rightarrow> cstr res" where
  \<comment> \<open>the C string at a pointer; what was not written has no value\<close>
  "read_string p = (if NUL \<in> set p then Inr (takeWhile (\<lambda>c. c \<noteq> NUL) p) else Inl Undefined)"

subsection \<open>The table\<close>

definition primes :: "nat list" where
  "primes = [2, 2, 5, 11, 17, 37, 67, 131, 257, 521, 1031, 2053, 4099, 8209, 16411, 32771,
     65537, 131101, 262147, 524309, 1048583, 2097169, 4194319, 8388617, 16777259,
     33554467, 67108879, 134217757, 268435459, 536870923, 1073741827, 2147483659]"

record hash_elt =
  he_str :: nat   \<comment> \<open>\<open>str\<close>, offset in the buffer\<close>
  he_off :: nat   \<comment> \<open>\<open>off\<close>, offset in the strings file\<close>

record hash_table =
  ht_szidx :: nat
  ht_nelts :: nat
  ht_inuse :: nat
  ht_lim :: nat             \<comment> \<open>\<open>rehash_lim\<close>\<close>
  ht_elt :: "hash_elt list"
  ht_sbuf :: str_buf

text \<open>
  A \<open>float\<close> is an integer of at most 24 bits over a power of two; the product of two is rounded to
  24 bits, to even in the middle.
\<close>

type_synonym float32 = "nat \<times> nat"   \<comment> \<open>\<open>(m, k)\<close> is \<open>m / 2 ^ k\<close>\<close>

definition DFLT_LOAD_FACTOR :: float32 where
  \<comment> \<open>\<open>0.9\<close> as a \<open>float\<close>\<close>
  "DFLT_LOAD_FACTOR = (15099494, 24)"

definition MAX_LOAD_FACTOR :: float32 where
  \<comment> \<open>\<open>0.99\<close> as a \<open>double\<close>\<close>
  "MAX_LOAD_FACTOR = (8917127262193582, 53)"

definition MIN_LOAD_FACTOR :: float32 where
  \<comment> \<open>\<open>0.01\<close> as a \<open>double\<close>\<close>
  "MIN_LOAD_FACTOR = (5764607523034235, 59)"

definition float_less :: "float32 \<Rightarrow> float32 \<Rightarrow> bool" where
  "float_less x y = (fst x * 2 ^ snd y < fst y * 2 ^ snd x)"

fun extra_bits :: "nat \<Rightarrow> nat" where
  "extra_bits x = (if x < 16777216 then 0 else Suc (extra_bits (x div 2)))"

declare extra_bits.simps [simp del]

definition round24 :: "nat \<Rightarrow> nat" where
  "round24 x =
     (let s = extra_bits x; q = x div 2 ^ s; r = x mod 2 ^ s
      in (if 2 * r < 2 ^ s \<or> 2 * r = 2 ^ s \<and> even q then q else q + 1) * 2 ^ s)"

definition limit_of :: "nat \<Rightarrow> float32 \<Rightarrow> nat" where
  \<comment> \<open>\<open>h->nelts * lf\<close>, converted to \<open>size_t\<close>\<close>
  "limit_of n lf = round24 (round24 n * fst lf) div 2 ^ snd lf"

definition set_load_factor :: "hash_table \<Rightarrow> float32 \<Rightarrow> hash_table res" where
  "set_load_factor h lf =
     (if float_less lf MIN_LOAD_FACTOR then Inl Rejected
      else if float_less MAX_LOAD_FACTOR lf then Inl Rejected
      else Inr (h\<lparr>ht_lim := limit_of (ht_nelts h) lf\<rparr>))"

definition NO_STRING :: nat where
  \<comment> \<open>\<open>(size_t)-1\<close>\<close>
  "NO_STRING = 4294967295"

definition create_hash_table :: "nat \<Rightarrow> hash_table res" where
  \<comment> \<open>an element has 8 bytes; the bytes of all are computed in a \<open>size_t\<close>\<close>
  "create_hash_table idx =
     (if length primes \<le> idx then Inl Rejected
      else if SIZE_LIMIT \<le> 8 * primes ! idx then Inl Undefined
      else set_load_factor \<lparr>ht_szidx = idx, ht_nelts = primes ! idx, ht_inuse = 0, ht_lim = 0,
        ht_elt = replicate (primes ! idx) \<lparr>he_str = NO_STRING, he_off = 0\<rparr>, ht_sbuf = new_str_buf\<rparr> DFLT_LOAD_FACTOR)"

fun hash_from :: "32 word \<Rightarrow> 32 word \<Rightarrow> cstr \<Rightarrow> 32 word" where
  "hash_from a h [] = h"
| "hash_from a h (c # cs) = hash_from a (h * a + of_nat (ord c)) cs"

definition hash0 :: "cstr \<Rightarrow> nat" where
  "hash0 s = unat (hash_from 33 0 s)"

definition hash1 :: "cstr \<Rightarrow> nat" where
  "hash1 s = unat (hash_from 131 0 s)"

text \<open>
  The loop over the elements, which \<open>insert_hash_table\<close> and \<open>search_hash_table\<close> share.  After
  \<open>nelts\<close> turns it comes back to elements it has seen, so more rounds do not help.
\<close>

fun probe :: "nat \<Rightarrow> hash_table \<Rightarrow> cstr \<Rightarrow> nat \<Rightarrow> nat \<Rightarrow> nat res" where
  "probe 0 h s n i = Inl OutOfFuel"
| "probe (Suc k) h s n i =
     (case string_at (ht_sbuf h) (he_str (ht_elt h ! n)) of
        None \<Rightarrow> Inr n
      | Some p \<Rightarrow> res_bind (read_string p) (\<lambda>t. if t = s then Inr n else probe k h s ((n + i) mod ht_nelts h) i))"

definition element_for :: "hash_table \<Rightarrow> cstr \<Rightarrow> nat res" where
  "element_for h s = probe (ht_nelts h) h s (hash0 s mod ht_nelts h) (1 + hash1 s mod (ht_nelts h - 1))"

definition put_element :: "cstr \<Rightarrow> nat \<Rightarrow> hash_table \<Rightarrow> hash_table res" where
  \<comment> \<open>\<open>insert_hash_table\<close> behind the expansion\<close>
  "put_element s off h =
     res_bind (element_for h s) (\<lambda>n.
     res_bind (append_str_buf s (ht_sbuf h)) (\<lambda>(str, b).
       Inr (h\<lparr>ht_elt := (ht_elt h)[n := \<lparr>he_str = str, he_off = off\<rparr>], ht_sbuf := b, ht_inuse := ht_inuse h + 1\<rparr>)))"

fun reinsert :: "(cstr \<Rightarrow> nat \<Rightarrow> hash_table \<Rightarrow> hash_table res) \<Rightarrow> str_buf \<Rightarrow> hash_elt list \<Rightarrow> hash_table \<Rightarrow> hash_table res" where
  \<comment> \<open>the loop of \<open>expand_hash_table\<close>\<close>
  "reinsert ins b [] nh = Inr nh"
| "reinsert ins b (e # es) nh =
     (case string_at b (he_str e) of
        None \<Rightarrow> reinsert ins b es nh
      | Some p \<Rightarrow> res_bind (read_string p) (\<lambda>s. res_bind (ins s (he_off e) nh) (reinsert ins b es)))"

definition expand_hash_table :: "(cstr \<Rightarrow> nat \<Rightarrow> hash_table \<Rightarrow> hash_table res) \<Rightarrow> hash_table \<Rightarrow> hash_table res" where
  \<comment> \<open>with \<open>insert_hash_table\<close> as argument\<close>
  "expand_hash_table ins oh =
     res_bind (create_hash_table (ht_szidx oh + 1)) (reinsert ins (ht_sbuf oh) (ht_elt oh))"

text \<open>
  The two functions call each other, each time with a table of the next size, until there
  is no greater size.
\<close>

primrec insert_within :: "nat \<Rightarrow> cstr \<Rightarrow> nat \<Rightarrow> hash_table \<Rightarrow> hash_table res" where
  "insert_within 0 s off h = (if ht_lim h \<le> ht_inuse h then Inl OutOfFuel else put_element s off h)"
| "insert_within (Suc d) s off h =
     (if ht_lim h \<le> ht_inuse h then res_bind (expand_hash_table (insert_within d) h) (put_element s off)
      else put_element s off h)"

definition insert_hash_table :: "cstr \<Rightarrow> nat \<Rightarrow> hash_table \<Rightarrow> hash_table res" where
  "insert_hash_table s off h = insert_within (length primes - ht_szidx h) s off h"

definition search_hash_table :: "hash_table \<Rightarrow> cstr \<Rightarrow> (nat \<times> bool) res" where
  \<comment> \<open>\<open>*off\<close> and \<open>*found\<close>\<close>
  "search_hash_table h s =
     res_bind (element_for h s) (\<lambda>n.
       Inr (he_off (ht_elt h ! n), string_at (ht_sbuf h) (he_str (ht_elt h ! n)) \<noteq> None))"

subsection \<open>Primes\<close>

definition prime_size :: "nat \<Rightarrow> bool" where
  \<comment> \<open>every step through a table of this size is coprime to the size\<close>
  "prime_size p = (1 < p \<and> (\<forall>i. 0 < i \<longrightarrow> i < p \<longrightarrow> coprime i p))"

function no_odd_divisor :: "int \<Rightarrow> int \<Rightarrow> bool" where
  \<comment> \<open>no odd number from \<open>d\<close> on whose square is at most \<open>p\<close> divides \<open>p\<close>\<close>
  "no_odd_divisor d p = (if d \<le> 0 \<or> p < d * d then True else if p mod d = 0 then False else no_odd_divisor (d + 2) p)"
  by pat_completeness auto
termination
proof (relation "measure (\<lambda>(d, p). nat (p + 1 - d))", goal_cases)
  case (2 d p)
  then have "d * 1 \<le> d * d" by (intro mult_left_mono) simp_all
  then have "d \<le> p" using 2 by linarith
  then show ?case by simp
qed simp

declare no_odd_divisor.simps [simp del]

lemma no_odd_divisorD:
  "no_odd_divisor d p \<Longrightarrow> 0 < d \<Longrightarrow> odd d \<Longrightarrow> d \<le> e \<Longrightarrow> odd e \<Longrightarrow> e * e \<le> p \<Longrightarrow> \<not> e dvd p"
proof (induction d p rule: no_odd_divisor.induct)
  case (1 d p)
  have "d * d \<le> e * e" using 1 by (intro mult_mono) auto
  then have p: "\<not> p < d * d" "\<not> d \<le> 0" using 1 by simp_all
  then have n: "p mod d \<noteq> 0" "no_odd_divisor (d + 2) p" using 1(2) no_odd_divisor.simps [of d p] by (auto split: if_splits)
  show ?case
  proof (cases "e = d")
    case False
    then have "d + 2 \<le> e" using 1 by presburger
    then show ?thesis using 1 n p by simp
  qed (use n in \<open>simp add: dvd_eq_mod_eq_0\<close>)
qed

lemma prime_sizeI:
  assumes "no_odd_divisor 3 (int p)" "odd p" "1 < p"
  shows "prime_size p"
  unfolding prime_size_def
proof (intro conjI allI impI)
  fix i assume i: "0 < i" "i < p"
  let ?g = "gcd i p"
  obtain e where e: "p = ?g * e" by (metis dvdE gcd_dvd2)
  have g: "0 < ?g" "?g < p" using i by (auto intro: le_less_trans [OF gcd_le1_nat])
  have e1: "1 < e" using e g by (cases "e = 0 \<or> e = 1") auto
  have small: "\<not> q dvd p" if "1 < q" "q * q \<le> p" for q
  proof
    assume q: "q dvd p"
    then have "odd q" using assms(2) by (metis dvd_trans)
    then have "3 \<le> q" using that(1) by presburger
    moreover have "int q * int q \<le> int p" using that(2) by (metis of_nat_le_iff of_nat_mult)
    ultimately have "\<not> int q dvd int p" using no_odd_divisorD [OF assms(1), of "int q"] \<open>odd q\<close> by simp
    then show False using q by simp
  qed
  show "coprime i p"
  proof (rule ccontr)
    assume "\<not> coprime i p"
    then have "?g \<noteq> 1" by (simp add: coprime_iff_gcd_eq_1)
    then have "1 < ?g" using g(1) by linarith
    moreover have "?g * ?g \<le> p \<or> e * e \<le> p" using e by (metis mult_le_mono1 mult_le_mono2 nat_le_linear)
    moreover have "?g dvd p" "e dvd p" using e by (metis dvd_triv_left dvd_triv_right)+
    ultimately show False using small e1 by blast
  qed
qed (use assms(3) in simp)

lemma primes_prime:
  "prime_size 521" "prime_size 1031" "prime_size 2053" "prime_size 4099" "prime_size 8209" "prime_size 16411"
  "prime_size 32771" "prime_size 65537" "prime_size 131101" "prime_size 262147" "prime_size 524309" "prime_size 1048583"
  by (rule prime_sizeI; (simp; code_simp)?; simp)+

subsection \<open>The limit\<close>

lemma extra_bits_bound: "0 < extra_bits x \<Longrightarrow> 2 ^ (23 + extra_bits x) \<le> x"
proof (induction x rule: extra_bits.induct)
  case (1 x)
  then have x: "16777216 \<le> x" "extra_bits x = Suc (extra_bits (x div 2))" using extra_bits.simps [of x] by (simp_all split: if_splits)
  show ?case
  proof (cases "extra_bits (x div 2) = 0")
    case False
    then have "2 * 2 ^ (23 + extra_bits (x div 2)) \<le> 2 * (x div 2)" using 1(1) x(1) by simp
    also have "\<dots> \<le> x" by simp
    finally show ?thesis unfolding x(2) by (simp only: power_Suc add_Suc_right)
  qed (use x in simp)
qed

lemma extra_bits_0: "x < 16777216 \<Longrightarrow> extra_bits x = 0"
  by (simp add: extra_bits.simps [of x])

lemma round24_small: "x < 16777216 \<Longrightarrow> round24 x = x"
  by (simp add: round24_def extra_bits_0)

lemma round24_le: "round24 x * 16777216 \<le> x * 16777217"
proof (cases "extra_bits x = 0")
  case True
  then show ?thesis by (simp add: round24_def)
next
  case False
  then have big: "16777216 * 2 ^ extra_bits x \<le> 2 * x" using extra_bits_bound [of x] by (simp add: power_add)
  define z where "z = (2 :: nat) ^ extra_bits x"
  have "2 * ((if 2 * r < z \<or> 2 * r = z \<and> even q then q else q + 1) * z) \<le> 2 * x + z" if "x = q * z + r" for q r :: nat
    using that by (auto simp: algebra_simps)
  from this [of "x div z" "x mod z"] have "2 * round24 x \<le> 2 * x + z"
    unfolding round24_def Let_def z_def [symmetric] div_mult_mod_eq by simp
  then show ?thesis using big unfolding z_def by linarith
qed

lemma round24_ge: "x * 16777215 \<le> round24 x * 16777216"
proof (cases "extra_bits x = 0")
  case True
  then show ?thesis by (simp add: round24_def)
next
  case False
  then have big: "16777216 * 2 ^ extra_bits x \<le> 2 * x" using extra_bits_bound [of x] by (simp add: power_add)
  define z where "z = (2 :: nat) ^ extra_bits x"
  have "2 * x \<le> 2 * ((if 2 * r < z \<or> 2 * r = z \<and> even q then q else q + 1) * z) + z" if "x = q * z + r" "r < z" for q r :: nat
    using that by (auto simp: algebra_simps)
  from this [of "x div z" "x mod z"] have "2 * x \<le> 2 * round24 x + z"
    unfolding round24_def Let_def z_def [symmetric] div_mult_mod_eq by (simp add: z_def)
  then show ?thesis using big unfolding z_def by linarith
qed

lemma limit_of_less:
  assumes "0 < n" "n < 16777216" "\<not> float_less MAX_LOAD_FACTOR lf"
  shows "limit_of n lf < n"
proof -
  obtain m k where lf: "lf = (m, k)" by (cases lf)
  define L where "L = limit_of n lf"
  have m: "m * 2 ^ 53 \<le> 8917127262193582 * 2 ^ k" using assms(3) by (simp add: lf float_less_def MAX_LOAD_FACTOR_def not_less)
  have "L * 2 ^ k \<le> round24 (n * m)" by (simp add: L_def limit_of_def lf round24_small [OF assms(2)])
  then have "L * 2 ^ k * 16777216 \<le> n * m * 16777217" using round24_le [of "n * m"] by linarith
  then have "L * 2 ^ k * 16777216 * 2 ^ 53 \<le> n * m * 16777217 * 2 ^ 53" by (rule mult_le_mono1)
  also have "\<dots> = n * 16777217 * (m * 2 ^ 53)" by (simp only: ac_simps)
  also have "\<dots> \<le> n * 16777217 * (8917127262193582 * 2 ^ k)" by (rule mult_le_mono2 [OF m])
  finally have "2 ^ k * (L * 16777216 * 2 ^ 53) \<le> 2 ^ k * (n * 16777217 * 8917127262193582)" by (simp only: ac_simps)
  then have "L * 16777216 * 2 ^ 53 \<le> n * 16777217 * 8917127262193582" by simp
  then show ?thesis using assms(1) unfolding L_def by simp
qed

end
