(* ===== verification/StringMap.thy ===== *)
theory StringMap
  imports StringTable
begin

section \<open>String index: the table of new strings is a map\<close>

text \<open>
  Why double hashing over a prime number of elements finds every string: the steps of a string reach
  every element (\<open>spot_onto\<close>), so there is an element that is empty or has the string, and the first
  such element on its way (\<open>home\<close>) is where the string is, or belongs.  \<open>table_ok\<close> is kept by every
  operation of the table, and \<open>view\<close> is the map that it holds.
\<close>

subsection \<open>Open addressing\<close>

type_synonym slots = "(cstr \<times> nat) option list"

definition spot :: "nat \<Rightarrow> cstr \<Rightarrow> nat \<Rightarrow> nat" where
  \<comment> \<open>the \<open>k\<close>-th element that is looked at for a string\<close>
  "spot p s k = (hash0 s mod p + k * (1 + hash1 s mod (p - 1))) mod p"

lemma spot_less: "prime_size p \<Longrightarrow> spot p s k < p"
  by (simp add: spot_def prime_size_def)

lemma prime_sizeD: "prime_size p \<Longrightarrow> 0 < i \<Longrightarrow> i < p \<Longrightarrow> coprime i p"
  by (simp add: prime_size_def)

lemma step_coprime:
  assumes "prime_size p"
  shows "coprime (1 + hash1 s mod (p - 1)) p"
proof -
  have "hash1 s mod (p - 1) < p - 1" using assms by (intro mod_less_divisor) (simp add: prime_size_def)
  then have "0 < 1 + hash1 s mod (p - 1)" "1 + hash1 s mod (p - 1) < p" by simp_all
  then show ?thesis by (rule prime_sizeD [OF assms])
qed

lemma spot_inj:
  assumes "prime_size p" "k < p" "l < p" "spot p s k = spot p s l"
  shows "k = l"
proof -
  have less: False if kl: "k < l" "l < p" "spot p s k = spot p s l" for k l
  proof -
    let ?i = "1 + hash1 s mod (p - 1)"
    have "hash0 s mod p + k * ?i \<le> hash0 s mod p + l * ?i" using kl(1) by (intro add_left_mono mult_le_mono1) simp
    then have "p dvd (hash0 s mod p + l * ?i) - (hash0 s mod p + k * ?i)"
      using kl(3) unfolding spot_def by (metis mod_eq_dvd_iff_nat)
    then have "p dvd (l - k) * ?i" by (simp only: add_diff_cancel_left diff_mult_distrib)
    then have "p dvd l - k" using step_coprime [OF assms(1)] by (metis coprime_commute coprime_dvd_mult_left_iff)
    then show False using kl by (auto dest: dvd_imp_le)
  qed
  show ?thesis using less [of k l] less [of l k] assms by (metis linorder_neqE_nat)
qed

lemma spot_onto:
  assumes "prime_size p" "n < p"
  shows "\<exists>k<p. spot p s k = n"
proof -
  have "inj_on (spot p s) {..<p}" using spot_inj [OF assms(1)] by (auto intro: inj_onI)
  moreover have "spot p s ` {..<p} \<subseteq> {..<p}" using spot_less [OF assms(1)] by auto
  ultimately have "spot p s ` {..<p} = {..<p}" by (intro endo_inj_surj) simp_all
  then show ?thesis using assms(2) by (metis imageE lessThan_iff)
qed

definition fits :: "cstr \<Rightarrow> (cstr \<times> nat) option \<Rightarrow> bool" where
  "fits s x = (case x of None \<Rightarrow> True | Some (t, off) \<Rightarrow> t = s)"

lemma fits_simps [simp]: "fits s None" "fits s (Some (t, off)) = (t = s)"
  by (simp_all add: fits_def)

definition used :: "slots \<Rightarrow> nat" where
  "used tbl = length (filter (\<lambda>x. x \<noteq> None) tbl)"

definition on_way :: "slots \<Rightarrow> cstr \<Rightarrow> nat \<Rightarrow> bool" where
  \<comment> \<open>the element is on the way of the string, and none before it is empty or has the string\<close>
  "on_way tbl s n = (\<exists>k<length tbl. spot (length tbl) s k = n \<and> (\<forall>j<k. \<not> fits s (tbl ! spot (length tbl) s j)))"

definition slots_ok :: "slots \<Rightarrow> bool" where
  "slots_ok tbl = (prime_size (length tbl) \<and> used tbl < length tbl \<and>
     (\<forall>n<length tbl. \<forall>s off. tbl ! n = Some (s, off) \<longrightarrow> is_cstr s \<and> on_way tbl s n))"

definition home :: "slots \<Rightarrow> cstr \<Rightarrow> nat" where
  "home tbl s = spot (length tbl) s (LEAST k. fits s (tbl ! spot (length tbl) s k))"

definition view :: "slots \<Rightarrow> cstr \<Rightarrow> nat option" where
  \<comment> \<open>the map that a table holds\<close>
  "view tbl = map_of (List.map_filter (\<lambda>x. x) tbl)"

lemma empty_slot:
  assumes "used tbl < length tbl"
  shows "\<exists>n<length tbl. tbl ! n = None"
proof (rule ccontr)
  assume "\<not> (\<exists>n<length tbl. tbl ! n = None)"
  then have "\<forall>x\<in>set tbl. x \<noteq> None" by (metis in_set_conv_nth)
  then have "filter (\<lambda>x. x \<noteq> None) tbl = tbl" by (simp add: filter_id_conv)
  then show False using assms by (simp add: used_def)
qed

lemma home_least:
  assumes "slots_ok tbl"
  defines "p \<equiv> length tbl"
  obtains k where "k < p" "home tbl s = spot p s k" "fits s (tbl ! home tbl s)" "\<forall>j<k. \<not> fits s (tbl ! spot p s j)"
proof -
  let ?P = "\<lambda>k. fits s (tbl ! spot p s k)"
  obtain n where n: "n < p" "tbl ! n = None" using empty_slot [of tbl] assms(1) unfolding slots_ok_def p_def by blast
  then obtain k where k: "k < p" "spot p s k = n" using spot_onto assms(1) unfolding slots_ok_def p_def by blast
  then have Pk: "?P k" using n by simp
  define l where "l = (LEAST k. ?P k)"
  have l: "l \<le> k" "?P l" "\<forall>j<l. \<not> ?P j" unfolding l_def using Pk by (auto intro: Least_le LeastI dest: not_less_Least)
  have h: "home tbl s = spot p s l" by (simp add: home_def p_def l_def)
  show ?thesis by (rule that [of l]) (use l k(1) in \<open>simp_all only: h le_less_trans [of l k p]\<close>)
qed

lemma home_on_way: "slots_ok tbl \<Longrightarrow> on_way tbl s (home tbl s)"
  by (rule home_least [of tbl s]) (auto simp: on_way_def)

lemma home_less: "slots_ok tbl \<Longrightarrow> home tbl s < length tbl"
  using home_least [of tbl s] spot_less unfolding slots_ok_def by metis

lemma on_way_home:
  assumes "slots_ok tbl" "on_way tbl s n" "fits s (tbl ! n)"
  shows "n = home tbl s"
proof -
  obtain k where k: "k < length tbl" "spot (length tbl) s k = n" "\<forall>j<k. \<not> fits s (tbl ! spot (length tbl) s j)"
    using assms(2) unfolding on_way_def by blast
  obtain l where l: "home tbl s = spot (length tbl) s l" "fits s (tbl ! home tbl s)" "\<forall>j<l. \<not> fits s (tbl ! spot (length tbl) s j)"
    using home_least [OF assms(1)] by metis
  have "k = l" using k l assms(3) by (metis linorder_neqE_nat)
  then show ?thesis using k(2) l(1) by simp
qed

lemma at_home: "slots_ok tbl \<Longrightarrow> n < length tbl \<Longrightarrow> tbl ! n = Some (s, off) \<Longrightarrow> n = home tbl s"
  unfolding slots_ok_def using on_way_home [of tbl s n] by (auto simp: slots_ok_def)

lemma entry_iff: "(s, off) \<in> set (List.map_filter (\<lambda>x. x) tbl) \<longleftrightarrow> Some (s, off) \<in> set tbl"
  by (force simp: List.map_filter_def)

lemma view_iff:
  assumes "slots_ok tbl"
  shows "view tbl s = Some off \<longleftrightarrow> Some (s, off) \<in> set tbl"
proof
  assume "view tbl s = Some off"
  then show "Some (s, off) \<in> set tbl" unfolding view_def by (auto dest: map_of_SomeD simp: entry_iff)
next
  assume a: "Some (s, off) \<in> set tbl"
  then obtain off' where o: "view tbl s = Some off'" unfolding view_def by (metis entry_iff weak_map_of_SomeI)
  then have "Some (s, off') \<in> set tbl" unfolding view_def by (auto dest: map_of_SomeD simp: entry_iff)
  then have "tbl ! home tbl s = Some (s, off')" using at_home [OF assms] by (metis in_set_conv_nth)
  moreover have "tbl ! home tbl s = Some (s, off)" using at_home [OF assms] a by (metis in_set_conv_nth)
  ultimately show "view tbl s = Some off" using o by simp
qed

lemma view_home:
  assumes "slots_ok tbl"
  shows "view tbl s = map_option snd (tbl ! home tbl s)"
proof (cases "tbl ! home tbl s")
  case None
  then have "Some (s, off) \<notin> set tbl" for off using at_home [OF assms] by (metis in_set_conv_nth option.distinct(1))
  then show ?thesis using view_iff [OF assms] None by (metis not_None_eq option.map(1))
next
  case (Some x)
  moreover have "fits s (tbl ! home tbl s)" using home_least [OF assms] by metis
  ultimately have "tbl ! home tbl s = Some (s, snd x)" by (cases x) simp
  moreover have "tbl ! home tbl s \<in> set tbl" using home_less [OF assms] by simp
  ultimately show ?thesis using view_iff [OF assms] Some by (metis option.map(2))
qed

lemma used_update: "used (tbl[n := x]) \<le> Suc (used tbl)"
  unfolding used_def
proof (induction tbl arbitrary: n)
  case (Cons y tbl)
  then show ?case by (cases n) (auto simp: le_SucI)
qed simp

lemma slots_ok_update:
  assumes ok: "slots_ok tbl" and s: "is_cstr s" and room: "Suc (used tbl) < length tbl"
  shows "slots_ok (tbl[home tbl s := Some (s, off)])" and "view (tbl[home tbl s := Some (s, off)]) = (view tbl)(s \<mapsto> off)"
proof -
  let ?h = "home tbl s" and ?p = "length tbl"
  let ?t = "tbl[?h := Some (s, off)]"
  have h: "?h < ?p" "fits s (tbl ! ?h)" by (rule home_less [OF ok]) (metis home_least [OF ok])
  have way: "is_cstr u \<and> on_way ?t u n" if n: "n < ?p" "?t ! n = Some (u, off')" for n u off'
  proof (cases "n = ?h")
    case True
    then have u: "u = s" using n h by simp
    obtain k where k: "k < ?p" "?h = spot ?p s k" "\<forall>j<k. \<not> fits s (tbl ! spot ?p s j)" using home_least [OF ok] by metis
    then have "\<forall>j<k. ?t ! spot ?p s j = tbl ! spot ?p s j" using h(2) by (metis nth_list_update_neq)
    then have "on_way ?t s ?h" unfolding on_way_def using k by (intro exI [of _ k]) simp
    then show ?thesis using True u s by simp
  next
    case False
    then have tn: "tbl ! n = Some (u, off')" using n(2) by simp
    then obtain k where k: "is_cstr u" "k < ?p" "spot ?p u k = n" "\<forall>j<k. \<not> fits u (tbl ! spot ?p u j)"
      using ok n(1) unfolding slots_ok_def on_way_def by blast
    have "\<not> fits u (?t ! spot ?p u j)" if "j < k" for j
    proof (cases "spot ?p u j = ?h")
      case True
      have nf: "\<not> fits u (tbl ! spot ?p u j)" using k(4) that by simp
      then obtain w a where "tbl ! ?h = Some (w, a)" unfolding True by (cases "tbl ! ?h") auto
      then have "u \<noteq> s" using nf h(2) unfolding True by auto
      then show ?thesis using True h(1) by auto
    qed (use k(4) that in simp)
    then have "on_way ?t u n" unfolding on_way_def using k by (intro exI [of _ k]) simp
    then show ?thesis using k(1) by simp
  qed
  moreover have "used ?t < ?p" using used_update [of tbl ?h "Some (s, off)"] room by simp
  ultimately show ok': "slots_ok ?t" using ok unfolding slots_ok_def by simp
  have "view ?t u = ((view tbl)(s \<mapsto> off)) u" for u
  proof -
    have set_iff: "Some (u, a) \<in> set ?t \<longleftrightarrow> (if u = s then a = off else Some (u, a) \<in> set tbl)" for a
    proof (cases "u = s")
      case True
      have "a = off" if "n < ?p" "?t ! n = Some (s, a)" for n
        using that at_home [OF ok that(1), of s a] h(1) by (cases "n = ?h") auto
      moreover have "?t ! ?h = Some (s, off)" "?h < length ?t" using h(1) by simp_all
      ultimately show ?thesis using True by (metis in_set_conv_nth length_list_update)
    next
      case False
      have "n \<noteq> ?h" if "?t ! n = Some (u, a) \<or> tbl ! n = Some (u, a)" for n using that h False by auto
      then have "?t ! n = Some (u, a) \<longleftrightarrow> tbl ! n = Some (u, a)" for n by (metis nth_list_update_neq)
      then show ?thesis using False by (simp add: in_set_conv_nth)
    qed
    have "view ?t u = Some a \<longleftrightarrow> ((view tbl)(s \<mapsto> off)) u = Some a" for a
      using view_iff [OF ok', of u a] view_iff [OF ok, of u a] set_iff by auto
    then show ?thesis by (metis not_None_eq)
  qed
  then show "view ?t = (view tbl)(s \<mapsto> off)" by blast
qed

subsection \<open>The table in memory\<close>

definition slot_of :: "str_buf \<Rightarrow> hash_elt \<Rightarrow> (cstr \<times> nat) option" where
  "slot_of b e = map_option (\<lambda>p. (takeWhile (\<lambda>c. c \<noteq> NUL) p, he_off e)) (string_at b (he_str e))"

definition slots :: "hash_table \<Rightarrow> slots" where
  "slots h = map (slot_of (ht_sbuf h)) (ht_elt h)"

definition bytes :: "slots \<Rightarrow> nat" where
  \<comment> \<open>what the strings of a table need in a buffer\<close>
  "bytes tbl = (\<Sum>x\<leftarrow>tbl. case x of None \<Rightarrow> 0 | Some (s, off) \<Rightarrow> Suc (length s))"

definition elt_ok :: "str_buf \<Rightarrow> hash_elt \<Rightarrow> bool" where
  "elt_ok b e = (he_str e = NO_STRING \<and> he_off e = 0 \<or> he_str e < length (sb_str b) \<and> NUL \<in> set (drop (he_str e) (sb_str b)))"

definition buf_ok :: "str_buf \<Rightarrow> bool" where
  "buf_ok b = (length (sb_str b) \<le> sb_len b \<and> 0 < sb_len b \<and> sb_len b < SIZE_LIMIT)"

definition MAX_IDX :: nat where
  \<comment> \<open>the greatest size considered here, of more than a million elements\<close>
  "MAX_IDX = 20"

definition table_ok :: "hash_table \<Rightarrow> bool" where
  "table_ok h = (INIT_SZ_IDX \<le> ht_szidx h \<and> ht_szidx h \<le> MAX_IDX \<and> ht_nelts h = primes ! ht_szidx h \<and> length (ht_elt h) = ht_nelts h \<and>
     ht_lim h < ht_nelts h \<and> buf_ok (ht_sbuf h) \<and> list_all (elt_ok (ht_sbuf h)) (ht_elt h) \<and> slots_ok (slots h) \<and>
     used (slots h) \<le> ht_inuse h \<and> bytes (slots h) \<le> length (sb_str (ht_sbuf h)))"

lemma slots_length [simp]: "length (slots h) = length (ht_elt h)"
  by (simp add: slots_def)

lemma slots_nth: "n < length (ht_elt h) \<Longrightarrow> slots h ! n = slot_of (ht_sbuf h) (ht_elt h ! n)"
  by (simp add: slots_def)

lemma elt_empty:
  assumes "elt_ok b e" "buf_ok b"
  shows "string_at b (he_str e) = None \<longleftrightarrow> he_str e = NO_STRING" "string_at b (he_str e) = None \<Longrightarrow> he_off e = 0"
  using assms by (auto simp: elt_ok_def buf_ok_def string_at_def NO_STRING_def SIZE_LIMIT_def split: if_splits)

lemma elt_string:
  assumes "elt_ok b e" "string_at b (he_str e) = Some p" "buf_ok b"
  shows "read_string p = Inr (takeWhile (\<lambda>c. c \<noteq> NUL) p)"
  using assms by (auto simp: elt_ok_def buf_ok_def string_at_def read_string_def NO_STRING_def SIZE_LIMIT_def split: if_splits)

lemma probe_finds:
  assumes "buf_ok (ht_sbuf h)" "list_all (elt_ok (ht_sbuf h)) (ht_elt h)" "length (ht_elt h) = ht_nelts h" "0 < ht_nelts h"
  shows "k < fuel \<Longrightarrow> \<forall>j<k. \<not> fits s (slots h ! ((n + j * i) mod ht_nelts h)) \<Longrightarrow> fits s (slots h ! ((n + k * i) mod ht_nelts h)) \<Longrightarrow>
    probe fuel h s (n mod ht_nelts h) i = Inr ((n + k * i) mod ht_nelts h)"
proof (induction k arbitrary: fuel n)
  case 0
  then obtain fuel' where f: "fuel = Suc fuel'" by (cases fuel) auto
  let ?n = "n mod ht_nelts h"
  have n: "?n < length (ht_elt h)" using assms(3,4) by simp
  then have e: "elt_ok (ht_sbuf h) (ht_elt h ! ?n)" using assms(2) by (simp add: list_all_length)
  show ?case using 0(3) elt_string [OF e _ assms(1)] slots_nth [OF n] unfolding f
    by (auto simp: slot_of_def split: option.splits)
next
  case (Suc k)
  then obtain fuel' where f: "fuel = Suc fuel'" by (cases fuel) auto
  let ?n = "n mod ht_nelts h"
  have n: "?n < length (ht_elt h)" using assms(3,4) by simp
  then have e: "elt_ok (ht_sbuf h) (ht_elt h ! ?n)" using assms(2) by (simp add: list_all_length)
  have "\<not> fits s (slots h ! ?n)" using Suc.prems(2) by force
  then obtain p where p: "string_at (ht_sbuf h) (he_str (ht_elt h ! ?n)) = Some p" "takeWhile (\<lambda>c. c \<noteq> NUL) p \<noteq> s"
    using slots_nth [OF n] by (auto simp: slot_of_def fits_def split: option.splits)
  have shift: "(n + i + j * i) mod ht_nelts h = (n + Suc j * i) mod ht_nelts h" for j by (simp add: add.assoc)
  have "\<not> fits s (slots h ! ((n + i + j * i) mod ht_nelts h))" if "j < k" for j
    unfolding shift using Suc.prems(2) [rule_format, of "Suc j"] that by simp
  then have "probe fuel' h s ((n + i) mod ht_nelts h) i = Inr ((n + Suc k * i) mod ht_nelts h)"
    using Suc.IH [of fuel' "n + i"] Suc.prems(1,3) unfolding shift f by simp
  then show ?case unfolding f by (simp add: p elt_string [OF e p(1) assms(1)] mod_add_left_eq)
qed

lemma element_for_home:
  assumes "table_ok h"
  shows "element_for h s = Inr (home (slots h) s)"
proof -
  have t: "buf_ok (ht_sbuf h)" "list_all (elt_ok (ht_sbuf h)) (ht_elt h)" "length (ht_elt h) = ht_nelts h" "slots_ok (slots h)"
    using assms by (simp_all add: table_ok_def)
  then have pos: "0 < ht_nelts h" by (simp add: slots_ok_def prime_size_def)
  obtain k where k: "k < ht_nelts h" "home (slots h) s = spot (ht_nelts h) s k" "fits s (slots h ! home (slots h) s)"
    "\<forall>j<k. \<not> fits s (slots h ! spot (ht_nelts h) s j)"
    using home_least [OF t(4), of s] t(3) by auto
  from probe_finds [OF t(1-3) pos k(1), of s "hash0 s mod ht_nelts h" "1 + hash1 s mod (ht_nelts h - 1)"] k(2-4)
  show ?thesis by (simp add: element_for_def spot_def)
qed

lemma search_view:
  assumes "table_ok h"
  shows "search_hash_table h s = Inr (case view (slots h) s of None \<Rightarrow> (0, False) | Some off \<Rightarrow> (off, True))"
proof -
  have t: "buf_ok (ht_sbuf h)" "list_all (elt_ok (ht_sbuf h)) (ht_elt h)" "length (ht_elt h) = ht_nelts h" "slots_ok (slots h)"
    using assms by (simp_all add: table_ok_def)
  let ?n = "home (slots h) s"
  have n: "?n < length (ht_elt h)" using home_less [OF t(4)] by simp
  then have e: "elt_ok (ht_sbuf h) (ht_elt h ! ?n)" using t(2) by (simp add: list_all_length)
  show ?thesis unfolding search_hash_table_def element_for_home [OF assms] res_bind_simps view_home [OF t(4)] slots_nth [OF n]
    using elt_empty(2) [OF e t(1)] by (auto simp: slot_of_def split: option.splits)
qed

lemma enlarge_ok:
  assumes "n + l < 2147483648"
  shows "len < SIZE_LIMIT \<Longrightarrow> 2147483648 < len * 2 ^ k \<Longrightarrow> \<exists>len'. enlarge (Suc k) l n len = Inr len' \<and> len \<le> len' \<and> len' < SIZE_LIMIT \<and> n + l < len'"
proof (induction k arbitrary: len)
  case 0
  then show ?case using assms by (intro exI [of _ len]) auto
next
  case (Suc k)
  show ?case
  proof (cases "len - n \<le> l")
    case True
    then have "2 * len < SIZE_LIMIT" using assms by (simp add: SIZE_LIMIT_def)
    then obtain len' where "enlarge (Suc k) l n (2 * len) = Inr len'" "2 * len \<le> len'" "len' < SIZE_LIMIT" "n + l < len'"
      using Suc.IH [of "2 * len"] Suc.prems(2) by (auto simp: ac_simps)
    then show ?thesis using True \<open>2 * len < SIZE_LIMIT\<close> by (subst enlarge.simps) auto
  next
    case False
    then show ?thesis using Suc.prems(1) by (intro exI [of _ len]) (subst enlarge.simps, auto)
  qed
qed

lemma append_ok:
  assumes "buf_ok b" "length (sb_str b) + length s < 2147483648"
  obtains len where "append_str_buf s b = Inr (length (sb_str b), \<lparr>sb_str = sb_str b @ s @ [NUL], sb_len = len\<rparr>)"
    "sb_len b \<le> len" "buf_ok \<lparr>sb_str = sb_str b @ s @ [NUL], sb_len = len\<rparr>"
proof -
  have "2147483648 < sb_len b * 2 ^ 32" using assms(1) by (simp add: buf_ok_def)
  then obtain len where "enlarge 33 (length s) (length (sb_str b)) (sb_len b) = Inr len" "sb_len b \<le> len" "len < SIZE_LIMIT"
      "length (sb_str b) + length s < len"
    using enlarge_ok [OF assms(2), of "sb_len b" 32] assms(1) by (auto simp: buf_ok_def simp del: enlarge.simps)
  then show ?thesis using that [of len] assms(1) by (simp add: append_str_buf_def buf_ok_def del: enlarge.simps)
qed

lemma slot_of_grow:
  assumes "elt_ok b e" "buf_ok b" "buf_ok \<lparr>sb_str = sb_str b @ x, sb_len = len\<rparr>" "sb_len b \<le> len"
  shows "slot_of \<lparr>sb_str = sb_str b @ x, sb_len = len\<rparr> e = slot_of b e" "elt_ok \<lparr>sb_str = sb_str b @ x, sb_len = len\<rparr> e"
  using assms
  by (auto simp: elt_ok_def buf_ok_def slot_of_def string_at_def NO_STRING_def SIZE_LIMIT_def takeWhile_append1)

lemma bytes_update: "n < length tbl \<Longrightarrow> fits s (tbl ! n) \<Longrightarrow> bytes (tbl[n := Some (s, off)]) \<le> bytes tbl + Suc (length s)"
proof (induction tbl arbitrary: n)
  case (Cons x tbl)
  then show ?case by (cases n) (auto simp: bytes_def split: option.splits)
qed simp

lemma put_element_ok:
  assumes ok: "table_ok h" and s: "is_cstr s" and room: "ht_inuse h < ht_lim h" "length (sb_str (ht_sbuf h)) + length s < 2147483648"
  obtains h' where "put_element s off h = Inr h'" "table_ok h'" "view (slots h') = (view (slots h))(s \<mapsto> off)"
    "ht_szidx h' = ht_szidx h" "ht_lim h' = ht_lim h" "ht_inuse h' = Suc (ht_inuse h)"
    "length (sb_str (ht_sbuf h')) = length (sb_str (ht_sbuf h)) + Suc (length s)"
proof -
  let ?b = "ht_sbuf h" and ?n = "home (slots h) s"
  have t: "buf_ok ?b" "list_all (elt_ok ?b) (ht_elt h)" "length (ht_elt h) = ht_nelts h" "slots_ok (slots h)" "ht_lim h < ht_nelts h"
    "used (slots h) \<le> ht_inuse h" "bytes (slots h) \<le> length (sb_str ?b)"
    using ok by (simp_all add: table_ok_def)
  have n: "?n < length (ht_elt h)" "fits s (slots h ! ?n)" using home_less [OF t(4)] home_least [OF t(4)] by (simp, metis)
  obtain len where a: "append_str_buf s ?b = Inr (length (sb_str ?b), \<lparr>sb_str = sb_str ?b @ s @ [NUL], sb_len = len\<rparr>)"
    "sb_len ?b \<le> len" "buf_ok \<lparr>sb_str = sb_str ?b @ s @ [NUL], sb_len = len\<rparr>"
    using append_ok [OF t(1) room(2)] .
  let ?b' = "\<lparr>sb_str = sb_str ?b @ s @ [NUL], sb_len = len\<rparr>" and ?e = "\<lparr>he_str = length (sb_str ?b), he_off = off\<rparr>"
  let ?h = "h\<lparr>ht_elt := (ht_elt h)[?n := ?e], ht_sbuf := ?b', ht_inuse := ht_inuse h + 1\<rparr>"
  have put: "put_element s off h = Inr ?h" by (simp add: put_element_def element_for_home [OF ok] a(1))
  have grow: "slot_of ?b' e = slot_of ?b e" "elt_ok ?b' e" if "e \<in> set (ht_elt h)" for e
    using slot_of_grow [OF _ t(1) a(3,2), of e] t(2) that by (simp_all add: list_all_iff)
  have e: "slot_of ?b' ?e = Some (s, off)" "elt_ok ?b' ?e" using s a(3)
    by (auto simp: slot_of_def string_at_def elt_ok_def buf_ok_def is_cstr_def takeWhile_tail)
  have sl: "slots ?h = (slots h)[?n := Some (s, off)]"
    using grow(1) e(1) by (simp add: slots_def map_update cong: map_cong)
  have "list_all (elt_ok ?b') ((ht_elt h)[?n := ?e])" using grow(2) e(2) unfolding list_all_iff by (auto dest: set_update_subset_insert [THEN subsetD])
  moreover have "slots_ok (slots ?h)" "view (slots ?h) = (view (slots h))(s \<mapsto> off)"
    unfolding sl using slots_ok_update [OF t(4) s, of off] t(3,5,6) room(1) by simp_all
  moreover have "used (slots ?h) \<le> Suc (ht_inuse h)" unfolding sl using used_update [of "slots h" ?n "Some (s, off)"] t(6) by linarith
  moreover have "bytes (slots ?h) \<le> length (sb_str ?b')" unfolding sl using bytes_update [of ?n "slots h" s off] n t(7) by simp
  ultimately have "table_ok ?h" using ok a(3) by (simp add: table_ok_def)
  then show ?thesis using that [OF put] \<open>view (slots ?h) = (view (slots h))(s \<mapsto> off)\<close> by simp
qed

subsection \<open>Creating and expanding\<close>

lemma sizes: "9 \<le> i \<Longrightarrow> i \<le> 20 \<Longrightarrow> prime_size (primes ! i) \<and> primes ! i < 16777216 \<and> i < length primes"
proof -
  assume "9 \<le> i" "i \<le> 20"
  then have "i = 9 \<or> i = 10 \<or> i = 11 \<or> i = 12 \<or> i = 13 \<or> i = 14 \<or> i = 15 \<or> i = 16 \<or> i = 17 \<or> i = 18 \<or> i = 19 \<or> i = 20" by arith
  then show ?thesis using primes_prime by (auto simp: primes_def)
qed

lemma limit_of_default:
  assumes "n < 16777216" "a * 281474976710656 \<le> n * 15099494 * 16777215"
  shows "a \<le> limit_of n DFLT_LOAD_FACTOR"
proof (rule ccontr)
  let ?r = "round24 (n * 15099494)"
  assume "\<not> a \<le> limit_of n DFLT_LOAD_FACTOR"
  then have "Suc (?r div 16777216) \<le> a" by (simp add: limit_of_def DFLT_LOAD_FACTOR_def round24_small [OF assms(1)])
  moreover have "?r < Suc (?r div 16777216) * 16777216" by (simp add: dividend_less_div_times)
  ultimately have "?r < a * 16777216" by (meson less_le_trans mult_le_mono1)
  then show False using round24_ge [of "n * 15099494"] assms(2) by simp
qed

lemma default_limit: "9 \<le> i \<Longrightarrow> i < 20 \<Longrightarrow> primes ! i \<le> limit_of (primes ! Suc i) DFLT_LOAD_FACTOR"
proof -
  assume "9 \<le> i" "i < 20"
  then have "i = 9 \<or> i = 10 \<or> i = 11 \<or> i = 12 \<or> i = 13 \<or> i = 14 \<or> i = 15 \<or> i = 16 \<or> i = 17 \<or> i = 18 \<or> i = 19" by arith
  then show ?thesis by (intro limit_of_default) (auto simp: primes_def)
qed

definition MOST_STRINGS :: nat where
  \<comment> \<open>what fits into the table of the greatest size considered\<close>
  "MOST_STRINGS = 943000"

lemma greatest_limit: "MOST_STRINGS \<le> limit_of (primes ! 20) DFLT_LOAD_FACTOR"
  by (rule limit_of_default) (simp_all add: primes_def MOST_STRINGS_def)

lemma default_factor_ok: "\<not> float_less DFLT_LOAD_FACTOR MIN_LOAD_FACTOR" "\<not> float_less MAX_LOAD_FACTOR DFLT_LOAD_FACTOR"
  by (simp_all add: float_less_def DFLT_LOAD_FACTOR_def MIN_LOAD_FACTOR_def MAX_LOAD_FACTOR_def)

lemma used_replicate: "used (replicate n None) = 0" "bytes (replicate n None) = 0" "List.map_filter (\<lambda>x. x) (replicate n None) = []"
  by (simp_all add: used_def bytes_def List.map_filter_def sum_list_replicate)

lemma create_ok:
  assumes "9 \<le> i" "i \<le> 20"
  obtains h where "create_hash_table i = Inr h" "table_ok h" "view (slots h) = Map.empty" "ht_szidx h = i" "ht_inuse h = 0"
    "ht_lim h = limit_of (primes ! i) DFLT_LOAD_FACTOR" "length (sb_str (ht_sbuf h)) = 0"
proof -
  let ?p = "primes ! i" and ?e = "\<lparr>he_str = NO_STRING, he_off = 0\<rparr>"
  have p: "prime_size ?p" "?p < 16777216" "i < length primes" using sizes [OF assms] by simp_all
  then have small: "\<not> SIZE_LIMIT \<le> 8 * ?p" "0 < ?p" by (simp_all add: SIZE_LIMIT_def prime_size_def)
  let ?h = "\<lparr>ht_szidx = i, ht_nelts = ?p, ht_inuse = 0, ht_lim = limit_of ?p DFLT_LOAD_FACTOR, ht_elt = replicate ?p ?e, ht_sbuf = new_str_buf\<rparr>"
  have c: "create_hash_table i = Inr ?h"
    using p(3) small(1) default_factor_ok by (simp add: create_hash_table_def set_load_factor_def)
  have b: "buf_ok new_str_buf" "elt_ok new_str_buf ?e" "slot_of new_str_buf ?e = None"
    by (simp_all add: buf_ok_def new_str_buf_def INIT_SBUF_SZ_def SIZE_LIMIT_def elt_ok_def slot_of_def string_at_def NO_STRING_def)
  have sl: "slots ?h = replicate ?p None" by (simp add: slots_def b(3))
  have "slots_ok (slots ?h)" unfolding sl slots_ok_def using p(1) small(2) by (simp add: used_replicate)
  moreover have "list_all (elt_ok new_str_buf) (replicate ?p ?e)" using b(2) by (simp add: list_all_length)
  moreover have "limit_of ?p DFLT_LOAD_FACTOR < ?p" by (rule limit_of_less [OF small(2) p(2) default_factor_ok(2)])
  ultimately have "table_ok ?h" using b(1) assms sl by (simp add: table_ok_def INIT_SZ_IDX_def MAX_IDX_def used_replicate)
  moreover have "view (slots ?h) = Map.empty" by (simp add: sl view_def used_replicate)
  ultimately show ?thesis using that [OF c] by (simp add: new_str_buf_def)
qed

lemma insert_within_put: "ht_inuse h < ht_lim h \<Longrightarrow> insert_within d s off h = put_element s off h"
  by (cases d) simp_all

lemma used_Cons: "used (x # tbl) = (if x = None then 0 else 1) + used tbl"
  by (simp add: used_def)

lemma bytes_Cons: "bytes (x # tbl) = (case x of None \<Rightarrow> 0 | Some (s, off) \<Rightarrow> Suc (length s)) + bytes tbl"
  by (simp add: bytes_def)

lemma reinsert_ok:
  assumes "buf_ok b" "\<And>s off. Some (s, off) \<in> set tbl \<Longrightarrow> f s = Some off"
  shows "list_all (elt_ok b) es \<Longrightarrow> table_ok nh \<Longrightarrow> ht_inuse nh + used (map (slot_of b) es) \<le> ht_lim nh \<Longrightarrow> set (map (slot_of b) es) \<subseteq> set tbl \<Longrightarrow>
    length (sb_str (ht_sbuf nh)) + bytes (map (slot_of b) es) \<le> 2147483648 \<Longrightarrow>
    (\<And>s off. Some (s, off) \<in> set (map (slot_of b) es) \<Longrightarrow> is_cstr s) \<Longrightarrow>
    \<exists>h. reinsert (insert_within d) b es nh = Inr h \<and> table_ok h \<and> ht_szidx h = ht_szidx nh \<and> ht_lim h = ht_lim nh \<and>
      ht_inuse h = ht_inuse nh + used (map (slot_of b) es) \<and> length (sb_str (ht_sbuf h)) = length (sb_str (ht_sbuf nh)) + bytes (map (slot_of b) es) \<and>
      (\<forall>s. view (slots h) s = (if \<exists>off. Some (s, off) \<in> set (map (slot_of b) es) then f s else view (slots nh) s))"
proof (induction es arbitrary: nh)
  case Nil
  then show ?case by (simp add: used_def bytes_def)
next
  case (Cons e es)
  show ?case
  proof (cases "string_at b (he_str e)")
    case None
    then have n: "slot_of b e = None" by (simp add: slot_of_def)
    have c: "(\<exists>off. Some (s, off) \<in> set (map (slot_of b) (e # es))) \<longleftrightarrow> (\<exists>off. Some (s, off) \<in> set (map (slot_of b) es))" for s using n by auto
    show ?thesis using Cons.IH [of nh] Cons.prems unfolding c by (simp add: n None used_Cons bytes_Cons)
  next
    case (Some p)
    let ?s = "takeWhile (\<lambda>c. c \<noteq> NUL) p"
    have e: "elt_ok b e" using Cons.prems(1) by simp
    have sl: "slot_of b e = Some (?s, he_off e)" using Some by (simp add: slot_of_def)
    then have fs: "f ?s = Some (he_off e)" "is_cstr ?s" using assms(2) Cons.prems(4,6) by (auto simp: image_iff)
    have "ht_inuse nh < ht_lim nh" "length (sb_str (ht_sbuf nh)) + length ?s < 2147483648"
      using Cons.prems(3,5) by (simp_all add: used_Cons bytes_Cons sl)
    then obtain h1 where h1: "put_element ?s (he_off e) nh = Inr h1" "table_ok h1" "view (slots h1) = (view (slots nh))(?s \<mapsto> he_off e)"
        "ht_szidx h1 = ht_szidx nh" "ht_lim h1 = ht_lim nh" "ht_inuse h1 = Suc (ht_inuse nh)"
        "length (sb_str (ht_sbuf h1)) = length (sb_str (ht_sbuf nh)) + Suc (length ?s)" "ht_inuse nh < ht_lim nh"
      using put_element_ok [OF Cons.prems(2) fs(2)] by metis
    have "\<exists>h. reinsert (insert_within d) b es h1 = Inr h \<and> table_ok h \<and> ht_szidx h = ht_szidx h1 \<and> ht_lim h = ht_lim h1 \<and>
      ht_inuse h = ht_inuse h1 + used (map (slot_of b) es) \<and> length (sb_str (ht_sbuf h)) = length (sb_str (ht_sbuf h1)) + bytes (map (slot_of b) es) \<and>
      (\<forall>s. view (slots h) s = (if \<exists>off. Some (s, off) \<in> set (map (slot_of b) es) then f s else view (slots h1) s))"
    proof (rule Cons.IH)
      show "is_cstr s" if "Some (s, off) \<in> set (map (slot_of b) es)" for s off using Cons.prems(6) [of s off] that by simp
    qed (use Cons.prems(1-5) h1 in \<open>simp_all add: used_Cons bytes_Cons sl\<close>)
    then obtain h where h: "reinsert (insert_within d) b es h1 = Inr h" "table_ok h" "ht_szidx h = ht_szidx h1" "ht_lim h = ht_lim h1"
      "ht_inuse h = ht_inuse h1 + used (map (slot_of b) es)" "length (sb_str (ht_sbuf h)) = length (sb_str (ht_sbuf h1)) + bytes (map (slot_of b) es)"
      "\<forall>s. view (slots h) s = (if \<exists>off. Some (s, off) \<in> set (map (slot_of b) es) then f s else view (slots h1) s)" by blast
    have "view (slots h) s = (if \<exists>off. Some (s, off) \<in> set (map (slot_of b) (e # es)) then f s else view (slots nh) s)" for s
      using h(7) h1(3) fs(1) sl by auto
    moreover have "reinsert (insert_within d) b (e # es) nh = Inr h"
      using h(1) h1(1) by (simp add: Some elt_string [OF e Some assms(1)] insert_within_put [OF h1(8)])
    ultimately show ?thesis using h(2-6) h1(4-7) by (intro exI [of _ h]) (simp add: used_Cons bytes_Cons sl)
  qed
qed

lemma expand_ok:
  assumes ok: "table_ok h" and i: "ht_szidx h < 20" and b: "length (sb_str (ht_sbuf h)) \<le> 2147483648"
  obtains nh where "expand_hash_table (insert_within d) h = Inr nh" "table_ok nh" "view (slots nh) = view (slots h)"
    "ht_szidx nh = Suc (ht_szidx h)" "ht_lim nh = limit_of (primes ! Suc (ht_szidx h)) DFLT_LOAD_FACTOR" "ht_inuse nh = used (slots h)"
    "length (sb_str (ht_sbuf nh)) \<le> length (sb_str (ht_sbuf h))" "used (slots h) < ht_lim nh"
proof -
  have t: "9 \<le> ht_szidx h" "buf_ok (ht_sbuf h)" "list_all (elt_ok (ht_sbuf h)) (ht_elt h)" "length (ht_elt h) = ht_nelts h" "slots_ok (slots h)"
    "ht_nelts h = primes ! ht_szidx h" "bytes (slots h) \<le> length (sb_str (ht_sbuf h))"
    using ok by (simp_all add: table_ok_def INIT_SZ_IDX_def)
  have r: "9 \<le> Suc (ht_szidx h)" "Suc (ht_szidx h) \<le> 20" using t(1) i by simp_all
  obtain h0 where h0: "create_hash_table (Suc (ht_szidx h)) = Inr h0" "table_ok h0" "view (slots h0) = Map.empty" "ht_szidx h0 = Suc (ht_szidx h)"
    "ht_inuse h0 = 0" "ht_lim h0 = limit_of (primes ! Suc (ht_szidx h)) DFLT_LOAD_FACTOR" "length (sb_str (ht_sbuf h0)) = 0"
    using create_ok [OF r] .
  have "used (slots h) < primes ! ht_szidx h" using t(4,5,6) by (simp add: slots_ok_def)
  then have u: "used (slots h) < ht_lim h0" using default_limit [OF t(1) i] unfolding h0(6) by linarith
  let ?f = "\<lambda>s. view (slots h) s"
  have f: "?f s = Some off" if "Some (s, off) \<in> set (slots h)" for s off using view_iff [OF t(5)] that by blast
  have cs: "is_cstr s" if "Some (s, off) \<in> set (slots h)" for s off
    using that t(5) by (auto simp: slots_ok_def in_set_conv_nth)
  have sl: "map (slot_of (ht_sbuf h)) (ht_elt h) = slots h" by (simp add: slots_def)
  from reinsert_ok [where d = d, OF t(2) f t(3) h0(2), unfolded sl] h0(5,7) u cs b t(7)
  obtain nh where nh: "reinsert (insert_within d) (ht_sbuf h) (ht_elt h) h0 = Inr nh" "table_ok nh" "ht_szidx nh = ht_szidx h0" "ht_lim nh = ht_lim h0"
    "ht_inuse nh = used (slots h)" "length (sb_str (ht_sbuf nh)) = bytes (slots h)"
    "\<forall>s. view (slots nh) s = (if \<exists>off. Some (s, off) \<in> set (slots h) then ?f s else view (slots h0) s)"
    by fastforce
  have "view (slots nh) s = view (slots h) s" for s
    using nh(7) h0(3) view_iff [OF t(5), of s] by (cases "view (slots h) s") auto
  then have "view (slots nh) = view (slots h)" by blast
  then show ?thesis using that [OF _ nh(2)] nh(1,3-6) h0(1,4,6) t(7) u by (simp add: expand_hash_table_def)
qed

definition has_room :: "nat \<Rightarrow> nat \<Rightarrow> hash_table \<Rightarrow> bool" where
  \<comment> \<open>a table that takes \<open>n\<close> more strings of \<open>b\<close> bytes, with their nuls, altogether\<close>
  "has_room n b h = (table_ok h \<and> ht_inuse h + n \<le> MOST_STRINGS \<and> length (sb_str (ht_sbuf h)) + b \<le> 2147483648 \<and>
     (ht_szidx h = MAX_IDX \<longrightarrow> MOST_STRINGS \<le> ht_lim h))"

lemma insert_ok:
  assumes "has_room (Suc n) (Suc (length s) + b) h" "is_cstr s"
  obtains h' where "insert_hash_table s off h = Inr h'" "has_room n b h'" "view (slots h') = (view (slots h))(s \<mapsto> off)"
proof -
  have r: "table_ok h" "Suc (ht_inuse h + n) \<le> MOST_STRINGS" "length (sb_str (ht_sbuf h)) + length s + b < 2147483648"
    "ht_szidx h = 20 \<longrightarrow> MOST_STRINGS \<le> ht_lim h"
    using assms(1) by (simp_all add: has_room_def MAX_IDX_def)
  have t: "ht_szidx h \<le> 20" "used (slots h) \<le> ht_inuse h" using r(1) by (simp_all add: table_ok_def MAX_IDX_def)
  show ?thesis
  proof (cases "ht_lim h \<le> ht_inuse h")
    case False
    then have l: "ht_inuse h < ht_lim h" "length (sb_str (ht_sbuf h)) + length s < 2147483648" using r(3) by simp_all
    show ?thesis
      by (rule put_element_ok [OF r(1) assms(2) l, of off], rule that)
        (use r(2-4) in \<open>simp_all add: insert_hash_table_def insert_within_put [OF l(1)] has_room_def MAX_IDX_def\<close>)
  next
    case True
    then have i: "ht_szidx h < 20" using r(2,4) t(1) by (cases "ht_szidx h = 20") simp_all
    then obtain d where d: "length primes - ht_szidx h = Suc d" by (cases "length primes - ht_szidx h") (simp_all add: primes_def)
    obtain nh where nh: "expand_hash_table (insert_within d) h = Inr nh" "table_ok nh" "view (slots nh) = view (slots h)"
      "ht_szidx nh = Suc (ht_szidx h)" "ht_lim nh = limit_of (primes ! Suc (ht_szidx h)) DFLT_LOAD_FACTOR" "ht_inuse nh = used (slots h)"
      "length (sb_str (ht_sbuf nh)) \<le> length (sb_str (ht_sbuf h))" "used (slots h) < ht_lim nh"
      using expand_ok [OF r(1) i, of d] r(3) by (metis add_lessD1 less_imp_le)
    have l: "ht_inuse nh < ht_lim nh" "length (sb_str (ht_sbuf nh)) + length s < 2147483648" using nh(6-8) r(3) by simp_all
    obtain h' where h': "put_element s off nh = Inr h'" "table_ok h'" "view (slots h') = (view (slots nh))(s \<mapsto> off)"
      "ht_szidx h' = ht_szidx nh" "ht_lim h' = ht_lim nh" "ht_inuse h' = Suc (ht_inuse nh)"
      "length (sb_str (ht_sbuf h')) = length (sb_str (ht_sbuf nh)) + Suc (length s)"
      using put_element_ok [OF nh(2) assms(2) l, of off] .
    have "insert_hash_table s off h = Inr h'" using True nh(1) h'(1) by (simp add: insert_hash_table_def d)
    moreover have "ht_szidx h' = 20 \<Longrightarrow> MOST_STRINGS \<le> ht_lim h'" using greatest_limit unfolding h'(4,5) nh(4,5) by simp
    ultimately show ?thesis using that [of h'] h'(2,3,6,7) nh(3,6,7) r(2,3) t(2) by (simp add: has_room_def MAX_IDX_def)
  qed
qed

lemma has_room_less: "has_room n b h \<Longrightarrow> m \<le> n \<Longrightarrow> c \<le> b \<Longrightarrow> has_room m c h"
  by (simp add: has_room_def)

lemma has_room_search: "has_room n b h \<Longrightarrow> search_hash_table h s = Inr (case view (slots h) s of None \<Rightarrow> (0, False) | Some off \<Rightarrow> (off, True))"
  by (simp add: has_room_def search_view)

end
