(* ===== verification/NewStrings.thy ===== *)
theory NewStrings
  imports StringMap
begin

section \<open>String index: the cache of new strings\<close>

text \<open>
  Models the interface of \<open>archie/lib/archstridx/newstr.c\<close>: filling the cache from the end of the
  strings file that is not indexed (\<open>get_key\<close>, \<open>init_hash_table\<close>, \<open>init_dbm\<close>), adding and finding a
  string.  The locale \<open>string_map\<close> is what its clients rely on, a map with room for so many strings;
  its interpretation \<open>cache\<close> is the hash table.
\<close>

subsection \<open>Operations\<close>

definition archNewStringCache :: "hash_table res" where
  "archNewStringCache = create_hash_table INIT_SZ_IDX"

definition archStringCacheLoadFactor :: "hash_table \<Rightarrow> float32 \<Rightarrow> hash_table res" where
  "archStringCacheLoadFactor = set_load_factor"

definition archAddKeyToStringCache :: "cstr \<Rightarrow> nat \<Rightarrow> hash_table \<Rightarrow> hash_table res" where
  "archAddKeyToStringCache = insert_hash_table"

definition archKeyInStringCache :: "hash_table \<Rightarrow> cstr \<Rightarrow> (nat \<times> bool) res" where
  "archKeyInStringCache = search_hash_table"

datatype key_read = Got_key cstr cstr | End_of_file | Bad_key   \<comment> \<open>the key and the rest of the file\<close>

definition KEY_SIZE :: nat where
  \<comment> \<open>\<open>sizeof key\<close> in \<open>init_hash_table\<close> and \<open>init_dbm\<close>\<close>
  "KEY_SIZE = 1024"

definition get_key :: "nat \<Rightarrow> cstr \<Rightarrow> key_read" where
  "get_key ksz file =
     (case fgets ksz file of
        None \<Rightarrow> End_of_file
      | Some (buf, rest) \<Rightarrow>
          let key = takeWhile (\<lambda>c. c \<noteq> NUL) buf
          in if KEYSEP_CH \<notin> set key then Bad_key
             else if key = [] then Bad_key
             else Got_key (takeWhile (\<lambda>c. c \<noteq> KEYSEP_CH) key) rest)"

lemma get_key_rest: "get_key KEY_SIZE file = Got_key key rest \<Longrightarrow> length rest < length file"
  by (auto simp: get_key_def fgets_def KEY_SIZE_def Let_def split: if_splits)

text \<open>The loop of \<open>init_hash_table\<close> and of \<open>init_dbm\<close>, with what stores a string as argument.\<close>

function load_keys :: "(cstr \<Rightarrow> nat \<Rightarrow> 't \<Rightarrow> 't res) \<Rightarrow> cstr \<Rightarrow> nat \<Rightarrow> 't \<Rightarrow> ('t \<times> cstr) res" where
  "load_keys store file off t =
     (case get_key KEY_SIZE file of
        Got_key key rest \<Rightarrow> res_bind (store key off t) (load_keys store rest (off + (length key + 1)))
      | End_of_file \<Rightarrow> Inr (t, file)
      | Bad_key \<Rightarrow> Inl Rejected)"
  by pat_completeness auto
termination
  by (relation "measure (\<lambda>(store, file, off, t). length file)") (auto dest: get_key_rest)

declare load_keys.simps [simp del]

definition init_hash_table :: "cstr \<Rightarrow> nat \<Rightarrow> hash_table \<Rightarrow> (hash_table \<times> cstr) res" where
  \<comment> \<open>with the rest of the file\<close>
  "init_hash_table = load_keys insert_hash_table"

definition init_dbm :: "cstr \<Rightarrow> nat \<Rightarrow> unit \<Rightarrow> (unit \<times> cstr) res" where
  \<comment> \<open>the database is not open, so nothing can be stored\<close>
  "init_dbm = load_keys (\<lambda>key off u. Inl Undefined)"

definition archInitStringCache :: "cstr \<Rightarrow> nat \<Rightarrow> hash_table \<Rightarrow> hash_table res" where
  \<comment> \<open>the strings file, and where to start; \<open>init_dbm\<close> runs also when the table has been filled\<close>
  "archInitStringCache file start h =
     res_bind (init_hash_table (drop start file) start h) (\<lambda>(h1, rest).
     res_bind (init_dbm rest start ()) (\<lambda>u. Inr h1))"

subsection \<open>Keys in a file\<close>

definition key_ok :: "cstr \<Rightarrow> bool" where
  "key_ok key = (key \<noteq> [] \<and> is_cstr key \<and> KEYSEP_CH \<notin> set key)"

definition key_lines :: "cstr list \<Rightarrow> cstr" where
  "key_lines keys = concat (map (\<lambda>k. k @ [KEYSEP_CH]) keys)"

fun layout :: "nat \<Rightarrow> cstr list \<Rightarrow> (cstr \<times> nat) list" where
  \<comment> \<open>where the keys lie\<close>
  "layout off [] = []"
| "layout off (k # ks) = (k, off) # layout (off + (length k + 1)) ks"

lemma key_lines_simps [simp]:
  "key_lines [] = []" "key_lines (k # ks) = k @ KEYSEP_CH # key_lines ks" "key_lines (ks @ ls) = key_lines ks @ key_lines ls"
  by (simp_all add: key_lines_def)

lemma layout_append: "layout off (ks @ ls) = layout off ks @ layout (off + length (key_lines ks)) ls"
  by (induction ks arbitrary: off) (simp_all add: add.assoc)

lemma layout_keys [simp]: "map fst (layout off ks) = ks"
  by (induction ks arbitrary: off) simp_all

lemma takeWhile_all: "c \<notin> set s \<Longrightarrow> takeWhile (\<lambda>x. x \<noteq> c) s = s"
  by (induction s) auto

lemma takeWhile_sep: "c \<notin> set s \<Longrightarrow> takeWhile (\<lambda>x. x \<noteq> c) (s @ c # t) = s"
  by (induction s) auto

lemma fgets_line:
  assumes "KEYSEP_CH \<notin> set key"
  shows "fgets len (key @ KEYSEP_CH # rest) =
    (let n = min (len - 1) (Suc (length key)) in Some (take n (key @ KEYSEP_CH # rest), drop n (key @ KEYSEP_CH # rest)))"
proof -
  have "takeWhile (\<lambda>c. c \<noteq> KEYSEP_CH) (key @ KEYSEP_CH # rest) = key" by (rule takeWhile_sep [OF assms])
  then show ?thesis by (simp add: fgets_def Let_def flip: KEYSEP_CH_def)
qed

lemma get_key_line:
  assumes "key_ok key" "length key \<le> 1022"
  shows "get_key KEY_SIZE (key @ KEYSEP_CH # rest) = Got_key key rest"
proof -
  have k: "KEYSEP_CH \<notin> set key" "NUL \<notin> set key" "KEYSEP_CH \<noteq> NUL" using assms(1) by (auto simp: key_ok_def is_cstr_def KEYSEP_CH_def)
  have "fgets KEY_SIZE (key @ KEYSEP_CH # rest) = Some (key @ [KEYSEP_CH], rest)"
    using assms(2) by (simp add: fgets_line [OF k(1)] KEY_SIZE_def Let_def)
  moreover have "takeWhile (\<lambda>c. c \<noteq> NUL) (key @ [KEYSEP_CH]) = key @ [KEYSEP_CH]" using k by (intro takeWhile_all) auto
  ultimately show ?thesis using takeWhile_sep [OF k(1), of "[]"] by (simp add: get_key_def Let_def)
qed

lemma get_key_long:
  assumes "key_ok key" "1023 \<le> length key"
  shows "get_key KEY_SIZE (key @ KEYSEP_CH # rest) = Bad_key"
proof -
  have k: "KEYSEP_CH \<notin> set key" using assms(1) by (simp add: key_ok_def)
  have "fgets KEY_SIZE (key @ KEYSEP_CH # rest) = Some (take 1023 key, drop 1023 key @ KEYSEP_CH # rest)"
    using assms(2) by (simp add: fgets_line [OF k] KEY_SIZE_def Let_def)
  moreover have "KEYSEP_CH \<notin> set (takeWhile (\<lambda>c. c \<noteq> NUL) (take 1023 key))" using k by (meson in_set_takeD set_takeWhileD)
  ultimately show ?thesis by (simp add: get_key_def Let_def)
qed

lemma get_key_end: "get_key n [] = End_of_file"
  by (simp add: get_key_def fgets_def)

subsection \<open>The interface\<close>

fun store_all :: "(cstr \<Rightarrow> nat \<Rightarrow> 't \<Rightarrow> 't res) \<Rightarrow> (cstr \<times> nat) list \<Rightarrow> 't \<Rightarrow> 't res" where
  \<comment> \<open>one string after the other\<close>
  "store_all store [] t = Inr t"
| "store_all store ((s, off) # kos) t = res_bind (store s off t) (store_all store kos)"

definition needs :: "cstr list \<Rightarrow> nat" where
  \<comment> \<open>the bytes of the strings with their nuls\<close>
  "needs ks = (\<Sum>k\<leftarrow>ks. Suc (length k))"

lemma needs_lines: "needs keys = length (key_lines keys)"
  by (induction keys) (simp_all add: needs_def)

lemma layout_length [simp]: "length (layout off ks) = length ks"
  by (metis layout_keys length_map)

lemma map_of_rev_distinct: "distinct (map fst xs) \<Longrightarrow> map_of (rev xs) = map_of xs"
  by (rule map_of_eqI) (auto simp: rev_map [symmetric] intro: map_of_is_SomeI)

locale string_map =
  fixes store :: "cstr \<Rightarrow> nat \<Rightarrow> 't \<Rightarrow> 't res" and find :: "'t \<Rightarrow> cstr \<Rightarrow> (nat \<times> bool) res"
    and room :: "nat \<Rightarrow> nat \<Rightarrow> 't \<Rightarrow> bool" and content :: "'t \<Rightarrow> cstr \<Rightarrow> nat option"
  assumes store_law: "room (Suc n) (Suc (length s) + b) t \<Longrightarrow> is_cstr s \<Longrightarrow>
      \<exists>t'. store s off t = Inr t' \<and> room n b t' \<and> content t' = (content t)(s \<mapsto> off)"
    and find_law: "room n b t \<Longrightarrow> find t s = Inr (case content t s of None \<Rightarrow> (0, False) | Some off \<Rightarrow> (off, True))"
    and room_less: "room n b t \<Longrightarrow> m \<le> n \<Longrightarrow> c \<le> b \<Longrightarrow> room m c t"
begin

lemma store_all_content:
  "room (length kos + n) (needs (map fst kos) + b) t \<Longrightarrow> (\<forall>s\<in>set (map fst kos). is_cstr s) \<Longrightarrow>
    \<exists>t'. store_all store kos t = Inr t' \<and> room n b t' \<and> content t' = content t ++ map_of (rev kos)"
proof (induction kos arbitrary: t)
  case (Cons ko kos)
  obtain s off where ko: "ko = (s, off)" by (cases ko)
  have "room (Suc (length kos + n)) (Suc (length s) + (needs (map fst kos) + b)) t" using Cons.prems(1) by (simp add: ko needs_def add.assoc)
  then obtain t1 where t1: "store s off t = Inr t1" "room (length kos + n) (needs (map fst kos) + b) t1" "content t1 = (content t)(s \<mapsto> off)"
    using store_law [of "length kos + n" s _ t off] Cons.prems(2) ko by fastforce
  from Cons.IH [OF t1(2)] Cons.prems(2) obtain t' where t': "store_all store kos t1 = Inr t'" "room n b t'" "content t' = content t1 ++ map_of (rev kos)"
    by auto
  have "content t' = content t ++ map_of (rev (ko # kos))" unfolding t'(3) t1(3) ko by (simp add: map_add_def fun_eq_iff split: option.splits)
  then show ?case using t1(1) t'(1,2) by (simp add: ko)
qed (simp add: needs_def)

lemma load_keys_store_all:
  assumes "\<forall>k\<in>set keys. key_ok k \<and> length k \<le> 1022"
  shows "load_keys store (key_lines keys @ rest) off t =
    res_bind (store_all store (layout off keys) t) (load_keys store rest (off + length (key_lines keys)))"
  using assms
proof (induction keys arbitrary: off t)
  case (Cons k keys)
  then have "get_key KEY_SIZE (key_lines (k # keys) @ rest) = Got_key k (key_lines keys @ rest)" using get_key_line [of k] by simp
  then show ?case using Cons by (subst load_keys.simps) (simp add: res_bind_def add.assoc split: sum.splits)
qed simp

lemma load_keys_content:
  assumes "\<forall>k\<in>set keys. key_ok k \<and> length k \<le> 1022" "room (length keys + n) (length (key_lines keys) + b) t"
  shows "\<exists>t'. load_keys store (key_lines keys) off t = Inr (t', []) \<and> room n b t' \<and> content t' = content t ++ map_of (rev (layout off keys))"
proof -
  have "\<forall>s\<in>set keys. is_cstr s" using assms(1) by (simp add: key_ok_def)
  then have "\<exists>t'. store_all store (layout off keys) t = Inr t' \<and> room n b t' \<and> content t' = content t ++ map_of (rev (layout off keys))"
    using store_all_content [of "layout off keys" n b t] assms(2) by (simp add: needs_lines)
  then show ?thesis using load_keys_store_all [OF assms(1), of "[]" off t] by (auto simp: load_keys.simps [of _ "[]"] get_key_end)
qed

end

interpretation cache: string_map archAddKeyToStringCache archKeyInStringCache has_room "\<lambda>h. view (slots h)"
proof
  fix n s b h off
  assume "has_room (Suc n) (Suc (length s) + b) h" "is_cstr s"
  then show "\<exists>h'. archAddKeyToStringCache s off h = Inr h' \<and> has_room n b h' \<and> view (slots h') = (view (slots h))(s \<mapsto> off)"
    unfolding archAddKeyToStringCache_def by (rule insert_ok) blast
qed (auto simp: archKeyInStringCache_def has_room_search intro: has_room_less)

subsection \<open>The cache of a database\<close>

lemma new_cache:
  obtains h where "archNewStringCache = Inr h" "has_room MOST_STRINGS 2147483648 h" "view (slots h) = Map.empty"
    "\<And>lf h'. archStringCacheLoadFactor h lf = Inr h' \<Longrightarrow> has_room MOST_STRINGS 2147483648 h' \<and> view (slots h') = Map.empty"
proof -
  obtain h where h: "create_hash_table 9 = Inr h" "table_ok h" "view (slots h) = Map.empty" "ht_szidx h = 9" "ht_inuse h = 0"
    "length (sb_str (ht_sbuf h)) = 0"
    using create_ok [of 9] by force
  have n: "0 < ht_nelts h" "ht_nelts h < 16777216" using h(2,4) sizes [of 9] by (auto simp: table_ok_def prime_size_def)
  have "has_room MOST_STRINGS 2147483648 h' \<and> view (slots h') = Map.empty" if lf: "archStringCacheLoadFactor h lf = Inr h'" for lf h'
  proof -
    have h': "h' = h\<lparr>ht_lim := limit_of (ht_nelts h) lf\<rparr>" "\<not> float_less MAX_LOAD_FACTOR lf"
      using lf by (auto simp: archStringCacheLoadFactor_def set_load_factor_def split: if_splits)
    have sl: "slots h' = slots h" by (simp add: h'(1) slots_def)
    have "table_ok h'" using h(2) limit_of_less [OF n h'(2)] unfolding table_ok_def sl by (simp add: h'(1))
    then show ?thesis using h(3-6) unfolding has_room_def sl by (simp add: h'(1) MAX_IDX_def)
  qed
  then show ?thesis using that [of h] h by (simp add: archNewStringCache_def INIT_SZ_IDX_def has_room_def MAX_IDX_def)
qed

lemma new_cache_ok:
  assumes "archNewStringCache = Inr h0" "h1 = h0 \<or> archStringCacheLoadFactor h0 lf = Inr h1"
  shows "has_room MOST_STRINGS 2147483648 h1" "view (slots h1) = Map.empty"
proof -
  obtain h where h: "archNewStringCache = Inr h" "has_room MOST_STRINGS 2147483648 h" "view (slots h) = Map.empty"
    "\<And>lf h'. archStringCacheLoadFactor h lf = Inr h' \<Longrightarrow> has_room MOST_STRINGS 2147483648 h' \<and> view (slots h') = Map.empty"
    using new_cache by metis
  from trans [OF h(1) [symmetric] assms(1)] have "h = h0" by simp
  then show "has_room MOST_STRINGS 2147483648 h1" "view (slots h1) = Map.empty" using h(2-4) assms(2) by blast+
qed

text \<open>
  C7.  The table of new strings is a map.  Whatever load factor is set, up to 943000 strings of
  up to \<open>2 ^ 31\<close> bytes in all can be stored: no call fails, every search for a place ends, and
  however often the table has been copied into a greater one, a search finds for each string the
  offset stored last, and for other strings nothing.
\<close>

theorem string_cache_is_map:
  assumes "archNewStringCache = Inr h0" "h1 = h0 \<or> archStringCacheLoadFactor h0 lf = Inr h1"
    and "\<forall>s\<in>set (map fst kos). is_cstr s" "length kos \<le> MOST_STRINGS" "needs (map fst kos) \<le> 2147483648"
  shows "\<exists>h. store_all archAddKeyToStringCache kos h1 = Inr h \<and>
    (\<forall>s. archKeyInStringCache h s = Inr (case map_of (rev kos) s of None \<Rightarrow> (0, False) | Some off \<Rightarrow> (off, True)))"
proof -
  note r = new_cache_ok [OF assms(1,2)]
  then have "has_room (length kos + 0) (needs (map fst kos) + 0) h1" using assms(4,5) cache.room_less by auto
  from cache.store_all_content [OF this assms(3)] obtain h where h: "store_all archAddKeyToStringCache kos h1 = Inr h" "has_room 0 0 h"
    "view (slots h) = view (slots h1) ++ map_of (rev kos)" by blast
  then have "view (slots h) = map_of (rev kos)" using r by simp
  then show ?thesis using h(1) cache.find_law [OF h(2)] by auto
qed

theorem string_cache_is_map_witness:
  "\<exists>h0 h1 h. archNewStringCache = Inr h0 \<and> archStringCacheLoadFactor h0 (1, 1) = Inr h1 \<and>
     store_all archAddKeyToStringCache [(''a'', 1), (''bc'', 3), (''a'', 6)] h1 = Inr h \<and>
     archKeyInStringCache h ''a'' = Inr (6, True) \<and> archKeyInStringCache h ''c'' = Inr (0, False)"
proof -
  obtain h0 where h0: "archNewStringCache = Inr h0" using new_cache by metis
  have "\<not> float_less (1, 1) MIN_LOAD_FACTOR" "\<not> float_less MAX_LOAD_FACTOR (1, 1)"
    by (simp_all add: float_less_def MIN_LOAD_FACTOR_def MAX_LOAD_FACTOR_def)
  then obtain h1 where h1: "archStringCacheLoadFactor h0 (1, 1) = Inr h1"
    by (simp add: archStringCacheLoadFactor_def set_load_factor_def)
  let ?kos = "[(''a'', 1), (''bc'', 3), (''a'', 6)] :: (cstr \<times> nat) list"
  have k: "\<forall>s\<in>set (map fst ?kos). is_cstr s" "length ?kos \<le> MOST_STRINGS" "needs (map fst ?kos) \<le> 2147483648"
    by (simp_all add: MOST_STRINGS_def needs_def)
  have "map_of (rev ?kos) ''a'' = Some 6" "map_of (rev ?kos) ''c'' = None" by simp_all
  then show ?thesis using string_cache_is_map [OF h0 disjI2 [OF h1] k] h0 h1 by fastforce
qed

text \<open>
  C14.  Opening a database for appending restores the table: from a strings file whose end, behind
  the text that is indexed, consists of keys of at most 1022 characters, each with its separator,
  the table is filled without an error, and finds every one of these keys at its offset in the file
  and no other string.  (The loop for the DBM file, which runs too, finds nothing left to store.)
\<close>

theorem archInitStringCache_reloads:
  assumes "archNewStringCache = Inr h0" "distinct keys" "\<forall>k\<in>set keys. key_ok k \<and> length k \<le> 1022"
    and "length keys \<le> MOST_STRINGS" "length (key_lines keys) \<le> 2147483648"
  shows "\<exists>h. archInitStringCache (indexed @ key_lines keys) (length indexed) h0 = Inr h \<and>
    (\<forall>s. archKeyInStringCache h s = Inr (case map_of (layout (length indexed) keys) s of None \<Rightarrow> (0, False) | Some off \<Rightarrow> (off, True)))"
proof -
  let ?L = "layout (length indexed) keys"
  note r = new_cache_ok [OF assms(1) disjI1 [OF refl]]
  then have "has_room (length keys + 0) (length (key_lines keys) + 0) h0" using assms(4,5) cache.room_less by auto
  from cache.load_keys_content [OF assms(3) this] obtain h where h: "load_keys archAddKeyToStringCache (key_lines keys) (length indexed) h0 = Inr (h, [])"
    "has_room 0 0 h" "view (slots h) = view (slots h0) ++ map_of (rev ?L)" by blast
  have "map_of (rev ?L) = map_of ?L" by (rule map_of_rev_distinct) (simp add: assms(2))
  then have "view (slots h) = map_of ?L" using h(3) r by simp
  moreover have "archInitStringCache (indexed @ key_lines keys) (length indexed) h0 = Inr h"
    using h(1) by (simp add: archInitStringCache_def init_hash_table_def init_dbm_def archAddKeyToStringCache_def load_keys.simps [of _ "[]"] get_key_end)
  ultimately show ?thesis using cache.find_law [OF h(2)] by auto
qed

theorem archInitStringCache_reloads_witness:
  "\<exists>h0 h. archNewStringCache = Inr h0 \<and> archInitStringCache (KEYSEP_CH # key_lines [''ab'', ''c'']) 1 h0 = Inr h \<and>
     archKeyInStringCache h ''c'' = Inr (4, True) \<and> archKeyInStringCache h ''b'' = Inr (0, False)"
proof -
  obtain h0 where h0: "archNewStringCache = Inr h0" using new_cache by metis
  have "distinct [''ab'', ''c'']" "\<forall>k\<in>set [''ab'', ''c'']. key_ok k \<and> length k \<le> 1022" "length [''ab'', ''c''] \<le> MOST_STRINGS"
    "length (key_lines [''ab'', ''c'']) \<le> 2147483648"
    by (simp_all add: key_ok_def KEYSEP_CH_def MOST_STRINGS_def)
  from archInitStringCache_reloads [OF h0 this, of "[KEYSEP_CH]"] h0 show ?thesis by fastforce
qed

text \<open>
  C31.  A key of more than 1022 characters can be stored in the table, but a database that holds one
  among the strings that are not indexed can no longer be opened for appending: the buffer for
  reading keys is too small, and filling the table fails.
\<close>

theorem long_key_not_reloaded:
  assumes "\<forall>k\<in>set keys. key_ok k \<and> length k \<le> 1022" "length keys \<le> MOST_STRINGS" "length (key_lines keys) \<le> 2147483648"
    and "key_ok long" "1022 < length long" "archNewStringCache = Inr h0"
  shows "archInitStringCache (indexed @ key_lines (keys @ long # rest)) (length indexed) h0 = Inl Rejected"
proof -
  note r = new_cache_ok [OF assms(6) disjI1 [OF refl]]
  then have "has_room (length (layout (length indexed) keys) + 0) (needs (map fst (layout (length indexed) keys)) + 0) h0"
    using assms(2,3) cache.room_less by (simp add: needs_lines)
  moreover have "\<forall>s\<in>set (map fst (layout (length indexed) keys)). is_cstr s" using assms(1) by (simp add: key_ok_def)
  ultimately obtain h where "store_all archAddKeyToStringCache (layout (length indexed) keys) h0 = Inr h"
    using cache.store_all_content [of "layout (length indexed) keys" 0 0 h0] by blast
  moreover have "load_keys archAddKeyToStringCache (key_lines (long # rest)) off h = Inl Rejected" for off h
    using get_key_long [OF assms(4), of "key_lines rest"] assms(5) by (subst load_keys.simps) simp
  ultimately have "load_keys archAddKeyToStringCache (key_lines (keys @ long # rest)) (length indexed) h0 = Inl Rejected"
    using cache.load_keys_store_all [OF assms(1), of "key_lines (long # rest)" "length indexed" h0] by simp
  then show ?thesis by (simp add: archInitStringCache_def init_hash_table_def archAddKeyToStringCache_def)
qed

theorem long_key_not_reloaded_witness:
  "\<exists>h0. archNewStringCache = Inr h0 \<and> archInitStringCache ([KEYSEP_CH] @ key_lines ([''ab''] @ [replicate 1023 (CHR ''x'')])) 1 h0 = Inl Rejected"
proof -
  obtain h0 where h0: "archNewStringCache = Inr h0" using new_cache by metis
  have "\<forall>k\<in>set [''ab'']. key_ok k \<and> length k \<le> 1022" "length [''ab''] \<le> MOST_STRINGS" "length (key_lines [''ab'']) \<le> 2147483648"
    "key_ok (replicate 1023 (CHR ''x''))" "1022 < length (replicate 1023 (CHR ''x''))"
    by (simp_all add: key_ok_def KEYSEP_CH_def MOST_STRINGS_def is_cstr_def)
  from long_key_not_reloaded [OF this h0, of "[KEYSEP_CH]" "[]"] h0 show ?thesis by (intro exI [of _ h0]) simp
qed

end
