(* ===== verification/ListingBase.thy ===== *)
theory ListingBase
  imports Prelude
begin

section \<open>What the listing parsers share: line patterns, fields, records\<close>

text \<open>
  The parser of FTP listings (\<open>archie/anonftp/parse\<close>) is one driver, \<open>parse.c\<close>, linked
  with the line routines of one listing format.  This theory holds what driver and formats
  share: the line types of \<open>line_type.h\<close>, the record written for each file
  (\<open>core_entry.h\<close>, \<open>parser_file.h\<close>, \<open>pars_ent_holder.h\<close>), the helpers of \<open>utils.c\<close>,
  the conversions of the C library that the formats use (\<open>sscanf\<close> with \<open>%d\<close>, \<open>atoi\<close>), and
  the patterns of the formats.

  Patterns are compiled by the repository's copy of \<open>regexp(3)\<close>, which is third-party code.
  They are modelled by their documented meaning: \<open>rx_lang\<close> is the language of a pattern and
  \<open>regexec\<close> decides, by derivatives, whether some prefix of the line is in it (all patterns
  start with \<open>^\<close>) or, with a final \<open>$\<close>, the whole line.
\<close>

subsection \<open>Line types and records\<close>

datatype line_type =
  L_BLANK | L_CONT | L_DIR_START | L_ERROR | L_FILE | L_PARTIAL | L_TOTAL | L_UNREAD | L_UNKNOWN

record core_site_entry =
  ce_size :: "32 word"
  ce_date :: "32 word"
  ce_parent_idx :: int
  ce_child_idx :: int
  ce_perms :: "16 word"
  ce_flags :: "16 word"
  ce_rdate :: "32 word"

definition zero_core :: core_site_entry where
  \<comment> \<open>the state after the \<open>memset\<close> of a new element\<close>
  "zero_core = \<lparr>ce_size = 0, ce_date = 0, ce_parent_idx = 0, ce_child_idx = 0,
                ce_perms = 0, ce_flags = 0, ce_rdate = 0\<rparr>"

unbundle bit_operations_syntax

definition CSE_SET_DIR :: "core_site_entry \<Rightarrow> core_site_entry" where
  "CSE_SET_DIR c = c\<lparr>ce_flags := ce_flags c OR 1\<rparr>"

definition CSE_SET_NON_DIR :: "core_site_entry \<Rightarrow> core_site_entry" where
  "CSE_SET_NON_DIR c = c\<lparr>ce_flags := ce_flags c AND NOT 0xfffe\<rparr>"

definition CSE_IS_DIR :: "core_site_entry \<Rightarrow> bool" where
  "CSE_IS_DIR c = (ce_flags c AND 1 \<noteq> 0)"

record parser_entry =
  pe_core :: core_site_entry
  pe_slen :: "16 word"

record Pars_ent_holder =
  pent :: parser_entry
  peh_name :: "cstr option"

definition zero_peh :: Pars_ent_holder where
  "zero_peh = \<lparr>pent = \<lparr>pe_core = zero_core, pe_slen = 0\<rparr>, peh_name = None\<rparr>"

subsection \<open>The helpers of \<open>utils.c\<close>\<close>

definition nuke_nl :: "cstr \<Rightarrow> cstr" where
  \<comment> \<open>cut the string at its first newline\<close>
  "nuke_nl s = takeWhile (\<lambda>c. c \<noteq> CHR 0x0A) s"

fun findfirst :: "cstr \<Rightarrow> cstr \<Rightarrow> cstr option" where
  "findfirst [] set0 = None"
| "findfirst (c # s) set0 = (if c \<in> set set0 then Some (c # s) else findfirst s set0)"

text \<open>
  \<open>strsep\<close> puts a nul over the separator it finds: the field before it, and the rest of the
  string after it, are the two results.
\<close>

definition strsep :: "cstr \<Rightarrow> cstr \<Rightarrow> (cstr \<times> cstr) option" where
  "strsep s set0 =
     (case findfirst s set0 of
        None \<Rightarrow> None
      | Some p \<Rightarrow> Some (take (length s - length p) s, tl p))"

lemma findfirst_append: "set u \<inter> set cs = {} \<Longrightarrow> c \<in> set cs \<Longrightarrow> findfirst (u @ c # t) cs = Some (c # t)"
  by (induction u) auto

lemma strsep_append: "set u \<inter> set cs = {} \<Longrightarrow> c \<in> set cs \<Longrightarrow> strsep (u @ c # t) cs = Some (u, t)"
  by (simp add: strsep_def findfirst_append)

lemma findfirst_SomeD: "findfirst s cs = Some p \<Longrightarrow> \<exists>u c t. s = u @ c # t \<and> p = c # t \<and> c \<in> set cs \<and> set u \<inter> set cs = {}"
proof (induction s)
  case (Cons x s)
  show ?case
  proof (cases "x \<in> set cs")
    case True
    with Cons.prems show ?thesis by (intro exI [of _ "[]"]) auto
  next
    case False
    with Cons obtain u c t where "s = u @ c # t \<and> p = c # t \<and> c \<in> set cs \<and> set u \<inter> set cs = {}"
      by auto
    with False show ?thesis by (intro exI [of _ "x # u"]) auto
  qed
qed simp

lemma strsep_SomeD:
  "strsep s cs = Some (u, t) \<Longrightarrow> \<exists>c. s = u @ c # t \<and> c \<in> set cs \<and> set u \<inter> set cs = {}"
  by (auto simp: strsep_def split: option.splits dest!: findfirst_SomeD)

definition WHITE_STR :: cstr where
  "WHITE_STR = [CHR '' '', CHR 0x09]"

definition try_get_field :: "cstr \<Rightarrow> (cstr \<times> cstr) res" where
  \<comment> \<open>skip white space, then cut the field that ends at the next white space\<close>
  "try_get_field p = of_opt (strsep (drop (strspn p WHITE_STR) p) WHITE_STR)"

definition is_white :: "char \<Rightarrow> bool" where
  "is_white c = (c \<in> set WHITE_STR)"

definition is_word :: "cstr \<Rightarrow> bool" where
  \<comment> \<open>a non-empty string without white space\<close>
  "is_word w = (w \<noteq> [] \<and> (\<forall>c\<in>set w. \<not> is_white c))"

lemma strspn_blanks:
  "\<forall>c\<in>set b. is_white c \<Longrightarrow> is_word (take 1 t) \<Longrightarrow> strspn (b @ t) WHITE_STR = length b"
  by (cases t) (auto simp: strspn_def is_white_def is_word_def takeWhile_append)

lemma try_get_field_word:
  assumes "\<forall>c\<in>set b. is_white c" and "is_word w" and "is_white c"
  shows "try_get_field (b @ w @ c # t) = Inr (w, t)"
proof -
  have "is_word (take 1 (w @ c # t))"
    using assms(2) by (cases w) (auto simp: is_word_def)
  then have "drop (strspn (b @ w @ c # t) WHITE_STR) (b @ w @ c # t) = w @ c # t"
    by (simp add: strspn_blanks [OF assms(1)])
  moreover have "strsep (w @ c # t) WHITE_STR = Some (w, t)"
    using assms(2,3) by (intro strsep_append) (auto simp: is_word_def is_white_def)
  ultimately show ?thesis by (simp add: try_get_field_def)
qed

lemma try_get_field_InrD: "try_get_field p = Inr (w, t) \<Longrightarrow> is_word w"
proof -
  assume "try_get_field p = Inr (w, t)"
  then have "strsep (drop (strspn p WHITE_STR) p) WHITE_STR = Some (w, t)"
    by (auto simp: try_get_field_def of_opt_def split: option.splits)
  then obtain c where c: "drop (strspn p WHITE_STR) p = w @ c # t" "c \<in> set WHITE_STR"
      "set w \<inter> set WHITE_STR = {}"
    using strsep_SomeD by blast
  moreover have "w \<noteq> []"
  proof
    assume "w = []"
    with c(1) have "dropWhile (\<lambda>c. c \<in> set WHITE_STR) p = c # t" by (simp add: drop_strspn)
    with c(2) show False by (metis dropWhile_eq_Cons_conv)
  qed
  ultimately show ?thesis by (auto simp: is_word_def is_white_def)
qed

definition is_blanks :: "cstr \<Rightarrow> bool" where
  "is_blanks b = (b \<noteq> [] \<and> (\<forall>c\<in>set b. is_white c))"

lemma try_get_field_seps:
  assumes "is_word w" and "is_blanks b'"
  shows "try_get_field (w @ b' @ t) = Inr (w, tl b' @ t)"
    and "\<forall>c\<in>set b. is_white c \<Longrightarrow> try_get_field (b @ w @ b' @ t) = Inr (w, tl b' @ t)"
proof -
  obtain c b'' where b': "b' = c # b''" "is_white c" using assms(2) by (cases b') (auto simp: is_blanks_def)
  show "\<forall>c\<in>set b. is_white c \<Longrightarrow> try_get_field (b @ w @ b' @ t) = Inr (w, tl b' @ t)"
    using try_get_field_word [of b w c "b'' @ t"] assms(1) b' by simp
  show "try_get_field (w @ b' @ t) = Inr (w, tl b' @ t)"
    using try_get_field_word [of "[]" w c "b'' @ t"] assms(1) b' by simp
qed

lemma is_blanks_tl: "is_blanks b \<Longrightarrow> \<forall>c\<in>set (tl b). is_white c"
  by (cases b) (auto simp: is_blanks_def)

subsection \<open>Reading numbers\<close>

text \<open>
  \<open>sscanf\<close> with \<open>%d\<close> of at most \<open>w\<close> characters: white space, a sign, digits.  The value and
  the rest of the input; \<open>Rejected\<close> when there is no digit.
\<close>

definition INT_MAX :: int where
  "INT_MAX = 2147483647"

definition scan_d :: "nat \<Rightarrow> cstr \<Rightarrow> (int \<times> cstr) res" where
  "scan_d w s0 =
     (let s = dropWhile is_space s0;
          signed = (s \<noteq> [] \<and> hd s \<in> {CHR ''-'', CHR ''+''} \<and> 0 < w);
          t = (if signed then tl s else s);
          ds = take (if signed then w - 1 else w) (takeWhile is_digit t);
          n = int (digits_val 0 ds)
      in if ds = [] then Inl Rejected
         else if INT_MAX < n then Inl Undefined
         else Inr (if signed \<and> hd s = CHR ''-'' then - n else n, drop (length ds) t))"

definition atoi_digits :: "cstr \<Rightarrow> int res" where
  \<comment> \<open>\<open>atoi\<close> on a string that starts with a digit\<close>
  "atoi_digits s = (let n = int (digits_val 0 s) in if INT_MAX < n then Inl Undefined else Inr n)"

subsection \<open>Patterns\<close>

datatype rx = REps | RIn cstr | RNotIn cstr | RSeq rx rx | RAlt rx rx | RStar rx

inductive_set rx_star :: "cstr set \<Rightarrow> cstr set" for L where
  star_nil: "[] \<in> rx_star L"
| star_app: "s \<in> L \<Longrightarrow> t \<in> rx_star L \<Longrightarrow> s @ t \<in> rx_star L"

fun rx_lang :: "rx \<Rightarrow> cstr set" where
  "rx_lang REps = {[]}"
| "rx_lang (RIn cs) = {[c] | c. c \<in> set cs}"
| "rx_lang (RNotIn cs) = {[c] | c. c \<notin> set cs}"
| "rx_lang (RSeq r s) = {u @ v | u v. u \<in> rx_lang r \<and> v \<in> rx_lang s}"
| "rx_lang (RAlt r s) = rx_lang r \<union> rx_lang s"
| "rx_lang (RStar r) = rx_star (rx_lang r)"

fun nullable :: "rx \<Rightarrow> bool" where
  "nullable REps = True"
| "nullable (RIn cs) = False"
| "nullable (RNotIn cs) = False"
| "nullable (RSeq r s) = (nullable r \<and> nullable s)"
| "nullable (RAlt r s) = (nullable r \<or> nullable s)"
| "nullable (RStar r) = True"

abbreviation RNull :: rx where "RNull \<equiv> RIn []"

text \<open>\<open>mk_seq\<close> and \<open>mk_alt\<close> drop the empty pattern, so that derivatives stay small.\<close>

definition mk_seq :: "rx \<Rightarrow> rx \<Rightarrow> rx" where
  "mk_seq r s = (if r = RNull then RNull else if r = REps then s else RSeq r s)"

definition mk_alt :: "rx \<Rightarrow> rx \<Rightarrow> rx" where
  "mk_alt r s = (if r = RNull then s else if s = RNull then r else RAlt r s)"

fun deriv :: "char \<Rightarrow> rx \<Rightarrow> rx" where
  "deriv c REps = RNull"
| "deriv c (RIn cs) = (if c \<in> set cs then REps else RNull)"
| "deriv c (RNotIn cs) = (if c \<notin> set cs then REps else RNull)"
| "deriv c (RSeq r s) =
     (if nullable r then mk_alt (mk_seq (deriv c r) s) (deriv c s) else mk_seq (deriv c r) s)"
| "deriv c (RAlt r s) = mk_alt (deriv c r) (deriv c s)"
| "deriv c (RStar r) = mk_seq (deriv c r) (RStar r)"

fun rx_whole :: "rx \<Rightarrow> cstr \<Rightarrow> bool" where
  "rx_whole r [] = nullable r"
| "rx_whole r (c # s) = (if r = RNull then False else rx_whole (deriv c r) s)"

fun rx_prefix :: "rx \<Rightarrow> cstr \<Rightarrow> bool" where
  "rx_prefix r [] = nullable r"
| "rx_prefix r (c # s) =
     (if nullable r then True else if r = RNull then False else rx_prefix (deriv c r) s)"

text \<open>A pattern \<open>^r\<close> (\<open>From r\<close>) or \<open>^r$\<close> (\<open>Whole r\<close>).\<close>

datatype pattern = From rx | Whole rx

fun regexec :: "pattern \<Rightarrow> cstr \<Rightarrow> bool" where
  "regexec (From r) s = rx_prefix r s"
| "regexec (Whole r) s = rx_whole r s"

definition RPlus :: "rx \<Rightarrow> rx" where
  "RPlus r = RSeq r (RStar r)"

fun RLit :: "cstr \<Rightarrow> rx" where
  "RLit [] = REps"
| "RLit (c # s) = RSeq (RIn [c]) (RLit s)"

fun RSeqs :: "rx list \<Rightarrow> rx" where
  "RSeqs [] = REps"
| "RSeqs (r # rs) = RSeq r (RSeqs rs)"

lemma nullable_iff: "nullable r \<longleftrightarrow> [] \<in> rx_lang r"
  by (induction r) (auto intro: star_nil)

lemma mk_seq_lang [simp]: "rx_lang (mk_seq r s) = rx_lang (RSeq r s)"
  by (auto simp: mk_seq_def)

lemma mk_alt_lang [simp]: "rx_lang (mk_alt r s) = rx_lang (RAlt r s)"
  by (auto simp: mk_alt_def)

lemma star_cons: "c # w \<in> rx_star L \<longleftrightarrow> (\<exists>u v. w = u @ v \<and> c # u \<in> L \<and> v \<in> rx_star L)"
proof
  assume "c # w \<in> rx_star L"
  then show "\<exists>u v. w = u @ v \<and> c # u \<in> L \<and> v \<in> rx_star L"
    by (induction "c # w" arbitrary: w rule: rx_star.induct) (auto simp: append_eq_Cons_conv)
next
  assume "\<exists>u v. w = u @ v \<and> c # u \<in> L \<and> v \<in> rx_star L"
  then show "c # w \<in> rx_star L" using star_app [of "c # _"] by fastforce
qed

lemma deriv_lang: "w \<in> rx_lang (deriv c r) \<longleftrightarrow> c # w \<in> rx_lang r"
proof (induction r arbitrary: w)
  case (RSeq r s)
  have "c # w \<in> rx_lang (RSeq r s) \<longleftrightarrow>
      (\<exists>u v. w = u @ v \<and> c # u \<in> rx_lang r \<and> v \<in> rx_lang s) \<or>
      [] \<in> rx_lang r \<and> c # w \<in> rx_lang s"
    by (auto simp: Cons_eq_append_conv)
  then show ?case using RSeq.IH by (auto simp: nullable_iff)
next
  case (RStar r)
  then show ?case by (simp add: star_cons)
qed auto

lemma rx_whole_lang: "rx_whole r s \<longleftrightarrow> s \<in> rx_lang r"
  by (induction r s rule: rx_whole.induct) (auto simp: nullable_iff deriv_lang)

lemma rx_prefix_lang: "rx_prefix r s \<longleftrightarrow> (\<exists>u v. s = u @ v \<and> u \<in> rx_lang r)"
proof (induction r s rule: rx_prefix.induct)
  case (1 r)
  show ?case by (simp add: nullable_iff)
next
  case (2 r c s)
  have "(\<exists>u v. c # s = u @ v \<and> u \<in> rx_lang r) \<longleftrightarrow>
      [] \<in> rx_lang r \<or> (\<exists>u v. s = u @ v \<and> c # u \<in> rx_lang r)"
    by (auto simp: Cons_eq_append_conv)
  with "2" show ?case by (auto simp: nullable_iff deriv_lang)
qed

text \<open>The decision procedure decides the language.\<close>

fun pattern_matches :: "pattern \<Rightarrow> cstr \<Rightarrow> bool" where
  "pattern_matches (From r) s = (\<exists>u v. s = u @ v \<and> u \<in> rx_lang r)"
| "pattern_matches (Whole r) s = (s \<in> rx_lang r)"

lemma regexec_iff: "regexec p s \<longleftrightarrow> pattern_matches p s"
  by (cases p) (simp_all add: rx_prefix_lang rx_whole_lang)

lemma RPlus_lang: "u \<in> rx_lang (RPlus r) \<longleftrightarrow> (\<exists>a b. u = a @ b \<and> a \<in> rx_lang r \<and> b \<in> rx_star (rx_lang r))"
  by (simp add: RPlus_def)

subsection \<open>Patterns of character classes\<close>

lemma RSeqs_In: "u \<in> rx_lang (RSeqs (RIn cs # rs)) \<longleftrightarrow> (\<exists>c v. u = c # v \<and> c \<in> set cs \<and> v \<in> rx_lang (RSeqs rs))"
proof -
  have "u \<in> rx_lang (RSeqs (RIn cs # rs)) \<longleftrightarrow>
      (\<exists>c v. u = [c] @ v \<and> c \<in> set cs \<and> v \<in> rx_lang (RSeqs rs))"
    by (simp only: RSeqs.simps rx_lang.simps mem_Collect_eq) blast
  then show ?thesis by simp
qed

lemma star_In: "u \<in> rx_star (rx_lang (RIn cs)) \<longleftrightarrow> set u \<subseteq> set cs"
proof
  assume "u \<in> rx_star (rx_lang (RIn cs))"
  then show "set u \<subseteq> set cs" by (induction rule: rx_star.induct) auto
next
  show "set u \<subseteq> set cs \<Longrightarrow> u \<in> rx_star (rx_lang (RIn cs))"
  proof (induction u)
    case (Cons c u)
    then have "[c] @ u \<in> rx_star (rx_lang (RIn cs))" by (intro star_app) auto
    then show ?case by simp
  qed (simp add: star_nil)
qed

lemma RPlus_In: "u \<in> rx_lang (RPlus (RIn cs)) \<longleftrightarrow> u \<noteq> [] \<and> set u \<subseteq> set cs"
proof -
  have "u \<in> rx_lang (RPlus (RIn cs)) \<longleftrightarrow> (\<exists>c b. u = c # b \<and> c \<in> set cs \<and> b \<in> rx_star (rx_lang (RIn cs)))"
  proof -
    have "u \<in> rx_lang (RPlus (RIn cs)) \<longleftrightarrow>
        (\<exists>c b. u = [c] @ b \<and> c \<in> set cs \<and> b \<in> rx_star (rx_lang (RIn cs)))"
      unfolding RPlus_lang by (simp only: rx_lang.simps mem_Collect_eq) blast
    then show ?thesis by simp
  qed
  then show ?thesis unfolding star_In by (cases u) auto
qed

lemma RSeqs_classes:
  "u \<in> rx_lang (RSeqs (map RIn css @ rs)) \<longleftrightarrow>
     (\<exists>v w. u = v @ w \<and> list_all2 (\<lambda>c cs. c \<in> set cs) v css \<and> w \<in> rx_lang (RSeqs rs))"
proof (induction css arbitrary: u)
  case (Cons cs css)
  have "u \<in> rx_lang (RSeqs (map RIn (cs # css) @ rs)) \<longleftrightarrow>
     (\<exists>c v. u = c # v \<and> c \<in> set cs \<and> (\<exists>v' w. v = v' @ w \<and> list_all2 (\<lambda>c cs. c \<in> set cs) v' css \<and> w \<in> rx_lang (RSeqs rs)))"
    by (simp only: list.map(2) append_Cons RSeqs_In Cons.IH)
  also have "\<dots> \<longleftrightarrow> (\<exists>v w. u = v @ w \<and> list_all2 (\<lambda>c cs. c \<in> set cs) v (cs # css) \<and> w \<in> rx_lang (RSeqs rs))"
    by (simp only: list_all2_Cons2) (metis append_Cons)
  finally show ?case .
qed auto

lemma classes_then_white:
  "regexec (From (RSeqs (map RIn css @ [RPlus (RIn WHITE_STR)]))) line \<longleftrightarrow>
     (\<exists>v c t. line = v @ c # t \<and> list_all2 (\<lambda>c cs. c \<in> set cs) v css \<and> is_white c)"
    (is "?L = ?R")
proof
  assume ?L
  then obtain v w s where h: "line = (v @ w) @ s" "list_all2 (\<lambda>c cs. c \<in> set cs) v css"
      "w \<noteq> []" "set w \<subseteq> set WHITE_STR"
    unfolding regexec_iff pattern_matches.simps RSeqs_classes by (auto simp: RPlus_In)
  then obtain c w' where "w = c # w'" by (cases w) auto
  with h have "line = v @ c # (w' @ s) \<and> list_all2 (\<lambda>c cs. c \<in> set cs) v css \<and> is_white c"
    by (auto simp: is_white_def)
  then show ?R by blast
next
  assume ?R
  then obtain v c t where h: "line = v @ c # t" "list_all2 (\<lambda>c cs. c \<in> set cs) v css" "is_white c"
    by blast
  then have "v @ [c] \<in> rx_lang (RSeqs (map RIn css @ [RPlus (RIn WHITE_STR)]))"
    unfolding RSeqs_classes
    by (intro exI [of _ v] exI [of _ "[c]"]) (auto simp: RPlus_In is_white_def)
  with h show ?L unfolding regexec_iff pattern_matches.simps
    by (intro exI [of _ "v @ [c]"] exI [of _ t]) simp
qed


subsection \<open>Writing numbers\<close>

definition digit :: "nat \<Rightarrow> char" where
  "digit n = chr (48 + n)"

fun dec :: "nat \<Rightarrow> cstr" where
  "dec n = (if n < 10 then [digit n] else dec (n div 10) @ [digit (n mod 10)])"

declare dec.simps [simp del]

lemma digit_simps [simp]: "n < 10 \<Longrightarrow> is_digit (digit n)" "n < 10 \<Longrightarrow> ord (digit n) = 48 + n"
  by (simp_all add: digit_def is_digit_def)

lemma digits_val_snoc:
  "\<forall>c\<in>set ds. is_digit c \<Longrightarrow> d < 10 \<Longrightarrow> digits_val a (ds @ [digit d]) = 10 * digits_val a ds + d"
  by (induction ds arbitrary: a) simp_all

lemma dec_digits: "c \<in> set (dec n) \<Longrightarrow> is_digit c"
proof (induction n arbitrary: c rule: dec.induct)
  case (1 n)
  then show ?case
    using dec.simps [of n] by (cases "n < 10") auto
qed

lemma digits_val_dec [simp]: "digits_val 0 (dec n) = n"
proof (induction n rule: dec.induct)
  case (1 n)
  show ?case
  proof (cases "n < 10")
    case True
    then show ?thesis by (subst dec.simps) simp
  next
    case False
    with 1 have "digits_val 0 (dec (n div 10)) = n div 10" by simp
    moreover have "digits_val 0 (dec n) = 10 * digits_val 0 (dec (n div 10)) + n mod 10"
      using False by (subst dec.simps) (simp add: digits_val_snoc dec_digits)
    ultimately show ?thesis by simp
  qed
qed

lemma dec_nonempty [simp]: "dec n \<noteq> []"
  by (subst dec.simps) simp

lemma digit_not: "is_digit c \<Longrightarrow> c \<noteq> CHR '':'' \<and> \<not> is_space c \<and> \<not> is_white c \<and> c \<noteq> CHR ''-'' \<and> c \<noteq> CHR ''+''"
  by (auto simp: is_digit_def is_space_def is_white_def WHITE_STR_def ord_def)

lemma dec_word: "is_word (dec n)"
  using dec_digits digit_not by (fastforce simp: is_word_def)

lemma scan_d_digits:
  assumes "ds \<noteq> []" and "\<forall>c\<in>set ds. is_digit c" and "length ds \<le> w"
    and "t = [] \<or> \<not> is_digit (hd t)" and "digits_val 0 ds \<le> 2147483647"
  shows "scan_d w (ds @ t) = Inr (int (digits_val 0 ds), t)"
proof -
  obtain d ds' where ds: "ds = d # ds'" using assms(1) by (cases ds) auto
  with assms(2) digit_not have d: "\<not> is_space d" "d \<noteq> CHR ''-''" "d \<noteq> CHR ''+''" by auto
  have "takeWhile is_digit (ds @ t) = ds"
    using assms(2,4) by (cases t) (auto simp: takeWhile_append)
  moreover have "dropWhile is_space (ds @ t) = ds @ t" using d ds by simp
  ultimately show ?thesis
    using d assms ds by (auto simp: scan_d_def Let_def INT_MAX_def)
qed

definition two_digits :: "nat \<Rightarrow> cstr" where
  "two_digits n = [digit (n div 10), digit (n mod 10)]"

lemma two_digits_val: "n < 100 \<Longrightarrow> digits_val 0 (two_digits n) = n"
  by (simp add: two_digits_def)


subsection \<open>Putting matches together\<close>

lemma star_NotIn: "u \<in> rx_star (rx_lang (RNotIn cs)) \<longleftrightarrow> set u \<inter> set cs = {}"
proof
  assume "u \<in> rx_star (rx_lang (RNotIn cs))"
  then show "set u \<inter> set cs = {}" by (induction rule: rx_star.induct) auto
next
  show "set u \<inter> set cs = {} \<Longrightarrow> u \<in> rx_star (rx_lang (RNotIn cs))"
  proof (induction u)
    case (Cons c u)
    then have "[c] @ u \<in> rx_star (rx_lang (RNotIn cs))" by (intro star_app) auto
    then show ?case by simp
  qed (simp add: star_nil)
qed

lemma RPlus_NotIn: "u \<noteq> [] \<Longrightarrow> set u \<inter> set cs = {} \<Longrightarrow> u \<in> rx_lang (RPlus (RNotIn cs))"
proof -
  assume u: "u \<noteq> []" "set u \<inter> set cs = {}"
  then obtain c v where "u = [c] @ v" by (cases u) auto
  with u have "u = [c] @ v \<and> [c] \<in> rx_lang (RNotIn cs) \<and> v \<in> rx_star (rx_lang (RNotIn cs))"
    unfolding star_NotIn by auto
  then show ?thesis unfolding RPlus_lang by blast
qed

lemma RSeqs_append: "u \<in> rx_lang r \<Longrightarrow> v \<in> rx_lang (RSeqs rs) \<Longrightarrow> u @ v \<in> rx_lang (RSeqs (r # rs))"
  by auto

lemma RSeqs_last: "u \<in> rx_lang (RSeqs (rs @ [RIn [c]])) \<Longrightarrow> u \<noteq> [] \<and> last u = c"
proof (induction rs arbitrary: u)
  case (Cons r rs)
  then obtain v w where "u = v @ w" "w \<in> rx_lang (RSeqs (rs @ [RIn [c]]))" by auto
  with Cons.IH show ?case by auto
qed auto

lemma digit_in: "is_digit c \<Longrightarrow> c \<in> set ''0123456789''"
proof -
  assume d: "is_digit c"
  then have "ord c \<in> set [48..<58]" unfolding is_digit_def set_upt atLeastLessThan_iff by linarith
  then have "chr (ord c) \<in> set (map chr [48..<58])" by (auto simp only: set_map)
  moreover have "map chr [48..<58] = ''0123456789''" by code_simp
  ultimately show ?thesis by simp
qed

end
