(* ===== verification/ListingStorage.thy ===== *)
theory ListingStorage
  imports ListingBase
begin

section \<open>The store of parsed entries\<close>

text \<open>
  Models \<open>archie/anonftp/parse/storage.c\<close>: entries are allocated one after the other in
  blocks of \<open>NELTS\<close>, numbered from 0 and freed all at once.  A pointer to an entry is the
  number of its block and the position in it; blocks are numbered in the order \<open>malloc\<close>
  returns them and a number is never used again, so that a pointer into a freed block is
  recognised.  An entry that is not allocated, or not yet cleared, is \<open>None\<close> in the memory.
  \<open>malloc\<close> does not fail here.
\<close>

type_synonym elt_ptr = "nat \<times> nat"

definition NELTS :: nat where
  "NELTS = 512"

record storage =
  hd_elts_per_blk :: nat
  hd_elt_size :: nat
  hd_curr_elt :: int
  hd_total_elts :: int
  hd_next_elt :: "elt_ptr option"
  hd_first :: nat                 \<comment> \<open>number of the first block\<close>
  hd_blocks :: nat                \<comment> \<open>how many blocks are linked from it\<close>
  blk_fresh :: nat                \<comment> \<open>number the next block gets\<close>
  elt_mem :: "elt_ptr \<rightharpoonup> Pars_ent_holder"
  curr_blk :: "nat option"
  curr_mem :: "elt_ptr option"

definition no_storage :: storage where
  \<comment> \<open>the static variables when the program starts\<close>
  "no_storage = \<lparr>hd_elts_per_blk = 0, hd_elt_size = 0, hd_curr_elt = 0, hd_total_elts = 0,
     hd_next_elt = None, hd_first = 0, hd_blocks = 0, blk_fresh = 0, elt_mem = Map.empty,
     curr_blk = None, curr_mem = None\<rparr>"

subsection \<open>Operations\<close>

definition free_elts :: "storage \<Rightarrow> storage" where
  "free_elts h = h\<lparr>hd_total_elts := 0, hd_elts_per_blk := 0, hd_elt_size := 0,
     hd_curr_elt := - 1, hd_next_elt := None, hd_blocks := 0, elt_mem := Map.empty\<rparr>"

definition elt_num :: "storage \<Rightarrow> int" where
  "elt_num h = hd_curr_elt h"

definition new_block :: "storage \<Rightarrow> nat \<times> storage" where
  "new_block h = (blk_fresh h, h\<lparr>blk_fresh := Suc (blk_fresh h)\<rparr>)"

definition new_elt :: "storage \<Rightarrow> (elt_ptr \<times> storage) res" where
  \<comment> \<open>before \<open>set_elt_size\<close> there is no last block to compare with\<close>
  "new_elt h =
     (case hd_next_elt h of
        None \<Rightarrow> Inl Undefined
      | Some p \<Rightarrow>
          let h1 = (if snd p < hd_elts_per_blk h - 1
                    then h\<lparr>hd_next_elt := Some (fst p, Suc (snd p))\<rparr>
                    else let (b, h0) = new_block h
                         in h0\<lparr>hd_next_elt := Some (b, 0), hd_blocks := Suc (hd_blocks h0)\<rparr>)
          in Inr (p, h1\<lparr>hd_curr_elt := hd_curr_elt h + 1, hd_total_elts := hd_total_elts h + 1,
                        elt_mem := (elt_mem h)(p \<mapsto> zero_peh)\<rparr>))"

definition first_elt :: "storage \<Rightarrow> elt_ptr option \<times> storage" where
  "first_elt h =
     (if hd_blocks h = 0 then (None, h)
      else if 0 < hd_total_elts h then
        (Some (hd_first h, 0),
         h\<lparr>curr_blk := Some (hd_first h), curr_mem := Some (hd_first h, 0), hd_curr_elt := 0\<rparr>)
      else (None, h))"

definition next_blk :: "storage \<Rightarrow> nat \<Rightarrow> nat option" where
  \<comment> \<open>the \<open>next\<close> field of a block\<close>
  "next_blk h b = (if Suc b < hd_first h + hd_blocks h then Some (Suc b) else None)"

definition next_elt :: "storage \<Rightarrow> (elt_ptr option \<times> storage) res" where
  "next_elt h =
     (if hd_curr_elt h < hd_total_elts h - 1 then
        (case (curr_blk h, curr_mem h) of
           (Some b, Some p) \<Rightarrow>
             if p \<noteq> (b, hd_elts_per_blk h - 1) then
               let q = (fst p, Suc (snd p))
               in Inr (Some q, h\<lparr>hd_curr_elt := hd_curr_elt h + 1, curr_mem := Some q\<rparr>)
             else (case next_blk h b of
                 None \<Rightarrow> Inr (None, h\<lparr>curr_blk := None\<rparr>)
               | Some c \<Rightarrow> Inr (Some (c, 0), h\<lparr>curr_blk := Some c, hd_curr_elt := hd_curr_elt h + 1,
                                                curr_mem := Some (c, 0)\<rparr>))
         | _ \<Rightarrow> Inl Undefined)
      else Inr (None, h))"

definition set_elt_size :: "nat \<Rightarrow> storage \<Rightarrow> storage res" where
  "set_elt_size sz h =
     (if hd_elt_size h \<noteq> 0 then Inl Rejected
      else let (b, h0) = new_block h
           in Inr (h0\<lparr>hd_elt_size := sz, hd_elts_per_blk := NELTS, hd_total_elts := 0,
                      hd_next_elt := Some (b, 0), hd_first := b, hd_blocks := 1,
                      hd_curr_elt := - 1\<rparr>))"

subsection \<open>What the store holds\<close>

definition slot :: "storage \<Rightarrow> nat \<Rightarrow> elt_ptr" where
  \<comment> \<open>where entry number \<open>k\<close> lies\<close>
  "slot h k = (hd_first h + k div NELTS, k mod NELTS)"

text \<open>
  The store holds \<open>n\<close> entries.  One block more than they fill is allocated; \<open>blk_fresh\<close> is
  above all of them.
\<close>

definition store_rep :: "storage \<Rightarrow> nat \<Rightarrow> bool" where
  "store_rep h n \<longleftrightarrow>
     hd_elts_per_blk h = NELTS \<and> hd_elt_size h \<noteq> 0 \<and>
     hd_total_elts h = int n \<and> hd_curr_elt h = int n - 1 \<and>
     hd_next_elt h = Some (slot h n) \<and> hd_blocks h = Suc (n div NELTS) \<and>
     blk_fresh h = hd_first h + hd_blocks h \<and>
     dom (elt_mem h) = slot h ` {..<n}"

lemma slot_inject [simp]: "slot h i = slot h j \<longleftrightarrow> i = j"
proof -
  have "i = j" if "i div NELTS = j div NELTS" "i mod NELTS = j mod NELTS"
  proof -
    have "i = i div NELTS * NELTS + i mod NELTS" by (simp only: div_mult_mod_eq)
    also have "\<dots> = j div NELTS * NELTS + j mod NELTS" by (simp only: that)
    finally show ?thesis by (simp only: div_mult_mod_eq)
  qed
  then show ?thesis by (auto simp: slot_def)
qed

lemma slot_cong: "hd_first h' = hd_first h \<Longrightarrow> slot h' = slot h"
  by (simp add: slot_def fun_eq_iff)

lemma slot_Suc:
  "slot h (Suc n) =
     (if snd (slot h n) < NELTS - 1 then (fst (slot h n), Suc (snd (slot h n)))
      else (hd_first h + Suc (n div NELTS), 0))"
  by (auto simp: slot_def NELTS_def div_Suc mod_Suc)

lemma div_Suc_NELTS: "Suc n div NELTS = (if n mod NELTS < NELTS - 1 then n div NELTS else Suc (n div NELTS))"
  by (auto simp: NELTS_def div_Suc mod_Suc)

lemma set_elt_size_rep:
  assumes "hd_elt_size h = 0" and "elt_mem h = Map.empty" and "0 < sz"
  shows "\<exists>h'. set_elt_size sz h = Inr h' \<and> store_rep h' 0"
  using assms by (simp add: set_elt_size_def new_block_def store_rep_def slot_def)

lemma new_elt_rep:
  assumes "store_rep h n"
  shows "\<exists>h'. new_elt h = Inr (slot h n, h') \<and> store_rep h' (Suc n) \<and>
           elt_mem h' = (elt_mem h)(slot h n \<mapsto> zero_peh) \<and> hd_first h' = hd_first h"
proof (cases "snd (slot h n) < NELTS - 1")
  case True
  then have m: "n mod NELTS < NELTS - 1" by (simp add: slot_def)
  define h' where "h' = h\<lparr>hd_next_elt := Some (slot h (Suc n)), hd_curr_elt := hd_curr_elt h + 1,
     hd_total_elts := hd_total_elts h + 1, elt_mem := (elt_mem h)(slot h n \<mapsto> zero_peh)\<rparr>"
  have "new_elt h = Inr (slot h n, h')"
    using assms True by (simp add: new_elt_def store_rep_def slot_Suc h'_def Let_def)
  moreover have "slot h' = slot h" by (rule slot_cong) (simp add: h'_def)
  then have "store_rep h' (Suc n)"
    using assms m by (auto simp: store_rep_def h'_def div_Suc_NELTS lessThan_Suc)
  ultimately show ?thesis by (simp add: h'_def)
next
  case False
  then have m: "\<not> n mod NELTS < NELTS - 1" by (simp add: slot_def)
  define h' where "h' = h\<lparr>hd_next_elt := Some (slot h (Suc n)), hd_curr_elt := hd_curr_elt h + 1,
     hd_total_elts := hd_total_elts h + 1, hd_blocks := Suc (hd_blocks h),
     blk_fresh := Suc (blk_fresh h), elt_mem := (elt_mem h)(slot h n \<mapsto> zero_peh)\<rparr>"
  have "new_elt h = Inr (slot h n, h')"
    using assms False by (simp add: new_elt_def new_block_def store_rep_def slot_Suc h'_def Let_def)
  moreover have "slot h' = slot h" by (rule slot_cong) (simp add: h'_def)
  then have "store_rep h' (Suc n)"
    using assms m by (auto simp: store_rep_def h'_def div_Suc_NELTS lessThan_Suc)
  ultimately show ?thesis by (simp add: h'_def)
qed

text \<open>The position of a walk: entry \<open>k\<close> was the last one returned.\<close>

definition walk_at :: "storage \<Rightarrow> storage \<Rightarrow> nat \<Rightarrow> bool" where
  "walk_at h0 h k \<longleftrightarrow>
     h = h0\<lparr>hd_curr_elt := int k, curr_blk := Some (fst (slot h0 k)), curr_mem := Some (slot h0 k)\<rparr>"

lemma first_elt_walk:
  assumes "store_rep h n" and "0 < n"
  shows "\<exists>h'. first_elt h = (Some (slot h 0), h') \<and> walk_at h h' 0"
  using assms by (auto simp: first_elt_def store_rep_def walk_at_def slot_def)

lemma next_elt_walk:
  assumes "store_rep h0 n" and "walk_at h0 h k" and "Suc k < n"
  shows "\<exists>h'. next_elt h = Inr (Some (slot h0 (Suc k)), h') \<and> walk_at h0 h' (Suc k)"
proof -
  have rep: "hd_total_elts h0 = int n" "hd_elts_per_blk h0 = NELTS" "hd_blocks h0 = Suc (n div NELTS)"
    using assms(1) by (auto simp: store_rep_def)
  have lt: "k mod NELTS < NELTS" by (simp add: NELTS_def)
  show ?thesis
  proof (cases "snd (slot h0 k) < NELTS - 1")
    case True
    then have "slot h0 k \<noteq> (fst (slot h0 k), NELTS - 1)" by (metis less_irrefl snd_conv)
    with True assms(2,3) rep show ?thesis
      by (auto simp: next_elt_def walk_at_def slot_Suc Let_def)
  next
    case False
    with lt have m: "k mod NELTS = NELTS - 1" by (simp add: slot_def)
    have "Suc (k div NELTS) \<le> n div NELTS"
    proof -
      have "Suc k div NELTS = Suc (k div NELTS)" using m by (simp add: div_Suc_NELTS)
      then show ?thesis using assms(3) by (metis div_le_mono less_imp_le_nat)
    qed
    then have "next_blk h (hd_first h0 + k div NELTS) = Some (Suc (hd_first h0 + k div NELTS))"
      using assms(2) rep by (simp add: next_blk_def walk_at_def)
    moreover have "slot h0 (Suc k) = (hd_first h0 + Suc (k div NELTS), 0)"
      using False by (simp add: slot_Suc)
    moreover have "slot h0 k = (hd_first h0 + k div NELTS, NELTS - 1)" using m by (simp add: slot_def)
    ultimately show ?thesis
      using assms(2,3) rep by (auto simp: next_elt_def walk_at_def Let_def)
  qed
qed

lemma next_elt_end:
  assumes "store_rep h0 n" and "walk_at h0 h k" and "Suc k = n"
  shows "next_elt h = Inr (None, h)"
  using assms by (auto simp: next_elt_def walk_at_def store_rep_def)

text \<open>The loop around \<open>first_elt\<close> and \<open>next_elt\<close>, as a list of the entries it visits.\<close>

fun walk_from :: "nat \<Rightarrow> storage \<Rightarrow> elt_ptr list option" where
  "walk_from 0 h = None"
| "walk_from (Suc fuel) h =
     (case next_elt h of
        Inl e \<Rightarrow> None
      | Inr (None, h') \<Rightarrow> Some []
      | Inr (Some p, h') \<Rightarrow> map_option ((#) p) (walk_from fuel h'))"

definition walk :: "nat \<Rightarrow> storage \<Rightarrow> elt_ptr list option" where
  "walk fuel h =
     (case first_elt h of (None, h') \<Rightarrow> Some [] | (Some p, h') \<Rightarrow> map_option ((#) p) (walk_from fuel h'))"

lemma walk_from_rep:
  assumes "store_rep h0 n" and "walk_at h0 h k" and "k < n" and "n - k \<le> fuel"
  shows "walk_from fuel h = Some (map (slot h0) [Suc k..<n])"
  using assms(2-4)
proof (induction fuel arbitrary: h k)
  case (Suc fuel)
  show ?case
  proof (cases "Suc k = n")
    case True
    with next_elt_end [OF assms(1) Suc.prems(1)] show ?thesis by simp
  next
    case False
    then obtain h' where h': "next_elt h = Inr (Some (slot h0 (Suc k)), h')" "walk_at h0 h' (Suc k)"
      using next_elt_walk [OF assms(1) Suc.prems(1)] Suc.prems(2) by auto
    have "[Suc k..<n] = Suc k # [Suc (Suc k)..<n]" using False Suc.prems(2) by (simp add: upt_conv_Cons)
    with Suc.IH [OF h'(2)] Suc.prems False h'(1) show ?thesis by simp
  qed
qed simp

text \<open>
  C13. The store hands out distinct entries, numbered in order, and clears each; setting the
  element size starts an empty store, once; and a walk from \<open>first_elt\<close> by \<open>next_elt\<close> visits
  exactly the allocated entries in the order of their allocation, across block boundaries.
\<close>

theorem storage_in_order:
  assumes "store_rep h n" and "n \<le> fuel"
  shows "(\<exists>h'. new_elt h = Inr (slot h n, h') \<and> store_rep h' (Suc n) \<and> slot h' = slot h \<and>
               elt_num h' = int n \<and> slot h n \<notin> dom (elt_mem h) \<and>
               elt_mem h' = (elt_mem h)(slot h n \<mapsto> zero_peh)) \<and>
         walk fuel h = Some (map (slot h) [0..<n]) \<and>
         set_elt_size sz h = Inl Rejected"
proof (intro conjI)
  obtain h' where h': "new_elt h = Inr (slot h n, h')" "store_rep h' (Suc n)"
    "elt_mem h' = (elt_mem h)(slot h n \<mapsto> zero_peh)" "hd_first h' = hd_first h"
    using new_elt_rep [OF assms(1)] by blast
  then show "\<exists>h'. new_elt h = Inr (slot h n, h') \<and> store_rep h' (Suc n) \<and> slot h' = slot h \<and>
      elt_num h' = int n \<and> slot h n \<notin> dom (elt_mem h) \<and> elt_mem h' = (elt_mem h)(slot h n \<mapsto> zero_peh)"
    using assms(1) slot_cong [OF h'(4)] by (auto simp: store_rep_def elt_num_def)
  show "walk fuel h = Some (map (slot h) [0..<n])"
  proof (cases "n = 0")
    case True
    with assms(1) show ?thesis by (simp add: walk_def first_elt_def store_rep_def)
  next
    case False
    then obtain h' where "first_elt h = (Some (slot h 0), h')" "walk_at h h' 0"
      using first_elt_walk [OF assms(1)] by auto
    moreover have "[0..<n] = 0 # [Suc 0..<n]" using False by (simp add: upt_conv_Cons)
    ultimately show ?thesis
      using walk_from_rep [OF assms(1)] assms(2) False by (simp add: walk_def)
  qed
  show "set_elt_size sz h = Inl Rejected"
    using assms(1) by (simp add: set_elt_size_def store_rep_def)
qed

theorem storage_in_order_witness:
  "\<exists>h. res_bind (set_elt_size 40 no_storage) (\<lambda>h0. res_bind (new_elt h0) (\<lambda>(_, h1).
         res_bind (new_elt h1) (\<lambda>(_, h2). Inr h2))) = Inr h \<and>
       walk 5 h = Some [(0, 0), (0, 1)] \<and> set_elt_size 40 h = Inl Rejected"
proof -
  obtain h0 where h0: "set_elt_size 40 no_storage = Inr h0" "store_rep h0 0"
    using set_elt_size_rep [of no_storage 40] by (auto simp: no_storage_def)
  obtain h1 where h1: "new_elt h0 = Inr (slot h0 0, h1)" "store_rep h1 1" "hd_first h1 = hd_first h0"
    using new_elt_rep [OF h0(2)] by auto
  obtain h2 where h2: "new_elt h1 = Inr (slot h1 1, h2)" "store_rep h2 2" "hd_first h2 = hd_first h1"
    using new_elt_rep [OF h1(2)] by (auto simp: numeral_2_eq_2)
  have "hd_first h0 = 0"
    using h0(1) by (auto simp: set_elt_size_def no_storage_def new_block_def)
  with h1 h2 have "map (slot h2) [0..<2] = [(0, 0), (0, 1)]"
    by (simp add: slot_def NELTS_def numeral_2_eq_2)
  with storage_in_order [OF h2(2), of 5 40] h0(1) h1(1) h2(1) show ?thesis by simp
qed

end
