(* ===== verification/ListingQueue.thy ===== *)
theory ListingQueue
  imports ListingStorage
begin

section \<open>The directory queues of the listing parser\<close>

text \<open>
  Models \<open>archie/anonftp/parse/queue.c\<close> and \<open>info_cell.c\<close>.  Every directory on the
  parser's stack owns a queue of the subdirectories whose listings are still to come.  The
  code keeps a queue as a doubly linked list of heap cells; here the heap is a map from
  addresses to cells, a null pointer is \<open>None\<close>, and an operation that would follow a dangling
  pointer is \<open>None\<close> as a whole.  The names of the two links are the source's: \<open>qprev\<close> points
  from the older element to the newer one, \<open>qnext\<close> back.

  \<open>queue_rep\<close> says which list of cells a queue holds, oldest first; the locale \<open>fifo\<close> states
  what the stack and the parser rely on, and the interpretation \<open>lq\<close> discharges it for
  the linked cells.
\<close>

subsection \<open>Cells\<close>

record info_cell =
  ic_name :: cstr
  ic_idx :: int
  ic_addr :: "elt_ptr option"

definition new_Info_cell :: "cstr \<Rightarrow> info_cell" where
  "new_Info_cell str = \<lparr>ic_name = str, ic_idx = 0, ic_addr = None\<rparr>"

record Queue_elt =
  ident :: "info_cell option"
  qnext :: "nat option"
  qprev :: "nat option"

record queue_t =
  cells :: "nat \<rightharpoonup> Queue_elt"
  qhead :: "nat option"
  qtail :: "nat option"

definition empty_queue_t :: queue_t where
  "empty_queue_t = \<lparr>cells = Map.empty, qhead = None, qtail = None\<rparr>"

subsection \<open>Operations\<close>

text \<open>
  \<open>a\<close> is the address \<open>malloc\<close> returns, a free one; the allocation itself is not modelled
  as failing.
\<close>

definition new_Queue_elt :: "nat \<Rightarrow> cstr \<Rightarrow> queue_t \<Rightarrow> queue_t" where
  "new_Queue_elt a s q =
     q\<lparr>cells := (cells q)(a \<mapsto> \<lparr>ident = Some (new_Info_cell s), qnext = None, qprev = None\<rparr>)\<rparr>"

definition dispose_Queue_elt :: "nat \<Rightarrow> queue_t \<Rightarrow> queue_t option" where
  "dispose_Queue_elt a q =
     (case cells q a of None \<Rightarrow> None | Some e \<Rightarrow> Some (q\<lparr>cells := (cells q)(a := None)\<rparr>))"

definition addq :: "nat \<Rightarrow> queue_t \<Rightarrow> queue_t option" where
  "addq nqe q =
     (case cells q nqe of
        None \<Rightarrow> None
      | Some e \<Rightarrow>
          let h = (cells q)(nqe \<mapsto> e\<lparr>qnext := qtail q, qprev := None\<rparr>);
              head' = (if qhead q = None then Some nqe else qhead q)
          in case qtail q of
               None \<Rightarrow> Some (q\<lparr>cells := h, qtail := Some nqe, qhead := head'\<rparr>)
             | Some t \<Rightarrow>
                 (case h t of
                    None \<Rightarrow> None
                  | Some te \<Rightarrow> Some (q\<lparr>cells := h(t \<mapsto> te\<lparr>qprev := Some nqe\<rparr>),
                                        qtail := Some nqe, qhead := head'\<rparr>)))"

definition empty_queue :: "queue_t option \<Rightarrow> bool" where
  \<comment> \<open>the argument is null once the stack has been popped empty\<close>
  "empty_queue s = (case s of None \<Rightarrow> False | Some q \<Rightarrow> qhead q = None)"

definition remq :: "queue_t \<Rightarrow> (nat option \<times> queue_t) option" where
  "remq q =
     (case qhead q of
        None \<Rightarrow> Some (None, q)
      | Some a \<Rightarrow>
          (case cells q a of
             None \<Rightarrow> None
           | Some e \<Rightarrow>
               (case qprev e of
                  None \<Rightarrow>
                    Some (Some a, q\<lparr>cells := (cells q)(a \<mapsto> e\<lparr>qprev := None\<rparr>),
                                   qhead := None, qtail := None\<rparr>)
                | Some p \<Rightarrow>
                    (case cells q p of
                       None \<Rightarrow> None
                     | Some pe \<Rightarrow>
                         let h = (cells q)(p \<mapsto> pe\<lparr>qnext := None\<rparr>)
                         in Some (Some a, q\<lparr>cells := h(a \<mapsto> (the (h a))\<lparr>qprev := None\<rparr>),
                                          qhead := Some p\<rparr>)))))"

subsection \<open>The list a queue holds\<close>

fun linked :: "(nat \<rightharpoonup> Queue_elt) \<Rightarrow> nat option \<Rightarrow> nat list \<Rightarrow> bool" where
  "linked h older [] = True"
| "linked h older (a # as) =
     ((\<exists>e. h a = Some e \<and> qnext e = older \<and> qprev e = (case as of [] \<Rightarrow> None | b # _ \<Rightarrow> Some b)) \<and>
      linked h (Some a) as)"

definition queue_rep :: "queue_t \<Rightarrow> nat list \<Rightarrow> bool" where
  "queue_rep q as \<longleftrightarrow>
     distinct as \<and> linked (cells q) None as \<and>
     qhead q = (case as of [] \<Rightarrow> None | a # _ \<Rightarrow> Some a) \<and>
     qtail q = (if as = [] then None else Some (last as))"

lemma linked_cong: "(\<And>a. a \<in> set as \<Longrightarrow> h a = h' a) \<Longrightarrow> linked h older as = linked h' older as"
  by (induction as arbitrary: older) auto

lemma linked_allocated: "linked h older as \<Longrightarrow> a \<in> set as \<Longrightarrow> \<exists>e. h a = Some e"
  by (induction as arbitrary: older) auto

lemma linked_extend:
  assumes "linked h older (bs @ [t])" and "distinct (bs @ [t])" and "n \<notin> set (bs @ [t])"
    and "h t = Some te"
  shows "linked (h(n \<mapsto> e\<lparr>qnext := Some t, qprev := None\<rparr>, t \<mapsto> te\<lparr>qprev := Some n\<rparr>)) older (bs @ [t, n])"
  using assms(1-3)
proof (induction bs arbitrary: older)
  case Nil
  with assms(4) show ?case by auto
next
  case (Cons b bs)
  then show ?case by (cases bs) auto
qed

definition same_cells :: "queue_t \<Rightarrow> queue_t \<Rightarrow> bool" where
  \<comment> \<open>the same cells are allocated, with the same identities\<close>
  "same_cells q q' = (\<forall>a. map_option ident (cells q' a) = map_option ident (cells q a))"

lemma addq_rep:
  assumes "queue_rep q as" and "n \<notin> set as" and "cells q n = Some e"
  shows "\<exists>q'. addq n q = Some q' \<and> queue_rep q' (as @ [n]) \<and> same_cells q q'"
proof (cases as rule: rev_cases)
  case Nil
  with assms show ?thesis
    by (auto simp: addq_def queue_rep_def same_cells_def Let_def)
next
  case (snoc bs t)
  from assms(1) have rep: "distinct (bs @ [t])" "linked (cells q) None (bs @ [t])"
    "qtail q = Some t" "qhead q = (case bs @ [t] of [] \<Rightarrow> None | a # _ \<Rightarrow> Some a)"
    by (auto simp: queue_rep_def snoc)
  obtain te where te: "cells q t = Some te"
    using linked_allocated [OF rep(2)] by auto
  let ?h = "(cells q)(n \<mapsto> e\<lparr>qnext := Some t, qprev := None\<rparr>, t \<mapsto> te\<lparr>qprev := Some n\<rparr>)"
  have nt: "n \<noteq> t" "n \<notin> set (bs @ [t])" using assms(2) by (auto simp: snoc)
  have "linked ?h None (bs @ [t, n])"
    by (rule linked_extend [OF rep(2,1) nt(2) te])
  moreover have "addq n q = Some (q\<lparr>cells := ?h, qtail := Some n, qhead := qhead q\<rparr>)"
    using assms(3) te nt(1) rep(3,4) by (cases bs) (auto simp: addq_def Let_def)
  ultimately show ?thesis
    using rep assms(2,3) te nt by (cases bs) (auto simp: queue_rep_def snoc same_cells_def)
qed

lemma remq_rep_empty: "queue_rep q [] \<Longrightarrow> remq q = Some (None, q)"
  by (simp add: queue_rep_def remq_def)

lemma remq_rep:
  assumes "queue_rep q (a # as)"
  shows "\<exists>q'. remq q = Some (Some a, q') \<and> queue_rep q' as \<and> same_cells q q'"
proof -
  from assms obtain e where e: "cells q a = Some e" "qprev e = (case as of [] \<Rightarrow> None | b # _ \<Rightarrow> Some b)"
    and rep: "a \<notin> set as" "distinct as" "linked (cells q) (Some a) as" "qhead q = Some a"
      "qtail q = Some (last (a # as))"
    by (auto simp: queue_rep_def)
  show ?thesis
  proof (cases as)
    case Nil
    with e rep show ?thesis by (auto simp: remq_def queue_rep_def same_cells_def)
  next
    case (Cons p ps)
    with rep(3) obtain pe where pe: "cells q p = Some pe"
      "qprev pe = (case ps of [] \<Rightarrow> None | b # _ \<Rightarrow> Some b)" "linked (cells q) (Some p) ps"
      by auto
    let ?h = "(cells q)(p \<mapsto> pe\<lparr>qnext := None\<rparr>, a \<mapsto> e\<lparr>qprev := None\<rparr>)"
    have "linked ?h (Some p) ps"
      using pe(3) rep(1,2) Cons by (subst linked_cong [of _ _ "cells q"]) auto
    moreover have "a \<noteq> p" using rep(1) Cons by auto
    ultimately have "linked ?h None as" using pe Cons by simp
    moreover have "remq q = Some (Some a, q\<lparr>cells := ?h, qhead := Some p\<rparr>)"
      using e rep(4) pe(1) Cons \<open>a \<noteq> p\<close> by (simp add: remq_def Let_def)
    ultimately show ?thesis
      using rep e pe Cons by (auto simp: queue_rep_def same_cells_def)
  qed
qed

subsection \<open>The interface\<close>

text \<open>
  What a client may assume of a queue: \<open>rep\<close> relates a queue to the list of its elements;
  \<open>fresh\<close> says that an element can be added.
\<close>

locale fifo =
  fixes add :: "'a \<Rightarrow> 'q \<Rightarrow> 'q option"
    and rem :: "'q \<Rightarrow> ('a option \<times> 'q) option"
    and is_empty :: "'q \<Rightarrow> bool"
    and rep :: "'q \<Rightarrow> 'a list \<Rightarrow> bool"
    and fresh :: "'q \<Rightarrow> 'a \<Rightarrow> bool"
  assumes add_law: "rep q xs \<Longrightarrow> fresh q x \<Longrightarrow> x \<notin> set xs \<Longrightarrow>
      \<exists>q'. add x q = Some q' \<and> rep q' (xs @ [x]) \<and> fresh q' = fresh q"
    and rem_law: "rep q (x # xs) \<Longrightarrow> \<exists>q'. rem q = Some (Some x, q') \<and> rep q' xs \<and> fresh q' = fresh q"
    and rem_empty_law: "rep q [] \<Longrightarrow> rem q = Some (None, q)"
    and is_empty_law: "rep q xs \<Longrightarrow> is_empty q \<longleftrightarrow> xs = []"
begin

fun add_all :: "'a list \<Rightarrow> 'q \<Rightarrow> 'q option" where
  "add_all [] q = Some q"
| "add_all (x # xs) q = (case add x q of None \<Rightarrow> None | Some q' \<Rightarrow> add_all xs q')"

fun drain :: "nat \<Rightarrow> 'q \<Rightarrow> ('a list \<times> 'q) option" where
  \<comment> \<open>\<open>while (!is_empty(q)) rem(q)\<close>, at most \<open>n\<close> times\<close>
  "drain 0 q = (if is_empty q then Some ([], q) else None)"
| "drain (Suc n) q =
     (if is_empty q then Some ([], q)
      else case rem q of
        Some (Some x, q') \<Rightarrow> map_option (\<lambda>(xs, r). (x # xs, r)) (drain n q')
      | _ \<Rightarrow> None)"

lemma add_all_rep:
  assumes "rep q xs" and "distinct (xs @ ys)" and "\<forall>y\<in>set ys. fresh q y"
  shows "\<exists>q'. add_all ys q = Some q' \<and> rep q' (xs @ ys)"
  using assms
proof (induction ys arbitrary: q xs)
  case (Cons y ys)
  then obtain q1 where q1: "add y q = Some q1" "rep q1 (xs @ [y])" "fresh q1 = fresh q"
    using add_law [of q xs y] by auto
  with Cons.prems Cons.IH [of q1 "xs @ [y]"] show ?case by auto
qed simp

lemma drain_rep:
  assumes "rep q xs" and "length xs \<le> n"
  shows "\<exists>q'. drain n q = Some (xs, q') \<and> rep q' []"
  using assms
proof (induction n arbitrary: q xs)
  case 0
  then show ?case using is_empty_law by auto
next
  case (Suc n)
  show ?case
  proof (cases xs)
    case Nil
    with Suc.prems is_empty_law show ?thesis by auto
  next
    case (Cons y ys)
    with Suc.prems obtain q1 where "rem q = Some (Some y, q1)" "rep q1 ys"
      using rem_law by blast
    with Suc.IH [of q1 ys] Suc.prems Cons is_empty_law show ?thesis by fastforce
  qed
qed

lemma first_in_first_out:
  assumes "rep q []" and "distinct ys" and "\<forall>y\<in>set ys. fresh q y"
  shows "\<exists>q1 q2. add_all ys q = Some q1 \<and> drain (length ys) q1 = Some (ys, q2) \<and> rep q2 []"
  using add_all_rep [of q "[]" ys] drain_rep [of _ ys "length ys"] assms by fastforce

end

definition allocated :: "queue_t \<Rightarrow> nat \<Rightarrow> bool" where
  "allocated q a = (cells q a \<noteq> None)"

lemma same_cells_allocated: "same_cells q q' \<Longrightarrow> allocated q' = allocated q"
  unfolding same_cells_def allocated_def by (metis map_option_is_None)

interpretation lq: fifo addq remq "\<lambda>q. empty_queue (Some q)" queue_rep allocated
proof (unfold_locales, goal_cases)
  case (1 q xs x)
  then obtain e where "cells q x = Some e" by (auto simp: allocated_def)
  with addq_rep [OF 1(1) 1(3)] show ?case by (auto dest: same_cells_allocated)
next
  case (2 q x xs)
  then show ?case using remq_rep by (blast dest: same_cells_allocated)
next
  case (3 q)
  then show ?case by (rule remq_rep_empty)
next
  case (4 q xs)
  then show ?case by (auto simp: empty_queue_def queue_rep_def split: list.splits)
qed

text \<open>
  C16. A queue holds a list of subdirectories: \<open>addq\<close> appends a cell to it, \<open>remq\<close> takes the
  oldest one, and \<open>empty_queue\<close> tells whether there is one; no pointer dangles on the way and
  no operation changes which subdirectory a cell stands for.
\<close>

theorem queue_refines_list:
  assumes "queue_rep q xs"
  shows "(\<forall>n. n \<notin> set xs \<and> allocated q n \<longrightarrow>
            (\<exists>q'. addq n q = Some q' \<and> queue_rep q' (xs @ [n]) \<and> same_cells q q')) \<and>
         (case xs of
            [] \<Rightarrow> empty_queue (Some q) \<and> remq q = Some (None, q)
          | x # ys \<Rightarrow> \<not> empty_queue (Some q) \<and>
              (\<exists>q'. remq q = Some (Some x, q') \<and> queue_rep q' ys \<and> same_cells q q'))"
  using assms addq_rep [OF assms] remq_rep [of q] remq_rep_empty [of q] lq.is_empty_law [OF assms]
  by (cases xs) (auto simp: allocated_def)

definition sample_queue :: queue_t where
  \<comment> \<open>two subdirectories, added in the order 1, 2\<close>
  "sample_queue =
     (case addq 1 (new_Queue_elt 1 ''pub'' empty_queue_t) of
        None \<Rightarrow> empty_queue_t
      | Some q \<Rightarrow> (case addq 2 (new_Queue_elt 2 ''incoming'' q) of None \<Rightarrow> empty_queue_t | Some q' \<Rightarrow> q'))"

theorem queue_refines_list_witness:
  "\<not> empty_queue (Some sample_queue) \<and>
   (\<exists>q'. remq sample_queue = Some (Some 1, q') \<and> queue_rep q' [2] \<and> same_cells sample_queue q')"
proof -
  have "queue_rep sample_queue [1, 2]"
    by (simp add: sample_queue_def new_Queue_elt_def addq_def empty_queue_t_def queue_rep_def Let_def)
  from queue_refines_list [OF this] show ?thesis by simp
qed

end
