(* ===== verification/ListingParser.thy ===== *)
theory ListingParser
  imports ListingQueue
begin

section \<open>The directory stack and the line handlers\<close>

text \<open>
  Models \<open>archie/anonftp/parse/stack.c\<close>, \<open>output.c\<close> and the handlers of \<open>parse.c\<close>
  (\<open>handle_file\<close>, \<open>handle_dir_start\<close>, \<open>check_stack\<close>, \<open>parser_output\<close>).  The parser keeps
  the chain of directories it is in on a stack; each frame has the queue of the
  subdirectories seen in it whose own listings are still to come.  A file line makes an
  entry whose parent is the directory on top, and a directory is queued there as well.  The
  header line of a directory drops the frames whose queues are empty, takes the next
  subdirectory off the queue on top and pushes it, until the names on the stack are the path
  of the header.

  The line routines of a format are the fields of \<open>lformat\<close>; \<open>ps_lead\<close> is the state they
  keep.  Memory is never exhausted here.
\<close>

subsection \<open>State\<close>

record frame =
  fr_ident :: info_cell
  fr_q :: queue_t

record pstate =
  ps_store :: storage
  ps_stack :: "frame list"     \<comment> \<open>top first\<close>
  ps_fresh :: nat              \<comment> \<open>the address the next queue element gets\<close>
  ps_lead :: int               \<comment> \<open>\<open>leading_blanks\<close> of the format\<close>

record lformat =
  lf_type :: "cstr \<Rightarrow> line_type"
  lf_split :: "cstr \<Rightarrow> cstr option \<Rightarrow> (cstr list \<times> cstr) res"
  lf_parse :: "cstr \<Rightarrow> int \<Rightarrow> (cstr \<times> parser_entry \<times> bool) res \<times> int"
  lf_dup :: "cstr \<Rightarrow> cstr res"
  lf_blanks :: "int \<Rightarrow> int \<Rightarrow> int"

text \<open>A handler returns a result or a failure, and in both cases the state it leaves.\<close>

type_synonym 'a act = "pstate \<Rightarrow> 'a res \<times> pstate"

definition act_bind :: "'a act \<Rightarrow> ('a \<Rightarrow> 'b act) \<Rightarrow> 'b act" where
  "act_bind m k s = (case m s of (Inl e, s') \<Rightarrow> (Inl e, s') | (Inr x, s') \<Rightarrow> k x s')"

definition act_res :: "'a res \<Rightarrow> 'a act" where
  "act_res r s = (r, s)"

lemma act_bind_Inr [simp]: "m s = (Inr x, s') \<Longrightarrow> act_bind m k s = k x s'"
  by (simp add: act_bind_def)

lemma act_bind_Inl [simp]: "m s = (Inl e, s') \<Longrightarrow> act_bind m k s = (Inl e, s')"
  by (simp add: act_bind_def)

subsection \<open>The stack\<close>

definition tos :: "pstate \<Rightarrow> frame option" where
  "tos s = (case ps_stack s of [] \<Rightarrow> None | f # _ \<Rightarrow> Some f)"

definition empty_stack :: "pstate \<Rightarrow> bool" where
  "empty_stack s = (ps_stack s = [])"

definition push :: "info_cell \<Rightarrow> pstate \<Rightarrow> pstate" where
  "push ic s = s\<lparr>ps_stack := \<lparr>fr_ident = ic, fr_q = empty_queue_t\<rparr> # ps_stack s\<rparr>"

definition pop :: "pstate \<Rightarrow> pstate option" where
  \<comment> \<open>\<open>None\<close> is a return of 0, which leaves the stack as it is\<close>
  "pop s = (case ps_stack s of
      [] \<Rightarrow> None
    | f # fs \<Rightarrow> if \<not> empty_queue (Some (fr_q f)) then None else Some (s\<lparr>ps_stack := fs\<rparr>))"

fun match_loop :: "frame list \<Rightarrow> cstr list \<Rightarrow> bool" where
  \<comment> \<open>the path from its last component, the stack from its top\<close>
  "match_loop (f # fs) (c # cs) = (if ic_name (fr_ident f) \<noteq> c then False else match_loop fs cs)"
| "match_loop [] [] = True"
| "match_loop _ _ = False"

definition stack_match :: "cstr list \<Rightarrow> pstate \<Rightarrow> bool" where
  "stack_match p s = (if ps_stack s = [] then p = [] else match_loop (ps_stack s) (rev p))"

subsection \<open>Entries and queues of the frame on top\<close>

definition new_entry :: "elt_ptr act" where
  "new_entry s = (case new_elt (ps_store s) of
      Inl e \<Rightarrow> (Inl e, s)
    | Inr (p, h) \<Rightarrow> (Inr p, s\<lparr>ps_store := h\<rparr>))"

definition edit_entry :: "elt_ptr \<Rightarrow> (Pars_ent_holder \<Rightarrow> Pars_ent_holder) \<Rightarrow> unit act" where
  "edit_entry p g s = (case elt_mem (ps_store s) p of
      None \<Rightarrow> (Inl Undefined, s)
    | Some e \<Rightarrow> (Inr (), s\<lparr>ps_store := (ps_store s)\<lparr>elt_mem := (elt_mem (ps_store s))(p \<mapsto> g e)\<rparr>\<rparr>))"

definition edit_core :: "(core_site_entry \<Rightarrow> core_site_entry) \<Rightarrow> Pars_ent_holder \<Rightarrow> Pars_ent_holder" where
  "edit_core g e = e\<lparr>pent := (pent e)\<lparr>pe_core := g (pe_core (pent e))\<rparr>\<rparr>"

definition tos_idx :: "int act" where
  "tos_idx s = (case tos s of None \<Rightarrow> (Inl Undefined, s) | Some f \<Rightarrow> (Inr (ic_idx (fr_ident f)), s))"

text \<open>\<open>qe = new_Queue_elt(s); qe->ident->addr = peh; qe->ident->idx = elt_num(); addq(qe, tos())\<close>\<close>

definition queue_dir :: "cstr \<Rightarrow> elt_ptr \<Rightarrow> unit act" where
  "queue_dir str peh s =
     (case ps_stack s of
        [] \<Rightarrow> (Inl Undefined, s)
      | f # fs \<Rightarrow>
          let a = ps_fresh s;
              q1 = new_Queue_elt a str (fr_q f);
              ic = (new_Info_cell str)\<lparr>ic_idx := elt_num (ps_store s), ic_addr := Some peh\<rparr>;
              q2 = q1\<lparr>cells := (cells q1)(a \<mapsto> (the (cells q1 a))\<lparr>ident := Some ic\<rparr>)\<rparr>
          in case addq a q2 of
               None \<Rightarrow> (Inl Undefined, s)
             | Some q3 \<Rightarrow> (Inr (), s\<lparr>ps_stack := f\<lparr>fr_q := q3\<rparr> # fs, ps_fresh := Suc a\<rparr>))"

subsection \<open>The handlers\<close>

definition parse_file :: "lformat \<Rightarrow> cstr \<Rightarrow> (cstr \<times> parser_entry \<times> bool) act" where
  "parse_file fmt line s = (case lf_parse fmt line (ps_lead s) of (r, lead) \<Rightarrow> (r, s\<lparr>ps_lead := lead\<rparr>))"

definition handle_file :: "lformat \<Rightarrow> cstr \<Rightarrow> unit act" where
  "handle_file fmt line =
     act_bind new_entry (\<lambda>peh.
     act_bind (parse_file fmt line) (\<lambda>(name, pe, is_dir).
     act_bind (edit_entry peh (\<lambda>e. e\<lparr>pent := pe\<rparr>)) (\<lambda>_.
     act_bind
       (if \<not> is_dir then edit_entry peh (edit_core CSE_SET_NON_DIR)
        else act_bind (act_res (lf_dup fmt name)) (\<lambda>str.
             act_bind (edit_entry peh (edit_core CSE_SET_DIR)) (\<lambda>_. queue_dir str peh))) (\<lambda>_.
     act_bind tos_idx (\<lambda>i.
     edit_entry peh (\<lambda>e. (edit_core (\<lambda>c. c\<lparr>ce_parent_idx := i\<rparr>) e)\<lparr>peh_name := Some name\<rparr>))))))"

fun pop_while_empty :: "frame list \<Rightarrow> frame list" where
  \<comment> \<open>\<open>while(empty_queue(tos())) pop()\<close>; \<open>pop\<close> succeeds there\<close>
  "pop_while_empty [] = []"
| "pop_while_empty (f # fs) = (if empty_queue (Some (fr_q f)) then pop_while_empty fs else f # fs)"

fun try_next_dir :: "nat \<Rightarrow> cstr list \<Rightarrow> unit act" where
  "try_next_dir 0 path s = (Inl OutOfFuel, s)"
| "try_next_dir (Suc fuel) path s0 =
     (let s = s0\<lparr>ps_stack := pop_while_empty (ps_stack s0)\<rparr> in
      case ps_stack s of
        [] \<Rightarrow> (Inl Rejected, s)
      | f # fs \<Rightarrow>
          (case remq (fr_q f) of
             None \<Rightarrow> (Inl Undefined, s)
           | Some (None, q) \<Rightarrow> (Inl Rejected, s)
           | Some (Some a, q) \<Rightarrow>
               (case cells q a of
                  None \<Rightarrow> (Inl Undefined, s)
                | Some qe \<Rightarrow>
                    (case ident qe of
                       None \<Rightarrow> (Inl Undefined, s)
                     | Some ic \<Rightarrow>
                         (case dispose_Queue_elt a (q\<lparr>cells := (cells q)(a \<mapsto> qe\<lparr>ident := None\<rparr>)\<rparr>) of
                            None \<Rightarrow> (Inl Undefined, s)
                          | Some q' \<Rightarrow>
                              let s1 = push ic (s\<lparr>ps_stack := f\<lparr>fr_q := q'\<rparr> # fs\<rparr>) in
                              if stack_match path s1 then
                                (case ic_addr ic of
                                   None \<Rightarrow> (Inl Undefined, s1)
                                 | Some p \<Rightarrow>
                                     edit_entry p (edit_core (\<lambda>c. c\<lparr>ce_child_idx := elt_num (ps_store s1) + 1\<rparr>)) s1)
                              else try_next_dir fuel path (case pop s1 of None \<Rightarrow> s1 | Some s2 \<Rightarrow> s2))))))"

text \<open>Each round takes an element off a queue, and no more elements than \<open>ps_fresh\<close> were made.\<close>

definition handle_dir_start :: "lformat \<Rightarrow> cstr \<Rightarrow> cstr option \<Rightarrow> unit act" where
  "handle_dir_start fmt line prep_dir s =
     (case lf_split fmt line prep_dir of
        Inl e \<Rightarrow> (Inl e, s)
      | Inr (path, _) \<Rightarrow> try_next_dir (Suc (ps_fresh s)) path s)"

subsection \<open>The root directory\<close>

definition push_root :: "cstr \<Rightarrow> unit act" where
  "push_root d s = (Inr (), push ((new_Info_cell d)\<lparr>ic_idx := - 1\<rparr>) s)"

text \<open>
  A root of one component is only pushed.  Of a longer root the last component is a
  directory entry of its own, queued in its parent, and pushed on top of it.
\<close>

definition init_last :: "cstr \<Rightarrow> unit act" where
  "init_last d =
     act_bind new_entry (\<lambda>peh.
     act_bind (edit_entry peh (edit_core CSE_SET_DIR)) (\<lambda>_.
     act_bind (queue_dir d peh) (\<lambda>_.
     act_bind tos_idx (\<lambda>i.
     act_bind (edit_entry peh (\<lambda>e. (edit_core (\<lambda>c. c\<lparr>ce_parent_idx := i\<rparr>) e)\<lparr>peh_name := Some d\<rparr>)) (\<lambda>_.
     act_bind (edit_entry peh (\<lambda>e. e\<lparr>pent := (pent e)\<lparr>pe_slen := word_of_nat (length d)\<rparr>\<rparr>)) (\<lambda>_.
     push_root d))))))"

fun init_path :: "nat \<Rightarrow> nat \<Rightarrow> cstr list \<Rightarrow> unit act" where
  "init_path npath i [] = act_res (Inr ())"
| "init_path npath i (d # ds) =
     act_bind (if i \<noteq> npath - 1 \<or> npath = 1 then push_root d else init_last d)
       (\<lambda>_. init_path npath (Suc i) ds)"

definition init_stack :: "lformat \<Rightarrow> cstr \<Rightarrow> unit act" where
  "init_stack fmt root_dir s =
     (if lf_type fmt root_dir \<noteq> L_DIR_START then (Inl Rejected, s)
      else case lf_split fmt root_dir None of
             Inl e \<Rightarrow> (Inl e, s)
           | Inr (path, _) \<Rightarrow> init_path (length path) 0 path s)"

subsection \<open>The end of the listing\<close>

fun drain_queue :: "nat \<Rightarrow> queue_t \<Rightarrow> queue_t res" where
  "drain_queue 0 q = Inl OutOfFuel"
| "drain_queue (Suc fuel) q =
     (if empty_queue (Some q) then Inr q
      else case remq q of
             None \<Rightarrow> Inl Undefined
           | Some (None, _) \<Rightarrow> Inl Rejected
           | Some (Some a, q') \<Rightarrow>
               (case dispose_Queue_elt a q' of
                  None \<Rightarrow> Inl Undefined
                | Some q'' \<Rightarrow> drain_queue fuel q''))"

fun check_frames :: "nat \<Rightarrow> frame list \<Rightarrow> unit res" where
  \<comment> \<open>\<open>pop\<close> a frame; when its queue is not empty, empty it first\<close>
  "check_frames fuel [] = Inr ()"
| "check_frames fuel (f # fs) = res_bind (drain_queue fuel (fr_q f)) (\<lambda>_. check_frames fuel fs)"

definition check_stack :: "unit act" where
  "check_stack s = (case check_frames (Suc (ps_fresh s)) (ps_stack s) of
      Inl e \<Rightarrow> (Inl e, s)
    | Inr _ \<Rightarrow> (Inr (), s\<lparr>ps_stack := []\<rparr>))"

definition PAD :: nat where
  "PAD = 4"

text \<open>
  What is written for an entry: the structure, \<open>slen\<close> characters of the name, and nuls up to
  a multiple of \<open>PAD\<close>.  \<open>fwrite\<close> of no bytes returns 0, which counts as an error.
\<close>

type_synonym chunk = "parser_entry \<times> cstr \<times> cstr"

definition print_core_info :: "parser_entry \<Rightarrow> cstr option \<Rightarrow> chunk res" where
  "print_core_info pe name =
     (case name of
        None \<Rightarrow> Inl Undefined
      | Some n \<Rightarrow>
          let slen = unat (pe_slen pe); npad = slen mod PAD
          in if slen = 0 then Inl Rejected
             else if length n + 1 < slen then Inl Undefined
             else Inr (pe, take slen (n @ [NUL]),
                       if npad \<noteq> 0 then replicate (PAD - npad) NUL else []))"

fun output_loop :: "nat \<Rightarrow> elt_ptr \<Rightarrow> storage \<Rightarrow> (chunk list \<times> storage) res" where
  "output_loop 0 p h = Inl OutOfFuel"
| "output_loop (Suc fuel) p h =
     (case elt_mem h p of
        None \<Rightarrow> Inl Undefined
      | Some peh \<Rightarrow>
          res_bind (print_core_info (pent peh) (peh_name peh)) (\<lambda>c.
          res_bind (next_elt h) (\<lambda>(p', h').
            case p' of
              None \<Rightarrow> Inr ([c], h')
            | Some q \<Rightarrow> res_bind (output_loop fuel q h') (\<lambda>(cs, h''). Inr (c # cs, h'')))))"

definition parser_output :: "chunk list act" where
  "parser_output s =
     (case first_elt (ps_store s) of
        (None, h) \<Rightarrow> (Inl Rejected, s\<lparr>ps_store := h\<rparr>)
      | (Some p, h) \<Rightarrow>
          (case output_loop (nat (hd_total_elts h)) p h of
             Inl e \<Rightarrow> (Inl e, s\<lparr>ps_store := h\<rparr>)
           | Inr (cs, h') \<Rightarrow> (Inr cs, s\<lparr>ps_store := free_elts h'\<rparr>)))"

end
