(* ===== verification/ListingDriver.thy ===== *)
theory ListingDriver
  imports ListingParser
begin

section \<open>The main program of the listing parser\<close>

text \<open>
  Models \<open>main\<close> of \<open>archie/anonftp/parse/parse.c\<close> with \<open>input.c\<close>: the line buffer, the
  search for the root directory, the loop over the lines, and the retries.  When a line cannot
  be handled and the listing is a file, the program starts over: after a file line with fewer
  blanks than expected (\<open>Retry_blanks\<close>), with a root directory made up from a header
  (\<open>Retry_root\<close>), or with the header's directory added to the root as a fake entry.  The
  static variables keep their values from one attempt to the next.

  Options are parsed already; the archie header in front of the listing and the one written
  before the records (\<open>read_header\<close>, \<open>write_header\<close>) are not modelled, the listing is the
  text after the header.  The line buffer is empty before the first read.
\<close>

subsection \<open>State\<close>

record options =
  op_files :: bool            \<comment> \<open>input and output are files, not the standard streams\<close>
  op_prep :: "cstr option"    \<comment> \<open>\<open>-p\<close>\<close>
  op_root :: "cstr option"    \<comment> \<open>\<open>-r\<close>\<close>

record driver =
  dv_p :: pstate
  dv_in :: cstr               \<comment> \<open>the unread input\<close>
  dv_buf :: cstr              \<comment> \<open>\<open>line\<close>\<close>
  dv_off :: nat               \<comment> \<open>\<open>lp - line\<close>\<close>
  dv_orig :: cstr             \<comment> \<open>\<open>origline\<close>\<close>
  dv_state :: line_type
  dv_skip :: bool
  dv_done :: bool
  dv_error :: nat             \<comment> \<open>\<open>parse_error\<close>\<close>
  dv_errors :: nat            \<comment> \<open>\<open>error_seen\<close>\<close>
  dv_files :: nat             \<comment> \<open>\<open>files_seen\<close>\<close>
  dv_blank :: bool            \<comment> \<open>\<open>blank_seen\<close> is not 0\<close>
  dv_retry :: bool
  dv_table :: "cstr list"     \<comment> \<open>the fake entries\<close>
  dv_root :: "cstr option"    \<comment> \<open>\<open>root_dir\<close>\<close>

definition MAX_LINE_LEN :: nat where "MAX_LINE_LEN = 512"
definition LINE_BUF :: nat where "LINE_BUF = 2 * MAX_LINE_LEN + 1"
definition MAX_PATH_LEN :: nat where "MAX_PATH_LEN = 256"
definition MAX_TABLE_SIZE :: nat where "MAX_TABLE_SIZE = 20"
definition MAX_ERROR_NUM :: nat where "MAX_ERROR_NUM = 20"

datatype verdict = Next | Retry_blanks | Retry_root | Crash failure

subsection \<open>Reading lines\<close>

definition get_line :: "driver \<Rightarrow> (bool \<times> driver) res" where
  "get_line d =
     (if dv_skip d then Inr (True, d\<lparr>dv_skip := False\<rparr>)
      else case fgets MAX_LINE_LEN (dv_in d) of
             None \<Rightarrow> Inr (False, d)
           | Some (l, rest) \<Rightarrow>
               if LINE_BUF < dv_off d + length l + 1 then Inl Undefined
               else Inr (True, d\<lparr>dv_buf := take (dv_off d) (dv_buf d) @ nuke_nl l, dv_in := rest\<rparr>))"

definition badline :: "driver \<Rightarrow> driver" where
  "badline d = d\<lparr>dv_error := Suc (dv_error d), dv_done := (dv_done d \<or> 5 < Suc (dv_error d))\<rparr>"

definition give_up :: "driver \<Rightarrow> driver" where
  \<comment> \<open>\<open>parse_error = done = 1\<close>\<close>
  "give_up d = d\<lparr>dv_error := 1, dv_done := True\<rparr>"

subsection \<open>Making up a root directory\<close>

fun last_slash :: "cstr \<Rightarrow> nat \<Rightarrow> nat" where
  \<comment> \<open>\<open>while(t != line && *t != '/') t--\<close>\<close>
  "last_slash line 0 = 0"
| "last_slash line (Suc t) = (if rd line (Suc t) = CHR ''/'' then Suc t else last_slash line t)"

definition build_dir :: "cstr option \<Rightarrow> cstr \<Rightarrow> cstr option res" where
  \<comment> \<open>\<open>strlen\<close> of the prefix when there is none follows a null pointer\<close>
  "build_dir prep_dir line =
     (case strchr line (CHR '':'') of
        None \<Rightarrow> Inr None
      | Some q \<Rightarrow>
          let tmp = length line - length q;
              t = last_slash line tmp;
              t' = (if t = 0 then tmp else t)
          in case prep_dir of
               None \<Rightarrow> Inl Undefined
             | Some p \<Rightarrow> Inr (Some (p @ ''/'' @ take t' line @ '':'')))"

definition add_fake_entry :: "cstr \<Rightarrow> cstr list \<Rightarrow> cstr list option" where
  "add_fake_entry line tab = (if length tab = MAX_TABLE_SIZE then None else Some (tab @ [line]))"

definition FAKE_LINE :: cstr where
  "FAKE_LINE = ''drwxr-xr-x  2 root          512 Jan  1  1971 ''"

fun process_fake_entries :: "lformat \<Rightarrow> cstr list \<Rightarrow> unit act" where
  \<comment> \<open>\<open>fake_line\<close> has 100 characters\<close>
  "process_fake_entries fmt [] = act_res (Inr ())"
| "process_fake_entries fmt (t # ts) =
     (if 100 < length (FAKE_LINE @ t) + 1 then act_res (Inl Undefined)
      else act_bind (handle_file fmt (FAKE_LINE @ t)) (\<lambda>_. process_fake_entries fmt ts))"

subsection \<open>One line\<close>

definition file_line :: "lformat \<Rightarrow> options \<Rightarrow> driver \<Rightarrow> verdict \<times> driver" where
  "file_line fmt op d0 =
     (let d = d0\<lparr>dv_files := Suc (dv_files d0)\<rparr> in
      case handle_file fmt (dv_buf d) (dv_p d) of
        (Inr _, p) \<Rightarrow> (Next, d\<lparr>dv_p := p\<rparr>)
      | (Inl e, p) \<Rightarrow>
          if e \<noteq> Rejected then (Crash e, d\<lparr>dv_p := p\<rparr>)
          else
            let d1 = d\<lparr>dv_p := p, dv_blank := True, dv_errors := Suc (dv_errors d)\<rparr>;
                d2 = (if MAX_ERROR_NUM < dv_errors d1 then give_up d1 else d1)
            in if op_files op then (Retry_blanks, d2\<lparr>dv_retry := True\<rparr>)
               else (Next, give_up d2))"

definition restart_root :: "cstr \<Rightarrow> driver \<Rightarrow> verdict \<times> driver" where
  \<comment> \<open>\<open>strcpy(tmp_root_dir, r); root_dir = tmp_root_dir\<close>\<close>
  "restart_root r d =
     (if MAX_PATH_LEN \<le> length r then (Crash Undefined, d)
      else (Retry_root, d\<lparr>dv_retry := True, dv_root := Some r\<rparr>))"

definition orig_root :: "options \<Rightarrow> cstr" where
  \<comment> \<open>\<open>orig_root_dir\<close> is empty when there is no \<open>-r\<close>\<close>
  "orig_root op = (case op_root op of None \<Rightarrow> [] | Some r \<Rightarrow> r)"

definition header_line :: "lformat \<Rightarrow> options \<Rightarrow> driver \<Rightarrow> verdict \<times> driver" where
  "header_line fmt op d0 =
     (case handle_dir_start fmt (dv_buf d0) (op_prep op) (dv_p d0) of
        (Inr _, p) \<Rightarrow> (Next, d0\<lparr>dv_p := p\<rparr>)
      | (Inl e, p) \<Rightarrow>
          if e \<noteq> Rejected then (Crash e, d0\<lparr>dv_p := p\<rparr>)
          else
            let line = (case lf_split fmt (dv_buf d0) (op_prep op) of Inr (_, b) \<Rightarrow> b | Inl _ \<Rightarrow> dv_buf d0);
                d = d0\<lparr>dv_p := p, dv_buf := line, dv_errors := Suc (dv_errors d0)\<rparr>;
                num = strspn (dv_orig d) '' ''
            in if MAX_ERROR_NUM < dv_errors d then (Next, give_up d)
               else if num \<noteq> 0 then
                 if op_files op then
                   (Retry_blanks, d\<lparr>dv_p := p\<lparr>ps_lead := lf_blanks fmt (int num) (ps_lead p)\<rparr>,
                                    dv_retry := True, dv_blank := True\<rparr>)
                 else (Crash Undefined, d)   \<comment> \<open>a standard stream has been closed\<close>
               else if \<not> op_files op then (Next, give_up d)
               else if 0 < dv_files d \<and> dv_table d = [] then
                 (case build_dir (op_prep op) (dv_orig d) of
                    Inl e' \<Rightarrow> (Crash e', d)
                  | Inr None \<Rightarrow> (Next, give_up d)
                  | Inr (Some r) \<Rightarrow> restart_root r d)
               else (case add_fake_entry line (dv_table d) of
                    None \<Rightarrow> (Next, give_up d)
                  | Some tab \<Rightarrow>
                      restart_root (orig_root op) (d\<lparr>dv_table := tab\<rparr>)))"

definition partial_line :: "driver \<Rightarrow> verdict \<times> driver" where
  \<comment> \<open>the next line is read behind this one and a blank\<close>
  "partial_line d =
     (if LINE_BUF < length (dv_buf d) + 2 then (Crash Undefined, d)
      else (Next, d\<lparr>dv_buf := dv_buf d @ '' '', dv_off := length (dv_buf d) + 1\<rparr>))"

definition line_step :: "lformat \<Rightarrow> options \<Rightarrow> driver \<Rightarrow> verdict \<times> driver" where
  "line_step fmt op d0 =
     (case get_line d0 of
        Inl e \<Rightarrow> (Crash e, d0)
      | Inr (False, d1) \<Rightarrow> (Next, d1\<lparr>dv_done := True\<rparr>)
      | Inr (True, d1) \<Rightarrow>
          let ty = lf_type fmt (drop (dv_off d1) (dv_buf d1));
              d = d1\<lparr>dv_state := ty, dv_orig := dv_buf d1\<rparr>
          in (case ty of
                L_PARTIAL \<Rightarrow> partial_line d
              | _ \<Rightarrow>
                  let (v, d2) =
                    (case ty of
                       L_CONT \<Rightarrow> (Next, if dv_state d1 = L_PARTIAL then d\<lparr>dv_skip := True\<rparr> else badline d)
                     | L_UNKNOWN \<Rightarrow> (Next, badline d)
                     | L_FILE \<Rightarrow> file_line fmt op d
                     | L_DIR_START \<Rightarrow> header_line fmt op d
                     | _ \<Rightarrow> (Next, d))
                  in (v, d2\<lparr>dv_off := 0\<rparr>)))"

fun main_loop :: "nat \<Rightarrow> lformat \<Rightarrow> options \<Rightarrow> driver \<Rightarrow> verdict \<times> driver" where
  "main_loop 0 fmt op d = (if dv_done d then (Next, d) else (Crash OutOfFuel, d))"
| "main_loop (Suc fuel) fmt op d =
     (if dv_done d then (Next, d)
      else case line_step fmt op d of
             (Next, d') \<Rightarrow> main_loop fuel fmt op d'
           | (v, d') \<Rightarrow> (v, d'))"

subsection \<open>The first directory\<close>

text \<open>Without \<open>-r\<close> the first header names the root; other lines before it count as errors.\<close>

fun find_root :: "nat \<Rightarrow> lformat \<Rightarrow> driver \<Rightarrow> verdict \<times> driver" where
  "find_root 0 fmt d = (if dv_done d then (Next, d) else (Crash OutOfFuel, d))"
| "find_root (Suc fuel) fmt d0 =
     (if dv_done d0 then (Next, d0)
      else case get_line d0 of
        Inl e \<Rightarrow> (Crash e, d0)
      | Inr (False, d) \<Rightarrow> (Next, d\<lparr>dv_done := True, dv_error := 1, dv_orig := dv_buf d\<rparr>)
      | Inr (True, d1) \<Rightarrow>
          let ty = lf_type fmt (dv_buf d1); d = d1\<lparr>dv_state := ty, dv_orig := dv_buf d1\<rparr>
          in if ty = L_BLANK then find_root fuel fmt d
             else if ty = L_DIR_START then
               (case init_stack fmt (dv_buf d) (dv_p d) of
                  (Inr _, p) \<Rightarrow> (Next, d\<lparr>dv_p := p, dv_done := True\<rparr>)
                | (Inl e, p) \<Rightarrow>
                    if e \<noteq> Rejected then (Crash e, d\<lparr>dv_p := p\<rparr>)
                    else (Next, d\<lparr>dv_p := p, dv_done := True, dv_error := 1\<rparr>))
             else find_root fuel fmt (badline d))"

subsection \<open>An attempt, and all of them\<close>

text \<open>
  \<open>Wrote\<close> is a normal end: whether the header says \<open>SUCCEED\<close>, the number of records in it,
  and the records, if writing them succeeded (the program does not look).  \<open>Failed\<close> is an
  end with only a header, \<open>Exited\<close> one without.
\<close>

datatype outcome = Wrote bool int "chunk list option" | Failed | Exited | Crashed failure

definition finish :: "driver \<Rightarrow> outcome" where
  "finish d =
     (case check_stack (dv_p d) of
        (Inl e, p) \<Rightarrow> if e = Rejected then Failed else Crashed e
      | (Inr _, p) \<Rightarrow>
          (case parser_output p of
             (Inr cs, _) \<Rightarrow> Wrote (\<not> elt_num (ps_store p) < 1) (elt_num (ps_store p) + 1) (Some cs)
           | (Inl e, _) \<Rightarrow>
               if e = Rejected then Wrote (\<not> elt_num (ps_store p) < 1) (elt_num (ps_store p) + 1) None
               else Crashed e))"

definition sizeof_peh :: nat where
  "sizeof_peh = 40"

definition open_listing :: "cstr \<Rightarrow> driver \<Rightarrow> driver res" where
  "open_listing input d =
     (let h = (if dv_retry d then free_elts (ps_store (dv_p d)) else ps_store (dv_p d)) in
      res_bind (set_elt_size sizeof_peh h) (\<lambda>h'.
        Inr (d\<lparr>dv_p := (dv_p d)\<lparr>ps_store := h'\<rparr>, dv_in := input, dv_state := L_BLANK, dv_off := 0\<rparr>)))"

definition start_root :: "lformat \<Rightarrow> driver \<Rightarrow> (verdict \<times> driver) option" where
  \<comment> \<open>\<open>None\<close>: the directory stack cannot be initialised, the program exits\<close>
  "start_root fmt d =
     (case dv_root d of
        Some r \<Rightarrow>
          (case init_stack fmt r (dv_p d) of
             (Inr _, p) \<Rightarrow> Some (Next, d\<lparr>dv_p := p\<rparr>)
           | (Inl e, p) \<Rightarrow> if e = Rejected then None else Some (Crash e, d))
      | None \<Rightarrow> Some (find_root (2 * length (dv_in d) + 2) fmt (d\<lparr>dv_error := 0\<rparr>)))"

definition scan_lines :: "lformat \<Rightarrow> options \<Rightarrow> driver \<Rightarrow> verdict \<times> driver" where
  "scan_lines fmt op d =
     (if dv_error d \<noteq> 0 then (Next, d)
      else case process_fake_entries fmt (dv_table d) (dv_p d) of
             (Inr _, p) \<Rightarrow> main_loop (2 * length (dv_in d) + 2) fmt op (d\<lparr>dv_p := p, dv_off := 0, dv_done := False\<rparr>)
           | (Inl e, p) \<Rightarrow> if e = Rejected then (Next, give_up (d\<lparr>dv_p := p\<rparr>)) else (Crash e, d\<lparr>dv_p := p\<rparr>))"

fun attempts :: "nat \<Rightarrow> lformat \<Rightarrow> options \<Rightarrow> cstr \<Rightarrow> driver \<Rightarrow> outcome" where
  "attempts 0 fmt op input d = Crashed OutOfFuel"
| "attempts (Suc fuel) fmt op input d0 =
     (case open_listing input d0 of
        Inl e \<Rightarrow> if e = Rejected then Exited else Crashed e
      | Inr d1 \<Rightarrow>
          (case start_root fmt d1 of
             None \<Rightarrow> Exited
           | Some (Crash e, _) \<Rightarrow> Crashed e
           | Some (_, d2) \<Rightarrow>
               (case scan_lines fmt op d2 of
                  (Crash e, _) \<Rightarrow> Crashed e
                | (Next, d) \<Rightarrow> if dv_error d \<noteq> 0 then Failed else finish d
                | (Retry_root, d) \<Rightarrow> attempts fuel fmt op input d
                | (Retry_blanks, d) \<Rightarrow>
                    attempts fuel fmt op input
                      (if dv_blank d \<and> dv_root d \<noteq> None then d\<lparr>dv_root := Some (orig_root op)\<rparr> else d))))"

definition start :: "options \<Rightarrow> driver" where
  "start op = \<lparr>dv_p = \<lparr>ps_store = no_storage, ps_stack = [], ps_fresh = 0, ps_lead = - 1\<rparr>,
     dv_in = [], dv_buf = [], dv_off = 0, dv_orig = [], dv_state = L_BLANK, dv_skip = False,
     dv_done = False, dv_error = 0, dv_errors = 0, dv_files = 0, dv_blank = False,
     dv_retry = False, dv_table = [], dv_root = op_root op\<rparr>"

definition parser_main :: "nat \<Rightarrow> lformat \<Rightarrow> options \<Rightarrow> cstr \<Rightarrow> outcome" where
  "parser_main fuel fmt op input =
     (if MAX_PATH_LEN \<le> length (orig_root op) then Crashed Undefined
      else attempts fuel fmt op input (start op))"

end
