(* ===== verification/ListingTree.thy ===== *)
theory ListingTree
  imports ListingParser
begin

section \<open>The parser state as a tree of directories\<close>

text \<open>
  The abstract view of the parser: the entries in their order, and the stack of directories,
  each with its name, its index, and the list of the subdirectories (name and index) that
  are still expected.  \<open>a_file\<close> and \<open>a_dir\<close> say what a file line and a directory header do
  to it; the theorems show that the handlers do exactly that on linked queues and blocks of
  entries, and that no pointer they follow is null or dangling.
\<close>

record aframe =
  af_name :: cstr
  af_idx :: int
  af_queue :: "(cstr \<times> nat) list"

record astate =
  a_frames :: "aframe list"
  a_entries :: "Pars_ent_holder list"

definition cell_of :: "queue_t \<Rightarrow> nat \<Rightarrow> info_cell option" where
  "cell_of q a = (case cells q a of None \<Rightarrow> None | Some e \<Rightarrow> ident e)"

definition queued_cell :: "(nat \<Rightarrow> elt_ptr) \<Rightarrow> cstr \<times> nat \<Rightarrow> info_cell" where
  "queued_cell sl x = \<lparr>ic_name = fst x, ic_idx = int (snd x), ic_addr = Some (sl (snd x))\<rparr>"

text \<open>\<open>n\<close> bounds the addresses of the queue elements in use.\<close>

definition frame_rep :: "(nat \<Rightarrow> elt_ptr) \<Rightarrow> nat \<Rightarrow> frame \<Rightarrow> aframe \<Rightarrow> bool" where
  "frame_rep sl n f af \<longleftrightarrow>
     ic_name (fr_ident f) = af_name af \<and> ic_idx (fr_ident f) = af_idx af \<and>
     (\<exists>xs. queue_rep (fr_q f) xs \<and> (\<forall>a\<in>set xs. a < n) \<and>
           map (cell_of (fr_q f)) xs = map (Some \<circ> queued_cell sl) (af_queue af))"

lemma same_cells_cell_of: "same_cells q q' \<Longrightarrow> cells q a \<noteq> None \<Longrightarrow> cell_of q' a = cell_of q a"
  unfolding same_cells_def cell_of_def
  by (cases "cells q a"; cases "cells q' a") (auto dest!: spec [of _ a])

lemma queue_rep_allocated: "queue_rep q xs \<Longrightarrow> a \<in> set xs \<Longrightarrow> cells q a \<noteq> None"
  using linked_allocated by (fastforce simp: queue_rep_def)

lemma map_cell_of:
  assumes "same_cells q q'" and "\<forall>a\<in>set xs. cells q a \<noteq> None"
  shows "map (cell_of q') xs = map (cell_of q) xs"
  using assms same_cells_cell_of by fastforce

lemma queue_rep_cong:
  assumes "queue_rep q xs" and "\<forall>a\<in>set xs. cells q' a = cells q a"
    and "qhead q' = qhead q" and "qtail q' = qtail q"
  shows "queue_rep q' xs"
  using assms linked_cong [of xs "cells q'" "cells q" None] by (simp add: queue_rep_def)

lemma queue_dir_rep:
  assumes rep: "frame_rep sl n f af" and st: "ps_stack s = f # fs" and n: "ps_fresh s = n"
    and p: "p = sl k" and k: "elt_num (ps_store s) = int k"
  shows "\<exists>f'. queue_dir d p s = (Inr (), s\<lparr>ps_stack := f' # fs, ps_fresh := Suc n\<rparr>) \<and>
           frame_rep sl (Suc n) f' (af\<lparr>af_queue := af_queue af @ [(d, k)]\<rparr>)"
proof -
  from rep obtain xs where xs: "queue_rep (fr_q f) xs" "\<forall>a\<in>set xs. a < n"
    "map (cell_of (fr_q f)) xs = map (Some \<circ> queued_cell sl) (af_queue af)"
    by (auto simp: frame_rep_def)
  define ic where "ic = (new_Info_cell d)\<lparr>ic_idx := int k, ic_addr := Some (sl k)\<rparr>"
  define q2 where "q2 = (fr_q f)\<lparr>cells := (cells (fr_q f))(n \<mapsto> \<lparr>ident = Some ic, qnext = None, qprev = None\<rparr>)\<rparr>"
  have nx: "n \<notin> set xs" using xs(2) by auto
  then have "queue_rep q2 xs"
    by (intro queue_rep_cong [OF xs(1)]) (auto simp: q2_def)
  from addq_rep [OF this nx] obtain q3 where q3: "addq n q2 = Some q3" "queue_rep q3 (xs @ [n])" "same_cells q2 q3"
    by (auto simp: q2_def)
  have al: "\<forall>a\<in>set (xs @ [n]). cells q2 a \<noteq> None"
    using queue_rep_allocated [OF xs(1)] by (auto simp: q2_def)
  have "map (cell_of q3) (xs @ [n]) = map (cell_of q2) (xs @ [n])"
    by (rule map_cell_of [OF q3(3) al])
  also have "\<dots> = map (cell_of (fr_q f)) xs @ [Some ic]"
    using nx by (auto simp: q2_def cell_of_def)
  also have "ic = queued_cell sl (d, k)"
    by (simp add: ic_def queued_cell_def new_Info_cell_def)
  finally have "map (cell_of q3) (xs @ [n]) = map (Some \<circ> queued_cell sl) (af_queue af @ [(d, k)])"
    using xs(3) by simp
  moreover have "\<forall>a\<in>set (xs @ [n]). a < Suc n" using xs(2) by auto
  ultimately have "frame_rep sl (Suc n) (f\<lparr>fr_q := q3\<rparr>) (af\<lparr>af_queue := af_queue af @ [(d, k)]\<rparr>)"
    using q3(2) rep unfolding frame_rep_def by (auto intro!: exI [of _ "xs @ [n]"] simp del: map_append set_append)
  moreover have "queue_dir d p s = (Inr (), s\<lparr>ps_stack := f\<lparr>fr_q := q3\<rparr> # fs, ps_fresh := Suc n\<rparr>)"
    using q3(1) by (simp add: queue_dir_def st n p k Let_def new_Queue_elt_def q2_def ic_def)
  ultimately show ?thesis by blast
qed

lemma frame_rep_mono: "frame_rep sl n f af \<Longrightarrow> n \<le> m \<Longrightarrow> frame_rep sl m f af"
  unfolding frame_rep_def by (meson less_le_trans)

lemma frame_rep_empty: "frame_rep sl n f af \<Longrightarrow> empty_queue (Some (fr_q f)) \<longleftrightarrow> af_queue af = []"
  using lq.is_empty_law by (fastforce simp: frame_rep_def)

lemma pop_while_empty_rep:
  "list_all2 (frame_rep sl n) fs afs \<Longrightarrow>
     list_all2 (frame_rep sl n) (pop_while_empty fs) (dropWhile (\<lambda>af. af_queue af = []) afs)"
  by (induction rule: list_all2_induct) (auto simp: frame_rep_empty)

lemma frame_remove:
  assumes "frame_rep sl n f af" and "af_queue af = x # ys"
  shows "\<exists>a q qe q'. remq (fr_q f) = Some (Some a, q) \<and> cells q a = Some qe \<and>
           ident qe = Some (queued_cell sl x) \<and>
           dispose_Queue_elt a (q\<lparr>cells := (cells q)(a \<mapsto> qe\<lparr>ident := None\<rparr>)\<rparr>) = Some q' \<and>
           frame_rep sl n (f\<lparr>fr_q := q'\<rparr>) (af\<lparr>af_queue := ys\<rparr>)"
proof -
  from assms obtain xs0 where xs0: "queue_rep (fr_q f) xs0" "\<forall>a\<in>set xs0. a < n"
    "map (cell_of (fr_q f)) xs0 = Some (queued_cell sl x) # map (Some \<circ> queued_cell sl) ys"
    by (auto simp: frame_rep_def)
  then obtain a xs where ax: "xs0 = a # xs" by (cases xs0) auto
  obtain q where q: "remq (fr_q f) = Some (Some a, q)" "queue_rep q xs" "same_cells (fr_q f) q"
    using remq_rep [of "fr_q f" a xs] xs0(1) ax by auto
  have al: "\<forall>b\<in>set xs0. cells (fr_q f) b \<noteq> None" using queue_rep_allocated [OF xs0(1)] by blast
  have cq: "map (cell_of q) xs0 = Some (queued_cell sl x) # map (Some \<circ> queued_cell sl) ys"
    using map_cell_of [OF q(3) al] xs0(3) by simp
  then obtain qe where qe: "cells q a = Some qe" "ident qe = Some (queued_cell sl x)"
    using ax by (auto simp: cell_of_def split: option.splits)
  define q' where "q' = q\<lparr>cells := (cells q)(a := None)\<rparr>"
  have ana: "a \<notin> set xs" using xs0(1) ax by (auto simp: queue_rep_def)
  have qr: "queue_rep q' xs"
    using ana by (intro queue_rep_cong [OF q(2)]) (auto simp: q'_def)
  have "map (cell_of q') xs = map (cell_of q) xs"
    using ana by (auto simp: q'_def cell_of_def)
  then have "map (cell_of q') xs = map (Some \<circ> queued_cell sl) ys" using cq ax by (simp only: list.map(2) list.inject)
  with qr have "frame_rep sl n (f\<lparr>fr_q := q'\<rparr>) (af\<lparr>af_queue := ys\<rparr>)"
    using assms(1) xs0(2) ax unfolding frame_rep_def by auto
  moreover have "dispose_Queue_elt a (q\<lparr>cells := (cells q)(a \<mapsto> qe\<lparr>ident := None\<rparr>)\<rparr>) = Some q'"
    by (simp add: dispose_Queue_elt_def q'_def)
  ultimately show ?thesis using q(1) qe by blast
qed

lemma match_loop_iff: "match_loop fs p \<longleftrightarrow> map (ic_name \<circ> fr_ident) fs = p"
  by (induction fs p rule: match_loop.induct) auto

lemma stack_match_iff: "stack_match p s \<longleftrightarrow> map (ic_name \<circ> fr_ident) (ps_stack s) = rev p"
  by (auto simp: stack_match_def match_loop_iff)

lemma names_rep: "list_all2 (frame_rep sl n) fs afs \<Longrightarrow> map (ic_name \<circ> fr_ident) fs = map af_name afs"
  by (induction rule: list_all2_induct) (auto simp: frame_rep_def)

subsection \<open>Looking for a directory\<close>

function find_dir :: "cstr list \<Rightarrow> aframe list \<Rightarrow> ((cstr \<times> nat) \<times> aframe list) option" where
  "find_dir path [] = None"
| "find_dir path (af # afs) =
     (case af_queue af of
        [] \<Rightarrow> find_dir path afs
      | x # ys \<Rightarrow>
          let st = \<lparr>af_name = fst x, af_idx = int (snd x), af_queue = []\<rparr> # af\<lparr>af_queue := ys\<rparr> # afs in
          if map af_name st = rev path then Some (x, st) else find_dir path (af\<lparr>af_queue := ys\<rparr> # afs))"
  by pat_completeness auto

definition pending :: "aframe list \<Rightarrow> nat" where
  "pending afs = sum_list (map (length \<circ> af_queue) afs)"

lemma pending_simps [simp]: "pending [] = 0" "pending (af # afs) = length (af_queue af) + pending afs"
  by (simp_all add: pending_def)

termination find_dir
  by (relation "measure (\<lambda>(_, afs). pending afs + length afs)") auto

lemma find_dir_dropWhile:
  "find_dir path (dropWhile (\<lambda>af. af_queue af = []) afs) = find_dir path afs"
  by (induction afs) auto

lemma pending_dropWhile: "pending (dropWhile (\<lambda>af. af_queue af = []) afs) = pending afs"
  by (induction afs) auto

text \<open>
  The same in one step: the path without its last component must be the bottom of the
  stack, and the last component must be expected there; the frames above and the directories
  queued before it are dropped.
\<close>

definition dir_spec :: "cstr list \<Rightarrow> aframe list \<Rightarrow> ((cstr \<times> nat) \<times> aframe list) option" where
  "dir_spec path afs =
     (let k = length path - 1; below = drop (length afs - k) afs in
      if path = [] \<or> length afs < k \<or> map af_name below \<noteq> rev (butlast path) then None
      else case below of
          [] \<Rightarrow> None
        | af # rest \<Rightarrow>
            (case dropWhile (\<lambda>x. fst x \<noteq> last path) (af_queue af) of
               [] \<Rightarrow> None
             | x # ys \<Rightarrow> Some (x, \<lparr>af_name = fst x, af_idx = int (snd x), af_queue = []\<rparr> #
                                   af\<lparr>af_queue := ys\<rparr> # rest)))"

lemma rev_path: "Suc (length xs) = length path \<Longrightarrow> y # xs = rev path \<longleftrightarrow> y = last path \<and> xs = rev (butlast path)"
  by (cases path rule: rev_cases) auto

lemma find_dir_spec: "find_dir path afs = dir_spec path afs"
proof (induction path afs rule: find_dir.induct)
  case (1 path)
  show ?case by (simp add: dir_spec_def Let_def)
next
  case (2 path af afs)
  show ?case
  proof (cases "af_queue af")
  case Nil
  with 2(1) have IH: "find_dir path afs = dir_spec path afs" by simp
  show ?thesis
  proof (cases "length path - 1 \<le> length afs")
    case True
    then have "drop (length (af # afs) - (length path - 1)) (af # afs) = drop (length afs - (length path - 1)) afs"
      by (simp add: Suc_diff_le)
    with True IH Nil show ?thesis by (simp add: dir_spec_def Let_def)
  next
    case False
    with IH Nil show ?thesis by (auto simp: dir_spec_def Let_def split: list.splits)
  qed
next
  case (Cons x ys)
  have IH: "map af_name (\<lparr>af_name = fst x, af_idx = int (snd x), af_queue = []\<rparr> # af\<lparr>af_queue := ys\<rparr> # afs) \<noteq> rev path \<Longrightarrow>
      find_dir path (af\<lparr>af_queue := ys\<rparr> # afs) = dir_spec path (af\<lparr>af_queue := ys\<rparr> # afs)"
    using 2(2) [OF Cons refl] by simp
  let ?k = "length path - 1"
  consider "?k \<le> length afs" | "?k = Suc (length afs)" | "Suc (length afs) < ?k" by linarith
  then show ?thesis
  proof cases
    case 1
    then have "length (rev path) \<noteq> Suc (Suc (length afs))" by simp
    then have ne: "fst x # af_name af # map af_name afs \<noteq> rev path" by (metis length_Cons length_map)
    have "drop (length (af # afs) - ?k) (af # afs) = drop (length afs - ?k) afs"
      "drop (length (af\<lparr>af_queue := ys\<rparr> # afs) - ?k) (af\<lparr>af_queue := ys\<rparr> # afs) = drop (length afs - ?k) afs"
      using 1 by (simp_all add: Suc_diff_le)
    with 1 IH Cons ne show ?thesis by (simp add: dir_spec_def Let_def)
  next
    case k: 2
    then have *: "fst x # af_name af # map af_name afs = rev path \<longleftrightarrow>
        fst x = last path \<and> af_name af # map af_name afs = rev (butlast path)"
      by (intro rev_path) simp
    from k have "path \<noteq> []" by auto
    have fd: "find_dir path (af # afs) =
        (if fst x # af_name af # map af_name afs = rev path
         then Some (x, \<lparr>af_name = fst x, af_idx = int (snd x), af_queue = []\<rparr> # af\<lparr>af_queue := ys\<rparr> # afs)
         else dir_spec path (af\<lparr>af_queue := ys\<rparr> # afs))"
      using IH Cons by (simp add: Let_def del: find_dir.simps(2) add: find_dir.simps(2) [of path af afs])
    show ?thesis
      using k * Cons \<open>path \<noteq> []\<close> unfolding fd
      by (auto simp: dir_spec_def Let_def cong: list.case_cong)
  next
    case 3
    then have "length (rev path) \<noteq> Suc (Suc (length afs))" by simp
    then have ne: "fst x # af_name af # map af_name afs \<noteq> rev path" by (metis length_Cons length_map)
    with 3 IH Cons ne show ?thesis by (simp add: dir_spec_def Let_def)
  qed
  qed
qed


subsection \<open>The handlers on the abstract state\<close>

lemma astate_updates [simp]:
  "a\<lparr>a_frames := fs, a_entries := es\<rparr> = \<lparr>a_frames = fs, a_entries = es\<rparr>"
  "a\<lparr>a_entries := es, a_frames := fs\<rparr> = \<lparr>a_frames = fs, a_entries = es\<rparr>"
  by (cases a; simp)+

definition parser_rep :: "pstate \<Rightarrow> astate \<Rightarrow> bool" where
  "parser_rep s a \<longleftrightarrow>
     store_rep (ps_store s) (length (a_entries a)) \<and>
     (\<forall>k<length (a_entries a). elt_mem (ps_store s) (slot (ps_store s) k) = Some (a_entries a ! k)) \<and>
     list_all2 (frame_rep (slot (ps_store s)) (ps_fresh s)) (ps_stack s) (a_frames a) \<and>
     pending (a_frames a) \<le> ps_fresh s \<and>
     (\<forall>af\<in>set (a_frames a). \<forall>x\<in>set (af_queue af). snd x < length (a_entries a))"

definition file_core :: "bool \<Rightarrow> int \<Rightarrow> core_site_entry \<Rightarrow> core_site_entry" where
  "file_core is_dir i c = (if is_dir then CSE_SET_DIR c else CSE_SET_NON_DIR c)\<lparr>ce_parent_idx := i\<rparr>"

definition a_file :: "cstr \<Rightarrow> cstr \<Rightarrow> parser_entry \<Rightarrow> bool \<Rightarrow> astate \<Rightarrow> astate" where
  "a_file str name pe is_dir a =
     (case a_frames a of
        [] \<Rightarrow> a
      | af # afs \<Rightarrow>
          \<lparr>a_frames = (if is_dir then af\<lparr>af_queue := af_queue af @ [(str, length (a_entries a))]\<rparr> else af) # afs,
           a_entries = a_entries a @
             [\<lparr>pent = pe\<lparr>pe_core := file_core is_dir (af_idx af) (pe_core pe)\<rparr>, peh_name = Some name\<rparr>]\<rparr>)"

definition a_dir :: "cstr list \<Rightarrow> astate \<Rightarrow> astate option" where
  "a_dir path a =
     (case dir_spec path (a_frames a) of
        None \<Rightarrow> None
      | Some (x, afs) \<Rightarrow>
          Some \<lparr>a_frames = afs,
                a_entries = (a_entries a)[snd x := edit_core (\<lambda>c. c\<lparr>ce_child_idx := int (length (a_entries a))\<rparr>)
                                                     (a_entries a ! snd x)]\<rparr>)"

lemma store_rep_edit:
  "store_rep h n \<Longrightarrow> k < n \<Longrightarrow> store_rep (h\<lparr>elt_mem := (elt_mem h)(slot h k \<mapsto> e)\<rparr>) n"
  by (auto simp: store_rep_def slot_def)

lemma slot_edit [simp]: "slot (h\<lparr>elt_mem := m\<rparr>) = slot h"
  by (rule slot_cong) simp

lemma edit_entry_rep:
  assumes "parser_rep s a" and "k < length (a_entries a)"
  shows "\<exists>s'. edit_entry (slot (ps_store s) k) g s = (Inr (), s') \<and>
           parser_rep s' (a\<lparr>a_entries := (a_entries a)[k := g (a_entries a ! k)]\<rparr>) \<and>
           slot (ps_store s') = slot (ps_store s) \<and> ps_stack s' = ps_stack s \<and> ps_fresh s' = ps_fresh s \<and>
           ps_lead s' = ps_lead s \<and> elt_num (ps_store s') = elt_num (ps_store s)"
proof -
  let ?h = "(ps_store s)\<lparr>elt_mem := (elt_mem (ps_store s))(slot (ps_store s) k \<mapsto> g (a_entries a ! k))\<rparr>"
  have "edit_entry (slot (ps_store s) k) g s = (Inr (), s\<lparr>ps_store := ?h\<rparr>)"
    using assms by (simp add: edit_entry_def parser_rep_def)
  moreover have "parser_rep (s\<lparr>ps_store := ?h\<rparr>) (a\<lparr>a_entries := (a_entries a)[k := g (a_entries a ! k)]\<rparr>)"
    using assms store_rep_edit by (auto simp: parser_rep_def nth_list_update)
  ultimately show ?thesis by (simp add: elt_num_def)
qed

lemma new_entry_rep:
  assumes "parser_rep s a"
  shows "\<exists>s'. new_entry s = (Inr (slot (ps_store s') (length (a_entries a))), s') \<and>
           parser_rep s' (a\<lparr>a_entries := a_entries a @ [zero_peh]\<rparr>) \<and>
           slot (ps_store s') = slot (ps_store s) \<and> ps_stack s' = ps_stack s \<and> ps_fresh s' = ps_fresh s \<and>
           ps_lead s' = ps_lead s \<and> elt_num (ps_store s') = int (length (a_entries a))"
proof -
  have "store_rep (ps_store s) (length (a_entries a))" using assms by (simp add: parser_rep_def)
  from new_elt_rep [OF this] obtain h where h: "new_elt (ps_store s) = Inr (slot (ps_store s) (length (a_entries a)), h)"
    "store_rep h (Suc (length (a_entries a)))"
    "elt_mem h = (elt_mem (ps_store s))(slot (ps_store s) (length (a_entries a)) \<mapsto> zero_peh)"
    "hd_first h = hd_first (ps_store s)" by blast
  note sl = slot_cong [OF h(4)]
  have "parser_rep (s\<lparr>ps_store := h\<rparr>) (a\<lparr>a_entries := a_entries a @ [zero_peh]\<rparr>)"
    using assms h(2,3) by (auto simp: parser_rep_def sl nth_append less_Suc_eq intro: less_SucI)
  moreover have "elt_num h = int (length (a_entries a))" using h(2) by (simp add: store_rep_def elt_num_def)
  ultimately show ?thesis using h(1) sl by (simp add: new_entry_def)
qed

lemma queue_dir_parser_rep:
  assumes rep: "parser_rep s a" and fr: "a_frames a = af # afs" and k: "k < length (a_entries a)"
    and num: "elt_num (ps_store s) = int k"
  shows "\<exists>s'. queue_dir d (slot (ps_store s) k) s = (Inr (), s') \<and>
           parser_rep s' (a\<lparr>a_frames := af\<lparr>af_queue := af_queue af @ [(d, k)]\<rparr> # afs\<rparr>) \<and>
           ps_store s' = ps_store s \<and> ps_lead s' = ps_lead s"
proof -
  from rep fr obtain f fs where st: "ps_stack s = f # fs" "frame_rep (slot (ps_store s)) (ps_fresh s) f af"
    "list_all2 (frame_rep (slot (ps_store s)) (ps_fresh s)) fs afs"
    by (auto simp: parser_rep_def list_all2_Cons2)
  from queue_dir_rep [OF st(2,1) refl refl num, of d] obtain f' where
    f': "queue_dir d (slot (ps_store s) k) s = (Inr (), s\<lparr>ps_stack := f' # fs, ps_fresh := Suc (ps_fresh s)\<rparr>)"
      "frame_rep (slot (ps_store s)) (Suc (ps_fresh s)) f' (af\<lparr>af_queue := af_queue af @ [(d, k)]\<rparr>)"
    by blast
  have "list_all2 (frame_rep (slot (ps_store s)) (Suc (ps_fresh s))) fs afs"
    using st(3) by (rule list_all2_mono) (auto intro: frame_rep_mono)
  with f'(2) rep fr k have "parser_rep (s\<lparr>ps_stack := f' # fs, ps_fresh := Suc (ps_fresh s)\<rparr>)
      (a\<lparr>a_frames := af\<lparr>af_queue := af_queue af @ [(d, k)]\<rparr> # afs\<rparr>)"
    by (auto simp: parser_rep_def)
  with f'(1) show ?thesis by simp
qed

lemma tos_idx_rep:
  "parser_rep s a \<Longrightarrow> a_frames a = af # afs \<Longrightarrow> tos_idx s = (Inr (af_idx af), s)"
  by (auto simp: parser_rep_def list_all2_Cons2 tos_idx_def tos_def frame_rep_def)

lemma parser_rep_lead [simp]: "parser_rep (s\<lparr>ps_lead := l\<rparr>) a = parser_rep s a"
  by (simp add: parser_rep_def)

lemma handle_file_rep:
  assumes rep: "parser_rep s a" and fr: "a_frames a \<noteq> []"
    and parse: "lf_parse fmt line (ps_lead s) = (Inr (name, pe, is_dir), lead)"
    and dup: "lf_dup fmt name = Inr str"
  shows "\<exists>s'. handle_file fmt line s = (Inr (), s') \<and>
           parser_rep s' (a_file str name pe is_dir a) \<and> ps_lead s' = lead"
proof -
  obtain af afs where af: "a_frames a = af # afs" using fr by (cases "a_frames a") auto
  let ?n = "length (a_entries a)"
  obtain s1 where s1: "new_entry s = (Inr (slot (ps_store s1) ?n), s1)"
      "parser_rep s1 (a\<lparr>a_entries := a_entries a @ [zero_peh]\<rparr>)" "ps_lead s1 = ps_lead s"
      "elt_num (ps_store s1) = int ?n"
    using new_entry_rep [OF rep] by auto
  let ?s2 = "s1\<lparr>ps_lead := lead\<rparr>"
  have s2: "parse_file fmt line s1 = (Inr (name, pe, is_dir), ?s2)"
    using parse s1(3) by (simp add: parse_file_def)
  have rep2: "parser_rep ?s2 (a\<lparr>a_entries := a_entries a @ [zero_peh]\<rparr>)" using s1(2) by simp
  obtain s3 where s3: "edit_entry (slot (ps_store s1) ?n) (\<lambda>e. e\<lparr>pent := pe\<rparr>) ?s2 = (Inr (), s3)"
      "parser_rep s3 (a\<lparr>a_entries := a_entries a @ [zero_peh\<lparr>pent := pe\<rparr>]\<rparr>)"
      "slot (ps_store s3) = slot (ps_store s1)" "ps_lead s3 = lead" "elt_num (ps_store s3) = int ?n"
    using edit_entry_rep [OF rep2, of ?n "\<lambda>e. e\<lparr>pent := pe\<rparr>"] s1(4) by (auto simp: list_update_append)
  let ?c = "if is_dir then CSE_SET_DIR else CSE_SET_NON_DIR"
  obtain s4 where s4: "edit_entry (slot (ps_store s1) ?n) (edit_core ?c) s3 = (Inr (), s4)"
      "parser_rep s4 (a\<lparr>a_entries := a_entries a @ [edit_core ?c (zero_peh\<lparr>pent := pe\<rparr>)]\<rparr>)"
      "slot (ps_store s4) = slot (ps_store s1)" "ps_lead s4 = lead" "elt_num (ps_store s4) = int ?n"
    using edit_entry_rep [OF s3(2), of ?n "edit_core ?c"] s3(3-5) by (auto simp: list_update_append)
  let ?fs = "(if is_dir then af\<lparr>af_queue := af_queue af @ [(str, ?n)]\<rparr> else af) # afs"
  let ?es = "a_entries a @ [edit_core ?c (zero_peh\<lparr>pent := pe\<rparr>)]"
  obtain s5 where s5: "(if \<not> is_dir then edit_entry (slot (ps_store s1) ?n) (edit_core CSE_SET_NON_DIR)
        else act_bind (act_res (lf_dup fmt name)) (\<lambda>str.
             act_bind (edit_entry (slot (ps_store s1) ?n) (edit_core CSE_SET_DIR)) (\<lambda>_.
               queue_dir str (slot (ps_store s1) ?n)))) s3 = (Inr (), s5)"
      "parser_rep s5 \<lparr>a_frames = ?fs, a_entries = ?es\<rparr>"
      "slot (ps_store s5) = slot (ps_store s1)" "ps_lead s5 = lead"
  proof (cases is_dir)
    case True
    obtain s5 where "queue_dir str (slot (ps_store s4) ?n) s4 = (Inr (), s5)"
      "parser_rep s5 (a\<lparr>a_entries := ?es, a_frames := ?fs\<rparr>)"
      "ps_store s5 = ps_store s4" "ps_lead s5 = lead"
      using queue_dir_parser_rep [OF s4(2), of af afs ?n str] af s4(4,5) True by auto
    moreover have "a\<lparr>a_entries := ?es, a_frames := ?fs\<rparr> = \<lparr>a_frames = ?fs, a_entries = ?es\<rparr>" by simp
    ultimately show ?thesis
      using s4(1,3) dup True by (intro that [of s5]) (simp_all add: act_res_def act_bind_def)
  next
    case False
    then have "a\<lparr>a_entries := ?es\<rparr> = \<lparr>a_frames = ?fs, a_entries = ?es\<rparr>" using af by simp
    with s4 False show ?thesis by (intro that [of s4]) simp_all
  qed
  have idx: "tos_idx s5 = (Inr (af_idx af), s5)"
    using tos_idx_rep [OF s5(2), of "hd ?fs" afs] by (cases is_dir) simp_all
  let ?g = "\<lambda>e. (edit_core (\<lambda>c. c\<lparr>ce_parent_idx := af_idx af\<rparr>) e)\<lparr>peh_name := Some name\<rparr>"
  obtain s6 where s6: "edit_entry (slot (ps_store s1) ?n) ?g s5 = (Inr (), s6)"
      "parser_rep s6 \<lparr>a_frames = ?fs, a_entries = a_entries a @ [?g (edit_core ?c (zero_peh\<lparr>pent := pe\<rparr>))]\<rparr>"
      "ps_lead s6 = lead"
    using edit_entry_rep [OF s5(2), of ?n ?g] s5(3,4) by (auto simp: list_update_append)
  have "handle_file fmt line s = (Inr (), s6)"
    unfolding handle_file_def using s1(1) s2 s3(1) s5(1) idx s6(1) by simp
  moreover have "\<lparr>a_frames = ?fs, a_entries = a_entries a @ [?g (edit_core ?c (zero_peh\<lparr>pent := pe\<rparr>))]\<rparr>
      = a_file str name pe is_dir a"
    by (simp add: a_file_def af edit_core_def file_core_def zero_peh_def)
  ultimately show ?thesis using s6(2,3) by auto
qed

lemma queued_cell_addr: "ic_addr (queued_cell sl x) = Some (sl (snd x))"
  by (simp add: queued_cell_def)

lemma try_next_dir_rep:
  assumes "parser_rep s a" and "pending (a_frames a) < fuel"
  shows "case find_dir path (a_frames a) of
           None \<Rightarrow> \<exists>s'. try_next_dir fuel path s = (Inl Rejected, s') \<and> parser_rep s' (a\<lparr>a_frames := []\<rparr>) \<and>
                     ps_lead s' = ps_lead s
         | Some (x, afs) \<Rightarrow> \<exists>s'. try_next_dir fuel path s = (Inr (), s') \<and>
             parser_rep s' \<lparr>a_frames = afs,
                a_entries = (a_entries a)[snd x := edit_core (\<lambda>c. c\<lparr>ce_child_idx := int (length (a_entries a))\<rparr>)
                                                     (a_entries a ! snd x)]\<rparr> \<and>
             ps_lead s' = ps_lead s"
  using assms
proof (induction fuel arbitrary: s a)
  case (Suc fuel)
  let ?sl = "slot (ps_store s)" and ?n = "ps_fresh s"
  define s0 where "s0 = s\<lparr>ps_stack := pop_while_empty (ps_stack s)\<rparr>"
  define afs0 where "afs0 = dropWhile (\<lambda>af. af_queue af = []) (a_frames a)"
  have l0: "list_all2 (frame_rep ?sl ?n) (ps_stack s0) afs0"
    using Suc.prems(1) pop_while_empty_rep by (auto simp: parser_rep_def s0_def afs0_def)
  have pend: "pending afs0 = pending (a_frames a)" by (simp add: afs0_def pending_dropWhile)
  have sub: "set afs0 \<subseteq> set (a_frames a)" by (auto simp: afs0_def dest: set_dropWhileD)
  have rep0: "parser_rep s0 (a\<lparr>a_frames := afs0\<rparr>)"
    using Suc.prems(1) l0 sub pend by (auto simp: parser_rep_def s0_def)
  have fd: "find_dir path (a_frames a) = find_dir path afs0"
    by (simp only: afs0_def find_dir_dropWhile)
  show ?case
  proof (cases afs0)
    case Nil
    with l0 rep0 have "ps_stack s0 = []" "try_next_dir (Suc fuel) path s = (Inl Rejected, s0)"
      by (simp_all add: s0_def Let_def)
    with Nil rep0 fd show ?thesis by (auto simp: s0_def)
  next
    case (Cons af afs)
    then have "af_queue af \<noteq> []" unfolding afs0_def by (simp add: dropWhile_eq_Cons_conv)
    then obtain x ys where q: "af_queue af = x # ys" by (cases "af_queue af") auto
    from l0 Cons obtain f fs where st: "ps_stack s0 = f # fs" "frame_rep ?sl ?n f af"
        "list_all2 (frame_rep ?sl ?n) fs afs" by (auto simp: list_all2_Cons2)
    from frame_remove [OF st(2) q] obtain b q1 qe q' where
      rm: "remq (fr_q f) = Some (Some b, q1)" "cells q1 b = Some qe" "ident qe = Some (queued_cell ?sl x)"
        "dispose_Queue_elt b (q1\<lparr>cells := (cells q1)(b \<mapsto> qe\<lparr>ident := None\<rparr>)\<rparr>) = Some q'"
        "frame_rep ?sl ?n (f\<lparr>fr_q := q'\<rparr>) (af\<lparr>af_queue := ys\<rparr>)" by blast
    define s1 where "s1 = push (queued_cell ?sl x) (s0\<lparr>ps_stack := f\<lparr>fr_q := q'\<rparr> # fs\<rparr>)"
    let ?afs1 = "\<lparr>af_name = fst x, af_idx = int (snd x), af_queue = []\<rparr> # af\<lparr>af_queue := ys\<rparr> # afs"
    have xlt: "snd x < length (a_entries a)"
      using Suc.prems(1) sub Cons q by (auto simp: parser_rep_def)
    have fr1: "frame_rep ?sl ?n \<lparr>fr_ident = queued_cell ?sl x, fr_q = empty_queue_t\<rparr>
        \<lparr>af_name = fst x, af_idx = int (snd x), af_queue = []\<rparr>"
      by (simp add: frame_rep_def queued_cell_def queue_rep_def empty_queue_t_def)
    have l1: "list_all2 (frame_rep ?sl ?n) (ps_stack s1) ?afs1"
      using fr1 rm(5) st(3) by (simp add: s1_def push_def)
    have store1: "ps_store s1 = ps_store s" "ps_fresh s1 = ?n" "ps_lead s1 = ps_lead s"
      by (simp_all add: s1_def push_def s0_def)
    have rep1: "parser_rep s1 (a\<lparr>a_frames := ?afs1\<rparr>)"
      using rep0 l1 Cons q by (auto simp: parser_rep_def store1 s0_def)
    have match: "stack_match path s1 \<longleftrightarrow> map af_name ?afs1 = rev path"
      unfolding stack_match_iff names_rep [OF l1] ..
    have num: "elt_num (ps_store s1) + 1 = int (length (a_entries a))"
      using Suc.prems(1) by (simp add: store1 parser_rep_def store_rep_def elt_num_def)
    have step0: "try_next_dir (Suc fuel) path s =
        (if stack_match path s1 then
           edit_entry (?sl (snd x)) (edit_core (\<lambda>c. c\<lparr>ce_child_idx := elt_num (ps_store s1) + 1\<rparr>)) s1
         else try_next_dir fuel path (case pop s1 of None \<Rightarrow> s1 | Some s2 \<Rightarrow> s2))"
      unfolding try_next_dir.simps(2) Let_def s0_def [symmetric]
      by (simp only: st(1) rm(1-4) list.case option.case prod.case s1_def [symmetric] queued_cell_addr)
    show ?thesis
    proof (cases "stack_match path s1")
      case True
      with match Cons q fd have "find_dir path (a_frames a) = Some (x, ?afs1)" by (simp add: Let_def)
      moreover obtain s2 where s2: "edit_entry (?sl (snd x))
          (edit_core (\<lambda>c. c\<lparr>ce_child_idx := int (length (a_entries a))\<rparr>)) s1 = (Inr (), s2)"
        "parser_rep s2 (a\<lparr>a_frames := ?afs1, a_entries := (a_entries a)[snd x :=
            edit_core (\<lambda>c. c\<lparr>ce_child_idx := int (length (a_entries a))\<rparr>) (a_entries a ! snd x)]\<rparr>)"
        "ps_lead s2 = ps_lead s"
        using edit_entry_rep [OF rep1, of "snd x" "edit_core (\<lambda>c. c\<lparr>ce_child_idx := int (length (a_entries a))\<rparr>)"] xlt
        by (auto simp: store1)
      moreover have "try_next_dir (Suc fuel) path s = (Inr (), s2)"
        unfolding step0 using True s2(1) num by (simp add: queued_cell_def)
      ultimately show ?thesis by auto
    next
      case False
      with match Cons q fd have fd': "find_dir path (a_frames a) = find_dir path (af\<lparr>af_queue := ys\<rparr> # afs)"
        by (simp add: Let_def del: find_dir.simps(2) add: find_dir.simps(2) [of path af afs])
      let ?s2 = "s1\<lparr>ps_stack := f\<lparr>fr_q := q'\<rparr> # fs\<rparr>"
      have pop: "pop s1 = Some ?s2"
        by (simp add: pop_def s1_def push_def empty_queue_def empty_queue_t_def)
      then have step: "try_next_dir (Suc fuel) path s = try_next_dir fuel path ?s2"
        unfolding step0 using False by simp
      have "parser_rep ?s2 (a\<lparr>a_frames := af\<lparr>af_queue := ys\<rparr> # afs\<rparr>)"
        using rep1 rm(5) st(3) by (auto simp: parser_rep_def store1)
      moreover have "pending (af\<lparr>af_queue := ys\<rparr> # afs) < fuel"
        using Suc.prems(2) pend Cons q by simp
      ultimately have "case find_dir path (af\<lparr>af_queue := ys\<rparr> # afs) of
           None \<Rightarrow> \<exists>s'. try_next_dir fuel path ?s2 = (Inl Rejected, s') \<and> parser_rep s' (a\<lparr>a_frames := []\<rparr>) \<and>
                     ps_lead s' = ps_lead s
         | Some (x, afs) \<Rightarrow> \<exists>s'. try_next_dir fuel path ?s2 = (Inr (), s') \<and>
             parser_rep s' \<lparr>a_frames = afs,
                a_entries = (a_entries a)[snd x := edit_core (\<lambda>c. c\<lparr>ce_child_idx := int (length (a_entries a))\<rparr>)
                                                     (a_entries a ! snd x)]\<rparr> \<and> ps_lead s' = ps_lead s"
        using Suc.IH [of ?s2 "a\<lparr>a_frames := af\<lparr>af_queue := ys\<rparr> # afs\<rparr>"] store1(3)
        by (simp del: find_dir.simps cong: option.case_cong)
      then show ?thesis unfolding fd' step .
    qed
  qed
qed simp

end
