(* ===== verification/UnixListing.thy ===== *)
theory UnixListing
  imports ListingBase
begin

section \<open>The line routines for Unix \<open>ls -lR\<close> listings\<close>

text \<open>
  Models \<open>archie/anonftp/parse/unix.c\<close> and \<open>unix2.c\<close>: the type of a line, the split of a
  directory line into its path, the cut of a file line into its fields, and the conversions
  of permissions, size and time.  \<open>leading_blanks\<close> is the only state: the number of blanks
  to skip before a file name, or -1 until the first file line has been seen.

  The clock (\<open>time\<close>, \<open>gmtime\<close>, \<open>timelocal\<close> or \<open>mktime\<close>, the time zone) is a parameter.
\<close>

subsection \<open>Line types\<close>

definition S_FILE :: pattern where
  "S_FILE = From (RSeqs
     [RIn ''-bcdlpsyDFL'', RIn ''-r'', RIn ''-w'', RIn ''-xsSl'', RIn ''-r'', RIn ''-w'', RIn ''-xsSl'',
      RIn ''-r'', RIn ''-w'', RIn ''-xtT'', RPlus (RIn WHITE_STR)])"

definition S_BLANK :: pattern where
  "S_BLANK = Whole REps"

definition S_DIR_START :: pattern where
  "S_DIR_START = Whole (RSeqs
     [RAlt (RIn ''/'') REps, RPlus (RNotIn ''/''), RStar (RSeq (RIn ''/'') (RPlus (RNotIn ''/''))),
      RIn '':''])"

definition S_TOTAL :: pattern where
  "S_TOTAL = From (RSeqs [RLit ''total'', RPlus (RIn WHITE_STR), RPlus (RIn ''0123456789'')])"

definition S_UNREAD :: pattern where
  "S_UNREAD = Whole (RSeqs [RPlus (RNotIn WHITE_STR), RPlus (RIn WHITE_STR), RLit ''unreadable''])"

definition S_line_type :: "cstr \<Rightarrow> line_type" where
  "S_line_type line =
     (if regexec S_FILE line then L_FILE
      else if regexec S_BLANK line then L_BLANK
      else if regexec S_DIR_START line then L_DIR_START
      else if regexec S_TOTAL line then L_TOTAL
      else if regexec S_UNREAD line then L_UNREAD
      else L_UNKNOWN)"

definition S_dup_dir_name :: "cstr \<Rightarrow> cstr res" where
  "S_dup_dir_name name = Inr name"

definition S_file_type :: "cstr \<Rightarrow> bool res" where
  \<comment> \<open>whether the permission string is that of a directory\<close>
  "S_file_type s = Inr (rd s 0 = CHR ''d'' \<or> rd s 0 = CHR ''D'')"

subsection \<open>Splitting a directory line\<close>

definition MAX_PATH_ELTS :: nat where
  "MAX_PATH_ELTS = 50"

fun split_slash :: "cstr \<Rightarrow> cstr list" where
  "split_slash [] = [[]]"
| "split_slash (c # s) =
     (if c = CHR ''/'' then [] # split_slash s
      else (case split_slash s of x # xs \<Rightarrow> (c # x) # xs | [] \<Rightarrow> [[c]]))"

text \<open>
  The path components, and the content of the line buffer afterwards (the code puts a nul
  over each separator).  The array of components has \<open>MAX_PATH_ELTS + 1\<close> slots and no check.
  \<open>conv\<close> is what the loop does to the characters in place: nothing here.
\<close>

definition split_dir :: "(char \<Rightarrow> char) \<Rightarrow> cstr \<Rightarrow> cstr option \<Rightarrow> (cstr list \<times> cstr) res" where
  "split_dir conv str prep_dir =
     (let lead = (rd str 0 = CHR ''/'');
          body = (if lead then tl str else str);
          comps = split_slash (map conv body);
          pre = (case prep_dir of None \<Rightarrow> [] | Some d \<Rightarrow> [d])
      in if MAX_PATH_ELTS + 1 < length (pre @ comps) then Inl Undefined
         else if str = [] then Inl Undefined
         else if body = [] \<or> last body \<noteq> CHR '':'' then Inl Rejected
         else let comps' = butlast comps @ [butlast (last comps)]
              in Inr (pre @ comps', (if lead then ''/'' else []) @ hd comps'))"

definition S_split_dir :: "cstr \<Rightarrow> cstr option \<Rightarrow> (cstr list \<times> cstr) res" where
  "S_split_dir = split_dir (\<lambda>c. c)"

subsection \<open>Conversions\<close>

record tm =
  tm_min :: int
  tm_hour :: int
  tm_mday :: int
  tm_mon :: int
  tm_year :: int

record clock =
  clk_sysv :: bool             \<comment> \<open>compiled for AIX or Solaris\<close>
  clk_now :: int               \<comment> \<open>\<open>time(NULL)\<close>\<close>
  clk_tm :: tm                 \<comment> \<open>\<open>gmtime\<close> of the time of the first call\<close>
  clk_mktime :: "tm \<Rightarrow> int"    \<comment> \<open>\<open>timelocal\<close> or \<open>mktime\<close>; -1 on failure\<close>
  clk_offset :: int            \<comment> \<open>offset of the local zone and of the listing's zone\<close>

definition unix_months :: "cstr list" where
  "unix_months = [''Jan'', ''Feb'', ''Mar'', ''Apr'', ''May'', ''Jun'', ''Jul'', ''Aug'', ''Sep'',
     ''Oct'', ''Nov'', ''Dec'']"

fun month_index :: "nat \<Rightarrow> cstr list \<Rightarrow> cstr \<Rightarrow> nat \<Rightarrow> nat" where
  \<comment> \<open>the index of the first month that agrees in \<open>n\<close> characters, or the number of months\<close>
  "month_index n [] mon m = m"
| "month_index n (x # xs) mon m = (if strncmp0 mon x n then m else month_index n xs mon (Suc m))"

definition guess_year :: "clock \<Rightarrow> int \<Rightarrow> int" where
  \<comment> \<open>the year of a date that has only a month and a time of day\<close>
  "guess_year clk m =
     (if tm_mon (clk_tm clk) - m < 6 then
        (if tm_mon (clk_tm clk) - m < 0 then tm_year (clk_tm clk) + 1900 - 1
         else tm_year (clk_tm clk) + 1900)
      else tm_year (clk_tm clk) + 1900)"

definition time_or_year :: "clock \<Rightarrow> int \<Rightarrow> cstr \<Rightarrow> (int \<times> int \<times> int) res" where
  \<comment> \<open>hour, minute and year; for a field of one character \<open>t_y[2]\<close> is the first character of
      the rest of the line, and either branch then finds no time and no year after 1900\<close>
  "time_or_year clk m t_y =
     (if length t_y < 2 then Inl Rejected
      else if rd t_y 2 = CHR '':'' then
        res_bind (scan_d 2 t_y) (\<lambda>(hr, t).
          if rd t 0 \<noteq> CHR '':'' then Inl Rejected
          else res_bind (scan_d 2 (tl t)) (\<lambda>(mn, _). Inr (hr, mn, guess_year clk m)))
      else res_bind (scan_d (length t_y) t_y) (\<lambda>(y, _). Inr (0, 0, y)))"

definition u2db_time :: "clock \<Rightarrow> cstr \<Rightarrow> cstr \<Rightarrow> cstr \<Rightarrow> core_site_entry \<Rightarrow> core_site_entry res" where
  "u2db_time clk mon day t_y cse =
     (let m = month_index 4 unix_months mon 0 in
      if m = 12 then Inl Rejected
      else res_bind (scan_d (length day) day) (\<lambda>(dm, _).
        res_bind (time_or_year clk (int m) t_y) (\<lambda>(hr, mn, y0).
          if dm < 1 \<or> 31 < dm \<or> y0 < 1900 then Inl Rejected
          else let y = (if clk_sysv clk \<and> y0 < 1970 then 1970 else y0) in
            if hr < 0 \<or> 23 < hr \<or> mn < 0 \<or> 59 < mn then Inl Rejected
            else let bd = \<lparr>tm_min = mn, tm_hour = hr, tm_mday = dm, tm_mon = int m,
                           tm_year = y - 1900\<rparr>;
                     t = clk_mktime clk bd;
                     the_time = (if t = - 1 then clk_now clk else t)
                 in Inr (cse\<lparr>ce_date := word_of_int (the_time + clk_offset clk)\<rparr>))))"

fun perm_loop :: "cstr \<Rightarrow> nat list \<Rightarrow> 16 word \<Rightarrow> 16 word res" where
  \<comment> \<open>over the values of \<open>i\<close>; \<open>j = 9 - i\<close>\<close>
  "perm_loop v [] perms = Inr perms"
| "perm_loop v (i # is) perms =
     (let j = 9 - i in
      if length v < j then Inl Undefined
      else if rd v j \<in> set ''rwxtslST'' then perm_loop v is (perms OR push_bit i 1)
      else if rd v j = CHR ''-'' then perm_loop v is perms
      else Inl Rejected)"

definition u2db_perm :: "cstr \<Rightarrow> core_site_entry \<Rightarrow> core_site_entry res" where
  "u2db_perm v cse =
     res_bind (perm_loop v [0..<9] 0) (\<lambda>perms. Inr (cse\<lparr>ce_perms := perms\<rparr>))"

definition u2db_owner :: "cstr \<Rightarrow> cstr option \<Rightarrow> core_site_entry \<Rightarrow> core_site_entry res" where
  "u2db_owner u v cse = Inr cse"

definition u2db_size :: "cstr \<Rightarrow> core_site_entry \<Rightarrow> core_site_entry res" where
  "u2db_size v cse =
     (if \<not> is_digit (rd v 0) then Inl Rejected
      else res_bind (atoi_digits v) (\<lambda>n. Inr (cse\<lparr>ce_size := word_of_int n\<rparr>)))"

subsection \<open>Parsing a file line\<close>

record unix_fields =
  F_PERM :: cstr
  F_LINKS :: cstr
  F_OWNER :: cstr
  F_GROUP :: "cstr option"
  F_SIZE :: cstr
  F_MONTH :: cstr
  F_DAY :: cstr
  F_T_Y :: cstr

text \<open>Between the owner and the day: group, size and month of a device, and of anything else.\<close>

definition device_fields :: "cstr \<Rightarrow> (cstr option \<times> cstr \<times> cstr \<times> cstr) res" where
  "device_fields p =
     res_bind (try_get_field p) (\<lambda>(grp, p).
     res_bind
       (if last grp = CHR '','' then
          res_bind (try_get_field p) (\<lambda>(_, p). Inr (None, p))
        else if strchr grp (CHR '','') = None then
          res_bind (try_get_field p) (\<lambda>(major, p).
            if strchr major (CHR '','') = None \<or>
               strchr major (CHR '','') = Some [CHR '',''] then
              res_bind (try_get_field p) (\<lambda>(_, p). Inr (Some grp, p))
            else Inr (Some grp, p))
        else Inr (Some grp, p))
       (\<lambda>(grp, p).
     res_bind (try_get_field p) (\<lambda>(month, p). Inr (grp, ''0'', month, p))))"

definition plain_fields :: "cstr \<Rightarrow> (cstr option \<times> cstr \<times> cstr \<times> cstr) res" where
  "plain_fields p =
     res_bind (try_get_field p) (\<lambda>(grp, p).
     res_bind (try_get_field p) (\<lambda>(size, p).
       if is_digit (rd size 0) then
         res_bind (try_get_field p) (\<lambda>(month, p). Inr (Some grp, size, month, p))
       else Inr (None, grp, size, p)))"

definition fields_with :: "(cstr \<Rightarrow> (cstr option \<times> cstr \<times> cstr \<times> cstr) res) \<Rightarrow>
    cstr \<Rightarrow> (unix_fields \<times> cstr) res" where
  \<comment> \<open>\<open>dev\<close> cuts the columns of a device\<close>
  "fields_with dev line =
     res_bind (try_get_field line) (\<lambda>(perm, p).
     res_bind (try_get_field p) (\<lambda>(links, p).
     res_bind (try_get_field p) (\<lambda>(owner, p).
     res_bind (if rd perm 0 = CHR ''b'' \<or> rd perm 0 = CHR ''c'' then dev p
               else plain_fields p) (\<lambda>(grp, size, month, p).
     res_bind (try_get_field p) (\<lambda>(day, p).
     res_bind (try_get_field p) (\<lambda>(t_y, p).
       Inr (\<lparr>F_PERM = perm, F_LINKS = links, F_OWNER = owner, F_GROUP = grp, F_SIZE = size,
             F_MONTH = month, F_DAY = day, F_T_Y = t_y\<rparr>, p)))))))"

definition line_fields :: "cstr \<Rightarrow> (unix_fields \<times> cstr) res" where
  "line_fields = fields_with device_fields"

text \<open>
  The name starts \<open>leading_blanks\<close> characters after the separator that ended the time.
  \<open>set_blanks\<close> can make the count negative (below -1); the pointer then goes back over the nul
  of that separator into the time field.
\<close>

definition name_at :: "int \<Rightarrow> cstr \<Rightarrow> cstr \<Rightarrow> cstr res" where
  "name_at blanks t_y p =
     (if 0 \<le> blanks then Inr (drop (nat blanks) p)
      else let k = nat (- blanks) - 1
           in if k \<le> length t_y then Inr (drop (length t_y - k) t_y) else Inl Undefined)"

definition cut_link :: "cstr \<Rightarrow> cstr" where
  \<comment> \<open>the name of a symbolic link ends before the first arrow\<close>
  "cut_link name = (case strstr name '' -> '' of
       None \<Rightarrow> name | Some q \<Rightarrow> take (length name - length q) name)"

definition file_entry :: "clock \<Rightarrow> unix_fields \<Rightarrow> cstr \<Rightarrow> (cstr \<times> parser_entry \<times> bool) res" where
  "file_entry clk f name =
     res_bind (u2db_perm (F_PERM f) zero_core) (\<lambda>cse.
     res_bind (u2db_owner (F_OWNER f) (F_GROUP f) cse) (\<lambda>cse.
     res_bind (u2db_size (F_SIZE f) cse) (\<lambda>cse.
     res_bind (u2db_time clk (F_MONTH f) (F_DAY f) (F_T_Y f) cse) (\<lambda>cse.
     res_bind (S_file_type (F_PERM f)) (\<lambda>is_dir.
       Inr (name, \<lparr>pe_core = cse, pe_slen = word_of_nat (length name)\<rparr>, is_dir))))))"

text \<open>
  The part that does not depend on the columns: \<open>cols\<close> cuts the line, \<open>entry\<close> converts the
  fields.
\<close>

definition file_parse :: "(cstr \<Rightarrow> (unix_fields \<times> cstr) res) \<Rightarrow>
    (unix_fields \<Rightarrow> cstr \<Rightarrow> (cstr \<times> parser_entry \<times> bool) res) \<Rightarrow>
    cstr \<Rightarrow> int \<Rightarrow> (cstr \<times> parser_entry \<times> bool) res \<times> int" where
  "file_parse cols entry line leading_blanks =
     (case cols line of
        Inl e \<Rightarrow> (Inl e, leading_blanks)
      | Inr (f, p) \<Rightarrow>
          let num_blanks = int (strspn p WHITE_STR) in
          if num_blanks < leading_blanks then (Inl Rejected, num_blanks)
          else
            let blanks = (if leading_blanks = - 1 then num_blanks else leading_blanks) in
            (res_bind (name_at blanks (F_T_Y f) p) (\<lambda>name.
               if name = [] then Inl Rejected
               else entry f (if rd (F_PERM f) 0 = CHR ''l'' then cut_link name else name)),
             blanks))"

definition S_file_parse :: "clock \<Rightarrow> cstr \<Rightarrow> int \<Rightarrow> (cstr \<times> parser_entry \<times> bool) res \<times> int" where
  "S_file_parse clk = file_parse line_fields (file_entry clk)"

definition set_blanks :: "int \<Rightarrow> int \<Rightarrow> int" where
  "set_blanks num leading_blanks =
     (if leading_blanks \<noteq> - 1 then leading_blanks - num else leading_blanks)"

subsection \<open>Permissions of a file line\<close>

definition perm_classes :: "cstr list" where
  \<comment> \<open>the ten character classes with which a file line begins\<close>
  "perm_classes = [''-bcdlpsyDFL'', ''-r'', ''-w'', ''-xsSl'', ''-r'', ''-w'', ''-xsSl'', ''-r'', ''-w'', ''-xtT'']"

definition is_perm :: "cstr \<Rightarrow> bool" where
  "is_perm v = list_all2 (\<lambda>c cs. c \<in> set cs) v perm_classes"

lemma S_FILE_iff:
  "regexec S_FILE line \<longleftrightarrow> (\<exists>v c t. line = v @ c # t \<and> is_perm v \<and> is_white c)"
proof -
  have "S_FILE = From (RSeqs (map RIn perm_classes @ [RPlus (RIn WHITE_STR)]))"
    by (simp add: S_FILE_def perm_classes_def)
  then have "regexec S_FILE line = regexec (From (RSeqs (map RIn perm_classes @ [RPlus (RIn WHITE_STR)]))) line"
    by (rule arg_cong)
  then show ?thesis unfolding is_perm_def classes_then_white .
qed

lemma is_perm_nth:
  "is_perm v \<longleftrightarrow> length v = 10 \<and> (\<forall>i<10. v ! i \<in> set (perm_classes ! i))"
  by (auto simp: is_perm_def list_all2_conv_all_nth perm_classes_def)

lemma is_perm_word: "is_perm v \<Longrightarrow> is_word v"
proof -
  assume v: "is_perm v"
  have "\<forall>i<10. \<forall>c\<in>set (perm_classes ! i). \<not> is_white c"
    by (simp add: perm_classes_def All_less_Suc numeral_eq_Suc is_white_def WHITE_STR_def)
  with v have "\<forall>i<10. \<not> is_white (v ! i)" "length v = 10" by (auto simp: is_perm_nth)
  then show "is_word v" by (auto simp: is_word_def in_set_conv_nth)
qed

lemma is_perm_letters:
  assumes "is_perm v" and "0 < j" and "j < 10"
  shows "v ! j \<in> set ''rwxtslST-''"
proof -
  have "\<forall>i<10. 0 < i \<longrightarrow> set (perm_classes ! i) \<subseteq> set ''rwxtslST-''"
    by (simp add: perm_classes_def All_less_Suc numeral_eq_Suc)
  with assms show ?thesis unfolding is_perm_nth by blast
qed

lemma perm_loop_Inr:
  assumes "length v = 10" and "\<forall>i\<in>set is. i < 9 \<and> v ! (9 - i) \<in> set ''rwxtslST-''"
  shows "\<exists>w. perm_loop v is p = Inr w \<and>
           (\<forall>i<16. bit w i \<longleftrightarrow> bit p i \<or> i \<in> set is \<and> v ! (9 - i) \<noteq> CHR ''-'')"
  using assms(2)
proof (induction "is" arbitrary: p)
  case (Cons i "is")
  have rd: "rd v (9 - i) = v ! (9 - i)" using assms(1) by (intro rd_less) simp
  show ?case
  proof (cases "v ! (9 - i) = CHR ''-''")
    case True
    with Cons obtain w where "perm_loop v is p = Inr w \<and>
           (\<forall>i<16. bit w i \<longleftrightarrow> bit p i \<or> i \<in> set is \<and> v ! (9 - i) \<noteq> CHR ''-'')" by fastforce
    with True rd assms(1) show ?thesis by (auto simp: Let_def)
  next
    case False
    with Cons.prems have c: "v ! (9 - i) \<in> set ''rwxtslST''" "i < 9" by auto
    from Cons obtain w where "perm_loop v is (p OR push_bit i 1) = Inr w \<and>
           (\<forall>k<16. bit w k \<longleftrightarrow> bit (p OR push_bit i 1) k \<or> k \<in> set is \<and> v ! (9 - k) \<noteq> CHR ''-'')" by fastforce
    moreover have "bit (p OR push_bit i 1) k \<longleftrightarrow> bit p k \<or> k = i" if "k < 16" for k
      using c(2) that by (auto simp: bit_simps)
    ultimately have "perm_loop v (i # is) p = Inr w \<and>
           (\<forall>k<16. bit w k \<longleftrightarrow> bit p k \<or> k \<in> set (i # is) \<and> v ! (9 - k) \<noteq> CHR ''-'')"
      using rd assms(1) c(1) False by (auto simp: Let_def)
    then show ?thesis by blast
  qed
qed simp

definition perm_word :: "cstr \<Rightarrow> 16 word" where
  \<comment> \<open>bit \<open>i\<close> is set when letter \<open>9 - i\<close> of the permission string is not a dash\<close>
  "perm_word v = horner_sum of_bool 2 (map (\<lambda>i. v ! (9 - i) \<noteq> CHR ''-'') [0..<9])"

lemma u2db_perm_word:
  assumes "is_perm v"
  shows "u2db_perm v cse = Inr (cse\<lparr>ce_perms := perm_word v\<rparr>)"
proof -
  have l: "length v = 10" using assms by (simp add: is_perm_nth)
  have "\<forall>i\<in>set [0..<9]. i < 9 \<and> v ! (9 - i) \<in> set ''rwxtslST-''"
    using is_perm_letters [OF assms] by simp
  from perm_loop_Inr [OF l this, of 0] obtain w where w: "perm_loop v [0..<9] 0 = Inr w"
    "\<forall>i<16. bit w i \<longleftrightarrow> i < 9 \<and> v ! (9 - i) \<noteq> CHR ''-''" by auto
  have "w = perm_word v"
    by (rule bit_word_eqI) (auto simp: w(2) perm_word_def bit_horner_sum_bit_word_iff)
  with w(1) show ?thesis by (simp add: u2db_perm_def)
qed

subsection \<open>What \<open>ls -l\<close> writes\<close>

text \<open>The time column: an hour and a minute, or a year.\<close>

datatype stamp = At nat nat | Year nat

record listed =
  ls_perm :: cstr
  ls_links :: cstr
  ls_owner :: cstr
  ls_group :: "cstr option"
  ls_size :: nat
  ls_month :: nat
  ls_day :: nat
  ls_stamp :: stamp
  ls_name :: cstr
  ls_target :: "cstr option"

fun show_stamp :: "stamp \<Rightarrow> cstr" where
  "show_stamp (At h m) = two_digits h @ '':'' @ two_digits m"
| "show_stamp (Year y) = dec y"

fun stamp_ok :: "stamp \<Rightarrow> bool" where
  "stamp_ok (At h m) = (h < 24 \<and> m < 60)"
| "stamp_ok (Year y) = (1900 \<le> y \<and> int y \<le> INT_MAX)"

text \<open>\<open>b i\<close> is the white space after column \<open>i\<close>.\<close>

definition ls_line :: "(nat \<Rightarrow> cstr) \<Rightarrow> listed \<Rightarrow> cstr" where
  "ls_line b r =
     ls_perm r @ b 0 @ ls_links r @ b 1 @ ls_owner r @ b 2 @
     (case ls_group r of None \<Rightarrow> [] | Some g \<Rightarrow> g @ b 3) @
     dec (ls_size r) @ b 4 @ unix_months ! ls_month r @ b 5 @ dec (ls_day r) @ b 6 @
     show_stamp (ls_stamp r) @ b 7 @ ls_name r @
     (case ls_target r of None \<Rightarrow> [] | Some t \<Rightarrow> '' -> '' @ t)"

definition ls_ok :: "listed \<Rightarrow> bool" where
  "ls_ok r =
     (is_perm (ls_perm r) \<and> hd (ls_perm r) \<noteq> CHR ''b'' \<and> hd (ls_perm r) \<noteq> CHR ''c'' \<and>
      is_word (ls_links r) \<and> is_word (ls_owner r) \<and>
      (case ls_group r of None \<Rightarrow> True | Some g \<Rightarrow> is_word g) \<and>
      int (ls_size r) \<le> INT_MAX \<and> ls_month r < 12 \<and> 0 < ls_day r \<and> ls_day r < 32 \<and>
      stamp_ok (ls_stamp r) \<and> ls_name r \<noteq> [] \<and>
      (case ls_target r of
         None \<Rightarrow> hd (ls_perm r) = CHR ''l'' \<longrightarrow> strstr (ls_name r) '' -> '' = None
       | Some t \<Rightarrow> hd (ls_perm r) = CHR ''l'' \<and> strstr (ls_name r @ '' ->'') '' -> '' = None))"

text \<open>The date the entry gets: the year is guessed when the column shows a time of day.\<close>

definition ls_date :: "clock \<Rightarrow> nat \<Rightarrow> nat \<Rightarrow> stamp \<Rightarrow> 32 word" where
  "ls_date clk m d s =
     (let (hr, mn, y0) = (case s of At h n \<Rightarrow> (int h, int n, guess_year clk (int m))
                                  | Year y \<Rightarrow> (0, 0, int y));
          y = (if clk_sysv clk then max 1970 y0 else y0);
          t = clk_mktime clk \<lparr>tm_min = mn, tm_hour = hr, tm_mday = int d, tm_mon = int m,
                              tm_year = y - 1900\<rparr>
      in word_of_int ((if t = - 1 then clk_now clk else t) + clk_offset clk))"

lemma show_stamp_word: "stamp_ok s \<Longrightarrow> is_word (show_stamp s)"
proof (cases s)
  case (At h m)
  assume "stamp_ok s"
  with At have "h div 10 < 10" "m div 10 < 10" by auto
  then have "\<forall>c\<in>set (two_digits h @ two_digits m). is_digit c" by (simp add: two_digits_def)
  with At digit_not show ?thesis
    by (auto simp: is_word_def two_digits_def is_white_def WHITE_STR_def)
qed (simp add: dec_word)

lemma month_words: "m < 12 \<Longrightarrow> is_word (unix_months ! m) \<and> \<not> is_digit (hd (unix_months ! m))"
proof -
  have "\<forall>m<12. is_word (unix_months ! m) \<and> \<not> is_digit (hd (unix_months ! m))"
    by code_simp
  then show "m < 12 \<Longrightarrow> is_word (unix_months ! m) \<and> \<not> is_digit (hd (unix_months ! m))" by blast
qed

lemma month_index_nth: "m < 12 \<Longrightarrow> month_index 4 unix_months (unix_months ! m) 0 = m"
proof -
  have "\<forall>m<12. month_index 4 unix_months (unix_months ! m) 0 = m" by code_simp
  then show "m < 12 \<Longrightarrow> month_index 4 unix_months (unix_months ! m) 0 = m" by blast
qed

lemma time_or_year_stamp:
  assumes "stamp_ok s"
  shows "time_or_year clk m (show_stamp s) =
           Inr (case s of At h n \<Rightarrow> (int h, int n, guess_year clk m) | Year y \<Rightarrow> (0, 0, int y))"
proof (cases s)
  case (At h n)
  with assms have hn: "h < 100" "n < 100" by auto
  have tw: "scan_d 2 (two_digits k @ t) = Inr (int k, t)" if "k < 100" "t = [] \<or> \<not> is_digit (hd t)" for k t
    using scan_d_digits [of "two_digits k" 2 t] that two_digits_val [OF that(1)]
    by (simp add: two_digits_def)
  have "\<not> is_digit CHR '':''" by (simp add: is_digit_def ord_def)
  with hn tw [OF hn(1), of "'':'' @ two_digits n"] tw [OF hn(2), of "[]"]
  have "scan_d 2 (show_stamp s) = Inr (int h, '':'' @ two_digits n)"
    "scan_d 2 (two_digits n) = Inr (int n, [])" by (simp_all add: At)
  moreover have "rd (show_stamp s) 2 = CHR '':''" by (simp add: At two_digits_def rd_def)
  moreover have "\<not> length (show_stamp s) < 2" by (simp add: At two_digits_def)
  ultimately show ?thesis by (simp add: time_or_year_def At rd_def)
next
  case (Year y)
  with assms have y: "1900 \<le> y" "y \<le> 2147483647" by (auto simp: INT_MAX_def)
  then have "dec y = dec (y div 10 div 10) @ [digit (y div 10 mod 10), digit (y mod 10)]"
    by (simp add: dec.simps [of y] dec.simps [of "y div 10"])
  moreover have "dec (y div 10 div 10) \<noteq> []" by simp
  ultimately have len: "3 \<le> length (dec y)" by (cases "dec (y div 10 div 10)") auto
  then have "dec y ! 2 \<in> set (dec y)" by (intro nth_mem) simp
  then have "is_digit (dec y ! 2)" by (rule dec_digits)
  with len digit_not have "rd (dec y) 2 \<noteq> CHR '':''" by (auto simp: rd_def)
  moreover have "scan_d (length (dec y)) (dec y) = Inr (int y, [])"
    using scan_d_digits [of "dec y" "length (dec y)" "[]"] y by (auto dest: dec_digits)
  ultimately show ?thesis using len by (simp add: time_or_year_def Year)
qed

lemma u2db_time_stamp:
  assumes "m < 12" and "0 < d" and "d < 32" and "stamp_ok s" and "70 \<le> tm_year (clk_tm clk)"
  shows "u2db_time clk (unix_months ! m) (dec d) (show_stamp s) cse = Inr (cse\<lparr>ce_date := ls_date clk m d s\<rparr>)"
proof -
  have d: "scan_d (length (dec d)) (dec d) = Inr (int d, [])"
    using scan_d_digits [of "dec d" "length (dec d)" "[]"] assms(3) by (auto dest: dec_digits)
  have "1900 \<le> guess_year clk (int m)" using assms(5) by (simp add: guess_year_def)
  with assms show ?thesis
    by (cases s)
      (auto simp: u2db_time_def month_index_nth d time_or_year_stamp ls_date_def max_def Let_def
            simp del: show_stamp.simps)
qed

definition ls_fields :: "listed \<Rightarrow> unix_fields" where
  "ls_fields r = \<lparr>F_PERM = ls_perm r, F_LINKS = ls_links r, F_OWNER = ls_owner r,
     F_GROUP = ls_group r, F_SIZE = dec (ls_size r), F_MONTH = unix_months ! ls_month r,
     F_DAY = dec (ls_day r), F_T_Y = show_stamp (ls_stamp r)\<rparr>"

definition ls_rest :: "listed \<Rightarrow> cstr" where
  "ls_rest r = ls_name r @ (case ls_target r of None \<Rightarrow> [] | Some t \<Rightarrow> '' -> '' @ t)"

lemma line_fields_ls_line:
  assumes ok: "ls_ok r" and b: "\<And>i. is_blanks (b i)"
  shows "line_fields (ls_line b r) = Inr (ls_fields r, tl (b 7) @ ls_rest r)"
proof -
  note sep = try_get_field_seps [OF _ b] and tl = is_blanks_tl [OF b]
  from ok have perm: "is_perm (ls_perm r)" and p0: "rd (ls_perm r) 0 \<noteq> CHR ''b''" "rd (ls_perm r) 0 \<noteq> CHR ''c''"
    and w: "is_word (ls_links r)" "is_word (ls_owner r)"
    and m: "ls_month r < 12" and st: "stamp_ok (ls_stamp r)"
    by (auto simp: ls_ok_def hd_rd dest!: is_perm_word simp: is_word_def)
  note w = w is_perm_word [OF perm] conjunct1 [OF month_words [OF m]] dec_word show_stamp_word [OF st]
  have sz: "is_digit (rd (dec n) 0)" for n
    using dec_digits [of "hd (dec n)" n] by (simp add: hd_rd)
  have mo: "\<not> is_digit (rd (unix_months ! ls_month r) 0)"
    using month_words [OF m] by (simp add: hd_rd is_word_def)
  show ?thesis
  proof (cases "ls_group r")
    case None
    then have "line_fields (ls_line b r) =
      res_bind (plain_fields (tl (b 2) @ dec (ls_size r) @ b 4 @ unix_months ! ls_month r @ b 5 @
          dec (ls_day r) @ b 6 @ show_stamp (ls_stamp r) @ b 7 @ ls_rest r)) (\<lambda>(grp, size, month, p).
     res_bind (try_get_field p) (\<lambda>(day, p).
     res_bind (try_get_field p) (\<lambda>(t_y, p).
       Inr (\<lparr>F_PERM = ls_perm r, F_LINKS = ls_links r, F_OWNER = ls_owner r, F_GROUP = grp, F_SIZE = size,
             F_MONTH = month, F_DAY = day, F_T_Y = t_y\<rparr>, p))))"
      by (simp add: line_fields_def fields_with_def ls_line_def ls_rest_def sep w tl p0)
    also have "\<dots> = Inr (ls_fields r, tl (b 7) @ ls_rest r)"
      by (simp add: plain_fields_def sep w tl mo ls_fields_def None)
    finally show ?thesis .
  next
    case (Some g)
    with ok have g: "is_word g" by (simp add: ls_ok_def)
    from Some have "line_fields (ls_line b r) =
      res_bind (plain_fields (tl (b 2) @ g @ b 3 @ dec (ls_size r) @ b 4 @ unix_months ! ls_month r @ b 5 @
          dec (ls_day r) @ b 6 @ show_stamp (ls_stamp r) @ b 7 @ ls_rest r)) (\<lambda>(grp, size, month, p).
     res_bind (try_get_field p) (\<lambda>(day, p).
     res_bind (try_get_field p) (\<lambda>(t_y, p).
       Inr (\<lparr>F_PERM = ls_perm r, F_LINKS = ls_links r, F_OWNER = ls_owner r, F_GROUP = grp, F_SIZE = size,
             F_MONTH = month, F_DAY = day, F_T_Y = t_y\<rparr>, p))))"
      by (simp add: line_fields_def fields_with_def ls_line_def ls_rest_def sep w tl p0)
    also have "\<dots> = Inr (ls_fields r, tl (b 7) @ ls_rest r)"
      by (simp add: plain_fields_def sep w g tl sz ls_fields_def Some)
    finally show ?thesis .
  qed
qed

subsection \<open>Links\<close>

lemma strstr_append_None:
  "strstr (s @ butlast p) p = None \<Longrightarrow> p \<noteq> [] \<Longrightarrow> strstr (s @ p @ t) p = Some (p @ t)"
proof (induction s)
  case Nil
  then show ?case by (cases p) (auto simp: is_prefix_append)
next
  case (Cons x s)
  from Cons.prems have np: "\<not> is_prefix p (x # s @ butlast p)" and "strstr (s @ butlast p) p = None"
    by (auto split: if_splits)
  with Cons have IH: "strstr (s @ p @ t) p = Some (p @ t)" by simp
  have "\<not> is_prefix p (x # s @ p @ t)"
  proof
    assume "is_prefix p (x # s @ p @ t)"
    then have "take (length p) (x # s @ p @ t) = p" by (simp add: is_prefix_take)
    moreover have "take (length p) (x # s @ p @ t) = take (length p) (x # s @ butlast p)"
      using Cons.prems(2) by (cases p rule: rev_cases) auto
    ultimately show False using np by (simp add: is_prefix_take)
  qed
  with IH show ?case by simp
qed

lemma cut_link_ls:
  assumes "ls_ok r" and "rd (ls_perm r) 0 = CHR ''l''"
  shows "cut_link (ls_rest r) = ls_name r"
proof -
  have l: "hd (ls_perm r) = CHR ''l''"
    using assms by (auto simp: ls_ok_def hd_rd dest!: is_perm_word simp: is_word_def)
  show ?thesis
  proof (cases "ls_target r")
    case None
    with assms l show ?thesis by (simp add: cut_link_def ls_rest_def ls_ok_def)
  next
    case (Some t)
    with assms(1) have "strstr (ls_name r @ butlast '' -> '') '' -> '' = None"
      by (simp add: ls_ok_def)
    from strstr_append_None [OF this, of t] Some show ?thesis
      by (simp add: cut_link_def ls_rest_def)
  qed
qed

lemma not_link_rest: "ls_ok r \<Longrightarrow> rd (ls_perm r) 0 \<noteq> CHR ''l'' \<Longrightarrow> ls_rest r = ls_name r"
  by (auto simp: ls_ok_def ls_rest_def hd_rd split: option.splits dest!: is_perm_word simp: is_word_def)

definition ls_entry :: "clock \<Rightarrow> listed \<Rightarrow> parser_entry" where
  "ls_entry clk r =
     \<lparr>pe_core = zero_core\<lparr>ce_perms := perm_word (ls_perm r), ce_size := word_of_nat (ls_size r),
                          ce_date := ls_date clk (ls_month r) (ls_day r) (ls_stamp r)\<rparr>,
      pe_slen = word_of_nat (length (ls_name r))\<rparr>"

lemma file_entry_ls:
  assumes "ls_ok r" and "70 \<le> tm_year (clk_tm clk)"
  shows "file_entry clk (ls_fields r) (ls_name r) =
           Inr (ls_name r, ls_entry clk r, hd (ls_perm r) \<in> {CHR ''d'', CHR ''D''})"
proof -
  from assms(1) have ok: "is_perm (ls_perm r)" "int (ls_size r) \<le> INT_MAX" "ls_month r < 12"
    "0 < ls_day r" "ls_day r < 32" "stamp_ok (ls_stamp r)"
    by (auto simp: ls_ok_def)
  have sz: "u2db_size (dec (ls_size r)) c = Inr (c\<lparr>ce_size := word_of_nat (ls_size r)\<rparr>)" for c
    using ok(2) dec_digits [of "hd (dec (ls_size r))" "ls_size r"]
    by (simp add: u2db_size_def hd_rd atoi_digits_def INT_MAX_def)
  have "ls_perm r \<noteq> []" using is_perm_word [OF ok(1)] by (simp add: is_word_def)
  then show ?thesis
    using ok by (simp add: file_entry_def ls_fields_def u2db_perm_word u2db_owner_def sz S_file_type_def
        u2db_time_stamp assms(2) ls_entry_def hd_rd)
qed

text \<open>
  C10. A file line as \<open>ls -l\<close> writes it is recognised as a file line and parsed back: the name
  (without the target of a link), the permissions, the size, the date and whether it is a
  directory are those of the listed file, and the number of blanks before the name is
  remembered.  It holds for any white space between the columns, with or without a group, for
  a time of day or a year, on the first file line (where the name starts with no blank) and on
  any later one with the same number of blanks.
\<close>

theorem unix_file_line_roundtrip:
  assumes "ls_ok r" and "\<And>i. is_blanks (b i)" and "70 \<le> tm_year (clk_tm clk)"
    and "lead = int (length (b 7)) - 1 \<or> lead = - 1 \<and> \<not> is_white (hd (ls_name r))"
  shows "S_line_type (ls_line b r) = L_FILE \<and>
         S_file_parse clk (ls_line b r) lead =
           (Inr (ls_name r, ls_entry clk r, hd (ls_perm r) \<in> {CHR ''d'', CHR ''D''}), int (length (b 7)) - 1)"
proof
  have "\<exists>v c t. ls_line b r = v @ c # t \<and> is_perm v \<and> is_white c"
    using assms(1) assms(2) [of 0]
    by (cases "b 0") (auto simp: ls_line_def ls_ok_def is_blanks_def intro!: exI [of _ "ls_perm r"])
  then show "S_line_type (ls_line b r) = L_FILE"
    by (simp add: S_line_type_def S_FILE_iff)
  have b7: "b 7 \<noteq> []" "\<forall>c\<in>set (tl (b 7)). is_white c"
    using assms(2) [of 7] is_blanks_tl by (auto simp: is_blanks_def)
  have n: "ls_name r \<noteq> []" using assms(1) by (simp add: ls_ok_def)
  define k where "k = length (tl (b 7))"
  have k: "int (length (b 7)) - 1 = int k" using b7(1) by (cases "b 7") (auto simp: k_def)
  have ge: "k \<le> strspn (tl (b 7) @ ls_rest r) WHITE_STR"
    using b7(2) by (simp add: strspn_def k_def takeWhile_append is_white_def)
  have eq: "strspn (tl (b 7) @ ls_rest r) WHITE_STR = k" if "\<not> is_white (hd (ls_name r))"
  proof -
    obtain c s where "ls_name r = c # s" using n by (cases "ls_name r") auto
    with that have "is_word (take 1 (ls_rest r))" by (simp add: ls_rest_def is_word_def)
    then show ?thesis unfolding k_def using b7(2) by (intro strspn_blanks)
  qed
  have nm: "name_at (int k) t (tl (b 7) @ ls_rest r) = Inr (ls_rest r)" for t
    by (simp add: name_at_def k_def)
  have cut: "(if rd (F_PERM (ls_fields r)) 0 = CHR ''l'' then cut_link (ls_rest r) else ls_rest r) = ls_name r"
    using cut_link_ls [OF assms(1)] not_link_rest [OF assms(1)] by (simp add: ls_fields_def)
  have ne: "ls_rest r \<noteq> []" using n by (simp add: ls_rest_def)
  show "S_file_parse clk (ls_line b r) lead =
           (Inr (ls_name r, ls_entry clk r, hd (ls_perm r) \<in> {CHR ''d'', CHR ''D''}), int (length (b 7)) - 1)"
    using assms(4) ge eq unfolding k
    by (auto simp: S_file_parse_def file_parse_def line_fields_ls_line assms(1,2) nm ne cut file_entry_ls assms(3) Let_def)
qed

definition sample_ls :: listed where
  "sample_ls = \<lparr>ls_perm = ''lrwxr-xr-x'', ls_links = ''1'', ls_owner = ''ftp'', ls_group = Some ''wheel'',
     ls_size = 27, ls_month = 9, ls_day = 4, ls_stamp = At 16 5, ls_name = ''pub'',
     ls_target = Some ''/export/pub''\<rparr>"

definition sample_clock :: clock where
  "sample_clock = \<lparr>clk_sysv = True, clk_now = 700000000,
     clk_tm = \<lparr>tm_min = 0, tm_hour = 0, tm_mday = 8, tm_mon = 2, tm_year = 92\<rparr>,
     clk_mktime = (\<lambda>t. tm_year t * 31536000 + tm_mon t * 2592000 + tm_mday t * 86400 + tm_hour t * 3600 + tm_min t * 60),
     clk_offset = - 18000\<rparr>"

theorem unix_file_line_roundtrip_witness:
  "S_file_parse sample_clock ''lrwxr-xr-x 1 ftp wheel 27 Oct 4 16:05 pub -> /export/pub'' (- 1) =
     (Inr (''pub'', ls_entry sample_clock sample_ls, False), 0)"
proof -
  have "ls_ok sample_ls" by code_simp
  moreover have "is_blanks '' ''" by code_simp
  moreover have "70 \<le> tm_year (clk_tm sample_clock)" by (simp add: sample_clock_def)
  moreover have "\<not> is_white (hd (ls_name sample_ls))" by code_simp
  moreover have "ls_line (\<lambda>_. '' '') sample_ls = ''lrwxr-xr-x 1 ftp wheel 27 Oct 4 16:05 pub -> /export/pub''"
    by code_simp
  moreover have "ls_name sample_ls = ''pub''" "hd (ls_perm sample_ls) = CHR ''l''" by (simp_all add: sample_ls_def)
  ultimately show ?thesis
    using unix_file_line_roundtrip [of sample_ls "\<lambda>_. '' ''" sample_clock "- 1"] by simp
qed

text \<open>
  C29. On every line that the pattern takes for a file line, the first field has ten characters, so
  the conversion of the permissions reads inside it and never fails; bit \<open>i\<close> of the result is
  set exactly when letter \<open>9 - i\<close> is not a dash.
\<close>

theorem unix_file_line_fields:
  assumes "S_line_type line = L_FILE"
  shows "\<exists>v t. try_get_field line = Inr (v, t) \<and> length v = 10 \<and>
           (\<forall>cse. \<exists>w. u2db_perm v cse = Inr (cse\<lparr>ce_perms := w\<rparr>) \<and>
              (\<forall>i<16. bit w i \<longleftrightarrow> i < 9 \<and> v ! (9 - i) \<noteq> CHR ''-''))"
proof -
  from assms have "regexec S_FILE line" by (simp add: S_line_type_def split: if_splits)
  then obtain v c t where v: "line = v @ c # t" "is_perm v" "is_white c" by (auto simp: S_FILE_iff)
  then have "try_get_field line = Inr (v, t)"
    using try_get_field_word [of "[]" v c t] is_perm_word by simp
  moreover have "bit (perm_word v) i \<longleftrightarrow> i < 9 \<and> v ! (9 - i) \<noteq> CHR ''-''" if "i < 16" for i
    using that by (auto simp: perm_word_def bit_horner_sum_bit_word_iff)
  moreover have "length v = 10" using v(2) by (simp add: is_perm_nth)
  ultimately show ?thesis using u2db_perm_word [OF v(2)] by blast
qed

theorem unix_file_line_fields_witness:
  "\<exists>v t. try_get_field ''drwxr-x--x  2 root 512 Jan  1  1971 pub'' = Inr (v, t) \<and> length v = 10 \<and>
     (\<forall>cse. \<exists>w. u2db_perm v cse = Inr (cse\<lparr>ce_perms := w\<rparr>) \<and>
        (\<forall>i<16. bit w i \<longleftrightarrow> i < 9 \<and> v ! (9 - i) \<noteq> CHR ''-''))"
  by (rule unix_file_line_fields) code_simp

text \<open>
  C34. A date without a year is given the latest year in which its month is not after the month of
  the clock.
\<close>

theorem guess_year_latest:
  assumes "0 \<le> m" and "m < 12" and "0 \<le> tm_mon (clk_tm clk)" and "tm_mon (clk_tm clk) < 12"
  shows "is_arg_max id (\<lambda>y. 12 * y + m \<le> 12 * (tm_year (clk_tm clk) + 1900) + tm_mon (clk_tm clk)) (guess_year clk m)"
  using assms by (auto simp: guess_year_def is_arg_max_linorder)

theorem guess_year_latest_witness:
  "guess_year sample_clock 9 = 1991 \<and>
   is_arg_max id (\<lambda>y. 12 * y + 9 \<le> 12 * (tm_year (clk_tm sample_clock) + 1900) + tm_mon (clk_tm sample_clock)) 1991"
proof -
  have y: "guess_year sample_clock 9 = 1991" by (simp add: guess_year_def sample_clock_def)
  with guess_year_latest [of 9 sample_clock] show ?thesis by (simp add: sample_clock_def)
qed

subsection \<open>Paths\<close>

fun join :: "cstr list \<Rightarrow> cstr" where
  "join [] = []"
| "join [p] = p"
| "join (p # ps) = p @ ''/'' @ join ps"

lemma split_slash_plain: "CHR ''/'' \<notin> set p \<Longrightarrow> split_slash p = [p]"
  by (induction p) auto

lemma split_slash_app: "CHR ''/'' \<notin> set p \<Longrightarrow> split_slash (p @ CHR ''/'' # s) = p # split_slash s"
  by (induction p) auto

lemma split_slash_join: "ps \<noteq> [] \<Longrightarrow> \<forall>p\<in>set ps. CHR ''/'' \<notin> set p \<Longrightarrow> split_slash (join ps) = ps"
  by (induction ps rule: join.induct) (auto simp: split_slash_plain split_slash_app)

lemma join_snoc: "join (ps @ [p]) @ t = join (ps @ [p @ t])"
  by (induction ps rule: join.induct) auto

definition dir_line :: "bool \<Rightarrow> cstr list \<Rightarrow> cstr" where
  \<comment> \<open>the header line of a directory, rooted or not\<close>
  "dir_line lead ps = (if lead then ''/'' else []) @ join ps @ '':''"

definition prefixed :: "cstr option \<Rightarrow> cstr list \<Rightarrow> cstr list" where
  "prefixed prep ps = (case prep of None \<Rightarrow> [] | Some d \<Rightarrow> [d]) @ ps"

text \<open>
  C30. The header line of a directory is split into its path, with the prefix directory before it;
  a path of more than 51 components is written outside the array that holds it.
\<close>

theorem unix_split_dir:
  assumes "ps \<noteq> []" and "\<forall>p\<in>set ps. CHR ''/'' \<notin> set p" and "hd ps \<noteq> []"
  shows "S_split_dir (dir_line lead ps) prep =
           (if length (prefixed prep ps) \<le> 51
            then Inr (prefixed prep ps, (if lead then ''/'' else []) @ hd ps)
            else Inl Undefined)"
proof -
  obtain qs q where ps: "ps = qs @ [q]" using assms(1) by (cases ps rule: rev_cases) auto
  have sp: "split_slash (join ps @ '':'') = qs @ [q @ '':'']"
    unfolding ps join_snoc using assms(2) by (intro split_slash_join) (auto simp: ps)
  have r0: "rd (dir_line lead ps) 0 = CHR ''/'' \<longleftrightarrow> lead"
  proof -
    obtain c s ps' where "ps = (c # s) # ps'" "c \<noteq> CHR ''/''"
      using assms by (cases ps; cases "hd ps") auto
    then show ?thesis by (cases ps') (auto simp: dir_line_def rd_def)
  qed
  have l: "length (prefixed prep ps) = length (case prep of None \<Rightarrow> [] | Some d \<Rightarrow> [d]) + Suc (length qs)"
    by (simp add: prefixed_def ps)
  have "S_split_dir (dir_line lead ps) prep =
      (if length (prefixed prep ps) \<le> 51 then
         Inr (prefixed prep ps, (if lead then ''/'' else []) @ hd (qs @ [q])) else Inl Undefined)"
    using r0 sp l
    by (auto simp: S_split_dir_def split_dir_def Let_def dir_line_def MAX_PATH_ELTS_def prefixed_def ps)
  then show ?thesis by (simp add: ps)
qed

theorem unix_split_dir_witness:
  "S_split_dir ''/pub/gnu/emacs:'' (Some ''.'') = Inr ([''.'', ''pub'', ''gnu'', ''emacs''], ''/pub'') \<and>
   S_split_dir (dir_line False (replicate 52 ''a'')) None = Inl Undefined"
proof -
  have "dir_line True [''pub'', ''gnu'', ''emacs''] = ''/pub/gnu/emacs:''" by code_simp
  with unix_split_dir [of "[''pub'', ''gnu'', ''emacs'']" True "Some ''.''"]
    unix_split_dir [of "replicate 52 ''a''" False None]
  show ?thesis by (simp add: prefixed_def)
qed

end
