(* ===== verification/ListingRoundtrip.thy ===== *)
theory ListingRoundtrip
  imports ListingDriver ListingTree UnixListing
begin

section \<open>Recursive Unix listings, from text to records\<close>

text \<open>
  The program of \<open>ListingDriver\<close> with the line routines of \<open>UnixListing\<close>.  A tree of files is
  printed as \<open>ls -lR\<close> prints it (\<open>listing\<close>); the records that should come out are defined by
  recursion on the tree (\<open>tree_recs\<close>).  \<open>consumes\<close> says that the loop reads some lines and gets
  from one abstract parser state to another; it is composed line by line.
\<close>

definition unix_format :: "clock \<Rightarrow> lformat" where
  "unix_format clk = \<lparr>lf_type = S_line_type, lf_split = S_split_dir, lf_parse = S_file_parse clk,
     lf_dup = S_dup_dir_name, lf_blanks = set_blanks\<rparr>"

subsection \<open>Lines of the loop\<close>

definition line_ok :: "cstr \<Rightarrow> bool" where
  \<comment> \<open>a C string without newline that \<open>fgets\<close> reads in one piece\<close>
  "line_ok l = (NL \<notin> set l \<and> is_cstr l \<and> length l + 2 \<le> MAX_LINE_LEN)"

definition unlines :: "cstr list \<Rightarrow> cstr" where
  "unlines ls = concat (map (\<lambda>l. l @ [NL]) ls)"

lemma unlines_simps [simp]: "unlines [] = []" "unlines (l # ls) = l @ NL # unlines ls"
  "unlines (ls @ ls') = unlines ls @ unlines ls'"
  by (simp_all add: unlines_def)

definition drv_rep :: "driver \<Rightarrow> astate \<Rightarrow> int \<Rightarrow> cstr \<Rightarrow> bool" where
  \<comment> \<open>the driver is between two lines, in the abstract state, with this input left\<close>
  "drv_rep d a lead rest \<longleftrightarrow>
     parser_rep (dv_p d) a \<and> ps_lead (dv_p d) = lead \<and> dv_in d = rest \<and>
     \<not> dv_done d \<and> dv_off d = 0 \<and> \<not> dv_skip d \<and> dv_error d = 0"

lemma takeWhile_nl: "NL \<notin> set l \<Longrightarrow> takeWhile (\<lambda>c. c \<noteq> NL) (l @ NL # r) = l"
  by (induction l) auto

lemma get_line_ok:
  assumes "drv_rep d a lead (l @ NL # rest)" and "line_ok l"
  shows "get_line d = Inr (True, d\<lparr>dv_buf := l, dv_in := rest\<rparr>)"
proof -
  have "min (MAX_LINE_LEN - 1) (Suc (length l)) = Suc (length l)"
    using assms(2) by (simp add: line_ok_def MAX_LINE_LEN_def)
  then have "fgets MAX_LINE_LEN (l @ NL # rest) = Some (l @ [NL], rest)"
    using assms(2) by (simp add: fgets_def takeWhile_nl line_ok_def Let_def)
  moreover have "nuke_nl (l @ [NL]) = l"
    using assms(2) by (simp add: nuke_nl_def takeWhile_nl line_ok_def)
  ultimately show ?thesis
    using assms by (simp add: get_line_def drv_rep_def LINE_BUF_def MAX_LINE_LEN_def line_ok_def)
qed

lemma line_step_plain:
  assumes "drv_rep d a lead (l @ NL # rest)" and "line_ok l"
    and "lf_type fmt l \<in> {L_BLANK, L_TOTAL, L_ERROR, L_UNREAD}"
  shows "\<exists>d'. line_step fmt op d = (Next, d') \<and> drv_rep d' a lead rest"
proof -
  have "dv_off d = 0" using assms(1) by (simp add: drv_rep_def)
  then show ?thesis
    using get_line_ok [OF assms(1,2)] assms(1,3)
    by (cases "lf_type fmt l") (simp_all add: line_step_def Let_def drv_rep_def)
qed

lemma line_step_file:
  assumes "drv_rep d a lead (l @ NL # rest)" and "line_ok l" and "lf_type fmt l = L_FILE"
    and "lf_parse fmt l lead = (Inr (name, pe, is_dir), lead')" and "lf_dup fmt name = Inr str"
    and "a_frames a \<noteq> []"
  shows "\<exists>d'. line_step fmt op d = (Next, d') \<and> drv_rep d' (a_file str name pe is_dir a) lead' rest"
proof -
  have "parser_rep (dv_p d) a" "lf_parse fmt l (ps_lead (dv_p d)) = (Inr (name, pe, is_dir), lead')" "dv_off d = 0"
    using assms(1,4) by (auto simp: drv_rep_def)
  moreover from handle_file_rep [OF this(1) assms(6) this(2) assms(5)] obtain p where
    "handle_file fmt l (dv_p d) = (Inr (), p)" "parser_rep p (a_file str name pe is_dir a)" "ps_lead p = lead'"
    by blast
  ultimately show ?thesis
    using get_line_ok [OF assms(1,2)] assms(1,3)
    by (simp add: line_step_def file_line_def Let_def drv_rep_def)
qed

lemma handle_dir_start_rep:
  assumes "parser_rep s a" and "lf_split fmt l prep = Inr (path, b)"
  shows "case a_dir path a of
           None \<Rightarrow> \<exists>s'. handle_dir_start fmt l prep s = (Inl Rejected, s') \<and> parser_rep s' (a\<lparr>a_frames := []\<rparr>) \<and>
                     ps_lead s' = ps_lead s
         | Some a' \<Rightarrow> \<exists>s'. handle_dir_start fmt l prep s = (Inr (), s') \<and> parser_rep s' a' \<and> ps_lead s' = ps_lead s"
proof -
  have "pending (a_frames a) < Suc (ps_fresh s)" using assms(1) by (simp add: parser_rep_def)
  from try_next_dir_rep [OF assms(1) this, of path] assms(2) show ?thesis
    by (auto simp: handle_dir_start_def a_dir_def find_dir_spec split: option.splits)
qed

lemma line_step_dir:
  assumes "drv_rep d a lead (l @ NL # rest)" and "line_ok l" and "lf_type fmt l = L_DIR_START"
    and "lf_split fmt l (op_prep op) = Inr (path, b)" and "a_dir path a = Some a'"
  shows "\<exists>d'. line_step fmt op d = (Next, d') \<and> drv_rep d' a' lead rest"
proof -
  have "parser_rep (dv_p d) a" "dv_off d = 0" using assms(1) by (auto simp: drv_rep_def)
  moreover from handle_dir_start_rep [OF this(1) assms(4)] assms(5) obtain p where
    "handle_dir_start fmt l (op_prep op) (dv_p d) = (Inr (), p)" "parser_rep p a'" "ps_lead p = ps_lead (dv_p d)"
    by auto
  ultimately show ?thesis
    using get_line_ok [OF assms(1,2)] assms(1,3)
    by (simp add: line_step_def header_line_def Let_def drv_rep_def)
qed

text \<open>The loop reads these lines and gets from one abstract state to another.\<close>

definition consumes :: "lformat \<Rightarrow> options \<Rightarrow> cstr list \<Rightarrow> astate \<Rightarrow> int \<Rightarrow> astate \<Rightarrow> int \<Rightarrow> bool" where
  "consumes fmt op ls a lead a' lead' \<longleftrightarrow>
     (\<forall>d rest fuel. drv_rep d a lead (unlines ls @ rest) \<longrightarrow>
        (\<exists>d'. drv_rep d' a' lead' rest \<and>
              main_loop (length ls + fuel) fmt op d = main_loop fuel fmt op d'))"

lemma consumes_nil [simp]: "consumes fmt op [] a lead a lead"
  by (auto simp: consumes_def)

lemma consumes_append:
  assumes "consumes fmt op ls a lead a1 lead1" and "consumes fmt op ls' a1 lead1 a2 lead2"
  shows "consumes fmt op (ls @ ls') a lead a2 lead2"
  unfolding consumes_def
proof (intro allI impI)
  fix d rest fuel
  assume "drv_rep d a lead (unlines (ls @ ls') @ rest)"
  then have "drv_rep d a lead (unlines ls @ (unlines ls' @ rest))" by simp
  with assms(1) obtain d1 where d1: "drv_rep d1 a1 lead1 (unlines ls' @ rest)"
    "main_loop (length ls + (length ls' + fuel)) fmt op d = main_loop (length ls' + fuel) fmt op d1"
    unfolding consumes_def by blast
  with assms(2) obtain d2 where "drv_rep d2 a2 lead2 rest"
    "main_loop (length ls' + fuel) fmt op d1 = main_loop fuel fmt op d2"
    unfolding consumes_def by blast
  with d1(2) show "\<exists>d'. drv_rep d' a2 lead2 rest \<and>
      main_loop (length (ls @ ls') + fuel) fmt op d = main_loop fuel fmt op d'"
    by (auto simp: add.assoc)
qed

lemma consumes_one:
  assumes "\<And>d rest. drv_rep d a lead (l @ NL # rest) \<Longrightarrow> \<exists>d'. line_step fmt op d = (Next, d') \<and> drv_rep d' a' lead' rest"
  shows "consumes fmt op [l] a lead a' lead'"
  unfolding consumes_def
proof (intro allI impI)
  fix d rest fuel
  assume *: "drv_rep d a lead (unlines [l] @ rest)"
  with assms obtain d' where "line_step fmt op d = (Next, d')" "drv_rep d' a' lead' rest" by fastforce
  moreover have "\<not> dv_done d" using * by (simp add: drv_rep_def)
  ultimately show "\<exists>d'. drv_rep d' a' lead' rest \<and> main_loop (length [l] + fuel) fmt op d = main_loop fuel fmt op d'"
    by auto
qed

lemma consumes_Cons:
  "consumes fmt op [l] a lead a1 lead1 \<Longrightarrow> consumes fmt op ls a1 lead1 a2 lead2 \<Longrightarrow>
     consumes fmt op (l # ls) a lead a2 lead2"
  using consumes_append [of fmt op "[l]"] by simp

lemma main_loop_end:
  assumes "drv_rep d a lead []"
  shows "\<exists>d'. main_loop (Suc (Suc fuel)) fmt op d = (Next, d') \<and> dv_error d' = 0 \<and> parser_rep (dv_p d') a"
proof -
  have "line_step fmt op d = (Next, d\<lparr>dv_done := True\<rparr>)" "\<not> dv_done d"
    using assms by (simp_all add: line_step_def get_line_def drv_rep_def fgets_def)
  then show ?thesis using assms by (simp add: drv_rep_def)
qed

subsection \<open>The records that are written\<close>

definition pad_name :: "cstr \<Rightarrow> cstr" where
  "pad_name n = replicate ((PAD - length n mod PAD) mod PAD) NUL"

definition chunk_of :: "Pars_ent_holder \<Rightarrow> chunk" where
  "chunk_of e = (pent e, the (peh_name e), pad_name (the (peh_name e)))"

definition printable :: "Pars_ent_holder \<Rightarrow> bool" where
  "printable e = (\<exists>n. peh_name e = Some n \<and> n \<noteq> [] \<and> length n < 65536 \<and> pe_slen (pent e) = word_of_nat (length n))"

lemma print_core_info_chunk: "printable e \<Longrightarrow> print_core_info (pent e) (peh_name e) = Inr (chunk_of e)"
proof -
  assume "printable e"
  then obtain n where n: "peh_name e = Some n" "n \<noteq> []" "length n < 65536" "pe_slen (pent e) = word_of_nat (length n)"
    by (auto simp: printable_def)
  then have "unat (pe_slen (pent e)) = length n" by (simp add: unat_of_nat)
  moreover have "(PAD - length n mod PAD) mod PAD = (if length n mod PAD \<noteq> 0 then PAD - length n mod PAD else 0)"
    by (simp add: PAD_def)
  ultimately show ?thesis using n(1,2) by (simp add: print_core_info_def chunk_of_def pad_name_def Let_def)
qed

lemma output_loop_rep:
  assumes "store_rep h0 n" and "walk_at h0 h k" and "k < n" and "n - k \<le> fuel"
    and mem: "\<forall>j<n. elt_mem h0 (slot h0 j) = Some (es ! j)" and "\<forall>e\<in>set es. printable e" and "n = length es"
  shows "\<exists>h'. output_loop fuel (slot h0 k) h = Inr (map chunk_of (drop k es), h')"
  using assms(2-4)
proof (induction fuel arbitrary: h k)
  case (Suc fuel)
  have m: "elt_mem h (slot h0 k) = Some (es ! k)" using Suc.prems(1,2) mem by (simp add: walk_at_def)
  have pr: "print_core_info (pent (es ! k)) (peh_name (es ! k)) = Inr (chunk_of (es ! k))"
    using Suc.prems(2) assms(6,7) by (intro print_core_info_chunk) auto
  have dr: "drop k es = es ! k # drop (Suc k) es" using Suc.prems(2) assms(7) by (simp add: Cons_nth_drop_Suc)
  show ?case
  proof (cases "Suc k = n")
    case True
    with next_elt_end [OF assms(1) Suc.prems(1)] m pr dr assms(7) show ?thesis by simp
  next
    case False
    then obtain h1 where h1: "next_elt h = Inr (Some (slot h0 (Suc k)), h1)" "walk_at h0 h1 (Suc k)"
      using next_elt_walk [OF assms(1) Suc.prems(1)] Suc.prems(2) by auto
    have "Suc k < n" using Suc.prems(2) False by simp
    moreover from this Suc.prems(3) have "n - Suc k \<le> fuel" by linarith
    ultimately obtain h2 where
      "output_loop fuel (slot h0 (Suc k)) h1 = Inr (map chunk_of (drop (Suc k) es), h2)"
      using Suc.IH [OF h1(2)] by blast
    with h1(1) m pr dr show ?thesis by simp
  qed
qed simp

lemma parser_output_rep:
  assumes "parser_rep s a" and "a_entries a \<noteq> []" and "\<forall>e\<in>set (a_entries a). printable e"
  shows "\<exists>s'. parser_output s = (Inr (map chunk_of (a_entries a)), s')"
proof -
  let ?h = "ps_store s" and ?n = "length (a_entries a)"
  have st: "store_rep ?h ?n" "\<forall>k<?n. elt_mem ?h (slot ?h k) = Some (a_entries a ! k)"
    using assms(1) by (auto simp: parser_rep_def)
  obtain h where h: "first_elt ?h = (Some (slot ?h 0), h)" "walk_at ?h h 0"
    using first_elt_walk [OF st(1)] assms(2) by auto
  have "hd_total_elts h = int ?n" using h(2) st(1) by (simp add: walk_at_def store_rep_def)
  with output_loop_rep [OF st(1) h(2) _ _ st(2) assms(3) refl, of ?n] assms(2) h(1) show ?thesis
    by (auto simp: parser_output_def)
qed

lemma drain_queue_rep:
  assumes "queue_rep q xs" and "length xs < fuel"
  shows "\<exists>q'. drain_queue fuel q = Inr q'"
  using assms
proof (induction fuel arbitrary: q xs)
  case (Suc fuel)
  show ?case
  proof (cases xs)
    case Nil
    with Suc.prems(1) lq.is_empty_law show ?thesis by auto
  next
    case (Cons x ys)
    obtain q1 where q1: "remq q = Some (Some x, q1)" "queue_rep q1 ys" "same_cells q q1"
      using remq_rep Suc.prems(1) Cons by blast
    have "cells q x \<noteq> None" using queue_rep_allocated [OF Suc.prems(1)] Cons by auto
    then have "cells q1 x \<noteq> None" using q1(3) same_cells_allocated [of q q1] by (metis allocated_def)
    then have dis: "dispose_Queue_elt x q1 = Some (q1\<lparr>cells := (cells q1)(x := None)\<rparr>)"
      by (auto simp: dispose_Queue_elt_def)
    have "x \<notin> set ys" using Suc.prems(1) Cons by (simp add: queue_rep_def)
    then have "queue_rep (q1\<lparr>cells := (cells q1)(x := None)\<rparr>) ys"
      by (intro queue_rep_cong [OF q1(2)]) auto
    from Suc.IH [OF this] Suc.prems(2) Cons have
      "\<exists>q'. drain_queue fuel (q1\<lparr>cells := (cells q1)(x := None)\<rparr>) = Inr q'" by simp
    moreover have "\<not> empty_queue (Some q)" using lq.is_empty_law [OF Suc.prems(1)] Cons by simp
    ultimately show ?thesis using q1(1) dis by simp
  qed
qed simp

lemma check_stack_rep:
  assumes "parser_rep s a"
  shows "check_stack s = (Inr (), s\<lparr>ps_stack := []\<rparr>)"
proof -
  have "check_frames fuel fs = Inr ()"
    if "list_all2 (frame_rep sl n) fs afs" "pending afs < fuel" for fuel sl n fs afs
    using that
  proof (induction rule: list_all2_induct)
    case (Cons f fs af afs)
    from Cons.hyps(1) obtain xs where xs: "queue_rep (fr_q f) xs" "length xs = length (af_queue af)"
      unfolding frame_rep_def by (metis length_map)
    with Cons.prems drain_queue_rep [OF xs(1), of fuel] Cons.IH show ?case by auto
  qed simp
  from this [of "slot (ps_store s)" "ps_fresh s" "ps_stack s" "a_frames a" "Suc (ps_fresh s)"] assms
  show ?thesis by (simp add: check_stack_def parser_rep_def)
qed

lemma finish_rep:
  assumes "parser_rep (dv_p d) a" and "a_entries a \<noteq> []" and "\<forall>e\<in>set (a_entries a). printable e"
  shows "finish d = Wrote (1 < length (a_entries a)) (int (length (a_entries a))) (Some (map chunk_of (a_entries a)))"
proof -
  have "parser_rep ((dv_p d)\<lparr>ps_stack := []\<rparr>) (a\<lparr>a_frames := []\<rparr>)"
    using assms(1) by (simp add: parser_rep_def)
  from parser_output_rep [OF this] assms(2,3) obtain s' where
    "parser_output ((dv_p d)\<lparr>ps_stack := []\<rparr>) = (Inr (map chunk_of (a_entries a)), s')" by auto
  moreover have "elt_num (ps_store (dv_p d)) = int (length (a_entries a)) - 1"
    using assms(1) by (simp add: parser_rep_def store_rep_def elt_num_def)
  ultimately show ?thesis by (auto simp: finish_def check_stack_rep [OF assms(1)])
qed

subsection \<open>Line types of a recursive listing\<close>

definition comp_ok :: "cstr \<Rightarrow> bool" where
  "comp_ok p = (p \<noteq> [] \<and> CHR ''/'' \<notin> set p)"

lemma join_Cons: "join (p # ps) = p @ concat (map (\<lambda>q. ''/'' @ q) ps)"
  by (induction ps arbitrary: p) simp_all

lemma S_DIR_START_join:
  assumes "list_all comp_ok (p # ps)"
  shows "regexec S_DIR_START (dir_line False (p # ps))"
proof -
  have p: "p \<in> rx_lang (RPlus (RNotIn ''/''))"
    using assms by (intro RPlus_NotIn) (auto simp: comp_ok_def)
  have star: "concat (map (\<lambda>q. ''/'' @ q) ps) \<in> rx_lang (RStar (RSeq (RIn ''/'') (RPlus (RNotIn ''/''))))"
    using assms
  proof (induction ps)
    case (Cons q ps)
    then have "q \<in> rx_lang (RPlus (RNotIn ''/''))" by (intro RPlus_NotIn) (auto simp: comp_ok_def)
    then have "''/'' @ q \<in> rx_lang (RSeq (RIn ''/'') (RPlus (RNotIn ''/'')))"
      by (simp only: rx_lang.simps mem_Collect_eq) (intro exI [of _ "''/''"] exI [of _ q], simp)
    moreover have "concat (map (\<lambda>q. ''/'' @ q) ps) \<in> rx_star (rx_lang (RSeq (RIn ''/'') (RPlus (RNotIn ''/''))))"
      using Cons by (simp only: rx_lang.simps(6) [symmetric]) simp
    ultimately have "(''/'' @ q) @ concat (map (\<lambda>q. ''/'' @ q) ps) \<in> rx_star (rx_lang (RSeq (RIn ''/'') (RPlus (RNotIn ''/''))))"
      by (rule star_app)
    then show ?case by (simp only: rx_lang.simps(6) list.map concat.simps append_assoc)
  qed (simp add: star_nil)
  have "[] @ p @ concat (map (\<lambda>q. ''/'' @ q) ps) @ '':'' @ [] \<in> rx_lang (RSeqs
     [RAlt (RIn ''/'') REps, RPlus (RNotIn ''/''), RStar (RSeq (RIn ''/'') (RPlus (RNotIn ''/''))), RIn '':''])"
    by (intro RSeqs_append p star) auto
  then show ?thesis
    unfolding regexec_iff S_DIR_START_def pattern_matches.simps by (simp add: dir_line_def join_Cons)
qed

lemma S_DIR_START_last: "regexec S_DIR_START l \<Longrightarrow> l \<noteq> [] \<and> last l = CHR '':''"
  using RSeqs_last [of l "[RAlt (RIn ''/'') REps, RPlus (RNotIn ''/''), RStar (RSeq (RIn ''/'') (RPlus (RNotIn ''/'')))]" "CHR '':''"]
  unfolding regexec_iff S_DIR_START_def pattern_matches.simps by (simp only: append_Cons append_Nil simp_thms)

lemma not_S_FILE:
  assumes "hd l \<notin> set ''-bcdlpsyDFL''"
  shows "\<not> regexec S_FILE l"
proof
  assume "regexec S_FILE l"
  then obtain v t where v: "l = v @ t" "is_perm v" by (auto simp: S_FILE_iff)
  from v(2) have "length v = 10" "v ! 0 \<in> set (perm_classes ! 0)" by (simp_all only: is_perm_nth)
  moreover from this have "v ! 0 = hd l" by (cases v) (auto simp: v(1))
  ultimately show False using assms by (simp add: perm_classes_def)
qed

lemma not_S_BLANK: "l \<noteq> [] \<Longrightarrow> \<not> regexec S_BLANK l"
  unfolding regexec_iff S_BLANK_def pattern_matches.simps by simp

definition root_ok :: "cstr \<Rightarrow> bool" where
  \<comment> \<open>a root whose headers cannot be taken for file lines\<close>
  "root_ok r = (comp_ok r \<and> hd r \<notin> set ''-bcdlpsyDFL'')"

lemma header_type:
  assumes "root_ok r" and "list_all comp_ok ps"
  shows "S_line_type (dir_line False (r # ps)) = L_DIR_START"
proof -
  have "hd (dir_line False (r # ps)) = hd r" "dir_line False (r # ps) \<noteq> []"
    using assms(1) by (auto simp: dir_line_def join_Cons root_ok_def comp_ok_def)
  then show ?thesis
    using assms S_DIR_START_join [of r ps] not_S_FILE [of "dir_line False (r # ps)"] not_S_BLANK
    by (simp add: S_line_type_def root_ok_def)
qed

definition total_line :: "nat \<Rightarrow> cstr" where
  "total_line n = ''total '' @ dec n"

lemma total_type: "S_line_type (total_line n) = L_TOTAL"
proof -
  have "regexec S_TOTAL (total_line n)"
  proof -
    have b: "'' '' \<in> rx_lang (RPlus (RIn WHITE_STR))" by (simp add: RPlus_In WHITE_STR_def)
    have d: "dec n \<in> rx_lang (RPlus (RIn ''0123456789''))"
      using digit_in dec_digits by (auto simp: RPlus_In simp del: set_simps)
    have l: "''total'' \<in> rx_lang (RLit ''total'')" by simp
    have "''total'' @ '' '' @ dec n @ [] \<in> rx_lang (RSeqs [RLit ''total'', RPlus (RIn WHITE_STR), RPlus (RIn ''0123456789'')])"
      by (intro RSeqs_append l b d) simp
    then show ?thesis
      unfolding regexec_iff S_TOTAL_def pattern_matches.simps total_line_def
      by (intro exI [of _ "''total'' @ '' '' @ dec n @ []"] exI [of _ "[]"]) simp
  qed
  moreover have "\<not> regexec S_DIR_START (total_line n)"
  proof
    assume "regexec S_DIR_START (total_line n)"
    then have "last (total_line n) = CHR '':''" using S_DIR_START_last by blast
    moreover have "last (total_line n) \<in> set (dec n)" by (simp add: total_line_def)
    ultimately show False using dec_digits digit_not by metis
  qed
  ultimately show ?thesis
    using not_S_FILE [of "total_line n"] not_S_BLANK [of "total_line n"]
    by (simp add: S_line_type_def total_line_def)
qed

lemma blank_type: "S_line_type [] = L_BLANK"
proof -
  have "\<not> regexec S_FILE []" by (simp add: S_FILE_iff)
  moreover have "regexec S_BLANK []" by (simp add: S_BLANK_def)
  ultimately show ?thesis by (simp add: S_line_type_def)
qed

subsection \<open>Trees and their listings\<close>

text \<open>A directory has the number of blocks \<open>ls\<close> prints in front of its contents.\<close>

datatype tree = File listed | Dir listed nat "tree list"

fun tree_entry :: "tree \<Rightarrow> listed" where
  "tree_entry (File r) = r"
| "tree_entry (Dir r n ts) = r"

fun is_dir_tree :: "tree \<Rightarrow> bool" where
  "is_dir_tree (File r) = False"
| "is_dir_tree (Dir r n ts) = True"

text \<open>\<open>ls -lR\<close>: the lines of a directory, then its subdirectories, each behind a blank line and its header.\<close>

fun sub_listing :: "(nat \<Rightarrow> cstr) \<Rightarrow> cstr list \<Rightarrow> tree \<Rightarrow> cstr list" where
  "sub_listing b path (File r) = []"
| "sub_listing b path (Dir r n ts) =
     [[], dir_line False (path @ [ls_name r]), total_line n] @ map (ls_line b \<circ> tree_entry) ts @
     concat (map (sub_listing b (path @ [ls_name r])) ts)"

definition listing :: "(nat \<Rightarrow> cstr) \<Rightarrow> cstr list \<Rightarrow> nat \<Rightarrow> tree list \<Rightarrow> cstr list" where
  "listing b path n ts = [total_line n] @ map (ls_line b \<circ> tree_entry) ts @ concat (map (sub_listing b path) ts)"

fun tree_ok :: "(nat \<Rightarrow> cstr) \<Rightarrow> cstr list \<Rightarrow> tree \<Rightarrow> bool" where
  "tree_ok b path (File r) =
     (ls_ok r \<and> hd (ls_perm r) \<notin> {CHR ''d'', CHR ''D''} \<and> line_ok (ls_line b r))"
| "tree_ok b path (Dir r n ts) =
     (ls_ok r \<and> hd (ls_perm r) \<in> {CHR ''d'', CHR ''D''} \<and> line_ok (ls_line b r) \<and>
      CHR ''/'' \<notin> set (ls_name r) \<and> length path < 51 \<and>
      line_ok (dir_line False (path @ [ls_name r])) \<and> line_ok (total_line n) \<and>
      list_all (tree_ok b (path @ [ls_name r])) ts)"

subsection \<open>The records of a tree\<close>

fun tree_size :: "tree \<Rightarrow> nat" where
  "tree_size (File r) = 0"
| "tree_size (Dir r n ts) = length ts + sum_list (map tree_size ts)"

text \<open>
  The record of a file in the directory with index \<open>i\<close>; that of a directory has the index of
  the first entry behind its header, \<open>c\<close>.
\<close>

definition file_rec :: "clock \<Rightarrow> int \<Rightarrow> tree \<Rightarrow> Pars_ent_holder" where
  "file_rec clk i t =
     \<lparr>pent = (ls_entry clk (tree_entry t))
        \<lparr>pe_core := file_core (is_dir_tree t) i (pe_core (ls_entry clk (tree_entry t)))\<rparr>,
      peh_name = Some (ls_name (tree_entry t))\<rparr>"

definition child_rec :: "nat \<Rightarrow> tree \<Rightarrow> Pars_ent_holder \<Rightarrow> Pars_ent_holder" where
  "child_rec c t e = (if is_dir_tree t then edit_core (\<lambda>k. k\<lparr>ce_child_idx := int c\<rparr>) e else e)"

fun own_recs :: "clock \<Rightarrow> int \<Rightarrow> nat \<Rightarrow> tree list \<Rightarrow> Pars_ent_holder list" where
  "own_recs clk i c [] = []"
| "own_recs clk i c (t # ts) = child_rec c t (file_rec clk i t) # own_recs clk i (c + tree_size t) ts"

text \<open>
  \<open>sub_recs clk j c ts\<close>: the records of the contents of the directories in \<open>ts\<close>, whose own
  records start at \<open>j\<close>, when the next record is number \<open>c\<close>.
\<close>

function sub_recs :: "clock \<Rightarrow> nat \<Rightarrow> nat \<Rightarrow> tree list \<Rightarrow> Pars_ent_holder list" where
  "sub_recs clk j c [] = []"
| "sub_recs clk j c (File r # ts) = sub_recs clk (Suc j) c ts"
| "sub_recs clk j c (Dir r n us # ts) =
     own_recs clk (int j) (c + length us) us @ sub_recs clk c (c + length us) us @
     sub_recs clk (Suc j) (c + tree_size (Dir r n us)) ts"
  by pat_completeness auto
termination by (relation "measure (\<lambda>(_, _, _, ts). size_list size ts)") auto

definition tree_recs :: "clock \<Rightarrow> tree list \<Rightarrow> Pars_ent_holder list" where
  "tree_recs clk ts = own_recs clk (- 1) (length ts) ts @ sub_recs clk 0 (length ts) ts"

lemma length_own_recs [simp]: "length (own_recs clk i c ts) = length ts"
  by (induction ts arbitrary: c) auto

lemma length_sub_recs [simp]: "length (sub_recs clk j c ts) = sum_list (map tree_size ts)"
  by (induction clk j c ts rule: sub_recs.induct) auto

subsection \<open>Reading the lines of one directory\<close>

definition dirs_from :: "nat \<Rightarrow> tree list \<Rightarrow> (cstr \<times> nat) list" where
  \<comment> \<open>the directories among entries numbered from \<open>k\<close>\<close>
  "dirs_from k ts = map (\<lambda>(t, j). (ls_name (tree_entry t), j)) (filter (\<lambda>(t, j). is_dir_tree t) (zip ts [k..<k + length ts]))"

lemma dirs_from_simps [simp]:
  "dirs_from k [] = []"
  "dirs_from k (t # ts) = (if is_dir_tree t then [(ls_name (tree_entry t), k)] else []) @ dirs_from (Suc k) ts"
  by (simp_all add: dirs_from_def upt_conv_Cons del: upt_Suc)

definition lead_of :: "(nat \<Rightarrow> cstr) \<Rightarrow> int" where
  "lead_of b = int (length (b 7)) - 1"

definition seps_ok :: "(nat \<Rightarrow> cstr) \<Rightarrow> bool" where
  "seps_ok b = (\<forall>i. is_blanks (b i))"

lemma tree_ok_entry:
  "tree_ok b path t \<Longrightarrow> ls_ok (tree_entry t) \<and> line_ok (ls_line b (tree_entry t)) \<and>
     (hd (ls_perm (tree_entry t)) \<in> {CHR ''d'', CHR ''D''} \<longleftrightarrow> is_dir_tree t)"
  by (cases t) auto

lemma consumes_entry:
  assumes "tree_ok b path t" and "seps_ok b" and "70 \<le> tm_year (clk_tm clk)"
    and "lead = lead_of b \<or> lead = - 1 \<and> \<not> is_white (hd (ls_name (tree_entry t)))"
  shows "consumes (unix_format clk) op [ls_line b (tree_entry t)]
           \<lparr>a_frames = af # afs, a_entries = es\<rparr> lead
           \<lparr>a_frames = af\<lparr>af_queue := af_queue af @ dirs_from (length es) [t]\<rparr> # afs,
            a_entries = es @ [file_rec clk (af_idx af) t]\<rparr> (lead_of b)"
proof -
  let ?r = "tree_entry t" and ?a = "\<lparr>a_frames = af # afs, a_entries = es\<rparr>"
  note ok = tree_ok_entry [OF assms(1)]
  have rt: "S_line_type (ls_line b ?r) = L_FILE"
    "S_file_parse clk (ls_line b ?r) lead = (Inr (ls_name ?r, ls_entry clk ?r, is_dir_tree t), lead_of b)"
    using unix_file_line_roundtrip [of ?r b clk lead] ok assms(2-4) by (auto simp: lead_of_def seps_ok_def)
  have "a_file (ls_name ?r) (ls_name ?r) (ls_entry clk ?r) (is_dir_tree t) ?a =
      \<lparr>a_frames = af\<lparr>af_queue := af_queue af @ dirs_from (length es) [t]\<rparr> # afs,
       a_entries = es @ [file_rec clk (af_idx af) t]\<rparr>"
    by (simp add: a_file_def file_rec_def)
  with rt ok show ?thesis
    by (intro consumes_one)
      (auto simp: unix_format_def S_dup_dir_name_def dest!: line_step_file [where fmt = "unix_format clk" and op = op])
qed

subsection \<open>Reading a tree\<close>

lemma consumes_entries:
  assumes "list_all (tree_ok b path) ts" and "seps_ok b" and "70 \<le> tm_year (clk_tm clk)"
    and "lead = lead_of b \<or> lead = - 1 \<and> (ts \<noteq> [] \<longrightarrow> \<not> is_white (hd (ls_name (tree_entry (hd ts)))))"
  shows "consumes (unix_format clk) op (map (ls_line b \<circ> tree_entry) ts)
           \<lparr>a_frames = af # afs, a_entries = es\<rparr> lead
           \<lparr>a_frames = af\<lparr>af_queue := af_queue af @ dirs_from (length es) ts\<rparr> # afs,
            a_entries = es @ map (file_rec clk (af_idx af)) ts\<rparr> (if ts = [] then lead else lead_of b)"
  using assms(1,4)
proof (induction ts arbitrary: af es lead)
  case (Cons t ts)
  let ?af = "af\<lparr>af_queue := af_queue af @ dirs_from (length es) [t]\<rparr>"
  have one: "consumes (unix_format clk) op [ls_line b (tree_entry t)]
           \<lparr>a_frames = af # afs, a_entries = es\<rparr> lead
           \<lparr>a_frames = ?af # afs, a_entries = es @ [file_rec clk (af_idx af) t]\<rparr> (lead_of b)"
    using Cons.prems by (intro consumes_entry assms(2,3)) auto
  have "consumes (unix_format clk) op (map (ls_line b \<circ> tree_entry) ts)
           \<lparr>a_frames = ?af # afs, a_entries = es @ [file_rec clk (af_idx af) t]\<rparr> (lead_of b)
           \<lparr>a_frames = ?af\<lparr>af_queue := af_queue ?af @ dirs_from (length (es @ [file_rec clk (af_idx af) t])) ts\<rparr> # afs,
            a_entries = (es @ [file_rec clk (af_idx af) t]) @ map (file_rec clk (af_idx ?af)) ts\<rparr>
           (if ts = [] then lead_of b else lead_of b)"
    using Cons.prems by (intro Cons.IH) auto
  from consumes_Cons [OF one this] show ?case by (simp add: comp_def)
qed simp

fun upd_children :: "nat \<Rightarrow> nat \<Rightarrow> tree list \<Rightarrow> Pars_ent_holder list \<Rightarrow> Pars_ent_holder list" where
  "upd_children j c [] es = es"
| "upd_children j c (t # ts) es = upd_children (Suc j) (c + tree_size t) ts (es[j := child_rec c t (es ! j)])"

lemma length_upd_children [simp]: "length (upd_children j c ts es) = length es"
  by (induction ts arbitrary: j c es) auto

lemma upd_children_append:
  "j + length ts \<le> length es \<Longrightarrow> upd_children j c ts (es @ fs) = upd_children j c ts es @ fs"
  by (induction ts arbitrary: j c es) (auto simp: list_update_append nth_append)

lemma upd_children_own:
  "upd_children (length es) c ts (es @ map (file_rec clk i) ts @ fs) = es @ own_recs clk i c ts @ fs"
proof (induction ts arbitrary: es c)
  case (Cons t ts)
  from Cons.IH [of "es @ [child_rec c t (file_rec clk i t)]"] show ?case
    by (simp add: list_update_append)
qed simp

lemma consumes_plain:
  "line_ok l \<Longrightarrow> S_line_type l \<in> {L_BLANK, L_TOTAL} \<Longrightarrow> consumes (unix_format clk) op [l] a lead a lead"
  by (rule consumes_one, rule line_step_plain) (auto simp: unix_format_def)

lemma line_ok_nil: "line_ok []"
  by (simp add: line_ok_def MAX_LINE_LEN_def)

lemma find_dir_skip:
  "\<forall>f\<in>set fs. af_queue f = [] \<Longrightarrow> find_dir path (fs @ afs) = find_dir path afs"
  by (induction fs) auto

lemma consumes_header:
  assumes q: "af_queue af = (nm, j) # ys" and path: "path = rev (map af_name (af # afs))"
    and E: "\<forall>f\<in>set fs. af_queue f = []" and "op_prep op = None"
    and r: "path = r # ps" and "root_ok r" and "list_all comp_ok ps" and nm: "comp_ok nm"
    and len: "length path < 51" and ok: "line_ok (dir_line False (path @ [nm]))"
  shows "consumes (unix_format clk) op [dir_line False (path @ [nm])]
           \<lparr>a_frames = fs @ af # afs, a_entries = es\<rparr> lead
           \<lparr>a_frames = \<lparr>af_name = nm, af_idx = int j, af_queue = []\<rparr> # af\<lparr>af_queue := ys\<rparr> # afs,
            a_entries = es[j := edit_core (\<lambda>c. c\<lparr>ce_child_idx := int (length es)\<rparr>) (es ! j)]\<rparr> lead"
proof -
  have ty: "S_line_type (dir_line False (path @ [nm])) = L_DIR_START"
    using header_type [of r "ps @ [nm]"] assms(6-8) unfolding r by simp
  have "hd (path @ [nm]) \<noteq> []" "\<forall>p\<in>set (path @ [nm]). CHR ''/'' \<notin> set p"
    using assms(6-8) unfolding r by (auto simp: root_ok_def comp_ok_def list_all_iff)
  then have sp: "S_split_dir (dir_line False (path @ [nm])) None = Inr (path @ [nm], hd (path @ [nm]))"
    using unix_split_dir [of "path @ [nm]" False None] len by (simp add: prefixed_def)
  have "find_dir (path @ [nm]) (fs @ af # afs) =
      Some ((nm, j), \<lparr>af_name = nm, af_idx = int j, af_queue = []\<rparr> # af\<lparr>af_queue := ys\<rparr> # afs)"
    using q path by (simp add: find_dir_skip [OF E] Let_def)
  then have "a_dir (path @ [nm]) \<lparr>a_frames = fs @ af # afs, a_entries = es\<rparr> =
      Some \<lparr>a_frames = \<lparr>af_name = nm, af_idx = int j, af_queue = []\<rparr> # af\<lparr>af_queue := ys\<rparr> # afs,
            a_entries = es[j := edit_core (\<lambda>c. c\<lparr>ce_child_idx := int (length es)\<rparr>) (es ! j)]\<rparr>"
    by (simp add: a_dir_def find_dir_spec [symmetric])
  with ty sp ok assms(4) show ?thesis
    by (intro consumes_one line_step_dir [where path = "path @ [nm]" and b = "hd (path @ [nm])"])
      (auto simp: unix_format_def)
qed

lemma tree_ok_Dir_comp:
  "tree_ok b path (Dir r n us) \<Longrightarrow> comp_ok (ls_name r)"
  by (auto simp: comp_ok_def ls_ok_def)

lemma consumes_subs:
  assumes "seps_ok b" and "70 \<le> tm_year (clk_tm clk)" and "op_prep op = None" and "root_ok r"
    and "c = length es" and "list_all (tree_ok b path) ts" and "path = r # ps" and "list_all comp_ok ps"
    and "af_queue af = dirs_from j ts" and "path = rev (map af_name (af # afs))"
    and "\<forall>f\<in>set fs. af_queue f = []" and "j + length ts \<le> length es"
  shows "\<exists>fs'. (\<forall>f\<in>set fs'. af_queue f = []) \<and>
           consumes (unix_format clk) op (concat (map (sub_listing b path) ts))
             \<lparr>a_frames = fs @ af # afs, a_entries = es\<rparr> (lead_of b)
             \<lparr>a_frames = fs' @ af\<lparr>af_queue := []\<rparr> # afs,
              a_entries = upd_children j c ts es @ sub_recs clk j c ts\<rparr> (lead_of b)"
  using assms(2,5-)
proof (induction clk j c ts arbitrary: path ps af afs fs es rule: sub_recs.induct)
  case (1 clk j c)
  then have e: "af\<lparr>af_queue := []\<rparr> = af" by simp
  show ?case unfolding e using 1 by (intro exI [of _ fs]) simp
next
  case (2 clk j c f ts)
  from 2(2,4-) have "\<exists>fs'. (\<forall>f\<in>set fs'. af_queue f = []) \<and>
       consumes (unix_format clk) op (concat (map (sub_listing b path) ts))
             \<lparr>a_frames = fs @ af # afs, a_entries = es\<rparr> (lead_of b)
             \<lparr>a_frames = fs' @ af\<lparr>af_queue := []\<rparr> # afs,
              a_entries = upd_children (Suc j) c ts es @ sub_recs clk (Suc j) c ts\<rparr> (lead_of b)"
    by (intro 2(1) [where ps = ps] 2(3)) auto
  then show ?case by (simp add: child_rec_def)
next
  case (3 clk j c f n us ts)
  let ?t = "Dir f n us" and ?nm = "ls_name f"
  let ?path = "path @ [?nm]"
  from 3(5) have ok: "tree_ok b path ?t" and oks: "list_all (tree_ok b path) ts" by simp_all
  note nm = tree_ok_Dir_comp [OF ok]
  let ?af1 = "\<lparr>af_name = ?nm, af_idx = int j, af_queue = []\<rparr>"
  let ?afq = "af\<lparr>af_queue := dirs_from (Suc j) ts\<rparr>"
  let ?es1 = "es[j := child_rec c ?t (es ! j)]"
  let ?es2 = "?es1 @ map (file_rec clk (int j)) us"
  let ?K = "consumes (unix_format clk) op"
  have q: "af_queue af = (?nm, j) # dirs_from (Suc j) ts" using 3(8) by simp
  have blank: "?K [[]] \<lparr>a_frames = fs @ af # afs, a_entries = es\<rparr> (lead_of b)
      \<lparr>a_frames = fs @ af # afs, a_entries = es\<rparr> (lead_of b)"
    by (rule consumes_plain [OF line_ok_nil]) (simp add: blank_type)
  have header: "?K [dir_line False ?path] \<lparr>a_frames = fs @ af # afs, a_entries = es\<rparr> (lead_of b)
      \<lparr>a_frames = ?af1 # ?afq # afs, a_entries = ?es1\<rparr> (lead_of b)"
    using consumes_header [OF q 3(9) 3(10) assms(3) 3(6) assms(4) 3(7) nm, of clk es "lead_of b"] ok 3(4)
    by (simp add: child_rec_def)
  have total: "?K [total_line n] \<lparr>a_frames = ?af1 # ?afq # afs, a_entries = ?es1\<rparr> (lead_of b)
      \<lparr>a_frames = ?af1 # ?afq # afs, a_entries = ?es1\<rparr> (lead_of b)"
    using ok by (intro consumes_plain) (simp_all add: total_type)
  have "?K (map (ls_line b \<circ> tree_entry) us) \<lparr>a_frames = ?af1 # ?afq # afs, a_entries = ?es1\<rparr> (lead_of b)
      \<lparr>a_frames = ?af1\<lparr>af_queue := af_queue ?af1 @ dirs_from (length ?es1) us\<rparr> # ?afq # afs,
       a_entries = ?es1 @ map (file_rec clk (af_idx ?af1)) us\<rparr> (if us = [] then lead_of b else lead_of b)"
    using ok by (intro consumes_entries [of b ?path] assms(1) 3(3)) simp_all
  then have entries: "?K (map (ls_line b \<circ> tree_entry) us) \<lparr>a_frames = ?af1 # ?afq # afs, a_entries = ?es1\<rparr> (lead_of b)
      \<lparr>a_frames = ?af1\<lparr>af_queue := dirs_from c us\<rparr> # ?afq # afs, a_entries = ?es2\<rparr> (lead_of b)"
    by (simp add: 3(4))
  have "\<exists>fs'. (\<forall>f\<in>set fs'. af_queue f = []) \<and>
     ?K (concat (map (sub_listing b ?path) us))
       \<lparr>a_frames = [] @ ?af1\<lparr>af_queue := dirs_from c us\<rparr> # ?afq # afs, a_entries = ?es2\<rparr> (lead_of b)
       \<lparr>a_frames = fs' @ ?af1\<lparr>af_queue := dirs_from c us, af_queue := []\<rparr> # ?afq # afs,
        a_entries = upd_children c (c + length us) us ?es2 @ sub_recs clk c (c + length us) us\<rparr> (lead_of b)"
    using ok 3(6,7,9) nm by (intro 3(1) [where ps = "ps @ [?nm]"] 3(3)) (simp_all add: 3(4))
  then obtain fs1 where fs1: "\<forall>f\<in>set fs1. af_queue f = []"
    "?K (concat (map (sub_listing b ?path) us))
       \<lparr>a_frames = ?af1\<lparr>af_queue := dirs_from c us\<rparr> # ?afq # afs, a_entries = ?es2\<rparr> (lead_of b)
       \<lparr>a_frames = (fs1 @ [?af1]) @ ?afq # afs,
        a_entries = upd_children c (c + length us) us ?es2 @ sub_recs clk c (c + length us) us\<rparr> (lead_of b)"
    by auto
  define X where "X = own_recs clk (int j) (c + length us) us @ sub_recs clk c (c + length us) us"
  have es3: "upd_children c (c + length us) us ?es2 @ sub_recs clk c (c + length us) us = ?es1 @ X"
    using upd_children_own [of ?es1 "c + length us" us clk "int j" "[]"] by (simp add: 3(4) X_def)
  have lenX: "length (?es1 @ X) = c + tree_size ?t" by (simp add: 3(4) X_def)
  have "\<exists>fs'. (\<forall>f\<in>set fs'. af_queue f = []) \<and>
     ?K (concat (map (sub_listing b path) ts))
       \<lparr>a_frames = (fs1 @ [?af1]) @ ?afq # afs, a_entries = ?es1 @ X\<rparr> (lead_of b)
       \<lparr>a_frames = fs' @ ?afq\<lparr>af_queue := []\<rparr> # afs,
        a_entries = upd_children (Suc j) (c + tree_size ?t) ts (?es1 @ X) @
          sub_recs clk (Suc j) (c + tree_size ?t) ts\<rparr> (lead_of b)"
    using fs1(1) lenX oks 3(6,7,9,11) by (intro 3(2) [where ps = ps] 3(3)) simp_all
  then obtain fs2 where fs2: "\<forall>f\<in>set fs2. af_queue f = []"
    "?K (concat (map (sub_listing b path) ts))
       \<lparr>a_frames = (fs1 @ [?af1]) @ ?afq # afs, a_entries = ?es1 @ X\<rparr> (lead_of b)
       \<lparr>a_frames = fs2 @ af\<lparr>af_queue := []\<rparr> # afs,
        a_entries = upd_children (Suc j) (c + tree_size ?t) ts (?es1 @ X) @
          sub_recs clk (Suc j) (c + tree_size ?t) ts\<rparr> (lead_of b)"
    by auto
  have "upd_children (Suc j) (c + tree_size ?t) ts (?es1 @ X) =
      upd_children (Suc j) (c + tree_size ?t) ts ?es1 @ X"
    using 3(11) by (intro upd_children_append) simp
  then have fin: "upd_children (Suc j) (c + tree_size ?t) ts (?es1 @ X) @ sub_recs clk (Suc j) (c + tree_size ?t) ts =
      upd_children j c (?t # ts) es @ sub_recs clk j c (?t # ts)"
    by (simp add: X_def)
  have "?K (([[]] @ [dir_line False ?path] @ [total_line n]) @ map (ls_line b \<circ> tree_entry) us @
        concat (map (sub_listing b ?path) us) @ concat (map (sub_listing b path) ts))
       \<lparr>a_frames = fs @ af # afs, a_entries = es\<rparr> (lead_of b)
       \<lparr>a_frames = fs2 @ af\<lparr>af_queue := []\<rparr> # afs,
        a_entries = upd_children (Suc j) (c + tree_size ?t) ts (?es1 @ X) @
          sub_recs clk (Suc j) (c + tree_size ?t) ts\<rparr> (lead_of b)"
    by (intro consumes_append [OF consumes_append [OF blank consumes_append [OF header total]]]
        consumes_append [OF entries] consumes_append [OF fs1(2) [unfolded es3]] fs2(2))
  with fs2(1) show ?case unfolding fin by (intro exI [of _ fs2]) simp
qed

definition sample_tree :: "tree list" where
  "sample_tree =
     [File \<lparr>ls_perm = ''-rw-r--r--'', ls_links = ''1'', ls_owner = ''ftp'', ls_group = None,
        ls_size = 1630, ls_month = 2, ls_day = 18, ls_stamp = At 16 15, ls_name = ''README'', ls_target = None\<rparr>,
      Dir \<lparr>ls_perm = ''drwxr-xr-x'', ls_links = ''2'', ls_owner = ''ftp'', ls_group = Some ''wheel'',
        ls_size = 512, ls_month = 9, ls_day = 4, ls_stamp = Year 1991, ls_name = ''pub'', ls_target = None\<rparr> 1
        [File \<lparr>ls_perm = ''-rw-r--r--'', ls_links = ''1'', ls_owner = ''ftp'', ls_group = None,
           ls_size = 7, ls_month = 0, ls_day = 1, ls_stamp = Year 1992, ls_name = ''a.Z'', ls_target = None\<rparr>]]"
lemma printable_rec:
  assumes "tree_ok b path t"
  shows "printable (child_rec c t (file_rec clk i t))"
proof -
  let ?r = "tree_entry t"
  have "ls_ok ?r" "line_ok (ls_line b ?r)" using tree_ok_entry [OF assms] by auto
  then have "ls_name ?r \<noteq> []" "length (ls_name ?r) < 65536"
    by (auto simp: ls_ok_def line_ok_def ls_line_def MAX_LINE_LEN_def)
  then show ?thesis
    by (auto simp: printable_def child_rec_def file_rec_def edit_core_def ls_entry_def)
qed

lemma printable_own: "list_all (tree_ok b path) ts \<Longrightarrow> list_all printable (own_recs clk i c ts)"
  by (induction ts arbitrary: c) (auto intro: printable_rec)

lemma printable_sub: "list_all (tree_ok b path) ts \<Longrightarrow> list_all printable (sub_recs clk j c ts)"
proof (induction clk j c ts arbitrary: path rule: sub_recs.induct)
  case (3 clk j c r n us ts)
  from 3(3) have "list_all (tree_ok b (path @ [ls_name r])) us" "list_all (tree_ok b path) ts" by simp_all
  with 3(1) 3(2) printable_own show ?case by (simp only: sub_recs.simps list_all_append)
qed auto

lemma length_unlines: "length ls \<le> length (unlines ls)"
  by (induction ls) auto

subsection \<open>The whole program\<close>



text \<open>
  C12. A file line is handled as the abstract state says, whatever the line routines of the format
  return for it: a new entry is appended, its parent is the directory on top of the stack, and
  a directory is queued there under its index.  The handler follows no null or dangling
  pointer.
\<close>

theorem handle_file_refines:
  assumes "parser_rep s a" and "a_frames a \<noteq> []"
    and "lf_parse fmt line (ps_lead s) = (Inr (name, pe, is_dir), lead)" and "lf_dup fmt name = Inr str"
  shows "\<exists>s'. handle_file fmt line s = (Inr (), s') \<and>
           parser_rep s' (a_file str name pe is_dir a) \<and> ps_lead s' = lead"
  by (rule handle_file_rep [OF assms])

text \<open>
  C9. A header line is accepted exactly when the directory above it is on the stack and still
  expects a subdirectory of that name; then the frames above and the directories queued before
  it are dropped, the directory is pushed, and its entry gets the index of the next entry as
  child.  Otherwise the stack is left empty and the line is rejected.  The search always ends,
  and it follows no null or dangling pointer.
\<close>

theorem handle_dir_start_refines:
  assumes "parser_rep s a" and "lf_split fmt line prep = Inr (path, buf)"
  shows "case dir_spec path (a_frames a) of
           None \<Rightarrow> \<exists>s'. handle_dir_start fmt line prep s = (Inl Rejected, s') \<and> parser_rep s' (a\<lparr>a_frames := []\<rparr>)
         | Some (x, afs) \<Rightarrow> \<exists>s'. handle_dir_start fmt line prep s = (Inr (), s') \<and>
             parser_rep s' \<lparr>a_frames = afs,
                a_entries = (a_entries a)[snd x := edit_core (\<lambda>c. c\<lparr>ce_child_idx := int (length (a_entries a))\<rparr>)
                                                     (a_entries a ! snd x)]\<rparr>"
  using handle_dir_start_rep [OF assms] by (auto simp: a_dir_def split: option.splits)

definition root_state :: pstate where
  \<comment> \<open>the state after the root \<open>.\<close> has been pushed on an empty stack\<close>
  "root_state = push ((new_Info_cell ''.'')\<lparr>ic_idx := - 1\<rparr>)
     \<lparr>ps_store = (case set_elt_size sizeof_peh no_storage of Inl _ \<Rightarrow> no_storage | Inr h \<Rightarrow> h),
      ps_stack = [], ps_fresh = 0, ps_lead = - 1\<rparr>"

definition root_astate :: astate where
  "root_astate = \<lparr>a_frames = [\<lparr>af_name = ''.'', af_idx = - 1, af_queue = []\<rparr>], a_entries = []\<rparr>"

lemma root_state_rep: "parser_rep root_state root_astate"
proof -
  obtain h where "set_elt_size sizeof_peh no_storage = Inr h" "store_rep h 0"
    using set_elt_size_rep [of no_storage sizeof_peh] by (auto simp: no_storage_def sizeof_peh_def)
  then show ?thesis
    by (simp add: root_state_def root_astate_def parser_rep_def push_def frame_rep_def
        new_Info_cell_def queue_rep_def empty_queue_t_def)
qed

definition pub_format :: lformat where
  \<comment> \<open>every line lists the directory \<open>pub\<close>\<close>
  "pub_format = (unix_format sample_clock)\<lparr>lf_parse := \<lambda>_ lead. (Inr (''pub'', pent zero_peh, True), lead)\<rparr>"

theorem handle_file_refines_witness:
  "\<exists>s'. handle_file pub_format ''drwxr-xr-x 2 ftp 512 Jan 1 1971 pub'' root_state = (Inr (), s') \<and>
     parser_rep s' (a_file ''pub'' ''pub'' (pent zero_peh) True root_astate) \<and> ps_lead s' = - 1"
proof -
  have "a_frames root_astate \<noteq> []" "ps_lead root_state = - 1"
    by (simp_all add: root_astate_def root_state_def push_def)
  then show ?thesis
    by (intro handle_file_refines [OF root_state_rep])
      (simp_all add: pub_format_def unix_format_def S_dup_dir_name_def)
qed

theorem handle_dir_start_refines_witness:
  "\<exists>s'. handle_dir_start (unix_format sample_clock) ''./pub:'' None root_state = (Inl Rejected, s') \<and>
     parser_rep s' (root_astate\<lparr>a_frames := []\<rparr>)"
proof -
  have sp: "lf_split (unix_format sample_clock) ''./pub:'' None = Inr ([''.'', ''pub''], ''.'')"
    by code_simp
  have "dir_spec [''.'', ''pub''] (a_frames root_astate) = None"
    by (simp add: dir_spec_def root_astate_def)
  with handle_dir_start_refines [OF root_state_rep sp] show ?thesis by simp
qed

text \<open>
  C33. When files have been seen and an undeclared directory is announced, the program makes up a
  root directory from the prefix of \<open>-p\<close>; without that option it follows a null pointer.
\<close>

theorem undeclared_directory_without_prefix:
  assumes "parser_rep (dv_p d) a" and "lf_split fmt (dv_buf d) None = Inr (path, buf)"
    and "dir_spec path (a_frames a) = None"
    and "op_files op" and "op_prep op = None" and "0 < dv_files d" and "dv_table d = []"
    and "dv_errors d < 20" and "strspn (dv_orig d) '' '' = 0" and "CHR '':'' \<in> set (dv_orig d)"
  shows "\<exists>d'. header_line fmt op d = (Crash Undefined, d')"
proof -
  obtain p where "handle_dir_start fmt (dv_buf d) None (dv_p d) = (Inl Rejected, p)"
    using handle_dir_start_rep [OF assms(1,2)] assms(3) by (auto simp: a_dir_def)
  moreover have "strchr (dv_orig d) (CHR '':'') \<noteq> None" using assms(10) by (simp add: strchr_None)
  ultimately show ?thesis
    using assms(2,4-9) by (auto simp: header_line_def Let_def MAX_ERROR_NUM_def build_dir_def)
qed

theorem undeclared_directory_without_prefix_witness:
  "\<exists>d'. header_line (unix_format sample_clock) \<lparr>op_files = True, op_prep = None, op_root = Some ''.:''\<rparr>
     ((start \<lparr>op_files = True, op_prep = None, op_root = Some ''.:''\<rparr>)
        \<lparr>dv_p := root_state, dv_buf := ''./pub:'', dv_orig := ''./pub:'', dv_files := 1\<rparr>) = (Crash Undefined, d')"
proof -
  have sp: "lf_split (unix_format sample_clock) ''./pub:'' None = Inr ([''.'', ''pub''], ''.'')"
    by code_simp
  have "dir_spec [''.'', ''pub''] (a_frames root_astate) = None"
    by (simp add: dir_spec_def root_astate_def)
  then show ?thesis
    using sp by (intro undeclared_directory_without_prefix [OF _ _ , of _ root_astate _ "[''.'', ''pub'']" "''.''"])
      (simp_all add: root_state_rep start_def strspn_def)
qed


end
