(* ===== verification/NovellListing.thy ===== *)
theory NovellListing
  imports ListingRoundtrip
begin

section \<open>The line routines for Novell listings\<close>

text \<open>
  Models \<open>archie/anonftp/parse/novell.c\<close> and \<open>novell2.c\<close>.  They differ from the Unix routines
  in the permissions (the eight flags of NetWare between brackets), in the columns of devices,
  in the treatment of a date that cannot be converted, and in that the path of a header is
  put into lower case.
\<close>

definition S_FILE_nov :: pattern where
  "S_FILE_nov = From (RSeqs
     [RIn ''-d'', RIn ''['', RIn ''-R'', RIn ''-W'', RIn ''-C'', RIn ''-E'', RIn ''-M'', RIn ''-F'', RIn ''-A'',
      RIn '']'', RPlus (RIn WHITE_STR)])"

definition S_TOTAL_nov :: pattern where
  "S_TOTAL_nov = From (RSeqs [RLit ''total:'', RPlus (RIn WHITE_STR), RPlus (RIn ''0123456789'')])"

definition S_line_type_nov :: "cstr \<Rightarrow> line_type" where
  "S_line_type_nov line =
     (if regexec S_FILE_nov line then L_FILE
      else if regexec S_BLANK line then L_BLANK
      else if regexec S_DIR_START line then L_DIR_START
      else if regexec S_TOTAL_nov line then L_TOTAL
      else if regexec S_UNREAD line then L_UNREAD
      else L_UNKNOWN)"

definition S_split_dir_nov :: "cstr \<Rightarrow> cstr option \<Rightarrow> (cstr list \<times> cstr) res" where
  "S_split_dir_nov = split_dir tolower"

subsection \<open>Conversions\<close>

fun perm_loop_nov :: "core_site_entry \<Rightarrow> cstr \<Rightarrow> nat list \<Rightarrow> 16 word \<Rightarrow> 16 word res" where
  "perm_loop_nov cse v [] perms = Inr perms"
| "perm_loop_nov cse v (i # is) perms =
     (let j = 9 - i; c = rd v j in
      if length v < j then Inl Undefined
      else if c = CHR ''R'' then perm_loop_nov cse v is (perms OR 0x124)
      else if c = CHR ''W'' then perm_loop_nov cse v is (perms OR 0x92)
      else if c = CHR ''C'' then perm_loop_nov cse v is (perms OR 0x124 OR 0x92)
      else if c = CHR ''F'' then perm_loop_nov cse v is (if CSE_IS_DIR cse then perms OR 0x49 else perms)
      else if c \<in> set ''EMA-[]'' then perm_loop_nov cse v is perms
      else Inl Rejected)"

definition u2db_perm_nov :: "cstr \<Rightarrow> core_site_entry \<Rightarrow> core_site_entry res" where
  "u2db_perm_nov v cse = res_bind (perm_loop_nov cse v [0..<9] 0) (\<lambda>perms. Inr (cse\<lparr>ce_perms := perms\<rparr>))"

definition u2db_time_nov :: "clock \<Rightarrow> cstr \<Rightarrow> cstr \<Rightarrow> cstr \<Rightarrow> core_site_entry \<Rightarrow> core_site_entry res" where
  \<comment> \<open>\<open>mktime\<close> on a System V; \<open>timelocal\<close> elsewhere, whose failure falls back on the present\<close>
  "u2db_time_nov clk mon day t_y cse =
     (let m = month_index 4 unix_months mon 0 in
      if m = 12 then Inl Rejected
      else res_bind (scan_d (length day) day) (\<lambda>(dm, _).
        res_bind (time_or_year clk (int m) t_y) (\<lambda>(hr, mn, y0).
          if dm < 1 \<or> 31 < dm \<or> y0 < 1900 then Inl Rejected
          else let y = (if clk_sysv clk \<and> y0 < 1970 then 1970 else y0) in
            if hr < 0 \<or> 23 < hr \<or> mn < 0 \<or> 59 < mn then Inl Rejected
            else let bd = \<lparr>tm_min = mn, tm_hour = hr, tm_mday = dm, tm_mon = int m,
                           tm_year = y - 1900\<rparr>;
                     t = clk_mktime clk bd
                 in if t = - 1 \<and> clk_sysv clk then Inl Rejected
                    else Inr (cse\<lparr>ce_date :=
                      word_of_int ((if t = - 1 then clk_now clk else t) + clk_offset clk)\<rparr>))))"

subsection \<open>Parsing a file line\<close>

definition device_fields_nov :: "cstr \<Rightarrow> (cstr option \<times> cstr \<times> cstr \<times> cstr) res" where
  "device_fields_nov p =
     res_bind (try_get_field p) (\<lambda>(grp, p).
     res_bind
       (if last grp = CHR '','' then res_bind (try_get_field p) (\<lambda>(_, p). Inr (None, p))
        else res_bind (try_get_field p) (\<lambda>(_, p). res_bind (try_get_field p) (\<lambda>(_, p). Inr (Some grp, p))))
       (\<lambda>(grp, p).
     res_bind (try_get_field p) (\<lambda>(month, p). Inr (grp, ''0'', month, p))))"

definition file_entry_nov :: "clock \<Rightarrow> unix_fields \<Rightarrow> cstr \<Rightarrow> (cstr \<times> parser_entry \<times> bool) res" where
  "file_entry_nov clk f name =
     res_bind (u2db_perm_nov (F_PERM f) zero_core) (\<lambda>cse.
     res_bind (u2db_owner (F_OWNER f) (F_GROUP f) cse) (\<lambda>cse.
     res_bind (u2db_size (F_SIZE f) cse) (\<lambda>cse.
     res_bind (u2db_time_nov clk (F_MONTH f) (F_DAY f) (F_T_Y f) cse) (\<lambda>cse.
     res_bind (S_file_type (F_PERM f)) (\<lambda>is_dir.
       Inr (name, \<lparr>pe_core = cse, pe_slen = word_of_nat (length name)\<rparr>, is_dir))))))"

definition S_file_parse_nov :: "clock \<Rightarrow> cstr \<Rightarrow> int \<Rightarrow> (cstr \<times> parser_entry \<times> bool) res \<times> int" where
  "S_file_parse_nov clk = file_parse (fields_with device_fields_nov) (file_entry_nov clk)"

definition novell_format :: "clock \<Rightarrow> lformat" where
  "novell_format clk = \<lparr>lf_type = S_line_type_nov, lf_split = S_split_dir_nov,
     lf_parse = S_file_parse_nov clk, lf_dup = S_dup_dir_name, lf_blanks = set_blanks\<rparr>"

subsection \<open>Permissions\<close>

definition nov_classes :: "cstr list" where
  "nov_classes = [''-d'', ''['', ''-R'', ''-W'', ''-C'', ''-E'', ''-M'', ''-F'', ''-A'', '']'']"

lemma S_FILE_nov_iff:
  "regexec S_FILE_nov line \<longleftrightarrow>
     (\<exists>v c t. line = v @ c # t \<and> list_all2 (\<lambda>c cs. c \<in> set cs) v nov_classes \<and> is_white c)"
proof -
  have "S_FILE_nov = From (RSeqs (map RIn nov_classes @ [RPlus (RIn WHITE_STR)]))"
    by (simp add: S_FILE_nov_def nov_classes_def)
  then have "regexec S_FILE_nov line = regexec (From (RSeqs (map RIn nov_classes @ [RPlus (RIn WHITE_STR)]))) line"
    by (rule arg_cong)
  then show ?thesis unfolding classes_then_white .
qed

lemma nov_classes_nth:
  "list_all2 (\<lambda>c cs. c \<in> set cs) v nov_classes \<longleftrightarrow> length v = 10 \<and> (\<forall>i<10. v ! i \<in> set (nov_classes ! i))"
  by (auto simp: list_all2_conv_all_nth nov_classes_def)

lemma nov_classes_word: "list_all2 (\<lambda>c cs. c \<in> set cs) v nov_classes \<Longrightarrow> is_word v"
proof -
  assume v: "list_all2 (\<lambda>c cs. c \<in> set cs) v nov_classes"
  have "\<forall>i<10. \<forall>c\<in>set (nov_classes ! i). \<not> is_white c"
    by (simp add: nov_classes_def All_less_Suc numeral_eq_Suc is_white_def WHITE_STR_def)
  with v have "\<forall>i<10. \<not> is_white (v ! i)" "length v = 10" by (auto simp: nov_classes_nth)
  then show "is_word v" by (auto simp: is_word_def in_set_conv_nth)
qed

lemma perm_step_nov:
  assumes "9 - i \<le> length v" and "rd v (9 - i) \<in> set ''RWC-FEMA[]''" and "\<not> CSE_IS_DIR cse"
  shows "perm_loop_nov cse v (i # is) p = perm_loop_nov cse v is
           (p OR (if rd v (9 - i) = CHR ''R'' \<or> rd v (9 - i) = CHR ''C'' then 0x124 else 0)
              OR (if rd v (9 - i) = CHR ''W'' \<or> rd v (9 - i) = CHR ''C'' then 0x92 else 0))"
  using assms by (auto simp: Let_def)

lemma perm_loop_nov_eval:
  assumes l: "length v = 10" and b: "v ! 1 = CHR ''[''" "v ! 9 = CHR '']''"
    and f: "v ! 2 \<in> set ''-R''" "v ! 3 \<in> set ''-W''" "v ! 4 \<in> set ''-C''" "v ! 5 \<in> set ''-E''"
      "v ! 6 \<in> set ''-M''" "v ! 7 \<in> set ''-F''" "v ! 8 \<in> set ''-A''"
    and d: "\<not> CSE_IS_DIR cse"
  shows "perm_loop_nov cse v [0..<9] 0 =
     Inr ((if v ! 2 = CHR ''R'' \<or> v ! 4 = CHR ''C'' then 0x124 else 0) OR
          (if v ! 3 = CHR ''W'' \<or> v ! 4 = CHR ''C'' then 0x92 else 0))"
proof -
  have up: "[0..<9] = [0, 1, 2, 3, 4, 5, 6, 7, 8]" by (simp add: upt_rec)
  have skip: "perm_loop_nov cse v (i # is) p = perm_loop_nov cse v is p"
    if "rd v (9 - i) \<in> set ''-FEMA[]''" for i "is" p
    using that d l by (subst perm_step_nov) auto
  have rd: "rd v j = v ! j" if "j < 10" for j using that l by (intro rd_less) simp
  have "perm_loop_nov cse v [0..<9] 0 = perm_loop_nov cse v [5, 6, 7, 8] 0"
  proof -
    have "rd v (9 - 0) \<in> set ''-FEMA[]''" "rd v (9 - 1) \<in> set ''-FEMA[]''" "rd v (9 - 2) \<in> set ''-FEMA[]''"
      "rd v (9 - 3) \<in> set ''-FEMA[]''" "rd v (9 - 4) \<in> set ''-FEMA[]''"
      using f(4-7) b(2) by (auto simp: rd)
    then show ?thesis unfolding up by (simp only: skip)
  qed
  also have "\<dots> = perm_loop_nov cse v [6, 7, 8] (if v ! 4 = CHR ''C'' then 0x124 OR 0x92 else 0)"
    using f(3) d l by (subst perm_step_nov) (auto simp: rd simp del: perm_loop_nov.simps)
  also have "\<dots> = perm_loop_nov cse v [7, 8]
      ((if v ! 4 = CHR ''C'' then 0x124 OR 0x92 else 0) OR (if v ! 3 = CHR ''W'' then 0x92 else 0))"
    using f(2) d l by (subst perm_step_nov) (auto simp: rd simp del: perm_loop_nov.simps)
  also have "\<dots> = perm_loop_nov cse v [8]
      ((if v ! 4 = CHR ''C'' then 0x124 OR 0x92 else 0) OR (if v ! 3 = CHR ''W'' then 0x92 else 0)
         OR (if v ! 2 = CHR ''R'' then 0x124 else 0))"
    using f(1) d l by (subst perm_step_nov) (auto simp: rd simp del: perm_loop_nov.simps)
  also have "\<dots> = Inr ((if v ! 4 = CHR ''C'' then 0x124 OR 0x92 else 0) OR (if v ! 3 = CHR ''W'' then 0x92 else 0)
         OR (if v ! 2 = CHR ''R'' then 0x124 else 0))"
    using b(1) by (subst skip) (auto simp: rd)
  finally show ?thesis by simp
qed

text \<open>
  C24. On every line that the pattern takes for a file line the permission field has ten
  characters and its conversion succeeds: reading is allowed by R or C, writing by W or C.
  The F flag never gives a directory the execute permissions, because the entry is marked as
  a directory only after the line has been parsed.
\<close>

theorem novell_file_line_perms:
  assumes "S_line_type_nov line = L_FILE"
  shows "\<exists>v t. try_get_field line = Inr (v, t) \<and> length v = 10 \<and>
           u2db_perm_nov v zero_core = Inr (zero_core\<lparr>ce_perms :=
             (if v ! 2 = CHR ''R'' \<or> v ! 4 = CHR ''C'' then 0x124 else 0) OR
             (if v ! 3 = CHR ''W'' \<or> v ! 4 = CHR ''C'' then 0x92 else 0)\<rparr>)"
proof -
  from assms have "regexec S_FILE_nov line" by (simp add: S_line_type_nov_def split: if_splits)
  then obtain v c t where v: "line = v @ c # t" "list_all2 (\<lambda>c cs. c \<in> set cs) v nov_classes" "is_white c"
    by (auto simp: S_FILE_nov_iff)
  then have "try_get_field line = Inr (v, t)"
    using try_get_field_word [of "[]" v c t] nov_classes_word by simp
  moreover have l: "length v = 10" using v(2) by (simp add: nov_classes_nth)
  moreover have "v ! i \<in> set (nov_classes ! i)" if "i < 10" for i using v(2) that by (simp add: nov_classes_nth)
  then have "v ! 1 \<in> set (nov_classes ! 1)" "v ! 2 \<in> set (nov_classes ! 2)" "v ! 3 \<in> set (nov_classes ! 3)"
    "v ! 4 \<in> set (nov_classes ! 4)" "v ! 5 \<in> set (nov_classes ! 5)" "v ! 6 \<in> set (nov_classes ! 6)"
    "v ! 7 \<in> set (nov_classes ! 7)" "v ! 8 \<in> set (nov_classes ! 8)" "v ! 9 \<in> set (nov_classes ! 9)"
    by (simp_all del: One_nat_def)
  then have "perm_loop_nov zero_core v [0..<9] 0 =
     Inr ((if v ! 2 = CHR ''R'' \<or> v ! 4 = CHR ''C'' then 0x124 else 0) OR
          (if v ! 3 = CHR ''W'' \<or> v ! 4 = CHR ''C'' then 0x92 else 0))"
    using l by (intro perm_loop_nov_eval) (simp_all add: nov_classes_def CSE_IS_DIR_def zero_core_def)
  ultimately show ?thesis by (simp add: u2db_perm_nov_def)
qed

theorem novell_file_line_perms_witness:
  "\<exists>v t. try_get_field ''d[RWCEMFA] 1 supervisor 512 Feb 29 15:21 sys'' = Inr (v, t) \<and> length v = 10 \<and>
     u2db_perm_nov v zero_core = Inr (zero_core\<lparr>ce_perms :=
       (if v ! 2 = CHR ''R'' \<or> v ! 4 = CHR ''C'' then 0x124 else 0) OR
       (if v ! 3 = CHR ''W'' \<or> v ! 4 = CHR ''C'' then 0x92 else 0)\<rparr>)"
  by (rule novell_file_line_perms) code_simp

subsection \<open>Capitals in the path\<close>

lemma split_slash_concat: "set (concat (split_slash s)) \<subseteq> set s"
proof (induction s)
  case (Cons a s)
  then show ?case by (cases "split_slash s") auto
qed simp

lemma split_slash_chars: "p \<in> set (split_slash s) \<Longrightarrow> c \<in> set p \<Longrightarrow> c \<in> set s"
  using split_slash_concat by fastforce

lemma split_slash_nonempty: "split_slash s \<noteq> []"
  by (cases s) (auto split: list.splits)

lemma split_dir_nov_lower:
  assumes "S_split_dir_nov str None = Inr (path, buf)" and "p \<in> set path" and "c \<in> set p"
  shows "\<not> is_upper c"
proof -
  obtain body where "path = butlast (split_slash (map tolower body)) @
      [butlast (last (split_slash (map tolower body)))]"
    using assms(1) by (auto simp: S_split_dir_nov_def split_dir_def Let_def split: if_splits)
  with assms(2,3) have "\<exists>q\<in>set (split_slash (map tolower body)). c \<in> set q"
    using split_slash_nonempty [of "map tolower body"]
    by (auto dest: in_set_butlastD intro: bexI [OF _ last_in_set])
  then have "c \<in> set (map tolower body)" using split_slash_chars by blast
  then obtain d where "c = tolower d" by auto
  then show ?thesis by (auto simp: tolower_def is_upper_def)
qed



end
