(* ===== verification/VmsListing.thy ===== *)
theory VmsListing
  imports ListingRoundtrip
begin

section \<open>The line routines for VMS listings\<close>

text \<open>
  Models \<open>archie/anonftp/parse/vms.c\<close> and \<open>vms2.c\<close>.  A file line is a name with its version,
  the size in blocks, date, time, owner and the four sets of permissions; a long name has a
  line of its own (\<open>L_PARTIAL\<close>) that is continued on the next (\<open>L_CONT\<close>).  A header is a
  device and a path, \<open>DEV:[DIR.SUBDIR]\<close>.  Names that the two formats share in C have the
  suffix \<open>_vms\<close> here.
\<close>

subsection \<open>Line types\<close>

abbreviation DIGITS :: cstr where "DIGITS \<equiv> ''0123456789''"

definition S_CONT_vms :: pattern where
  "S_CONT_vms = From (RSeqs [RPlus (RIn WHITE_STR), RIn (CHR ''%'' # DIGITS)])"

definition S_DIR_START_vms :: pattern where
  "S_DIR_START_vms = From (RSeqs
     [RPlus (RNotIn '':''), RIn '':'', RIn ''['', RPlus (RNotIn ''].''),
      RStar (RSeq (RIn ''.'') (RPlus (RNotIn ''].''))), RIn '']''])"

definition vms_name :: "rx list" where
  \<comment> \<open>a file name with its version\<close>
  "vms_name = [RStar (RNotIn ''.''), RIn ''.'', RStar (RNotIn '';''), RIn '';'', RPlus (RIn DIGITS)]"

definition S_ERROR_vms :: pattern where
  "S_ERROR_vms = From (RSeqs (vms_name @ [RPlus (RIn WHITE_STR), RIn (CHR ''%'' # DIGITS)]))"

definition S_FILE_vms :: pattern where
  "S_FILE_vms = From (RSeqs (vms_name @ [RPlus (RIn WHITE_STR), RPlus (RIn DIGITS)]))"

definition S_PARTIAL_vms :: pattern where
  "S_PARTIAL_vms = From (RSeqs vms_name)"

definition S_TOTAL_vms :: pattern where
  "S_TOTAL_vms = From (RAlt (RLit ''Total of'') (RLit ''Grand total of''))"

definition S_line_type_vms :: "cstr \<Rightarrow> line_type" where
  "S_line_type_vms line =
     (if regexec S_FILE_vms line then L_FILE
      else if regexec S_BLANK line then L_BLANK
      else if regexec S_DIR_START_vms line then L_DIR_START
      else if regexec S_ERROR_vms line then L_ERROR
      else if regexec S_PARTIAL_vms line then L_PARTIAL
      else if regexec S_CONT_vms line then L_CONT
      else if regexec S_TOTAL_vms line then L_TOTAL
      else L_UNKNOWN)"

subsection \<open>Directories\<close>

definition S_dup_dir_name_vms :: "cstr \<Rightarrow> cstr res" where
  \<comment> \<open>the name up to its first dot\<close>
  "S_dup_dir_name_vms name =
     (case strchr name (CHR ''.'') of
        None \<Rightarrow> Inl Rejected
      | Some d \<Rightarrow> Inr (take (length name - length d) name))"

definition S_file_type_vms :: "cstr \<Rightarrow> bool res" where
  "S_file_type_vms s =
     (case strchr s (CHR ''.'') of
        None \<Rightarrow> Inl Rejected
      | Some d \<Rightarrow> Inr (strncmp0 d ''.DIR;'' 5))"

lemma findfirst_length: "findfirst s cs = Some p \<Longrightarrow> length (tl p) < length s"
  by (induction s) (auto split: if_splits)

function split_path_vms :: "cstr \<Rightarrow> cstr list res" where
  \<comment> \<open>the loop over the components; \<open>strpbrk\<close> must find a separator\<close>
  "split_path_vms s =
     (case findfirst s ''.]'' of
        None \<Rightarrow> Inl Undefined
      | Some p \<Rightarrow>
          let comp = take (length s - length p) s
          in if hd p = CHR '']'' \<or> tl p = [] then Inr [comp]
             else res_bind (split_path_vms (tl p)) (\<lambda>cs. Inr (comp # cs)))"
  by pat_completeness auto
termination
  by (relation "measure length") (auto dest!: findfirst_length)

declare split_path_vms.simps [simp del]

text \<open>The prefix directory is not used; the buffer is cut after the device.\<close>

definition S_split_dir_vms :: "cstr \<Rightarrow> cstr option \<Rightarrow> (cstr list \<times> cstr) res" where
  "S_split_dir_vms str prep_dir =
     (case strchr str (CHR '':'') of
        None \<Rightarrow> Inl Undefined
      | Some q \<Rightarrow>
          if length q < 2 then Inl Undefined
          else
            let dev = take (length str - length q) str in
            res_bind (split_path_vms (drop 2 q)) (\<lambda>cs.
              if MAX_PATH_ELTS + 1 < length (dev # cs) then Inl Undefined else Inr (dev # cs, dev)))"

subsection \<open>Conversions\<close>

definition vms_months :: "cstr list" where
  "vms_months = [''JAN'', ''FEB'', ''MAR'', ''APR'', ''MAY'', ''JUN'', ''JUL'', ''AUG'', ''SEP'',
     ''OCT'', ''NOV'', ''DEC'']"

definition scan_date :: "cstr \<Rightarrow> (int \<times> cstr \<times> int) res" where
  \<comment> \<open>\<open>sscanf(d, "%d-%[^-]-%d", &dm, mstr, &y)\<close>; \<open>mstr\<close> has four characters\<close>
  "scan_date d =
     res_bind (scan_d (length d) d) (\<lambda>(dm, s).
       if rd s 0 \<noteq> CHR ''-'' then Inl Rejected
       else let m = takeWhile (\<lambda>c. c \<noteq> CHR ''-'') (tl s); s' = drop (length m) (tl s)
         in if m = [] then Inl Rejected
            else if 3 < length m then Inl Undefined
            else if rd s' 0 \<noteq> CHR ''-'' then Inl Rejected
            else res_bind (scan_d (length s') (tl s')) (\<lambda>(y, _). Inr (dm, m, y)))"

definition scan_time :: "cstr \<Rightarrow> (int \<times> int) res" where
  \<comment> \<open>\<open>sscanf(t, "%2d:%2d", &hr, &min)\<close>\<close>
  "scan_time t =
     res_bind (scan_d 2 t) (\<lambda>(hr, s).
       if rd s 0 \<noteq> CHR '':'' then Inl Rejected
       else res_bind (scan_d 2 (tl s)) (\<lambda>(mn, _). Inr (hr, mn)))"

definition v2db_time :: "clock \<Rightarrow> cstr \<Rightarrow> cstr \<Rightarrow> core_site_entry \<Rightarrow> core_site_entry res" where
  "v2db_time clk d t cse =
     res_bind (scan_date d) (\<lambda>(dm, mstr, y).
     res_bind (scan_time t) (\<lambda>(hr, mn).
       if 31 < dm \<or> y < 1970 then Inl Rejected
       else if 23 < hr \<or> 59 < mn then Inl Rejected
       else let m = month_index 3 vms_months mstr 0 in
         if m = 12 then Inl Rejected
         else let the_time = clk_mktime clk \<lparr>tm_min = mn, tm_hour = hr, tm_mday = dm, tm_mon = int m,
                                             tm_year = y - 1900\<rparr>
           in if the_time = - 1 then Inl Rejected
              else Inr (cse\<lparr>ce_date := word_of_int (the_time + clk_offset clk)\<rparr>)))"

fun v2db_one_set_perm :: "cstr \<Rightarrow> 16 word \<Rightarrow> 16 word option" where
  \<comment> \<open>\<open>None\<close> is a return of 0; the end of the string is an unexpected character, too\<close>
  "v2db_one_set_perm [] p = None"
| "v2db_one_set_perm (c # s) p =
     (if c = CHR '','' \<or> c = CHR '')'' then Some p
      else if c = CHR ''R'' then v2db_one_set_perm s (p OR 8)
      else if c = CHR ''W'' then v2db_one_set_perm s (p OR 4)
      else if c = CHR ''E'' then v2db_one_set_perm s (p OR 2)
      else if c = CHR ''D'' then v2db_one_set_perm s (p OR 1)
      else None)"

definition set_perm :: "cstr \<Rightarrow> 16 word \<Rightarrow> 16 word" where
  \<comment> \<open>the call in \<open>v2db_perm\<close>: its result is ignored, and on an error \<open>p\<close> keeps its value\<close>
  "set_perm v p = (case v2db_one_set_perm v 0 of None \<Rightarrow> p | Some q \<Rightarrow> q)"

definition past_comma :: "cstr \<Rightarrow> cstr res" where
  \<comment> \<open>\<open>while(*v++ != ',') ;\<close>\<close>
  "past_comma v = (case strchr v (CHR '','') of None \<Rightarrow> Inl Undefined | Some q \<Rightarrow> Inr (tl q))"

definition v2db_perm :: "cstr \<Rightarrow> core_site_entry \<Rightarrow> core_site_entry res" where
  "v2db_perm v cse =
     (if v = [] then Inl Undefined
      else
        let v1 = tl v; p1 = set_perm v1 0 in
        res_bind (past_comma v1) (\<lambda>v2. let p2 = set_perm v2 p1 in
        res_bind (past_comma v2) (\<lambda>v3. let p3 = set_perm v3 p2 in
        res_bind (past_comma v3) (\<lambda>v4. let p4 = set_perm v4 p3 in
          Inr (cse\<lparr>ce_perms := ce_perms cse OR
                   (push_bit 12 p1 OR push_bit 8 p2 OR push_bit 4 p3 OR p4)\<rparr>)))))"

definition v2db_owner :: "cstr \<Rightarrow> core_site_entry \<Rightarrow> core_site_entry res" where
  "v2db_owner v cse = Inr cse"

definition v2db_size :: "cstr \<Rightarrow> core_site_entry \<Rightarrow> core_site_entry res" where
  "v2db_size v cse =
     (if \<not> is_digit (rd v 0) then Inl Rejected
      else res_bind (atoi_digits v) (\<lambda>n. Inr (cse\<lparr>ce_size := word_of_int n\<rparr>)))"

subsection \<open>Parsing a file line\<close>

definition strtok :: "cstr \<Rightarrow> (cstr \<times> cstr) res" where
  \<comment> \<open>\<open>strtok\<close> with \<open>WHITE_STR\<close>: the next token and where the following call goes on\<close>
  "strtok s =
     (let t = drop (strspn s WHITE_STR) s; n = strcspn t WHITE_STR
      in if t = [] then Inl Rejected else Inr (take n t, drop (Suc n) t))"

definition S_file_parse_vms :: "clock \<Rightarrow> cstr \<Rightarrow> int \<Rightarrow> (cstr \<times> parser_entry \<times> bool) res \<times> int" where
  "S_file_parse_vms clk line lead =
     (res_bind (strtok line) (\<lambda>(name, s).
      res_bind (strtok s) (\<lambda>(size, s).
      res_bind (strtok s) (\<lambda>(date, s).
      res_bind (strtok s) (\<lambda>(time, s).
      res_bind (strtok s) (\<lambda>(own, s).
      res_bind (strtok s) (\<lambda>(perm, s).
      res_bind (v2db_perm perm zero_core) (\<lambda>cse.
      res_bind (v2db_owner own cse) (\<lambda>cse.
      res_bind (v2db_size size cse) (\<lambda>cse.
      res_bind (v2db_time clk date time cse) (\<lambda>cse.
      res_bind (S_file_type_vms name) (\<lambda>is_dir.
        Inr (name, \<lparr>pe_core = cse, pe_slen = word_of_nat (length name)\<rparr>, is_dir)))))))))))), lead)"

definition set_blanks_vms :: "int \<Rightarrow> int \<Rightarrow> int" where
  "set_blanks_vms num lead = lead"

subsection \<open>Paths\<close>

fun dotted :: "cstr list \<Rightarrow> cstr" where
  "dotted [] = []"
| "dotted [p] = p @ '']''"
| "dotted (p # ps) = p @ ''.'' @ dotted ps"

lemma take_prefix: "take (length (u @ v) - length v) (u @ v) = u"
  by simp

lemma dotted_nonempty: "ps \<noteq> [] \<Longrightarrow> dotted ps \<noteq> []"
  by (induction ps rule: dotted.induct) auto

lemma split_path_dotted:
  "ps \<noteq> [] \<Longrightarrow> \<forall>p\<in>set ps. set p \<inter> set ''.]'' = {} \<Longrightarrow> split_path_vms (dotted ps) = Inr ps"
proof (induction ps rule: dotted.induct)
  case (2 p)
  then have "findfirst (p @ '']'') ''.]'' = Some '']''" using findfirst_append [of p "''.]''" "CHR '']''" "[]"] by simp
  then show ?case by (subst split_path_vms.simps) simp
next
  case (3 p q ps)
  then have IH: "split_path_vms (dotted (q # ps)) = Inr (q # ps)" by simp
  have "findfirst (p @ ''.'' @ dotted (q # ps)) ''.]'' = Some (''.'' @ dotted (q # ps))"
    using 3(3) findfirst_append [of p "''.]''" "CHR ''.''" "dotted (q # ps)"] by simp
  moreover have "dotted (q # ps) \<noteq> []" by (rule dotted_nonempty) simp
  ultimately have "split_path_vms (p @ ''.'' @ dotted (q # ps)) = Inr (p # q # ps)"
    using IH by (subst split_path_vms.simps) (simp add: Let_def)
  then show ?case by simp
qed simp

text \<open>
  C23. The header \<open>DEV:[A.B.C]\<close> is split into the device and the directories below it; with
  more than 51 of them the code writes outside its array.
\<close>

theorem vms_split_dir:
  assumes "CHR '':'' \<notin> set dev" and "ps \<noteq> []" and "\<forall>p\<in>set ps. set p \<inter> set ''.]'' = {}"
  shows "S_split_dir_vms (dev @ '':['' @ dotted ps) prep =
           (if length (dev # ps) \<le> 51 then Inr (dev # ps, dev) else Inl Undefined)"
proof -
  have "strchr (dev @ '':['' @ dotted ps) (CHR '':'') = Some ('':['' @ dotted ps)"
    using assms(1) by (simp add: strchr_append)
  then show ?thesis
    using split_path_dotted [OF assms(2,3)]
    by (simp add: S_split_dir_vms_def MAX_PATH_ELTS_def Let_def)
qed

theorem vms_split_dir_witness:
  "S_split_dir_vms ''ANONYMOUS:[PUB.GAMES]'' None = Inr ([''ANONYMOUS'', ''PUB'', ''GAMES''], ''ANONYMOUS'')"
  using vms_split_dir [of "''ANONYMOUS''" "[''PUB'', ''GAMES'']" None] by simp

subsection \<open>What \<open>DIRECTORY\<close> writes\<close>

text \<open>A set of permissions: read, write, execute, delete.\<close>

type_synonym rwed = "bool \<times> bool \<times> bool \<times> bool"

fun show_rwed :: "rwed \<Rightarrow> cstr" where
  "show_rwed (r, w, e, d) =
     (if r then ''R'' else []) @ (if w then ''W'' else []) @ (if e then ''E'' else []) @ (if d then ''D'' else [])"

fun rwed_val :: "rwed \<Rightarrow> 16 word" where
  "rwed_val (r, w, e, d) = of_bool r * 8 + of_bool w * 4 + of_bool e * 2 + of_bool d"

definition show_perms :: "rwed \<Rightarrow> rwed \<Rightarrow> rwed \<Rightarrow> rwed \<Rightarrow> cstr" where
  "show_perms s o' g w =
     ''('' @ show_rwed s @ '','' @ show_rwed o' @ '','' @ show_rwed g @ '','' @ show_rwed w @ '')''"

lemma set_perm_show: "c = CHR '','' \<or> c = CHR '')'' \<Longrightarrow> set_perm (show_rwed x @ c # t) p = rwed_val x"
  by (cases x) (auto simp: set_perm_def)

lemma past_comma_show: "past_comma (show_rwed x @ CHR '','' # t) = Inr t"
  by (cases x) (auto simp: past_comma_def)

lemma v2db_perm_show:
  "v2db_perm (show_perms s o' g w) zero_core =
     Inr (zero_core\<lparr>ce_perms := push_bit 12 (rwed_val s) OR push_bit 8 (rwed_val o') OR
            push_bit 4 (rwed_val g) OR rwed_val w\<rparr>)"
  by (simp add: v2db_perm_def show_perms_def set_perm_show past_comma_show Let_def zero_core_def)

lemma show_perms_word: "is_word (show_perms s o' g w)"
  by (cases s; cases o'; cases g; cases w) (auto simp: is_word_def show_perms_def is_white_def WHITE_STR_def)

record vms_listed =
  vl_stem :: cstr
  vl_type :: cstr
  vl_version :: nat
  vl_size :: nat
  vl_day :: nat
  vl_month :: nat
  vl_year :: nat
  vl_hour :: nat
  vl_min :: nat
  vl_owner :: cstr
  vl_perms :: "rwed \<times> rwed \<times> rwed \<times> rwed"

definition vl_name :: "vms_listed \<Rightarrow> cstr" where
  "vl_name r = vl_stem r @ ''.'' @ vl_type r @ '';'' @ dec (vl_version r)"

definition vl_show_perms :: "vms_listed \<Rightarrow> cstr" where
  "vl_show_perms r = (case vl_perms r of (s, o', g, w) \<Rightarrow> show_perms s o' g w)"

definition vl_date :: "vms_listed \<Rightarrow> cstr" where
  "vl_date r = dec (vl_day r) @ ''-'' @ vms_months ! vl_month r @ ''-'' @ dec (vl_year r)"

definition vl_time :: "vms_listed \<Rightarrow> cstr" where
  "vl_time r = two_digits (vl_hour r) @ '':'' @ two_digits (vl_min r)"

text \<open>\<open>b i\<close> is the white space after column \<open>i\<close>.\<close>

definition vl_line :: "(nat \<Rightarrow> cstr) \<Rightarrow> vms_listed \<Rightarrow> cstr" where
  "vl_line b r = vl_name r @ b 0 @ dec (vl_size r) @ b 1 @ vl_date r @ b 2 @ vl_time r @ b 3 @
     vl_owner r @ b 4 @ vl_show_perms r"

definition vl_ok :: "vms_listed \<Rightarrow> bool" where
  "vl_ok r =
     ((\<forall>c\<in>set (vl_stem r). \<not> is_white c \<and> c \<noteq> CHR ''.'') \<and>
      (\<forall>c\<in>set (vl_type r). \<not> is_white c \<and> c \<noteq> CHR '';'') \<and>
      int (vl_size r) \<le> INT_MAX \<and> vl_day r \<le> 31 \<and> vl_month r < 12 \<and> 1970 \<le> vl_year r \<and>
      int (vl_year r) \<le> INT_MAX \<and> vl_hour r < 24 \<and> vl_min r < 60 \<and> is_word (vl_owner r))"

definition vl_tm :: "vms_listed \<Rightarrow> tm" where
  "vl_tm r = \<lparr>tm_min = int (vl_min r), tm_hour = int (vl_hour r), tm_mday = int (vl_day r),
     tm_mon = int (vl_month r), tm_year = int (vl_year r) - 1900\<rparr>"

definition vl_entry :: "clock \<Rightarrow> vms_listed \<Rightarrow> parser_entry" where
  "vl_entry clk r = (case vl_perms r of (s, o', g, w) \<Rightarrow>
     \<lparr>pe_core = zero_core\<lparr>ce_perms := push_bit 12 (rwed_val s) OR push_bit 8 (rwed_val o') OR
          push_bit 4 (rwed_val g) OR rwed_val w,
        ce_size := word_of_nat (vl_size r),
        ce_date := word_of_int (clk_mktime clk (vl_tm r) + clk_offset clk)\<rparr>,
      pe_slen = word_of_nat (length (vl_name r))\<rparr>)"

lemma strtok_word:
  assumes "is_word w" and "is_blanks b'"
  shows "strtok (w @ b' @ t) = Inr (w, tl b' @ t)"
    and "\<forall>c\<in>set b. is_white c \<Longrightarrow> strtok (b @ w @ b' @ t) = Inr (w, tl b' @ t)"
    and "\<forall>c\<in>set b. is_white c \<Longrightarrow> strtok (b @ w) = Inr (w, [])"
proof -
  obtain c b'' where b': "b' = c # b''" "is_white c" using assms(2) by (cases b') (auto simp: is_blanks_def)
  have cs: "strcspn (w @ b' @ t) WHITE_STR = length w"
    using assms(1) b' by (auto simp: strcspn_def is_word_def is_white_def takeWhile_append)
  have cs0: "strcspn w WHITE_STR = length w"
    using assms(1) by (simp add: strcspn_def is_word_def is_white_def takeWhile_eq_all_conv [THEN iffD2])
  have sp: "strspn (b @ w @ u) WHITE_STR = length b" if "\<forall>c\<in>set b. is_white c" for b u
  proof (rule strspn_blanks [OF that])
    obtain d w' where "w = d # w'" using assms(1) by (cases w) (auto simp: is_word_def)
    with assms(1) show "is_word (take 1 (w @ u))" by (simp add: is_word_def)
  qed
  have w: "w \<noteq> []" using assms(1) by (simp add: is_word_def)
  show A: "strtok (b @ w @ b' @ t) = Inr (w, tl b' @ t)" if "\<forall>c\<in>set b. is_white c" for b
    using sp [OF that, of "b' @ t"] cs w b' by (simp add: strtok_def Let_def)
  show "strtok (w @ b' @ t) = Inr (w, tl b' @ t)" using A [of "[]"] by simp
  show "strtok (b @ w) = Inr (w, [])" if "\<forall>c\<in>set b. is_white c"
    using sp [OF that, of "[]"] cs0 w by (simp add: strtok_def Let_def)
qed

lemma vms_month_words: "m < 12 \<Longrightarrow> is_word (vms_months ! m) \<and> length (vms_months ! m) = 3 \<and>
    CHR ''-'' \<notin> set (vms_months ! m) \<and> month_index 3 vms_months (vms_months ! m) 0 = m"
proof -
  have "\<forall>m<12. is_word (vms_months ! m) \<and> length (vms_months ! m) = 3 \<and>
    CHR ''-'' \<notin> set (vms_months ! m) \<and> month_index 3 vms_months (vms_months ! m) 0 = m"
    by code_simp
  then show "m < 12 \<Longrightarrow> is_word (vms_months ! m) \<and> length (vms_months ! m) = 3 \<and>
    CHR ''-'' \<notin> set (vms_months ! m) \<and> month_index 3 vms_months (vms_months ! m) 0 = m" by blast
qed

lemma scan_d_dec:
  "int n \<le> INT_MAX \<Longrightarrow> t = [] \<or> \<not> is_digit (hd t) \<Longrightarrow> length (dec n) \<le> w \<Longrightarrow> scan_d w (dec n @ t) = Inr (int n, t)"
  using scan_d_digits [of "dec n" w t] by (auto dest: dec_digits simp: INT_MAX_def)

lemma not_digit_punct: "\<not> is_digit (CHR ''-'')" "\<not> is_digit (CHR '':'')"
  by (simp_all add: is_digit_def ord_def)

lemma scan_date_vl:
  assumes "vl_ok r"
  shows "scan_date (vl_date r) = Inr (int (vl_day r), vms_months ! vl_month r, int (vl_year r))"
proof -
  let ?m = "vms_months ! vl_month r"
  have ok: "vl_day r \<le> 31" "vl_month r < 12" "int (vl_year r) \<le> INT_MAX" using assms by (auto simp: vl_ok_def)
  note m = vms_month_words [OF ok(2)]
  have d: "scan_d (length (vl_date r)) (vl_date r) = Inr (int (vl_day r), ''-'' @ ?m @ ''-'' @ dec (vl_year r))"
    unfolding vl_date_def using ok(1) by (intro scan_d_dec) (auto simp: INT_MAX_def not_digit_punct)
  have y: "scan_d (Suc (length (dec (vl_year r)))) (dec (vl_year r)) = Inr (int (vl_year r), [])"
    using scan_d_dec [of "vl_year r" "[]"] ok(3) by simp
  have tw: "takeWhile (\<lambda>c. c \<noteq> CHR ''-'') (?m @ CHR ''-'' # t) = ?m" for t
    using m by (auto simp: takeWhile_append)
  show ?thesis
    using d y m tw by (auto simp: scan_date_def Let_def rd_def is_word_def)
qed

lemma scan_time_vl: "vl_ok r \<Longrightarrow> scan_time (vl_time r) = Inr (int (vl_hour r), int (vl_min r))"
proof -
  assume "vl_ok r"
  then have "vl_hour r < 24" "vl_min r < 60" by (simp_all only: vl_ok_def)
  then have hm: "vl_hour r < 100" "vl_min r < 100" by linarith+
  have tw: "scan_d 2 (two_digits k @ t) = Inr (int k, t)" if "k < 100" "t = [] \<or> \<not> is_digit (hd t)" for k t
    using scan_d_digits [of "two_digits k" 2 t] that two_digits_val [OF that(1)]
    by (simp add: two_digits_def)
  show ?thesis
    using tw [OF hm(1), of "'':'' @ two_digits (vl_min r)"] tw [OF hm(2), of "[]"]
    by (simp add: scan_time_def vl_time_def rd_def not_digit_punct)
qed

lemma is_word_alt: "is_word w \<longleftrightarrow> w \<noteq> [] \<and> list_all (\<lambda>c. \<not> is_white c) w"
  by (simp add: is_word_def list_all_iff)

lemma vl_words:
  assumes "vl_ok r"
  shows "is_word (vl_name r)" "is_word (vl_date r)" "is_word (vl_time r)"
proof -
  have dg: "list_all (\<lambda>c. \<not> is_white c) (dec n)" for n using dec_word by (simp only: is_word_alt)
  have nw: "\<not> is_white (CHR ''.'')" "\<not> is_white (CHR '';'')" "\<not> is_white (CHR ''-'')" "\<not> is_white (CHR '':'')"
    by (simp_all add: is_white_def WHITE_STR_def)
  have "list_all (\<lambda>c. \<not> is_white c) (vl_stem r)" "list_all (\<lambda>c. \<not> is_white c) (vl_type r)"
    using assms by (simp_all add: vl_ok_def list_all_iff)
  then show "is_word (vl_name r)"
    unfolding is_word_alt vl_name_def using dg nw by simp
  have "is_word (vms_months ! vl_month r)" using assms vms_month_words by (simp add: vl_ok_def)
  then show "is_word (vl_date r)"
    unfolding is_word_alt vl_date_def using dg nw by simp
  have "vl_hour r < 24" "vl_min r < 60" using assms by (simp_all only: vl_ok_def)
  then have "vl_hour r div 10 < 10" "vl_min r div 10 < 10" by linarith+
  then have "is_digit (digit (vl_hour r div 10))" "is_digit (digit (vl_hour r mod 10))"
    "is_digit (digit (vl_min r div 10))" "is_digit (digit (vl_min r mod 10))" by simp_all
  then show "is_word (vl_time r)"
    unfolding is_word_alt vl_time_def two_digits_def using nw digit_not by simp
qed

lemma vl_line_type:
  assumes "vl_ok r" and "is_blanks (b 0)"
  shows "S_line_type_vms (vl_line b r) = L_FILE"
proof -
  have dg: "dec n \<in> rx_lang (RPlus (RIn DIGITS))" for n
    using digit_in dec_digits by (auto simp: RPlus_In simp del: set_simps)
  have st: "vl_stem r \<in> rx_lang (RStar (RNotIn ''.''))" "vl_type r \<in> rx_lang (RStar (RNotIn '';''))"
    using assms(1) by (auto simp: vl_ok_def star_NotIn simp del: rx_lang.simps(3) intro!: star_NotIn [THEN iffD2] simp: rx_lang.simps(6))
  have bl: "b 0 \<in> rx_lang (RPlus (RIn WHITE_STR))"
    using assms(2) by (auto simp: RPlus_In is_blanks_def is_white_def)
  have dot: "''.'' \<in> rx_lang (RIn ''.'')" "'';'' \<in> rx_lang (RIn '';'')" by simp_all
  have all: "vms_name @ [RPlus (RIn WHITE_STR), RPlus (RIn DIGITS)] =
      [RStar (RNotIn ''.''), RIn ''.'', RStar (RNotIn '';''), RIn '';'', RPlus (RIn DIGITS),
       RPlus (RIn WHITE_STR), RPlus (RIn DIGITS)]" by (simp add: vms_name_def)
  let ?u = "vl_stem r @ ''.'' @ vl_type r @ '';'' @ dec (vl_version r) @ b 0 @ dec (vl_size r) @ []"
  let ?rest = "b 1 @ vl_date r @ b 2 @ vl_time r @ b 3 @ vl_owner r @ b 4 @ vl_show_perms r"
  have "?u \<in> rx_lang (RSeqs (vms_name @ [RPlus (RIn WHITE_STR), RPlus (RIn DIGITS)]))"
    unfolding all by (intro RSeqs_append dg st bl dot) simp
  moreover have "vl_line b r = ?u @ ?rest"
    by (simp add: vl_line_def vl_name_def)
  ultimately have "regexec S_FILE_vms (vl_line b r)"
    unfolding regexec_iff S_FILE_vms_def pattern_matches.simps by blast
  then show ?thesis by (simp add: S_line_type_vms_def)
qed

text \<open>
  C21. A file line as \<open>DIRECTORY\<close> writes it is recognised and parsed back: name with version, size in blocks,
  date, the four sets of permissions in the four nibbles of the result, and whether it is a
  directory, provided the date can be converted.
\<close>

theorem vms_file_line_roundtrip:
  assumes "vl_ok r" and "\<And>i. is_blanks (b i)" and "clk_mktime clk (vl_tm r) \<noteq> - 1"
  shows "S_line_type_vms (vl_line b r) = L_FILE \<and> S_file_parse_vms clk (vl_line b r) lead =
           (Inr (vl_name r, vl_entry clk r, take 5 (''.'' @ vl_type r @ '';'' @ dec (vl_version r)) = ''.DIR;''), lead)"
proof -
  note tok = strtok_word [OF _ assms(2)] and tl = is_blanks_tl [OF assms(2)]
  note w = vl_words [OF assms(1)] dec_word
  have ow: "is_word (vl_owner r)" using assms(1) by (simp add: vl_ok_def)
  obtain s o' g wd where p: "vl_perms r = (s, o', g, wd)" by (cases "vl_perms r")
  have sz: "v2db_size (dec (vl_size r)) c = Inr (c\<lparr>ce_size := word_of_nat (vl_size r)\<rparr>)" for c
    using assms(1) dec_digits [of "hd (dec (vl_size r))" "vl_size r"]
    by (simp add: v2db_size_def hd_rd atoi_digits_def INT_MAX_def vl_ok_def)
  have m: "month_index 3 vms_months (vms_months ! vl_month r) 0 = vl_month r" "vl_month r < 12"
    using vms_month_words assms(1) by (simp_all add: vl_ok_def)
  have tm: "v2db_time clk (vl_date r) (vl_time r) c =
      Inr (c\<lparr>ce_date := word_of_int (clk_mktime clk (vl_tm r) + clk_offset clk)\<rparr>)" for c
    using assms(1,3) m by (simp add: v2db_time_def scan_date_vl scan_time_vl vl_ok_def vl_tm_def Let_def)
  have "strchr (vl_name r) (CHR ''.'') = Some (''.'' @ vl_type r @ '';'' @ dec (vl_version r))"
  proof -
    have "CHR ''.'' \<notin> set (vl_stem r)" using assms(1) by (auto simp: vl_ok_def)
    then show ?thesis unfolding vl_name_def by (simp add: strchr_append)
  qed
  then have ty: "S_file_type_vms (vl_name r) = Inr (take 5 (''.'' @ vl_type r @ '';'' @ dec (vl_version r)) = ''.DIR;'')"
    by (simp add: S_file_type_vms_def strncmp0_def)
  have "S_file_parse_vms clk (vl_line b r) lead =
      (Inr (vl_name r, vl_entry clk r, take 5 (''.'' @ vl_type r @ '';'' @ dec (vl_version r)) = ''.DIR;''), lead)"
    by (simp add: S_file_parse_vms_def vl_line_def tok w ow show_perms_word tl v2db_owner_def sz tm ty v2db_perm_show
        vl_show_perms_def p vl_entry_def)
  with vl_line_type [of r b, OF assms(1,2)] show ?thesis by blast
qed

definition sample_vms :: vms_listed where
  "sample_vms = \<lparr>vl_stem = ''ARIZONET'', vl_type = ''DIS'', vl_version = 10, vl_size = 2, vl_day = 8,
     vl_month = 10, vl_year = 1989, vl_hour = 17, vl_min = 5, vl_owner = ''NETINFO'',
     vl_perms = ((True, True, True, True), (True, True, True, True), (True, True, True, True), (True, False, True, False))\<rparr>"

theorem vms_file_line_roundtrip_witness:
  "S_line_type_vms ''ARIZONET.DIS;10 2 8-NOV-1989 17:05 NETINFO (RWED,RWED,RWED,RE)'' = L_FILE \<and>
   S_file_parse_vms sample_clock ''ARIZONET.DIS;10 2 8-NOV-1989 17:05 NETINFO (RWED,RWED,RWED,RE)'' 0 =
     (Inr (''ARIZONET.DIS;10'', vl_entry sample_clock sample_vms, False), 0)"
proof -
  have "vl_ok sample_vms" by code_simp
  moreover have "is_blanks '' ''" by code_simp
  moreover have "clk_mktime sample_clock (vl_tm sample_vms) \<noteq> - 1" by code_simp
  moreover have "vl_line (\<lambda>_. '' '') sample_vms = ''ARIZONET.DIS;10 2 8-NOV-1989 17:05 NETINFO (RWED,RWED,RWED,RE)''"
    "vl_name sample_vms = ''ARIZONET.DIS;10''"
    "(take 5 (''.'' @ vl_type sample_vms @ '';'' @ dec (vl_version sample_vms)) = ''.DIR;'') = False"
    by code_simp+
  ultimately show ?thesis
    using vms_file_line_roundtrip [of sample_vms "\<lambda>_. '' ''" sample_clock 0] by (simp only: simp_thms)
qed

subsection \<open>Long names\<close>

definition vms_format :: "clock \<Rightarrow> lformat" where
  "vms_format clk = \<lparr>lf_type = S_line_type_vms, lf_split = S_split_dir_vms,
     lf_parse = S_file_parse_vms clk, lf_dup = S_dup_dir_name_vms, lf_blanks = set_blanks_vms\<rparr>"

text \<open>
  C22. A file whose name has a line of its own is handled as if it had been on one line: the
  first line is kept in the buffer, the continuation is read behind it, and the joined line
  goes through the loop once more without reading.
\<close>

theorem partial_line_joined:
  assumes "drv_rep d a lead (l1 @ NL # l2 @ NL # rest)" and "line_ok l1" and "line_ok l2"
    and "lf_type fmt l1 = L_PARTIAL" and "lf_type fmt l2 = L_CONT"
    and "lf_type fmt (l1 @ '' '' @ l2) = L_FILE"
    and "lf_parse fmt (l1 @ '' '' @ l2) lead = (Inr (name, pe, is_dir), lead')"
    and "lf_dup fmt name = Inr str" and "a_frames a \<noteq> []"
  shows "\<exists>d'. drv_rep d' (a_file str name pe is_dir a) lead' rest \<and>
           main_loop (Suc (Suc (Suc fuel))) fmt op d = main_loop fuel fmt op d'"
proof -
  have d: "parser_rep (dv_p d) a" "ps_lead (dv_p d) = lead" "\<not> dv_done d" "dv_off d = 0" "\<not> dv_skip d"
      "dv_error d = 0" using assms(1) by (simp_all add: drv_rep_def)
  define d1 where "d1 = d\<lparr>dv_buf := l1 @ '' '', dv_in := l2 @ NL # rest, dv_state := L_PARTIAL,
      dv_orig := l1, dv_off := length l1 + 1\<rparr>"
  have s1: "line_step fmt op d = (Next, d1)"
    using get_line_ok [OF assms(1,2)] d assms(2,4)
    by (simp add: line_step_def partial_line_def d1_def Let_def line_ok_def LINE_BUF_def MAX_LINE_LEN_def)
  have k: "min (MAX_LINE_LEN - 1) (Suc (length l2)) = Suc (length l2)"
    using assms(3) by (simp add: line_ok_def MAX_LINE_LEN_def)
  have fg: "fgets MAX_LINE_LEN (l2 @ NL # rest) = Some (l2 @ [NL], rest)"
    using assms(3) k by (simp add: fgets_def takeWhile_nl line_ok_def Let_def)
  have nk: "nuke_nl (l2 @ [NL]) = l2" using assms(3) by (simp add: nuke_nl_def takeWhile_nl line_ok_def)
  define d2 where "d2 = d1\<lparr>dv_buf := l1 @ '' '' @ l2, dv_in := rest, dv_state := L_CONT,
      dv_orig := l1 @ '' '' @ l2, dv_skip := True, dv_off := 0\<rparr>"
  have g2: "get_line d1 = Inr (True, d1\<lparr>dv_buf := l1 @ '' '' @ l2, dv_in := rest\<rparr>)"
    using assms(2,3) d fg nk by (simp add: get_line_def d1_def line_ok_def LINE_BUF_def MAX_LINE_LEN_def)
  have s2: "line_step fmt op d1 = (Next, d2)"
    using g2 assms(5) by (simp add: line_step_def d2_def Let_def) (simp add: d1_def)
  obtain p where p: "handle_file fmt (l1 @ '' '' @ l2) (dv_p d) = (Inr (), p)"
      "parser_rep p (a_file str name pe is_dir a)" "ps_lead p = lead'"
    using handle_file_rep [OF d(1) assms(9)] assms(7,8) d(2) by blast
  define d3 where "d3 = d2\<lparr>dv_skip := False, dv_state := L_FILE, dv_files := Suc (dv_files d2), dv_p := p\<rparr>"
  have s3: "line_step fmt op d2 = (Next, d3)"
    using assms(6) p(1) by (simp add: line_step_def get_line_def d3_def d2_def d1_def Let_def file_line_def)
  have "\<not> dv_done d1" "\<not> dv_done d2" using d by (simp_all add: d1_def d2_def)
  then have "main_loop (Suc (Suc (Suc fuel))) fmt op d = main_loop fuel fmt op d3"
    using s1 s2 s3 d(3) by simp
  moreover have "drv_rep d3 (a_file str name pe is_dir a) lead' rest"
    using p d by (simp add: drv_rep_def d3_def d2_def d1_def)
  ultimately show ?thesis by blast
qed

theorem partial_line_joined_witness:
  "\<exists>d'. drv_rep d' (a_file ''A'' ''A.DIR;1'' (pent zero_peh) True root_astate) (- 1) [] \<and>
     main_loop 4 (vms_format sample_clock\<lparr>lf_parse := \<lambda>l lead. (Inr (''A.DIR;1'', pent zero_peh, True), lead)\<rparr>)
       \<lparr>op_files = True, op_prep = None, op_root = Some ''D:[X]''\<rparr>
       ((start \<lparr>op_files = True, op_prep = None, op_root = Some ''D:[X]''\<rparr>)
          \<lparr>dv_p := root_state, dv_in := ''A.DIR;1'' @ NL # '' 1 1-JAN-1990 00:00 X (R,,,)'' @ NL # []\<rparr>) =
     main_loop 1 (vms_format sample_clock\<lparr>lf_parse := \<lambda>l lead. (Inr (''A.DIR;1'', pent zero_peh, True), lead)\<rparr>)
       \<lparr>op_files = True, op_prep = None, op_root = Some ''D:[X]''\<rparr> d'"
proof -
  let ?fmt = "vms_format sample_clock\<lparr>lf_parse := \<lambda>l lead. (Inr (''A.DIR;1'', pent zero_peh, True), lead)\<rparr>"
  let ?d = "(start \<lparr>op_files = True, op_prep = None, op_root = Some ''D:[X]''\<rparr>)
          \<lparr>dv_p := root_state, dv_in := ''A.DIR;1'' @ NL # '' 1 1-JAN-1990 00:00 X (R,,,)'' @ NL # []\<rparr>"
  have ty: "lf_type ?fmt ''A.DIR;1'' = L_PARTIAL" "lf_type ?fmt '' 1 1-JAN-1990 00:00 X (R,,,)'' = L_CONT"
    "lf_type ?fmt (''A.DIR;1'' @ '' '' @ '' 1 1-JAN-1990 00:00 X (R,,,)'') = L_FILE"
    "lf_dup ?fmt ''A.DIR;1'' = Inr ''A''"
    "line_ok ''A.DIR;1''" "line_ok '' 1 1-JAN-1990 00:00 X (R,,,)''" by code_simp+
  have "drv_rep ?d root_astate (- 1) (''A.DIR;1'' @ NL # '' 1 1-JAN-1990 00:00 X (R,,,)'' @ NL # [])"
    using root_state_rep by (simp add: drv_rep_def start_def root_state_def push_def)
  from partial_line_joined [OF this ty(5,6,1,2,3) _ ty(4), of "pent zero_peh" True "- 1" 1] show ?thesis
    by (simp add: root_astate_def vms_format_def numeral_eq_Suc del: main_loop.simps)
qed

end
